(* ===== verification/Xlab_Prelude.thy ===== *)
theory Xlab_Prelude
  imports Main "HOL-Library.Word" "HOL-Library.Monad_Syntax" "HOL-Library.Multiset"
begin

text \<open>
  Shared vocabulary of the development: the fixed-width integer types, bounds-checked access to
  vectors (\<^const>\<open>None\<close> stands for the undefined behaviour of an out-of-range access), powers of
  two as table capacities with the masking identities the tables use for their bucket indices, and
  the generic facts on lists, sums and words that several components need.
\<close>

unbundle bit_operations_syntax

type_synonym u64 = "64 word"
type_synonym u32 = "32 word"
type_synonym u16 = "16 word"
type_synonym u8 = "8 word"

definition vec_at :: "'a list \<Rightarrow> nat \<Rightarrow> 'a option" where
  "vec_at xs i = (if i < length xs then Some (xs ! i) else None)"

definition vec_set :: "'a list \<Rightarrow> nat \<Rightarrow> 'a \<Rightarrow> 'a list option" where
  "vec_set xs i x = (if i < length xs then Some (xs[i := x]) else None)"

lemma vec_at_in [simp]: "i < length xs \<Longrightarrow> vec_at xs i = Some (xs ! i)"
  by (simp add: vec_at_def)

lemma vec_at_Some_iff: "vec_at xs i = Some x \<longleftrightarrow> i < length xs \<and> xs ! i = x"
  by (simp add: vec_at_def)

lemma vec_set_in [simp]: "i < length xs \<Longrightarrow> vec_set xs i x = Some (xs[i := x])"
  by (simp add: vec_set_def)

text \<open>Access with a signed index, which is undefined when the index is negative.\<close>

definition at_index :: "'a list \<Rightarrow> int \<Rightarrow> 'a option" where
  "at_index xs i = (if 0 \<le> i then vec_at xs (nat i) else None)"

definition set_index :: "'a list \<Rightarrow> int \<Rightarrow> 'a \<Rightarrow> 'a list option" where
  "set_index xs i x = (if 0 \<le> i then vec_set xs (nat i) x else None)"

lemma index_nat: "at_index xs (int i) = vec_at xs i" "set_index xs (int i) x = vec_set xs i x"
  by (simp_all add: at_index_def set_index_def)

text \<open>What a list of parts holds, when one part changes.\<close>

lemma sum_list_update_mset: "i < length xs \<Longrightarrow> sum_list (map f (xs[i := y])) + f (xs ! i) = sum_list (map f xs) + (f y :: 'b multiset)"
  by (induction xs arbitrary: i) (auto split: nat.splits simp: nth_Cons ac_simps)

text \<open>A counted loop whose body may fail.\<close>

primrec for_each :: "('i \<Rightarrow> 's \<Rightarrow> 's option) \<Rightarrow> 'i list \<Rightarrow> 's \<Rightarrow> 's option" where
  "for_each body [] s = Some s"
| "for_each body (i # is) s = do { s \<leftarrow> body i s; for_each body is s }"

lemma for_each_append [simp]:
  "for_each body (is @ js) s = do { s \<leftarrow> for_each body is s; for_each body js s }"
  by (induction "is" arbitrary: s) (auto split: Option.bind_splits)

lemma for_each_cong:
  "(\<And>i s. i \<in> set is \<Longrightarrow> f i s = g i s) \<Longrightarrow> for_each f is s = for_each g is s"
  by (induction "is" arbitrary: s) (auto split: Option.bind_splits)

text \<open>The invariant rule of a counted loop: it also shows that the loop ends without a failure.\<close>

lemma for_each_upt_inv:
  assumes "a \<le> n" "I a s" "\<And>i s. a \<le> i \<Longrightarrow> i < n \<Longrightarrow> I i s \<Longrightarrow> \<exists>s'. body i s = Some s' \<and> I (Suc i) s'"
  shows "\<exists>s'. for_each body [a..<n] s = Some s' \<and> I n s'"
  using assms
proof (induction n)
  case (Suc n)
  show ?case
  proof (cases "a \<le> n")
    case True
    then obtain s1 where "for_each body [a..<n] s = Some s1" "I n s1" using Suc by fastforce
    then show ?thesis using True Suc.prems(3)[of n s1] by auto
  next
    case False
    then have "a = Suc n" using Suc.prems(1) by simp
    then show ?thesis using Suc.prems(2) by simp
  qed
qed simp

text \<open>Applying a fallible operation to every element.\<close>

primrec map_opt :: "('a \<Rightarrow> 'b option) \<Rightarrow> 'a list \<Rightarrow> 'b list option" where
  "map_opt f [] = Some []"
| "map_opt f (x # xs) = do { y \<leftarrow> f x; ys \<leftarrow> map_opt f xs; Some (y # ys) }"

lemma map_opt_Some: "(\<And>x. x \<in> set xs \<Longrightarrow> f x = Some (g x)) \<Longrightarrow> map_opt f xs = Some (map g xs)"
  by (induction xs) auto

definition SIZE_MAX :: nat where
  "SIZE_MAX = 2 ^ 64 - 1"

lemma sum_list_map_update:
  fixes f :: "'a \<Rightarrow> 'b::comm_monoid_add"
  shows "i < length xs \<Longrightarrow> sum_list (map f (xs[i := x])) + f (xs ! i) = sum_list (map f xs) + f x"
  by (induction xs arbitrary: i) (auto simp: algebra_simps split: nat.splits)

lemma sum_list_replicate_empty [simp]: "sum_list (replicate n {#}) = {#}"
  by (induction n) auto

lemma sum_filter_partition:
  fixes g :: "'a \<Rightarrow> nat"
  assumes "\<And>k. g k < c"
  shows "(\<Sum>b<c. length (filter (\<lambda>k. g k = b) ks)) = length ks"
proof (induction ks)
  case (Cons k ks)
  have "(\<Sum>b<c. length (filter (\<lambda>k. g k = b) (k # ks))) =
      (\<Sum>b<c. (if g k = b then 1 else 0) + length (filter (\<lambda>k. g k = b) ks))"
    by (intro sum.cong) auto
  also have "\<dots> = Suc (length ks)" unfolding sum.distrib Cons.IH using assms[of k] by simp
  finally show ?case by simp
qed simp

lemma pair_subset_add_mset:
  "{#a, b#} \<subseteq># add_mset e M \<longleftrightarrow> {#a, b#} \<subseteq># M \<or> a = e \<and> b \<in># M \<or> b = e \<and> a \<in># M"
proof (cases "a = e")
  case True
  then show ?thesis by (auto simp: insert_subset_eq_iff dest: in_diffD)
next
  case False
  then show ?thesis by (auto simp: insert_subset_eq_iff dest: in_diffD)
qed

definition pow2 :: "nat \<Rightarrow> bool" where
  "pow2 c \<longleftrightarrow> (\<exists>k<64. c = 2 ^ k)"

lemma pow2_less: "pow2 c \<Longrightarrow> c < 2 ^ 64"
  unfolding pow2_def using power_strict_increasing[of _ 64 "2::nat"] by fastforce

lemma pow2_pos: "pow2 c \<Longrightarrow> 0 < c"
  by (auto simp: pow2_def)

lemma pow2_double: "pow2 c \<Longrightarrow> c < 2 ^ 63 \<Longrightarrow> pow2 (2 * c)"
proof -
  assume "pow2 c" and less: "c < 2 ^ 63"
  then obtain k where k: "c = 2 ^ k" by (auto simp: pow2_def)
  then have "k < 63" using less power_less_imp_less_exp[of "2::nat" k 63] by simp
  then show ?thesis unfolding pow2_def k by (intro exI[of _ "Suc k"]) simp
qed

lemma and_pow2_pred: "n AND (2 ^ k - 1 :: nat) = n mod 2 ^ k"
proof -
  have "2 ^ k - 1 = (mask k :: nat)" by (simp add: mask_eq_exp_minus_1)
  then show ?thesis by (simp only: flip: take_bit_eq_mask) (simp add: take_bit_eq_mod)
qed

lemma mod_add_inj:
  fixes h i j c :: nat
  assumes "(h + i) mod c = (h + j) mod c" "i < c" "j < c"
  shows "i = j"
proof -
  have aux: "i = j" if "i \<le> j" "(h + i) mod c = (h + j) mod c" "j < c" for i j
  proof -
    have "c dvd (h + j) - (h + i)" using that mod_eq_dvd_iff_nat[of "h + i" "h + j" c] by simp
    then have "c dvd j - i" by simp
    then show ?thesis using that by (auto dest!: dvd_imp_le)
  qed
  show ?thesis using assms aux[of i j] aux[of j i] by (cases "i \<le> j") auto
qed

lemma pow2_and [simp]: "pow2 c \<Longrightarrow> n AND (c - Suc 0) = n mod c"
  unfolding pow2_def using and_pow2_pred by auto

lemma word_index_pow2:
  fixes h :: u64
  assumes "k < 64"
  shows "unat (h AND (of_nat (2 ^ k) - 1)) = unat h mod 2 ^ k"
proof -
  have "h AND (of_nat (2 ^ k) - 1) = take_bit k h"
    by (simp add: take_bit_eq_mask mask_eq_exp_minus_1)
  then show ?thesis
    by (simp only: unsigned_take_bit_eq) (simp add: take_bit_eq_mod)
qed

definition next_power_of_two :: "u64 \<Rightarrow> u64" where
  "next_power_of_two n =
     (if n = 0 then 1
      else let n = n - 1;
               n = n OR drop_bit 1 n;
               n = n OR drop_bit 2 n;
               n = n OR drop_bit 4 n;
               n = n OR drop_bit 8 n;
               n = n OR drop_bit 16 n;
               n = n OR drop_bit 32 n
           in n + 1)"

definition smeared :: "nat \<Rightarrow> u64 \<Rightarrow> u64 \<Rightarrow> bool" where
  "smeared s x y \<longleftrightarrow> (\<forall>i. bit y i \<longleftrightarrow> (\<exists>d < s. bit x (i + d)))"

lemma smeared_start: "smeared 1 x x"
  by (simp add: smeared_def)

lemma ex_less_double:
  "(\<exists>d < s + s. P d) \<longleftrightarrow> (\<exists>d < s. P d) \<or> (\<exists>d < s. P (s + d))" for P :: "nat \<Rightarrow> bool"
proof
  assume "\<exists>d < s + s. P d"
  then obtain d where d: "d < s + s" "P d" by blast
  show "(\<exists>d < s. P d) \<or> (\<exists>d < s. P (s + d))"
  proof (cases "d < s")
    case False
    then have "d - s < s \<and> P (s + (d - s))" using d by simp
    then show ?thesis by blast
  qed (use d in blast)
qed (use trans_less_add1 nat_add_left_cancel_less in blast)

lemma smeared_step:
  assumes "smeared s x y" and "t = s + s"
  shows "smeared t x (y OR drop_bit s y)"
  using assms
  by (auto simp: smeared_def bit_or_iff bit_drop_bit_eq ex_less_double add.assoc add.left_commute)

lemma smeared_all:
  assumes "smeared 64 x y" and "x \<noteq> 0"
  obtains k where "k \<le> 64" "0 < k" "y = mask k" "bit x (k - 1)" "\<And>j. k \<le> j \<Longrightarrow> \<not> bit x j"
proof -
  have ex: "\<exists>i. bit x i" using assms(2) by (auto intro: bit_eqI)
  have bnd: "bit x i \<Longrightarrow> i < 64" for i using bit_imp_le_length[of x i] by simp
  define m where "m = Max {i. bit x i}"
  have fin: "finite {i. bit x i}" by (rule finite_subset[of _ "{..<64}"]) (use bnd in auto)
  have m: "bit x m" using Max_in[OF fin] ex unfolding m_def by auto
  have mx: "bit x j \<Longrightarrow> j \<le> m" for j unfolding m_def using fin by auto
  have "y = mask (Suc m)"
  proof (rule bit_eqI)
    fix i
    have "bit y i \<longleftrightarrow> (\<exists>d < 64. bit x (i + d))" using assms(1) by (simp add: smeared_def)
    also have "\<dots> \<longleftrightarrow> i < Suc m"
    proof
      assume "i < Suc m"
      then have "m - i < 64 \<and> bit x (i + (m - i))" using m bnd[OF m] by simp
      then show "\<exists>d < 64. bit x (i + d)" by blast
    qed (use mx in force)
    finally show "bit y i = bit (mask (Suc m) :: u64) i"
      using bnd[OF m] by (auto simp: bit_mask_iff)
  qed
  then show ?thesis
    using m mx bnd[OF m] by (intro that[of "Suc m"]) (auto simp: Suc_le_eq dest: mx)
qed

lemma next_power_of_two_eq:
  assumes "n \<noteq> 0" "n \<noteq> 1"
  obtains k where "0 < k" "k \<le> 64" "next_power_of_two n = mask k + 1" "bit (n - 1) (k - 1)"
    "\<And>j. k \<le> j \<Longrightarrow> \<not> bit (n - 1) j"
proof -
  define m where "m = n - 1"
  define a where "a = m OR drop_bit 1 m"
  define b where "b = a OR drop_bit 2 a"
  define c where "c = b OR drop_bit 4 b"
  define d where "d = c OR drop_bit 8 c"
  define e where "e = d OR drop_bit 16 d"
  define y where "y = e OR drop_bit 32 e"
  have "smeared 2 m a" unfolding a_def by (rule smeared_step[OF smeared_start]) simp
  then have "smeared 4 m b" unfolding b_def by (rule smeared_step) simp
  then have "smeared 8 m c" unfolding c_def by (rule smeared_step) simp
  then have "smeared 16 m d" unfolding d_def by (rule smeared_step) simp
  then have "smeared 32 m e" unfolding e_def by (rule smeared_step) simp
  then have "smeared 64 m y" unfolding y_def by (rule smeared_step) simp
  moreover have "m \<noteq> 0" using assms by (simp add: m_def)
  ultimately obtain k where k: "k \<le> 64" "0 < k" "y = mask k" "bit m (k - 1)" "\<And>j. k \<le> j \<Longrightarrow> \<not> bit m j"
    using smeared_all by blast
  have "next_power_of_two n = y + 1"
    using assms(1) unfolding next_power_of_two_def y_def e_def d_def c_def b_def a_def m_def Let_def by simp
  then show ?thesis using that k by (simp add: m_def)
qed

lemma unat_less_pow2_bits:
  fixes x :: u64
  assumes "\<And>j. k \<le> j \<Longrightarrow> \<not> bit x j"
  shows "unat x < 2 ^ k"
proof -
  have "take_bit k x = x"
    by (rule bit_eqI) (use assms not_le in \<open>auto simp: bit_take_bit_iff\<close>)
  then have "take_bit k (unat x) = unat x"
    by (metis unsigned_take_bit_eq)
  then show ?thesis by (metis take_bit_nat_less_exp)
qed

lemma unat_ge_pow2_bit:
  fixes x :: u64
  assumes "bit x k"
  shows "2 ^ k \<le> unat x"
proof (rule ccontr)
  assume "\<not> 2 ^ k \<le> unat x"
  then have "take_bit k (unat x) = unat x" by (simp add: take_bit_nat_eq_self)
  then have "\<not> bit (unat x) k" by (metis bit_take_bit_iff less_irrefl)
  then show False using assms by (simp add: bit_unsigned_iff bit_imp_le_length)
qed

lemma unat_pow2_u64: "k < 64 \<Longrightarrow> unat (of_nat (2 ^ k) :: u64) = 2 ^ k"
  by (simp only: unsigned_of_nat take_bit_nat_eq_self power_strict_increasing_iff) simp

lemma next_power_of_two_spec:
  assumes "0 < n" and "n \<le> 2 ^ 63"
  obtains k where "k < 64" "unat (next_power_of_two n) = 2 ^ k" "unat n \<le> 2 ^ k" "2 ^ k < 2 * unat n"
proof (cases "n = 1")
  case True
  then have "unat (next_power_of_two n) = 2 ^ 0" by (simp add: next_power_of_two_def Let_def)
  then show ?thesis using True that[of 0] by simp
next
  case False
  have un: "unat (n - 1) = unat n - 1" "0 < unat n" using assms(1)
    by (auto simp: unat_minus_one word_neq_0_conv unat_gt_0)
  have n63: "unat n \<le> 2 ^ 63" using assms(2) by (simp add: word_le_nat_alt)
  from False assms(1) obtain k where k: "0 < k" "k \<le> 64" "next_power_of_two n = mask k + 1"
    "bit (n - 1) (k - 1)" "\<And>j. k \<le> j \<Longrightarrow> \<not> bit (n - 1) j"
    by (elim next_power_of_two_eq[rotated -1]) auto
  have up: "unat (n - 1) < 2 ^ k" by (rule unat_less_pow2_bits) (use k in auto)
  have lo: "2 ^ (k - 1) \<le> unat (n - 1)" by (rule unat_ge_pow2_bit) (use k in auto)
  have pk: "(2::nat) ^ k = 2 * 2 ^ (k - 1)" using k(1) by (cases k) auto
  have "(2::nat) ^ (k - 1) < 2 ^ 63" using lo un n63 by linarith
  then have "k - 1 < 63" by (rule power_less_imp_less_exp[rotated]) simp
  then have k63: "k < 64" using k(1) by simp
  then have "next_power_of_two n = of_nat (2 ^ k)"
    using k(3) by (simp add: mask_eq_exp_minus_1)
  then have "unat (next_power_of_two n) = 2 ^ k"
    using k63 by (simp only: unat_pow2_u64)
  then show ?thesis using that[OF k63] up lo un pk by simp
qed

text \<open>Numbers in decimal, as \<^verbatim>\<open>std::to_string\<close> and the output operator print them, and \<^verbatim>\<open>std::stoi\<close>, which reads a prefix.\<close>

fun digits :: "nat \<Rightarrow> string" where
  "digits n = (if n < 10 then [char_of (48 + n)] else digits (n div 10) @ [char_of (48 + n mod 10)])"

declare digits.simps [simp del]

definition to_string :: "int \<Rightarrow> string" where
  "to_string i = (if i < 0 then ''-'' @ digits (nat (- i)) else digits (nat i))"

definition is_digit :: "char \<Rightarrow> bool" where
  "is_digit c \<longleftrightarrow> 48 \<le> (of_char c :: nat) \<and> (of_char c :: nat) \<le> 57"

definition is_space :: "char \<Rightarrow> bool" where
  "is_space c \<longleftrightarrow> (of_char c :: nat) = 32 \<or> 9 \<le> (of_char c :: nat) \<and> (of_char c :: nat) \<le> 13"

definition digits_value :: "string \<Rightarrow> nat" where
  "digits_value ds = foldl (\<lambda>n c. 10 * n + (of_char c - 48)) 0 ds"

datatype stoi_error = Invalid_argument | Out_of_range

definition stoi :: "string \<Rightarrow> stoi_error + int" where
  "stoi str =
     (let str = dropWhile is_space str;
          (negative, str) = (case str of [] \<Rightarrow> (False, []) | c # cs \<Rightarrow>
            if c = CHR ''-'' then (True, cs) else if c = CHR ''+'' then (False, cs) else (False, c # cs));
          ds = takeWhile is_digit str;
          value = (if negative then - int (digits_value ds) else int (digits_value ds))
      in if ds = [] then Inl Invalid_argument
         else if - (2 ^ 31) \<le> value \<and> value < 2 ^ 31 then Inr value else Inl Out_of_range)"

lemma digits_props: "digits n \<noteq> []" "c \<in> set (digits n) \<Longrightarrow> is_digit c" "digits_value (digits n) = n"
proof -
  have "digits n \<noteq> [] \<and> (\<forall>c \<in> set (digits n). is_digit c) \<and> digits_value (digits n) = n"
  proof (induction n rule: digits.induct)
    case (1 n)
    have digit: "is_digit (char_of (48 + m :: nat)) \<and> (of_char (char_of (48 + m :: nat)) :: nat) = 48 + m" if "m < 10" for m
      using that by (simp add: is_digit_def)
    show ?case
    proof (cases "n < 10")
      case True
      then show ?thesis using digit[of n] by (simp add: digits.simps[of n] digits_value_def)
    next
      case False
      then show ?thesis using 1 digit[of "n mod 10"] by (simp add: digits.simps[of n] digits_value_def)
    qed
  qed
  then show "digits n \<noteq> []" "c \<in> set (digits n) \<Longrightarrow> is_digit c" "digits_value (digits n) = n" by simp_all
qed

lemma stoi_to_string:
  assumes "- (2 ^ 31) \<le> i" "i < 2 ^ 31"
  shows "stoi (to_string i) = Inr i"
proof -
  have digit: "is_digit c \<Longrightarrow> \<not> is_space c \<and> c \<noteq> CHR ''-'' \<and> c \<noteq> CHR ''+''" for c by (auto simp: is_digit_def is_space_def)
  have ds: "takeWhile is_digit (digits n) = digits n" for n using digits_props(2) by (simp add: takeWhile_eq_all_conv)
  show ?thesis
  proof (cases "i < 0")
    case True
    have "\<not> is_space (CHR ''-'')" by (simp add: is_space_def)
    then show ?thesis using True assms digits_props(1) by (simp add: stoi_def to_string_def Let_def ds digits_props(3))
  next
    case False
    obtain c cs where c: "digits (nat i) = c # cs" using digits_props(1) by (cases "digits (nat i)") auto
    then have c': "is_digit c" "takeWhile is_digit cs = cs" using digits_props(2)[of _ "nat i"] ds[of "nat i"] by simp_all
    then show ?thesis using False assms digit[OF c'(1)] digits_props(3)[of "nat i"]
      unfolding stoi_def to_string_def c by (simp add: Let_def c'(2))
  qed
qed

lemma to_string_chars: "c \<in> set (to_string i) \<Longrightarrow> is_digit c \<or> c = CHR ''-''" "to_string i \<noteq> []"
  using digits_props(1,2) by (auto simp: to_string_def split: if_splits)

end
