(* ===== verification/Ws_Deque.thy ===== *)
theory Ws_Deque
  imports Xlab_Prelude
begin

text \<open>
  The synchronized work-stealing deque of \<^verbatim>\<open>src/cc/projects/thread-pool\<close>
  (\<^verbatim>\<open>include/wstp/ws_deque.h\<close>, \<^verbatim>\<open>src/ws_deque.cc\<close>): a ring buffer whose capacity
  is a power of two and doubles when it is full.  Every public operation runs under the
  deque's own mutex, so each is one atomic function on the record of the fields.  A
  \<^verbatim>\<open>Task\<close> is a \<^verbatim>\<open>std::function\<close>, which may be empty: \<^const>\<open>None\<close> is the empty function
  object and also the moved-from content of a slot.

  The theory shows that the ring refines a list (push at the end, pop at the end, steal at the
  front), including across growth, states the contract its clients rely on as the locale
  \<open>task_deque\<close>, and interprets it on the ring.
\<close>

section \<open>State and operations\<close>

datatype ws_error = InvalidArgument | LengthError

record 'a ws_deque =
  wsd_capacity :: nat
  wsd_head :: nat
  wsd_size :: nat
  wsd_buffer :: "'a option list"

definition WSDeque :: "nat \<Rightarrow> ws_error + 'a ws_deque" where
  "WSDeque capacity =
     (if capacity = 0 \<or> (capacity AND (capacity - 1)) \<noteq> 0 then Inl InvalidArgument
      else Inr \<lparr>wsd_capacity = capacity, wsd_head = 0, wsd_size = 0,
                wsd_buffer = replicate capacity None\<rparr>)"

definition wsd_slot :: "'a ws_deque \<Rightarrow> nat \<Rightarrow> nat" where
  "wsd_slot q i = (wsd_head q + i) AND (wsd_capacity q - 1)"

definition wsd_grow :: "'a ws_deque \<Rightarrow> 'a ws_deque" where
  "wsd_grow q =
     (let grown = foldl (\<lambda>g i. g[i := wsd_buffer q ! wsd_slot q i])
                    (replicate (wsd_capacity q * 2) None) [0..<wsd_size q]
      in q\<lparr>wsd_buffer := grown, wsd_capacity := wsd_capacity q * 2, wsd_head := 0\<rparr>)"

definition wsd_put :: "'a ws_deque \<Rightarrow> 'a option \<Rightarrow> 'a ws_deque" where
  "wsd_put q task = q\<lparr>wsd_buffer := (wsd_buffer q)[wsd_slot q (wsd_size q) := task],
                      wsd_size := wsd_size q + 1\<rparr>"

definition PushBottom :: "'a ws_deque \<Rightarrow> 'a option \<Rightarrow> ws_error + 'a ws_deque" where
  "PushBottom q task =
     (if wsd_size q = wsd_capacity q
      then if wsd_capacity q > SIZE_MAX div 2 then Inl LengthError
           else Inr (wsd_put (wsd_grow q) task)
      else Inr (wsd_put q task))"

definition PopBottom :: "'a ws_deque \<Rightarrow> 'a option \<times> 'a ws_deque" where
  "PopBottom q =
     (if wsd_size q = 0 then (None, q)
      else let q = q\<lparr>wsd_size := wsd_size q - 1\<rparr>; i = wsd_slot q (wsd_size q)
           in (wsd_buffer q ! i, q\<lparr>wsd_buffer := (wsd_buffer q)[i := None]\<rparr>))"

definition StealTop :: "'a ws_deque \<Rightarrow> 'a option \<times> 'a ws_deque" where
  "StealTop q =
     (if wsd_size q = 0 then (None, q)
      else (wsd_buffer q ! wsd_head q,
            q\<lparr>wsd_buffer := (wsd_buffer q)[wsd_head q := None],
              wsd_head := (wsd_head q + 1) AND (wsd_capacity q - 1),
              wsd_size := wsd_size q - 1\<rparr>))"

definition wsd_Empty :: "'a ws_deque \<Rightarrow> bool" where
  "wsd_Empty q \<longleftrightarrow> wsd_size q = 0"

definition wsd_Size :: "'a ws_deque \<Rightarrow> nat" where
  "wsd_Size q = wsd_size q"

definition wsd_Capacity :: "'a ws_deque \<Rightarrow> nat" where
  "wsd_Capacity q = wsd_capacity q"

section \<open>Representation invariant and abstraction\<close>

definition wsd_inv :: "'a ws_deque \<Rightarrow> bool" where
  "wsd_inv q \<longleftrightarrow> pow2 (wsd_capacity q) \<and> length (wsd_buffer q) = wsd_capacity q \<and>
     wsd_head q < wsd_capacity q \<and> wsd_size q \<le> wsd_capacity q"

definition wsd_list :: "'a ws_deque \<Rightarrow> 'a option list" where
  "wsd_list q = map (\<lambda>i. wsd_buffer q ! wsd_slot q i) [0..<wsd_size q]"

lemma wsd_slot_mod: "wsd_inv q \<Longrightarrow> wsd_slot q i = (wsd_head q + i) mod wsd_capacity q"
  by (simp add: wsd_inv_def wsd_slot_def pow2_and)

lemma wsd_slot_less: "wsd_inv q \<Longrightarrow> wsd_slot q i < length (wsd_buffer q)"
  by (simp add: wsd_slot_mod) (simp add: wsd_inv_def pow2_def)

lemma wsd_slot_inj:
  assumes "wsd_inv q" "wsd_slot q i = wsd_slot q j" "i < wsd_capacity q" "j < wsd_capacity q"
  shows "i = j"
  using assms by (simp add: wsd_slot_mod) (rule mod_add_inj)

lemma length_wsd_list [simp]: "length (wsd_list q) = wsd_size q"
  by (simp add: wsd_list_def)

lemma foldl_fill:
  "n \<le> length g \<Longrightarrow> foldl (\<lambda>g i. g[i := f i]) g [0..<n] = map f [0..<n] @ drop n g"
proof (induction n)
  case (Suc n)
  then have "foldl (\<lambda>g i. g[i := f i]) g [0..<Suc n] = (map f [0..<n] @ drop n g)[n := f n]"
    by simp
  also have "\<dots> = map f [0..<Suc n] @ drop (Suc n) g"
    using Suc.prems by (simp add: list_update_append Cons_nth_drop_Suc[symmetric])
  finally show ?case .
qed simp

lemma wsd_grow_inv:
  assumes "wsd_inv q" "wsd_size q = wsd_capacity q" "\<not> wsd_capacity q > SIZE_MAX div 2"
  shows "wsd_inv (wsd_grow q)" "wsd_size (wsd_grow q) < wsd_capacity (wsd_grow q)"
    and "wsd_list (wsd_grow q) = wsd_list q"
proof -
  from assms(1) obtain k where k: "k < 64" "wsd_capacity q = 2 ^ k"
    by (auto simp: wsd_inv_def pow2_def)
  have "(2::nat) ^ k < 2 ^ 63" using assms(3) k by (simp add: SIZE_MAX_def)
  then have "k < 63" by (rule power_less_imp_less_exp[rotated]) simp
  then have p: "pow2 (wsd_capacity q * 2)"
    unfolding pow2_def k by (intro exI[of _ "Suc k"]) simp
  have buf: "wsd_buffer (wsd_grow q) = wsd_list q @ replicate (wsd_capacity q) None"
    using assms(2) unfolding wsd_grow_def Let_def wsd_list_def
    by (subst foldl_fill) auto
  show inv: "wsd_inv (wsd_grow q)"
    using assms p k unfolding wsd_inv_def buf by (simp add: wsd_grow_def)
  show "wsd_size (wsd_grow q) < wsd_capacity (wsd_grow q)"
    using assms(2) k by (simp add: wsd_grow_def)
  have "wsd_slot (wsd_grow q) i = i" if "i < wsd_size q" for i
    using that assms(2) by (simp add: wsd_slot_mod[OF inv]) (simp add: wsd_grow_def)
  then show "wsd_list (wsd_grow q) = wsd_list q"
    unfolding wsd_list_def[of "wsd_grow q"] buf
    by (auto intro!: nth_equalityI simp: nth_append) (simp_all add: wsd_grow_def)
qed

lemma wsd_put_inv:
  assumes "wsd_inv q" "wsd_size q < wsd_capacity q"
  shows "wsd_inv (wsd_put q t)" and "wsd_list (wsd_put q t) = wsd_list q @ [t]"
proof -
  show "wsd_inv (wsd_put q t)"
    using assms by (simp add: wsd_inv_def wsd_put_def)
  have slot: "wsd_slot (wsd_put q t) i = wsd_slot q i" for i
    by (simp add: wsd_slot_def wsd_put_def)
  have "wsd_slot q (wsd_size q) \<noteq> wsd_slot q i" if "i < wsd_size q" for i
    using that assms wsd_slot_inj[OF assms(1), of i "wsd_size q"] by auto
  then show "wsd_list (wsd_put q t) = wsd_list q @ [t]"
    using wsd_slot_less[OF assms(1)] unfolding wsd_list_def slot
    by (simp add: wsd_put_def)
qed

lemma PushBottom_ok:
  assumes "wsd_inv q" "PushBottom q t = Inr q'"
  shows "wsd_inv q' \<and> wsd_list q' = wsd_list q @ [t]"
  using assms wsd_put_inv[of q] wsd_put_inv[of "wsd_grow q"] wsd_grow_inv[of q]
  by (auto simp: PushBottom_def wsd_inv_def split: if_splits)

lemma PushBottom_total:
  assumes "wsd_inv q" "wsd_size q < 2 ^ 63"
  shows "\<exists>q'. PushBottom q t = Inr q'"
  using assms by (auto simp: PushBottom_def SIZE_MAX_def)

lemma PopBottom_empty: "wsd_list q = [] \<Longrightarrow> PopBottom q = (None, q)"
  by (simp add: wsd_list_def PopBottom_def)

lemma PopBottom_snoc:
  assumes "wsd_inv q" "wsd_list q = ts @ [t]"
  shows "fst (PopBottom q) = t" "wsd_inv (snd (PopBottom q))" "wsd_list (snd (PopBottom q)) = ts"
proof -
  obtain n where n: "wsd_size q = Suc n" using assms(2) by (cases "wsd_size q") (auto simp: wsd_list_def)
  let ?i = "wsd_slot q n"
  have pop: "PopBottom q = (wsd_buffer q ! ?i, q\<lparr>wsd_size := n, wsd_buffer := (wsd_buffer q)[?i := None]\<rparr>)"
    using n by (simp add: PopBottom_def Let_def wsd_slot_def)
  have lst: "ts = map (\<lambda>i. wsd_buffer q ! wsd_slot q i) [0..<n]" "t = wsd_buffer q ! ?i"
    using assms(2) n by (auto simp: wsd_list_def)
  show "fst (PopBottom q) = t" by (simp add: pop lst)
  show "wsd_inv (snd (PopBottom q))" using assms(1) n by (simp add: pop wsd_inv_def)
  have "?i \<noteq> wsd_slot q i" if "i < n" for i
    using that n assms(1) wsd_slot_inj[OF assms(1), of i n] by (auto simp: wsd_inv_def)
  moreover have "wsd_slot (q\<lparr>wsd_size := n, wsd_buffer := b\<rparr>) i = wsd_slot q i" for b i
    by (simp add: wsd_slot_def)
  ultimately show "wsd_list (snd (PopBottom q)) = ts"
    by (simp add: pop lst wsd_list_def)
qed

lemma StealTop_empty: "wsd_list q = [] \<Longrightarrow> StealTop q = (None, q)"
  by (simp add: wsd_list_def StealTop_def)

lemma StealTop_Cons:
  assumes "wsd_inv q" "wsd_list q = t # ts"
  shows "fst (StealTop q) = t" "wsd_inv (snd (StealTop q))" "wsd_list (snd (StealTop q)) = ts"
proof -
  obtain n where n: "wsd_size q = Suc n" using assms(2) by (cases "wsd_size q") (auto simp: wsd_list_def)
  have s0: "wsd_slot q 0 = wsd_head q" using assms(1) by (simp add: wsd_slot_mod) (simp add: wsd_inv_def)
  have lst: "t = wsd_buffer q ! wsd_head q" "ts = map (\<lambda>i. wsd_buffer q ! wsd_slot q (Suc i)) [0..<n]"
    using assms(2) n s0 by (auto simp: wsd_list_def upt_conv_Cons map_Suc_upt[symmetric] simp del: upt_Suc)
  define q' where "q' = snd (StealTop q)"
  have q': "q' = q\<lparr>wsd_buffer := (wsd_buffer q)[wsd_head q := None],
              wsd_head := (wsd_head q + 1) AND (wsd_capacity q - 1), wsd_size := n\<rparr>"
    using n by (simp add: q'_def StealTop_def)
  show "fst (StealTop q) = t" using n by (simp add: StealTop_def lst)
  have hd: "wsd_head q' = (wsd_head q + 1) mod wsd_capacity q"
    using assms(1) by (simp add: q' wsd_inv_def pow2_and)
  show inv: "wsd_inv (snd (StealTop q))"
    unfolding q'_def[symmetric] using assms(1) n hd unfolding wsd_inv_def by (auto simp: q' pow2_def)
  have slot: "wsd_slot q' i = wsd_slot q (Suc i)" for i
    using wsd_slot_mod[OF inv[folded q'_def], of i] wsd_slot_mod[OF assms(1), of "Suc i"] hd
    by (simp add: q' mod_add_left_eq)
  have "wsd_head q \<noteq> wsd_slot q (Suc i)" if "i < n" for i
    using that n assms(1) wsd_slot_inj[OF assms(1), of "Suc i" 0] s0 by (auto simp: wsd_inv_def)
  then show "wsd_list (snd (StealTop q)) = ts"
    unfolding q'_def[symmetric] lst wsd_list_def slot by (simp add: q')
qed

lemma wsd_Empty_iff: "wsd_Empty q \<longleftrightarrow> wsd_list q = []"
  by (simp add: wsd_Empty_def wsd_list_def)

lemma and_pred_pow2: "c \<noteq> 0 \<Longrightarrow> (c AND (c - 1) = 0) = (\<exists>k. c = 2 ^ k)" for c :: nat
proof (induction c rule: less_induct)
  case (less c)
  show ?case
  proof (cases "even c")
    case True
    then obtain m where m: "c = 2 * m" by blast
    then have "m \<noteq> 0" "m < c" using less.prems by auto
    have "(2 * m - Suc 0) div 2 = m - Suc 0" by presburger
    then have "c AND (c - 1) = 2 * (m AND (m - 1))"
      using \<open>m \<noteq> 0\<close> unfolding m by (subst and_rec) auto
    also have "\<dots> = 0 \<longleftrightarrow> (\<exists>k. m = 2 ^ k)" using less.IH[OF \<open>m < c\<close> \<open>m \<noteq> 0\<close>] by simp
    also have "\<dots> \<longleftrightarrow> (\<exists>k. c = 2 ^ k)"
    proof
      assume "\<exists>k. c = 2 ^ k"
      then obtain k where "c = 2 ^ k" by blast
      then have "m = 2 ^ (k - 1)" using m less.prems by (cases k) auto
      then show "\<exists>k. m = 2 ^ k" by blast
    qed (metis m power_Suc)
    finally show ?thesis .
  next
    case False
    then obtain m where m: "c = 2 * m + 1" by (elim oddE)
    have "c AND (c - 1) = 2 * m" unfolding m by (subst and_rec) simp
    moreover have "(\<exists>k. c = 2 ^ k) \<longleftrightarrow> c = 1"
      using False by (auto intro: exI[of _ 0])
    ultimately show ?thesis using m by simp
  qed
qed

lemma WSDeque_result:
  assumes "c < 2 ^ 64"
  shows "(\<exists>q. WSDeque c = Inr q) \<longleftrightarrow> pow2 c"
    and "WSDeque c = Inr q \<Longrightarrow> wsd_inv q \<and> wsd_list q = []"
proof -
  have "pow2 c \<longleftrightarrow> c \<noteq> 0 \<and> c AND (c - 1) = 0"
  proof
    assume "pow2 c"
    then show "c \<noteq> 0 \<and> c AND (c - 1) = 0" using and_pred_pow2[of c] by (auto simp: pow2_def)
  next
    assume "c \<noteq> 0 \<and> c AND (c - 1) = 0"
    then obtain k where k: "c = 2 ^ k" using and_pred_pow2[of c] by blast
    have "k < 64" using assms unfolding k by (rule power_less_imp_less_exp[rotated]) simp
    then show "pow2 c" using k by (auto simp: pow2_def)
  qed
  then show "(\<exists>q. WSDeque c = Inr q) \<longleftrightarrow> pow2 c"
    and "WSDeque c = Inr q \<Longrightarrow> wsd_inv q \<and> wsd_list q = []"
    by (auto simp: WSDeque_def wsd_inv_def wsd_list_def split: if_splits)
qed

section \<open>The contract of a task deque\<close>

locale task_deque =
  fixes dq_inv :: "'q \<Rightarrow> bool"
    and contents :: "'q \<Rightarrow> 'a option list"
    and push :: "'q \<Rightarrow> 'a option \<Rightarrow> 'e + 'q"
    and pop :: "'q \<Rightarrow> 'a option \<times> 'q"
    and steal :: "'q \<Rightarrow> 'a option \<times> 'q"
    and is_empty :: "'q \<Rightarrow> bool"
  assumes push_contents: "dq_inv q \<Longrightarrow> push q t = Inr q' \<Longrightarrow> dq_inv q' \<and> contents q' = contents q @ [t]"
    and pop_empty: "dq_inv q \<Longrightarrow> contents q = [] \<Longrightarrow> pop q = (None, q)"
    and pop_last: "dq_inv q \<Longrightarrow> contents q = ts @ [t] \<Longrightarrow>
      fst (pop q) = t \<and> dq_inv (snd (pop q)) \<and> contents (snd (pop q)) = ts"
    and steal_empty: "dq_inv q \<Longrightarrow> contents q = [] \<Longrightarrow> steal q = (None, q)"
    and steal_first: "dq_inv q \<Longrightarrow> contents q = t # ts \<Longrightarrow>
      fst (steal q) = t \<and> dq_inv (snd (steal q)) \<and> contents (snd (steal q)) = ts"
    and is_empty_iff: "dq_inv q \<Longrightarrow> is_empty q \<longleftrightarrow> contents q = []"
begin

lemma pop_inv: "dq_inv q \<Longrightarrow> dq_inv (snd (pop q))"
  using pop_empty[of q] pop_last[of q] by (cases "contents q" rule: rev_cases) auto

lemma steal_inv: "dq_inv q \<Longrightarrow> dq_inv (snd (steal q))"
  using steal_empty[of q] steal_first[of q] by (cases "contents q") auto

lemma pop_mset:
  assumes "dq_inv q" "pop q = (Some t, q')"
  shows "mset (contents q) = add_mset (Some t) (mset (contents q'))"
  using assms pop_empty[of q] pop_last[of q]
  by (cases "contents q" rule: rev_cases) auto

lemma steal_mset:
  assumes "dq_inv q" "steal q = (Some t, q')"
  shows "mset (contents q) = add_mset (Some t) (mset (contents q'))"
  using assms steal_empty[of q] steal_first[of q] by (cases "contents q") auto

lemma pop_None:
  assumes "dq_inv q" "None \<notin> set (contents q)" "pop q = (None, q')"
  shows "q' = q \<and> contents q = []"
  using assms pop_empty[of q] pop_last[of q]
  by (cases "contents q" rule: rev_cases) auto

lemma steal_None:
  assumes "dq_inv q" "None \<notin> set (contents q)" "steal q = (None, q')"
  shows "q' = q \<and> contents q = []"
  using assms steal_empty[of q] steal_first[of q] by (cases "contents q") auto

end

interpretation wsd: task_deque wsd_inv wsd_list PushBottom PopBottom StealTop wsd_Empty
  by unfold_locales
    (simp_all add: PushBottom_ok PopBottom_empty PopBottom_snoc StealTop_empty StealTop_Cons
      wsd_Empty_iff)

section \<open>Refinement of whole histories\<close>

text \<open>A history is a sequence of calls; its observation is what the calls return.\<close>

datatype 'a deque_op = Push 'a | Pop | Steal

primrec wsd_run :: "'a ws_deque \<Rightarrow> 'a deque_op list \<Rightarrow> ws_error + 'a option list" where
  "wsd_run q [] = Inr []"
| "wsd_run q (c # cs) =
     (case c of
        Push t \<Rightarrow> (case PushBottom q (Some t) of Inl e \<Rightarrow> Inl e | Inr q' \<Rightarrow> wsd_run q' cs)
      | Pop \<Rightarrow> (case PopBottom q of (r, q') \<Rightarrow> map_sum id ((#) r) (wsd_run q' cs))
      | Steal \<Rightarrow> (case StealTop q of (r, q') \<Rightarrow> map_sum id ((#) r) (wsd_run q' cs)))"

primrec list_run :: "'a list \<Rightarrow> 'a deque_op list \<Rightarrow> 'a option list" where
  "list_run xs [] = []"
| "list_run xs (c # cs) =
     (case c of
        Push t \<Rightarrow> list_run (xs @ [t]) cs
      | Pop \<Rightarrow> (if xs = [] then None # list_run xs cs else Some (last xs) # list_run (butlast xs) cs)
      | Steal \<Rightarrow> (case xs of [] \<Rightarrow> None # list_run xs cs | x # ys \<Rightarrow> Some x # list_run ys cs))"

lemma wsd_run_list_run:
  "wsd_inv q \<Longrightarrow> wsd_list q = map Some xs \<Longrightarrow> length xs + length cs < 2 ^ 63 \<Longrightarrow>
    wsd_run q cs = Inr (list_run xs cs)"
proof (induction cs arbitrary: q xs)
  case (Cons c cs)
  have size: "wsd_size q = length xs" using Cons.prems(2) by (metis length_map length_wsd_list)
  show ?case
  proof (cases c)
    case (Push t)
    obtain q' where q': "PushBottom q (Some t) = Inr q'"
      using PushBottom_total[OF Cons.prems(1)] size Cons.prems(3) by fastforce
    then have "wsd_inv q'" "wsd_list q' = map Some (xs @ [t])"
      using PushBottom_ok[OF Cons.prems(1) q'] Cons.prems(2) by auto
    then show ?thesis using Cons.IH[of q' "xs @ [t]"] Cons.prems(3) Push q' by simp
  next
    case Pop
    show ?thesis
    proof (cases xs rule: rev_cases)
      case Nil
      then show ?thesis using Cons Pop PopBottom_empty[of q] by simp
    next
      case (snoc ys y)
      then have l: "wsd_list q = map Some ys @ [Some y]" using Cons.prems(2) by simp
      show ?thesis
        using Cons.IH[OF PopBottom_snoc(2,3)[OF Cons.prems(1) l]] PopBottom_snoc(1)[OF Cons.prems(1) l]
          Cons.prems(3) Pop snoc
        by (cases "PopBottom q") simp
    qed
  next
    case Steal
    show ?thesis
    proof (cases xs)
      case Nil
      then show ?thesis using Cons Steal StealTop_empty[of q] by simp
    next
      case (Cons y ys)
      then have l: "wsd_list q = Some y # map Some ys" using Cons.prems(2) by simp
      show ?thesis
        using Cons.IH[OF StealTop_Cons(2,3)[OF Cons.prems(1) l]] StealTop_Cons(1)[OF Cons.prems(1) l]
          Cons.prems(3) Steal Cons
        by (cases "StealTop q") simp
    qed
  qed
qed simp

section \<open>Properties\<close>

text \<open>C3: on a deque built with a power-of-two capacity, every history of fewer than
  \<open>2 ^ 63\<close> calls returns exactly what the same calls return on a plain list: pushes append,
  \<open>PopBottom\<close> is LIFO at the end, \<open>StealTop\<close> is FIFO at the front, an empty deque
  yields the empty task, and growth never raises, loses, duplicates or reorders a task.\<close>

theorem wsd_refines_list:
  fixes cs :: "'a deque_op list"
  assumes "pow2 c" "length cs < 2 ^ 63"
  shows "\<exists>q. WSDeque c = Inr q \<and> wsd_run q cs = Inr (list_run [] cs)"
proof -
  have c: "c < 2 ^ 64" using assms(1) by (rule pow2_less)
  obtain q :: "'a ws_deque" where q: "WSDeque c = Inr q" using WSDeque_result(1)[OF c] assms(1) by blast
  then show ?thesis
    using wsd_run_list_run[of q "[]" cs] WSDeque_result(2)[OF c q] assms(2) by simp
qed

theorem wsd_refines_list_witness:
  "\<exists>q. WSDeque 2 = Inr q \<and>
     wsd_run q [Push (1::nat), Push 2, Push 3, Steal, Pop, Pop, Pop] = Inr [Some 1, Some 3, Some 2, None]"
proof -
  have "pow2 2" unfolding pow2_def by (intro exI[of _ 1]) simp
  then show ?thesis
    using wsd_refines_list[of 2 "[Push (1::nat), Push 2, Push 3, Steal, Pop, Pop, Pop]"] by simp
qed

text \<open>The constructor accepts a 64-bit capacity exactly when it is a power of two;
  every other capacity, zero included, raises \<open>invalid_argument\<close>.  The deque it builds is empty
  and satisfies the representation invariant.\<close>

theorem WSDeque_pow2_iff:
  assumes "c < 2 ^ 64"
  shows "case WSDeque c of
           Inl e \<Rightarrow> \<not> pow2 c \<and> e = InvalidArgument
         | Inr q \<Rightarrow> pow2 c \<and> wsd_inv q \<and> wsd_list q = [] \<and> wsd_Capacity q = c"
proof (cases "WSDeque c :: ws_error + 'a ws_deque")
  case (Inl e)
  then have "\<not> pow2 c" using WSDeque_result(1)[OF assms, where 'a = 'a] by auto
  then show ?thesis using Inl by (cases e) (auto simp: WSDeque_def split: if_splits)
next
  case (Inr q)
  then have "pow2 c" using WSDeque_result(1)[OF assms, where 'a = 'a] by auto
  moreover have "wsd_Capacity q = c"
    using Inr by (auto simp: WSDeque_def wsd_Capacity_def split: if_splits)
  ultimately show ?thesis using WSDeque_result(2)[OF assms Inr] Inr by simp
qed

text \<open>On a well-formed deque a push either raises \<open>length_error\<close>, which happens
  only when the ring is full at \<open>2 ^ 63\<close> slots, or appends the task, and the capacity doubles
  exactly when the ring was full.\<close>

theorem PushBottom_growth:
  assumes "wsd_inv q"
  shows "case PushBottom q t of
           Inl e \<Rightarrow> e = LengthError \<and> wsd_Size q = 2 ^ 63 \<and> wsd_Capacity q = 2 ^ 63
         | Inr q' \<Rightarrow> wsd_inv q' \<and> wsd_list q' = wsd_list q @ [t] \<and>
             wsd_Capacity q' = (if wsd_Size q = wsd_Capacity q then 2 * wsd_Capacity q
                                else wsd_Capacity q)"
proof (cases "PushBottom q t")
  case (Inl e)
  obtain k where k: "k < 64" "wsd_capacity q = 2 ^ k" using assms by (auto simp: wsd_inv_def pow2_def)
  have full: "wsd_size q = wsd_capacity q" "e = LengthError" "SIZE_MAX div 2 < wsd_capacity q"
    using Inl by (auto simp: PushBottom_def split: if_splits)
  then have "(2::nat) ^ 62 < 2 ^ k" using k by (simp add: SIZE_MAX_def)
  then have "62 < k" by (rule power_less_imp_less_exp[rotated]) simp
  then have "k = 63" using k(1) by simp
  then show ?thesis using Inl full k by (simp add: wsd_Size_def wsd_Capacity_def)
next
  case (Inr q')
  then have "wsd_capacity q' = (if wsd_size q = wsd_capacity q then 2 * wsd_capacity q else wsd_capacity q)"
    by (auto simp: PushBottom_def wsd_put_def wsd_grow_def split: if_splits)
  then show ?thesis using PushBottom_ok[OF assms Inr] Inr by (simp add: wsd_Size_def wsd_Capacity_def)
qed

end
