(* ===== verification/Thread_Pool.thy ===== *)
theory Thread_Pool
  imports Ws_Deque
begin

text \<open>
  The thread pool of \<^verbatim>\<open>src/cc/projects/thread-pool\<close> (\<^verbatim>\<open>include/wstp/thread_pool.h\<close>,
  \<^verbatim>\<open>src/thread_pool.cc\<close>) as a step relation on one shared state.  The code between two
  synchronisation points is one step: a section under \<^verbatim>\<open>global_queue_->mu\<close>, one call of a deque
  (which takes the deque's mutex), one load of \<^verbatim>\<open>stopped_\<close>, one execution of a task.  The place
  of a worker between two of its steps is a \<open>worker_pc\<close>.  Any interleaving of the steps of the
  workers and of any number of \<^verbatim>\<open>Submit\<close> and \<^verbatim>\<open>Stop\<close> callers is a run of the relation.

  The last six fields of the state are bookkeeping for the properties: the calls of \<^verbatim>\<open>Submit\<close> that
  have passed their first check of \<^verbatim>\<open>stopped_\<close> (\<open>submitting\<close>), the tasks put in a queue
  (\<open>accepted\<close>), those whose call has run (\<open>executed\<close>), those answered with the
  \<^verbatim>\<open>runtime_error\<close> future (\<open>refused\<close>), those whose packaged task was discarded by the second
  check (\<open>dropped\<close>) and those whose push raised (\<open>threw\<close>).  \<^verbatim>\<open>round_robin\<close> is a function-local
  static shared by every pool of the process: other pools may change it at any time
  (\<open>other_pool\<close>).  The random generator is a parameter: a shuffle may return any permutation of
  the candidates.  Memory is sequentially consistent, as the acquire loads and the mutexes make it
  for these variables.
\<close>

section \<open>State and operations\<close>

datatype 'a worker_pc =
    GlobalWait
  | PopOwn
  | Running 'a
  | Stealing "nat list"
  | CheckStopped
  | ScanPending nat
  | Exited

record 'a thread_pool =
  num_threads :: nat
  use_work_stealing :: bool
  stopped :: bool
  shutting_down :: bool
  queue :: "'a list"
  deques :: "'a ws_deque list"
  round_robin :: nat
  workers :: "'a worker_pc list"
  submitting :: "'a multiset"
  accepted :: "'a multiset"
  executed :: "'a multiset"
  refused :: "'a multiset"
  dropped :: "'a multiset"
  threw :: "'a multiset"

datatype pool_error = NoThreads | DequeError ws_error

definition ThreadPool :: "nat \<Rightarrow> nat \<Rightarrow> nat \<Rightarrow> bool \<Rightarrow> pool_error + 'a thread_pool" where
  "ThreadPool hardware_concurrency rr n ws =
     (let num = (if n = 0 then hardware_concurrency else n) in
      if num = 0 then Inl NoThreads
      else case WSDeque 1024 of
             Inl e \<Rightarrow> Inl (DequeError e)
           | Inr d \<Rightarrow>
               Inr \<lparr>num_threads = num, use_work_stealing = ws, stopped = False,
                 shutting_down = False, queue = [],
                 deques = (if ws then replicate num d else []), round_robin = rr,
                 workers = replicate num (if ws then PopOwn else GlobalWait),
                 submitting = {#}, accepted = {#}, executed = {#}, refused = {#},
                 dropped = {#}, threw = {#}\<rparr>)"

definition Stop :: "'a thread_pool \<Rightarrow> 'a thread_pool" where
  "Stop p = (if stopped p then p else p\<lparr>stopped := True, shutting_down := True\<rparr>)"

definition Stop_returns :: "'a thread_pool \<Rightarrow> bool" where
  "Stop_returns p \<longleftrightarrow> stopped p \<and> list_all (\<lambda>w. w = Exited) (workers p)"

definition Submit :: "'a \<Rightarrow> 'a thread_pool \<Rightarrow> 'a thread_pool" where
  "Submit t p = (if stopped p then p\<lparr>refused := add_mset t (refused p)\<rparr>
                 else p\<lparr>submitting := add_mset t (submitting p)\<rparr>)"

definition SubmitGlobalQueue :: "'a \<Rightarrow> 'a thread_pool \<Rightarrow> 'a thread_pool" where
  "SubmitGlobalQueue t p =
     (if stopped p
      then p\<lparr>submitting := submitting p - {#t#}, dropped := add_mset t (dropped p)\<rparr>
      else p\<lparr>queue := queue p @ [t], submitting := submitting p - {#t#},
             accepted := add_mset t (accepted p)\<rparr>)"

definition SubmitWorkStealing :: "'a \<Rightarrow> 'a thread_pool \<Rightarrow> 'a thread_pool" where
  "SubmitWorkStealing t p =
     (if stopped p
      then p\<lparr>submitting := submitting p - {#t#}, dropped := add_mset t (dropped p)\<rparr>
      else let idx = round_robin p mod num_threads p;
               p = p\<lparr>round_robin := (round_robin p + 1) mod 2 ^ 64\<rparr>
           in case PushBottom (deques p ! idx) (Some t) of
                Inl _ \<Rightarrow> p\<lparr>submitting := submitting p - {#t#}, threw := add_mset t (threw p)\<rparr>
              | Inr d \<Rightarrow> p\<lparr>deques := (deques p)[idx := d], submitting := submitting p - {#t#},
                           accepted := add_mset t (accepted p)\<rparr>)"

definition set_pc :: "nat \<Rightarrow> 'a worker_pc \<Rightarrow> 'a thread_pool \<Rightarrow> 'a thread_pool" where
  "set_pc w pc p = p\<lparr>workers := (workers p)[w := pc]\<rparr>"

definition WorkerLoopGlobalQueue :: "nat \<Rightarrow> 'a thread_pool \<Rightarrow> 'a thread_pool" where
  "WorkerLoopGlobalQueue w p =
     (case workers p ! w of
        GlobalWait \<Rightarrow>
          (if queue p = [] \<and> \<not> stopped p then p
           else if queue p = [] then set_pc w Exited p
           else set_pc w (Running (hd (queue p))) (p\<lparr>queue := tl (queue p)\<rparr>))
      | Running t \<Rightarrow> set_pc w GlobalWait (p\<lparr>executed := add_mset t (executed p)\<rparr>)
      | _ \<Rightarrow> p)"

definition steal_candidates :: "nat \<Rightarrow> nat \<Rightarrow> nat list" where
  "steal_candidates n worker_id = filter (\<lambda>i. i \<noteq> worker_id) [0..<n]"

definition WorkerLoopWorkStealing :: "nat list \<Rightarrow> nat \<Rightarrow> 'a thread_pool \<Rightarrow> 'a thread_pool" where
  "WorkerLoopWorkStealing shuffled w p =
     (case workers p ! w of
        PopOwn \<Rightarrow>
          (case PopBottom (deques p ! w) of
             (Some t, d) \<Rightarrow> set_pc w (Running t) (p\<lparr>deques := (deques p)[w := d]\<rparr>)
           | (None, d) \<Rightarrow> set_pc w (Stealing shuffled) (p\<lparr>deques := (deques p)[w := d]\<rparr>))
      | Running t \<Rightarrow> set_pc w PopOwn (p\<lparr>executed := add_mset t (executed p)\<rparr>)
      | Stealing [] \<Rightarrow> set_pc w CheckStopped p
      | Stealing (victim # vs) \<Rightarrow>
          (case StealTop (deques p ! victim) of
             (Some t, d) \<Rightarrow> set_pc w (Running t) (p\<lparr>deques := (deques p)[victim := d]\<rparr>)
           | (None, d) \<Rightarrow> set_pc w (Stealing vs) (p\<lparr>deques := (deques p)[victim := d]\<rparr>))
      | CheckStopped \<Rightarrow> set_pc w (if stopped p then ScanPending 0 else PopOwn) p
      | ScanPending i \<Rightarrow>
          (if i < length (deques p)
           then set_pc w (if wsd_Empty (deques p ! i) then ScanPending (i + 1) else PopOwn) p
           else set_pc w Exited p)
      | _ \<Rightarrow> p)"

text \<open>\<^verbatim>\<open>RandomVictim\<close>: the argument \<open>r\<close> is the number drawn from the uniform distribution
  on \<open>[0, num_threads - 2]\<close>.\<close>

definition RandomVictim :: "u32 \<Rightarrow> nat \<Rightarrow> u32" where
  "RandomVictim r exclude_id = (let victim = r in if unat victim \<ge> exclude_id then victim + 1 else victim)"

definition QueueSize :: "'a thread_pool \<Rightarrow> nat" where
  "QueueSize p =
     (if use_work_stealing p
      then foldl (\<lambda>total d. (total + wsd_Size d) mod 2 ^ 64) 0 (deques p)
      else length (queue p))"

section \<open>Steps and reachable states\<close>

inductive pool_step :: "'a thread_pool \<Rightarrow> 'a thread_pool \<Rightarrow> bool" where
  stop: "pool_step p (Stop p)"
| submit: "pool_step p (Submit t p)"
| submit_global: "\<not> use_work_stealing p \<Longrightarrow> t \<in># submitting p \<Longrightarrow> pool_step p (SubmitGlobalQueue t p)"
| submit_stealing: "use_work_stealing p \<Longrightarrow> t \<in># submitting p \<Longrightarrow> pool_step p (SubmitWorkStealing t p)"
| other_pool: "pool_step p (p\<lparr>round_robin := r\<rparr>)"
| worker_global: "\<not> use_work_stealing p \<Longrightarrow> w < num_threads p \<Longrightarrow> pool_step p (WorkerLoopGlobalQueue w p)"
| worker_stealing: "use_work_stealing p \<Longrightarrow> w < num_threads p \<Longrightarrow>
    mset shuffled = mset (steal_candidates (num_threads p) w) \<Longrightarrow>
    pool_step p (WorkerLoopWorkStealing shuffled w p)"

inductive pool_reachable :: "'a thread_pool \<Rightarrow> bool" where
  start: "ThreadPool hw rr n ws = Inr p \<Longrightarrow> pool_reachable p"
| step: "pool_reachable p \<Longrightarrow> pool_step p p' \<Longrightarrow> pool_reachable p'"

section \<open>The invariant\<close>

fun running_task :: "'a worker_pc \<Rightarrow> 'a multiset" where
  "running_task (Running t) = {#t#}"
| "running_task _ = {#}"

definition running_tasks :: "'a thread_pool \<Rightarrow> 'a multiset" where
  "running_tasks p = sum_list (map running_task (workers p))"

definition deque_tasks :: "'a ws_deque \<Rightarrow> 'a multiset" where
  "deque_tasks q = image_mset the (mset (wsd_list q))"

definition queued_tasks :: "'a thread_pool \<Rightarrow> 'a multiset" where
  "queued_tasks p = mset (queue p) + sum_list (map deque_tasks (deques p))"

definition deque_ok :: "'a ws_deque \<Rightarrow> bool" where
  "deque_ok q \<longleftrightarrow> wsd_inv q \<and> None \<notin> set (wsd_list q)"

fun pc_ok :: "'a thread_pool \<Rightarrow> 'a worker_pc \<Rightarrow> bool" where
  "pc_ok p (ScanPending i) \<longleftrightarrow> use_work_stealing p \<and> stopped p \<and>
     (\<forall>j<i. j < length (deques p) \<longrightarrow> wsd_list (deques p ! j) = [])"
| "pc_ok p Exited \<longleftrightarrow> stopped p \<and> queued_tasks p = {#}"
| "pc_ok p (Stealing vs) \<longleftrightarrow> (\<forall>v\<in>set vs. v < num_threads p)"
| "pc_ok p _ \<longleftrightarrow> True"

definition pool_inv :: "'a thread_pool \<Rightarrow> bool" where
  "pool_inv p \<longleftrightarrow>
     0 < num_threads p \<and> length (workers p) = num_threads p \<and>
     length (deques p) = (if use_work_stealing p then num_threads p else 0) \<and>
     (use_work_stealing p \<longrightarrow> queue p = []) \<and>
     (\<forall>d\<in>set (deques p). deque_ok d) \<and>
     (\<forall>pc\<in>set (workers p). pc_ok p pc) \<and>
     accepted p = queued_tasks p + running_tasks p + executed p"

lemma pool_inv_init:
  assumes "ThreadPool hw rr n ws = Inr p"
  shows "pool_inv p"
proof -
  obtain d :: "'a ws_deque" where d: "WSDeque 1024 = Inr d"
    using WSDeque_result(1)[of 1024] by (auto simp: pow2_def intro: exI[of _ 10])
  then have ok: "wsd_inv d" "wsd_list d = []"
    using WSDeque_result(2)[of 1024 d] by auto
  then have "deque_tasks d = {#}" "deque_ok d"
    by (auto simp: deque_tasks_def deque_ok_def)
  then show ?thesis
    using assms unfolding ThreadPool_def Let_def d
    by (auto simp: pool_inv_def queued_tasks_def running_tasks_def split: if_splits)
qed

lemma pc_ok_frame:
  assumes "num_threads p' = num_threads p" "use_work_stealing p' = use_work_stealing p"
    and "length (deques p') = length (deques p)"
    and "stopped p \<Longrightarrow> stopped p'"
    and "\<And>j. stopped p \<Longrightarrow> j < length (deques p) \<Longrightarrow> wsd_list (deques p ! j) = [] \<Longrightarrow> wsd_list (deques p' ! j) = []"
    and "stopped p \<Longrightarrow> queued_tasks p = {#} \<Longrightarrow> queued_tasks p' = {#}"
    and "pc_ok p pc"
  shows "pc_ok p' pc"
  using assms by (cases pc) auto

lemma pool_inv_update:
  assumes inv: "pool_inv p"
    and frame: "num_threads p' = num_threads p" "use_work_stealing p' = use_work_stealing p"
      "length (workers p') = length (workers p)" "length (deques p') = length (deques p)"
      "use_work_stealing p \<Longrightarrow> queue p' = queue p"
    and deq: "\<And>d. d \<in> set (deques p') \<Longrightarrow> deque_ok d"
    and pcs: "set (workers p') \<subseteq> insert pc (set (workers p))" "pc_ok p' pc"
    and mono: "stopped p \<Longrightarrow> stopped p'"
      "\<And>j. stopped p \<Longrightarrow> j < length (deques p) \<Longrightarrow> wsd_list (deques p ! j) = [] \<Longrightarrow> wsd_list (deques p' ! j) = []"
      "stopped p \<Longrightarrow> queued_tasks p = {#} \<Longrightarrow> queued_tasks p' = {#}"
    and acc: "accepted p' = queued_tasks p' + running_tasks p' + executed p'"
  shows "pool_inv p'"
proof -
  have "pc_ok p' x" if "x \<in> set (workers p')" for x
  proof (cases "x = pc")
    case False
    then have "pc_ok p x" using that pcs inv by (auto simp: pool_inv_def)
    then show ?thesis using pc_ok_frame[OF frame(1,2,4) mono] by blast
  qed (use pcs in simp)
  then show ?thesis using inv frame deq acc by (auto simp: pool_inv_def)
qed

lemma running_tasks_set_pc:
  assumes "w < length (workers p)"
  shows "running_tasks (set_pc w pc p) + running_task (workers p ! w) = running_tasks p + running_task pc"
  using sum_list_map_update[OF assms, of running_task pc] by (simp add: running_tasks_def set_pc_def)

lemma queued_tasks_deque_update:
  assumes "i < length (deques p)"
  shows "queued_tasks (p\<lparr>deques := (deques p)[i := d]\<rparr>) + deque_tasks (deques p ! i)
           = queued_tasks p + deque_tasks d"
  using sum_list_map_update[OF assms, of deque_tasks d]
  by (simp add: queued_tasks_def add.assoc)

lemma set_pc_simps [simp]:
  "num_threads (set_pc w pc p) = num_threads p" "use_work_stealing (set_pc w pc p) = use_work_stealing p"
  "stopped (set_pc w pc p) = stopped p" "queue (set_pc w pc p) = queue p"
  "deques (set_pc w pc p) = deques p" "executed (set_pc w pc p) = executed p"
  "accepted (set_pc w pc p) = accepted p" "workers (set_pc w pc p) = (workers p)[w := pc]"
  "queued_tasks (set_pc w pc p) = queued_tasks p"
  by (simp_all add: set_pc_def queued_tasks_def)

lemma pc_ok_set_pc [simp]: "pc_ok (set_pc w x p) pc = pc_ok p pc"
  by (cases pc) auto

lemma pool_inv_worker:
  assumes inv: "pool_inv p" and w: "w < num_threads p"
    and same: "num_threads p1 = num_threads p" "use_work_stealing p1 = use_work_stealing p"
      "stopped p1 = stopped p" "workers p1 = workers p" "accepted p1 = accepted p"
      "length (deques p1) = length (deques p)" "use_work_stealing p \<Longrightarrow> queue p1 = queue p"
    and deq: "\<forall>d\<in>set (deques p1). deque_ok d"
    and shrink: "\<And>j. j < length (deques p) \<Longrightarrow> wsd_list (deques p ! j) = [] \<Longrightarrow> wsd_list (deques p1 ! j) = []"
      "queued_tasks p = {#} \<Longrightarrow> queued_tasks p1 = {#}"
    and pc: "pc_ok p1 pc"
    and acc: "queued_tasks p1 + running_task pc + executed p1 =
              queued_tasks p + running_task (workers p ! w) + executed p"
  shows "pool_inv (set_pc w pc p1)"
proof (rule pool_inv_update[OF inv, where pc = pc])
  have len: "w < length (workers p1)" using inv w same by (simp add: pool_inv_def)
  have run: "running_tasks p1 = running_tasks p" using same by (simp add: running_tasks_def)
  have "accepted p + running_task (workers p ! w) =
        queued_tasks p + running_tasks p + executed p + running_task (workers p ! w)"
    using inv by (simp add: pool_inv_def)
  also have "\<dots> = queued_tasks p1 + (running_tasks (set_pc w pc p1) + running_task (workers p ! w)) + executed p1"
    using acc running_tasks_set_pc[OF len, of pc] run same by (simp add: ac_simps)
  finally show "accepted (set_pc w pc p1) =
    queued_tasks (set_pc w pc p1) + running_tasks (set_pc w pc p1) + executed (set_pc w pc p1)"
    using same by (simp add: ac_simps)
qed (use assms in \<open>auto dest!: set_update_subset_insert[THEN subsetD]\<close>)

lemma pc_ok_ghost [simp]:
  "pc_ok (p\<lparr>round_robin := r\<rparr>) pc = pc_ok p pc"
  "pc_ok (p\<lparr>submitting := m\<rparr>) pc = pc_ok p pc"
  "pc_ok (p\<lparr>refused := m\<rparr>) pc = pc_ok p pc"
  "pc_ok (p\<lparr>dropped := m\<rparr>) pc = pc_ok p pc"
  "pc_ok (p\<lparr>threw := m\<rparr>) pc = pc_ok p pc"
  by (cases pc; simp add: queued_tasks_def)+

lemma pool_inv_ghost [simp]:
  "pool_inv (p\<lparr>round_robin := r\<rparr>) = pool_inv p"
  "pool_inv (p\<lparr>submitting := m\<rparr>) = pool_inv p"
  "pool_inv (p\<lparr>refused := m\<rparr>) = pool_inv p"
  "pool_inv (p\<lparr>dropped := m\<rparr>) = pool_inv p"
  "pool_inv (p\<lparr>threw := m\<rparr>) = pool_inv p"
  by (simp_all add: pool_inv_def queued_tasks_def running_tasks_def)

lemma pool_inv_Stop: "pool_inv p \<Longrightarrow> pool_inv (Stop p)"
  by (rule pool_inv_update[where p = p and pc = PopOwn])
    (auto simp: Stop_def pool_inv_def queued_tasks_def running_tasks_def split: if_splits)

lemma pool_inv_Submit: "pool_inv p \<Longrightarrow> pool_inv (Submit t p)"
  by (rule pool_inv_update[where p = p and pc = PopOwn])
    (auto simp: Submit_def pool_inv_def queued_tasks_def running_tasks_def split: if_splits)

lemma pool_inv_SubmitGlobalQueue:
  "pool_inv p \<Longrightarrow> \<not> use_work_stealing p \<Longrightarrow> pool_inv (SubmitGlobalQueue t p)"
  by (rule pool_inv_update[where p = p and pc = PopOwn])
    (auto simp: SubmitGlobalQueue_def pool_inv_def queued_tasks_def running_tasks_def split: if_splits)

lemma deque_ok_push:
  assumes "deque_ok q" "PushBottom q (Some t) = Inr d"
  shows "deque_ok d \<and> deque_tasks d = add_mset t (deque_tasks q)"
  using assms wsd.push_contents[of q "Some t" d] by (auto simp: deque_ok_def deque_tasks_def)

lemma deque_ok_pop:
  assumes "deque_ok q" "PopBottom q = (Some t, d)"
  shows "deque_ok d \<and> deque_tasks q = add_mset t (deque_tasks d) \<and> wsd_list q \<noteq> []"
  using assms wsd.pop_mset[of q t d] wsd.pop_inv[of q]
  by (auto simp: deque_ok_def deque_tasks_def simp flip: set_mset_mset)

lemma deque_ok_steal:
  assumes "deque_ok q" "StealTop q = (Some t, d)"
  shows "deque_ok d \<and> deque_tasks q = add_mset t (deque_tasks d) \<and> wsd_list q \<noteq> []"
  using assms wsd.steal_mset[of q t d] wsd.steal_inv[of q]
  by (auto simp: deque_ok_def deque_tasks_def simp flip: set_mset_mset)

lemma deque_ok_pop_None: "deque_ok q \<Longrightarrow> PopBottom q = (None, d) \<Longrightarrow> d = q \<and> wsd_list q = []"
  using wsd.pop_None[of q d] by (simp add: deque_ok_def)

lemma deque_ok_steal_None: "deque_ok q \<Longrightarrow> StealTop q = (None, d) \<Longrightarrow> d = q \<and> wsd_list q = []"
  using wsd.steal_None[of q d] by (simp add: deque_ok_def)

lemma pool_inv_SubmitWorkStealing:
  assumes inv: "pool_inv p" and ws: "use_work_stealing p"
  shows "pool_inv (SubmitWorkStealing t p)"
proof (cases "stopped p")
  case True
  then show ?thesis using inv by (simp add: SubmitWorkStealing_def)
next
  case False
  define i where "i = round_robin p mod num_threads p"
  have i: "i < length (deques p)" using inv ws by (simp add: i_def pool_inv_def)
  have ok: "deque_ok (deques p ! i)" using inv i by (simp add: pool_inv_def)
  show ?thesis
  proof (cases "PushBottom (deques p ! i) (Some t)")
    case (Inl e)
    then show ?thesis using inv False
      by (simp add: SubmitWorkStealing_def Let_def i_def)
  next
    case (Inr d)
    note d = deque_ok_push[OF ok Inr]
    define p1 where "p1 = SubmitWorkStealing t p"
    have p1: "p1 = p\<lparr>round_robin := (round_robin p + 1) mod 2 ^ 64, deques := (deques p)[i := d],
        submitting := submitting p - {#t#}, accepted := add_mset t (accepted p)\<rparr>"
      using False Inr by (simp add: p1_def SubmitWorkStealing_def Let_def i_def)
    have "queued_tasks (p\<lparr>deques := (deques p)[i := d]\<rparr>) = add_mset t (queued_tasks p)"
      using queued_tasks_deque_update[OF i, of d] d by simp
    then have q: "queued_tasks p1 = add_mset t (queued_tasks p)"
      by (simp add: queued_tasks_def p1)
    have "pool_inv p1"
    proof (rule pool_inv_update[OF inv, where pc = PopOwn])
      show "accepted p1 = queued_tasks p1 + running_tasks p1 + executed p1"
        using inv unfolding q by (simp add: p1 pool_inv_def running_tasks_def)
      show "e \<in> set (deques p1) \<Longrightarrow> deque_ok e" for e
        using inv d by (auto simp: p1 pool_inv_def dest!: set_update_subset_insert[THEN subsetD])
    qed (use False in \<open>auto simp: p1\<close>)
    then show ?thesis by (simp add: p1_def)
  qed
qed

lemma pool_inv_take_deque:
  assumes inv: "pool_inv p" and w: "w < num_threads p" and idle: "running_task (workers p ! w) = {#}"
    and v: "v < length (deques p)" and d: "deque_ok d" "deque_tasks (deques p ! v) = add_mset t (deque_tasks d)"
      "wsd_list (deques p ! v) \<noteq> []"
  shows "pool_inv (set_pc w (Running t) (p\<lparr>deques := (deques p)[v := d]\<rparr>))"
proof (rule pool_inv_worker[OF inv w])
  have q: "queued_tasks p = add_mset t (queued_tasks (p\<lparr>deques := (deques p)[v := d]\<rparr>))"
    using queued_tasks_deque_update[OF v, of d] d(2) by simp
  then show "queued_tasks (p\<lparr>deques := (deques p)[v := d]\<rparr>) + running_task (Running t) +
      executed (p\<lparr>deques := (deques p)[v := d]\<rparr>) =
      queued_tasks p + running_task (workers p ! w) + executed p"
    using idle by simp
  show "queued_tasks p = {#} \<Longrightarrow> queued_tasks (p\<lparr>deques := (deques p)[v := d]\<rparr>) = {#}"
    using q by simp
  show "wsd_list (deques (p\<lparr>deques := (deques p)[v := d]\<rparr>) ! j) = []"
    if "wsd_list (deques p ! j) = []" for j
    using that d(3) by (cases "j = v") auto
qed (use inv d in \<open>auto simp: pool_inv_def dest!: set_update_subset_insert[THEN subsetD]\<close>)

lemma pool_inv_move_pc:
  assumes "pool_inv p" "w < num_threads p" "running_task (workers p ! w) = running_task pc" "pc_ok p pc"
  shows "pool_inv (set_pc w pc p)"
  using assms by (intro pool_inv_worker[OF assms(1,2)]) (auto simp: pool_inv_def)

lemma pool_inv_finish:
  assumes "pool_inv p" "w < num_threads p" "workers p ! w = Running t" "running_task pc = {#}" "pc_ok p pc"
  shows "pool_inv (set_pc w pc (p\<lparr>executed := add_mset t (executed p)\<rparr>))"
proof (rule pool_inv_worker[OF assms(1,2)])
  show "pc_ok (p\<lparr>executed := add_mset t (executed p)\<rparr>) pc"
    using assms(5) by (cases pc) (auto simp: queued_tasks_def)
qed (use assms in \<open>auto simp: pool_inv_def queued_tasks_def\<close>)

lemma sum_list_mset_empty_iff: "sum_list xs = {#} \<longleftrightarrow> (\<forall>m\<in>set xs. m = {#})"
  by (induction xs) auto

lemma queued_empty_iff:
  assumes "pool_inv p" "use_work_stealing p"
  shows "queued_tasks p = {#} \<longleftrightarrow> (\<forall>j<length (deques p). wsd_list (deques p ! j) = [])"
  using assms
  by (auto simp: pool_inv_def queued_tasks_def deque_tasks_def sum_list_mset_empty_iff all_set_conv_all_nth)

lemma pool_inv_WorkerLoopGlobalQueue:
  assumes inv: "pool_inv p" and "\<not> use_work_stealing p" and w: "w < num_threads p"
  shows "pool_inv (WorkerLoopGlobalQueue w p)"
proof (cases "workers p ! w")
  case GlobalWait
  show ?thesis
  proof (cases "queue p")
    case Nil
    then have "queued_tasks p = {#}" using inv assms(2) by (simp add: queued_tasks_def pool_inv_def)
    then show ?thesis using Nil inv GlobalWait pool_inv_move_pc[OF inv w, of Exited]
      by (simp add: WorkerLoopGlobalQueue_def)
  next
    case (Cons t ts)
    have "pool_inv (set_pc w (Running t) (p\<lparr>queue := ts\<rparr>))"
      by (rule pool_inv_worker[OF inv w])
        (use inv assms(2) Cons GlobalWait in \<open>auto simp: pool_inv_def queued_tasks_def\<close>)
    then show ?thesis using Cons GlobalWait by (simp add: WorkerLoopGlobalQueue_def)
  qed
next
  case (Running t)
  then show ?thesis using pool_inv_finish[OF inv w Running, of GlobalWait]
    by (simp add: WorkerLoopGlobalQueue_def)
qed (use inv in \<open>simp_all add: WorkerLoopGlobalQueue_def\<close>)

lemma pool_inv_pop_own:
  assumes inv: "pool_inv p" and ws: "use_work_stealing p" and w: "w < num_threads p"
    and pc: "workers p ! w = PopOwn" and sh: "mset shuffled = mset (steal_candidates (num_threads p) w)"
  shows "pool_inv (WorkerLoopWorkStealing shuffled w p)"
proof -
  have ok: "deque_ok (deques p ! w)" and len: "w < length (deques p)"
    using inv ws w by (auto simp: pool_inv_def)
  obtain r d where rd: "PopBottom (deques p ! w) = (r, d)" by fastforce
  show ?thesis
  proof (cases r)
    case None
    then have "d = deques p ! w" using deque_ok_pop_None[OF ok] rd by simp
    moreover have "set shuffled = set (steal_candidates (num_threads p) w)"
      using sh by (rule mset_eq_setD)
    ultimately show ?thesis
      using pool_inv_move_pc[OF inv w, of "Stealing shuffled"] None rd pc
      by (simp add: WorkerLoopWorkStealing_def steal_candidates_def)
  next
    case (Some t)
    then show ?thesis
      using pool_inv_take_deque[OF inv w _ len, of d t] deque_ok_pop[OF ok, of t d] rd pc
      by (simp add: WorkerLoopWorkStealing_def)
  qed
qed

lemma pool_inv_steal:
  assumes inv: "pool_inv p" and ws: "use_work_stealing p" and w: "w < num_threads p"
    and pc: "workers p ! w = Stealing (v # vs)"
  shows "pool_inv (WorkerLoopWorkStealing shuffled w p)"
proof -
  have "pc_ok p (Stealing (v # vs))" using inv w pc[symmetric] by (auto simp: pool_inv_def)
  then have ok: "deque_ok (deques p ! v)" and len: "v < length (deques p)"
    and vs: "pc_ok p (Stealing vs)"
    using inv ws by (auto simp: pool_inv_def)
  obtain r d where rd: "StealTop (deques p ! v) = (r, d)" by fastforce
  show ?thesis
  proof (cases r)
    case None
    then have "d = deques p ! v" using deque_ok_steal_None[OF ok] rd by simp
    then show ?thesis using pool_inv_move_pc[OF inv w, of "Stealing vs"] vs None rd pc
      by (simp add: WorkerLoopWorkStealing_def)
  next
    case (Some t)
    then show ?thesis
      using pool_inv_take_deque[OF inv w _ len, of d t] deque_ok_steal[OF ok, of t d] rd pc
      by (simp add: WorkerLoopWorkStealing_def)
  qed
qed

lemma pool_inv_scan:
  assumes inv: "pool_inv p" and ws: "use_work_stealing p" and w: "w < num_threads p"
    and pc: "workers p ! w = ScanPending i"
  shows "pool_inv (WorkerLoopWorkStealing shuffled w p)"
proof -
  have ok: "pc_ok p (ScanPending i)" using inv w pc[symmetric] by (auto simp: pool_inv_def)
  show ?thesis
  proof (cases "i < length (deques p)")
    case True
    have "wsd_Empty (deques p ! i) \<Longrightarrow> pc_ok p (ScanPending (i + 1))"
      using ok by (auto simp: wsd_Empty_iff less_Suc_eq)
    then show ?thesis
      using True pc pool_inv_move_pc[OF inv w, of "ScanPending (i + 1)"]
        pool_inv_move_pc[OF inv w, of PopOwn]
      by (auto simp: WorkerLoopWorkStealing_def)
  next
    case False
    then have "pc_ok p Exited" using ok queued_empty_iff[OF inv ws] by auto
    then show ?thesis using False pc pool_inv_move_pc[OF inv w, of Exited]
      by (simp add: WorkerLoopWorkStealing_def)
  qed
qed

lemma pool_inv_WorkerLoopWorkStealing:
  assumes inv: "pool_inv p" and ws: "use_work_stealing p" and w: "w < num_threads p"
    and sh: "mset shuffled = mset (steal_candidates (num_threads p) w)"
  shows "pool_inv (WorkerLoopWorkStealing shuffled w p)"
proof (cases "workers p ! w")
  case (Running t)
  then show ?thesis using pool_inv_finish[OF inv w Running, of PopOwn]
    by (simp add: WorkerLoopWorkStealing_def)
next
  case (Stealing vs)
  then show ?thesis
    using pool_inv_steal[OF inv ws w] pool_inv_move_pc[OF inv w, of CheckStopped]
    by (cases vs) (simp_all add: WorkerLoopWorkStealing_def)
next
  case CheckStopped
  then show ?thesis
    using pool_inv_move_pc[OF inv w, of "ScanPending 0"] pool_inv_move_pc[OF inv w, of PopOwn] ws
    by (simp add: WorkerLoopWorkStealing_def)
qed (use inv pool_inv_pop_own[OF inv ws w _ sh] pool_inv_scan[OF inv ws w]
  in \<open>simp_all add: WorkerLoopWorkStealing_def\<close>)

lemma pool_inv_step: "pool_step p p' \<Longrightarrow> pool_inv p \<Longrightarrow> pool_inv p'"
  by (induction rule: pool_step.induct)
    (simp_all add: pool_inv_Stop pool_inv_Submit pool_inv_SubmitGlobalQueue
      pool_inv_SubmitWorkStealing pool_inv_WorkerLoopGlobalQueue pool_inv_WorkerLoopWorkStealing)

lemma pool_reachable_inv: "pool_reachable p \<Longrightarrow> pool_inv p"
  by (induction rule: pool_reachable.induct) (auto intro: pool_inv_init pool_inv_step)

lemma Stop_returns_drained:
  assumes "pool_inv p" "Stop_returns p"
  shows "queued_tasks p = {#}" "running_tasks p = {#}" "executed p = accepted p"
proof -
  have ex: "w = Exited" if "w \<in> set (workers p)" for w
    using assms(2) that by (auto simp: Stop_returns_def list_all_iff)
  have "Exited \<in> set (workers p)"
    using assms(1) ex by (cases "workers p") (auto simp: pool_inv_def)
  then have "pc_ok p Exited" using assms(1) unfolding pool_inv_def by blast
  then show q: "queued_tasks p = {#}" by simp
  show r: "running_tasks p = {#}"
    by (auto simp: running_tasks_def sum_list_mset_empty_iff dest: ex)
  show "executed p = accepted p" using assms(1) q r by (simp add: pool_inv_def)
qed

lemma QueueSize_deques:
  "foldl (\<lambda>total d. (total + wsd_Size d) mod 2 ^ 64) a ds mod 2 ^ 64 =
     (a + sum_list (map wsd_Size ds)) mod 2 ^ 64"
proof (induction ds arbitrary: a)
  case (Cons d ds)
  show ?case unfolding foldl_Cons Cons.IH by (simp add: mod_add_left_eq add.assoc)
qed simp

lemma size_deque_tasks: "size (deque_tasks d) = wsd_Size d"
  by (simp add: deque_tasks_def wsd_Size_def)

lemma size_sum_deque_tasks: "size (sum_list (map deque_tasks ds)) = sum_list (map wsd_Size ds)"
  by (induction ds) (simp_all add: size_deque_tasks)

section \<open>Properties\<close>

text \<open>A concrete run of a one-worker pool in global-queue mode: one task is submitted, taken and
  executed, the pool is stopped and its worker leaves.\<close>

definition pool_start :: "nat thread_pool" where
  "pool_start = \<lparr>num_threads = 1, use_work_stealing = False, stopped = False, shutting_down = False,
     queue = [], deques = [], round_robin = 0, workers = [GlobalWait], submitting = {#},
     accepted = {#}, executed = {#}, refused = {#}, dropped = {#}, threw = {#}\<rparr>"

definition pool_busy :: "nat thread_pool" where
  "pool_busy = WorkerLoopGlobalQueue 0 (SubmitGlobalQueue 7 (Submit 7 pool_start))"

definition pool_done :: "nat thread_pool" where
  "pool_done = WorkerLoopGlobalQueue 0 (Stop (WorkerLoopGlobalQueue 0 pool_busy))"

lemma ThreadPool_start: "ThreadPool 8 0 1 False = Inr pool_start"
  using WSDeque_result(1)[of 1024, where 'a = nat]
  by (auto simp: ThreadPool_def pool_start_def pow2_def intro: exI[of _ 10] split: sum.split)

lemma pool_busy_eq:
  "pool_busy = pool_start\<lparr>workers := [Running 7], accepted := {#7#}\<rparr>"
  by (simp add: pool_busy_def pool_start_def Submit_def SubmitGlobalQueue_def WorkerLoopGlobalQueue_def set_pc_def)

lemma pool_done_eq:
  "pool_done = pool_start\<lparr>stopped := True, shutting_down := True, workers := [Exited],
     accepted := {#7#}, executed := {#7#}\<rparr>"
  by (simp add: pool_done_def pool_busy_eq pool_start_def WorkerLoopGlobalQueue_def Stop_def set_pc_def)

lemma pool_reachable_start: "pool_reachable pool_start"
  using ThreadPool_start by (rule pool_reachable.start)

lemma pool_reachable_worker:
  "pool_reachable p \<Longrightarrow> \<not> use_work_stealing p \<Longrightarrow> w < num_threads p \<Longrightarrow>
    pool_reachable (WorkerLoopGlobalQueue w p)"
  by (blast intro: pool_reachable.step pool_step.worker_global)

lemma pool_reachable_submitted:
  "\<not> use_work_stealing p \<Longrightarrow> pool_reachable p \<Longrightarrow> \<not> stopped p \<Longrightarrow>
    pool_reachable (SubmitGlobalQueue t (Submit t p))"
  by (rule pool_reachable.step[OF pool_reachable.step[OF _ pool_step.submit] pool_step.submit_global])
    (simp_all add: Submit_def)

lemma pool_reachable_busy: "pool_reachable pool_busy"
  unfolding pool_busy_def
  by (intro pool_reachable_worker pool_reachable_submitted pool_reachable_start)
    (simp_all add: pool_start_def Submit_def SubmitGlobalQueue_def)

lemma pool_reachable_done: "pool_reachable pool_done"
  unfolding pool_done_def
  by (intro pool_reachable_worker pool_reachable.step[OF _ pool_step.stop] pool_reachable_busy)
    (simp_all add: pool_busy_eq pool_start_def WorkerLoopGlobalQueue_def set_pc_def Stop_def)

text \<open>C1: whenever \<^verbatim>\<open>Stop\<close> returns (the flag is set and every worker has been joined), in either
  mode and after any interleaving of submitters, stoppers and workers, no task is left in a queue or
  in a worker and the tasks executed are exactly the tasks accepted, each as often as it was
  accepted: shutdown waits for everything that was queued.\<close>

theorem Stop_drains:
  assumes "pool_reachable p" "Stop_returns p"
  shows "executed p = accepted p \<and> queued_tasks p = {#} \<and> running_tasks p = {#}"
  using Stop_returns_drained[OF pool_reachable_inv[OF assms(1)] assms(2)] by simp

theorem Stop_drains_witness: "executed pool_done = {#7#} \<and> queued_tasks pool_done = {#}"
proof -
  have "Stop_returns pool_done" by (simp add: Stop_returns_def pool_done_eq pool_start_def)
  then show ?thesis using Stop_drains[OF pool_reachable_done] by (simp add: pool_done_eq)
qed

text \<open>C7: in every reachable state the accepted tasks are, with multiplicity, the queued ones, the
  ones a worker is running and the executed ones: no task is lost, duplicated or run twice, and
  nothing is executed that was not accepted.\<close>

theorem exactly_once:
  assumes "pool_reachable p"
  shows "accepted p = queued_tasks p + running_tasks p + executed p \<and> executed p \<subseteq># accepted p"
  using pool_reachable_inv[OF assms] by (simp add: pool_inv_def)

theorem exactly_once_witness:
  "accepted pool_busy = queued_tasks pool_busy + {#7#} \<and> executed pool_busy = {#}"
  using exactly_once[OF pool_reachable_busy]
  by (simp add: pool_busy_eq pool_start_def running_tasks_def queued_tasks_def)

text \<open>A worker that has left its loop never leaves work behind: from then on the pool is
  stopped and its queues stay empty, so no accepted task can be stranded by an early exit.\<close>

lemma worker_exit_safe:
  assumes "pool_reachable p" "Exited \<in> set (workers p)"
  shows "stopped p \<and> queued_tasks p = {#}"
proof -
  have "pc_ok p Exited" using pool_reachable_inv[OF assms(1)] assms(2) unfolding pool_inv_def by blast
  then show ?thesis by simp
qed

text \<open>A \<^verbatim>\<open>Submit\<close> that has seen the pool running can have its task discarded by the second
  check of \<^verbatim>\<open>stopped_\<close>: the task is then in none of the queues, never executed, and the caller is not
  answered with the \<^verbatim>\<open>runtime_error\<close> future.  Conversely no task is discarded this way before
  the pool is stopped.\<close>

lemma Submit_race_drops:
  "\<exists>p t. pool_reachable p \<and> t \<in># dropped p \<and> t \<notin># accepted p \<and> t \<notin># refused (p :: nat thread_pool)"
proof -
  define p where "p = SubmitGlobalQueue 3 (Stop (Submit 3 pool_start))"
  have "pool_reachable p" unfolding p_def
    by (rule pool_reachable.step[OF pool_reachable.step[OF pool_reachable.step[OF pool_reachable_start
            pool_step.submit] pool_step.stop] pool_step.submit_global])
      (simp_all add: Submit_def Stop_def pool_start_def)
  moreover have "3 \<in># dropped p \<and> 3 \<notin># accepted p \<and> 3 \<notin># refused p"
    by (simp add: p_def SubmitGlobalQueue_def Stop_def Submit_def pool_start_def)
  ultimately show ?thesis by blast
qed

text \<open>For at least two workers the victim drawn by \<^verbatim>\<open>RandomVictim\<close> is the index of another
  worker, and every other worker is drawn by exactly one value of the distribution.\<close>

theorem RandomVictim_other:
  assumes "2 \<le> n" "n \<le> 2 ^ 32" "exclude < n"
  shows "bij_betw (\<lambda>r. unat (RandomVictim (of_nat r) exclude)) {0..n - 2} ({..<n} - {exclude})"
proof -
  have val: "unat (RandomVictim (of_nat r) exclude) = (if exclude \<le> r then r + 1 else r)"
    if "r \<le> n - 2" for r
  proof -
    have "unat (of_nat r :: u32) = r" "unat (of_nat (Suc r) :: u32) = Suc r"
      using that assms by (simp_all only: unsigned_of_nat take_bit_eq_mod) auto
    then show ?thesis by (simp add: RandomVictim_def Let_def add.commute)
  qed
  show ?thesis unfolding bij_betw_def
  proof
    show "inj_on (\<lambda>r. unat (RandomVictim (of_nat r) exclude)) {0..n - 2}"
      by (rule inj_onI) (auto simp: val split: if_splits)
    have "{..<n} - {exclude} \<subseteq> (\<lambda>r. if exclude \<le> r then r + 1 else r) ` {0..n - 2}"
    proof
      fix v assume "v \<in> {..<n} - {exclude}"
      then show "v \<in> (\<lambda>r. if exclude \<le> r then r + 1 else r) ` {0..n - 2}"
        using assms by (intro image_eqI[of _ _ "if exclude < v then v - 1 else v"]) auto
    qed
    moreover have "(\<lambda>r. if exclude \<le> r then r + 1 else r) ` {0..n - 2} \<subseteq> {..<n} - {exclude}"
      using assms by (intro image_subsetI) auto
    ultimately have "(\<lambda>r. if exclude \<le> r then r + 1 else r) ` {0..n - 2} = {..<n} - {exclude}"
      by (rule subset_antisym[rotated])
    moreover have "(\<lambda>r. unat (RandomVictim (of_nat r) exclude)) ` {0..n - 2} =
        (\<lambda>r. if exclude \<le> r then r + 1 else r) ` {0..n - 2}"
      by (rule image_cong) (simp_all add: val)
    ultimately show "(\<lambda>r. unat (RandomVictim (of_nat r) exclude)) ` {0..n - 2} = {..<n} - {exclude}"
      by simp
  qed
qed

text \<open>Between steps \<^verbatim>\<open>QueueSize\<close> is the number of queued tasks, modulo \<open>2 ^ 64\<close>, in either
  mode.\<close>

theorem QueueSize_correct:
  assumes "pool_reachable p"
  shows "QueueSize p mod 2 ^ 64 = size (queued_tasks p) mod 2 ^ 64"
  using pool_reachable_inv[OF assms] QueueSize_deques[of 0 "deques p"]
  by (auto simp: QueueSize_def queued_tasks_def pool_inv_def size_sum_deque_tasks)

end
