(* ===== verification/Stealing_Deque.thy ===== *)
theory Stealing_Deque
  imports Xlab_Prelude
begin

text \<open>
  \<^verbatim>\<open>WorkStealingDeque\<close> of \<^verbatim>\<open>src/cc/algo/src/algo/algo_thread_pool.cc\<close>: a ring buffer with an owner's end and a thieves' end.  Every
  call is described exactly, by the list of slots between the two ends; a slot is \<^const>\<open>None\<close> when its function is empty or was moved
  from.  Calls do not overlap, so that the exchange of \<^verbatim>\<open>top_\<close> succeeds.
\<close>

section \<open>The code\<close>

record 'a stealing_deque =
  sd_buffer :: "'a option list"
  sd_top :: nat
  sd_bottom :: nat
  sd_steal_count :: nat

definition WorkStealingDeque :: "nat \<Rightarrow> 'a stealing_deque" where
  "WorkStealingDeque capacity = \<lparr>sd_buffer = replicate capacity None, sd_top = 0, sd_bottom = 0, sd_steal_count = 0\<rparr>"

text \<open>Differences of \<^verbatim>\<open>size_t\<close> values wrap around.\<close>

definition sub64 :: "nat \<Rightarrow> nat \<Rightarrow> nat" where
  "sub64 a b = (a + 2 ^ 64 - b) mod 2 ^ 64"

text \<open>The loop moves the elements, so that the old slots are empty afterwards.\<close>

definition resizeBuffer :: "'a stealing_deque \<Rightarrow> 'a stealing_deque option" where
  "resizeBuffer q = (let old_size = length (sd_buffer q); t = sd_top q; b = sd_bottom q in do {
     (buffer, new_buffer) \<leftarrow> for_each (\<lambda>i (buffer, new_buffer). do {
         x \<leftarrow> vec_at buffer (i mod old_size);
         new_buffer \<leftarrow> vec_set new_buffer (i mod old_size) x;
         buffer \<leftarrow> vec_set buffer (i mod old_size) None;
         Some (buffer, new_buffer) }) [t..<b] (sd_buffer q, replicate (old_size * 2) None);
     Some (q\<lparr>sd_buffer := new_buffer, sd_top := 0, sd_bottom := sub64 b t\<rparr>)})"

definition pushBottom :: "'a \<Rightarrow> 'a stealing_deque \<Rightarrow> 'a stealing_deque option" where
  "pushBottom task q = do {
     q \<leftarrow> (if sub64 (sd_bottom q) (sd_top q) \<ge> sub64 (length (sd_buffer q)) 1 then resizeBuffer q else Some q);
     let b = sd_bottom q;
     buffer \<leftarrow> vec_set (sd_buffer q) (b mod length (sd_buffer q)) (Some task);
     Some (q\<lparr>sd_buffer := buffer, sd_bottom := b + 1\<rparr>)}"

text \<open>The outer option of a result is \<^verbatim>\<open>std::optional\<close>, the inner one an empty function.\<close>

definition popBottom :: "'a stealing_deque \<Rightarrow> ('a option option \<times> 'a stealing_deque) option" where
  "popBottom q = (if sd_bottom q \<le> sd_top q then Some (None, q)
     else let b = sd_bottom q - 1; q = q\<lparr>sd_bottom := b\<rparr>; top = sd_top q in
       if b > top then do {
         task \<leftarrow> vec_at (sd_buffer q) (b mod length (sd_buffer q));
         buffer \<leftarrow> vec_set (sd_buffer q) (b mod length (sd_buffer q)) None;
         (if b = top then Some (Some task, q\<lparr>sd_buffer := buffer, sd_top := top + 1, sd_bottom := top\<rparr>)
          else Some (Some task, q\<lparr>sd_buffer := buffer\<rparr>))}
       else Some (None, q\<lparr>sd_bottom := top\<rparr>))"

definition steal :: "'a stealing_deque \<Rightarrow> ('a option option \<times> 'a stealing_deque) option" where
  "steal q = (let t = sd_top q in
     if t \<ge> sd_bottom q then Some (None, q)
     else do {
       task \<leftarrow> vec_at (sd_buffer q) (t mod length (sd_buffer q));
       buffer \<leftarrow> vec_set (sd_buffer q) (t mod length (sd_buffer q)) None;
       Some (Some task, q\<lparr>sd_buffer := buffer, sd_top := t + 1, sd_steal_count := sd_steal_count q + 1\<rparr>)})"

definition sd_size :: "'a stealing_deque \<Rightarrow> nat" where
  "sd_size q = (if sd_bottom q > sd_top q then sd_bottom q - sd_top q else 0)"

definition stealCount :: "'a stealing_deque \<Rightarrow> nat" where
  "stealCount q = sd_steal_count q"

section \<open>The slots in use\<close>

definition slots :: "'a stealing_deque \<Rightarrow> 'a option list" where
  "slots q = map (\<lambda>i. sd_buffer q ! (i mod length (sd_buffer q))) [sd_top q..<sd_bottom q]"

definition sd_ok :: "'a stealing_deque \<Rightarrow> bool" where
  "sd_ok q \<longleftrightarrow> 2 \<le> length (sd_buffer q) \<and> sd_top q \<le> sd_bottom q \<and> sd_bottom q - sd_top q < length (sd_buffer q)"

text \<open>Positions and the buffer stay below \<open>2\<^sup>6\<^sup>4\<close>.\<close>

definition sd_small :: "'a stealing_deque \<Rightarrow> bool" where
  "sd_small q \<longleftrightarrow> sd_bottom q < 2 ^ 64 \<and> length (sd_buffer q) < 2 ^ 64"

lemma slots_length [simp]: "length (slots q) = sd_bottom q - sd_top q"
  by (simp add: slots_def)

lemma slots_nth: "i < sd_bottom q - sd_top q \<Longrightarrow> slots q ! i = sd_buffer q ! ((sd_top q + i) mod length (sd_buffer q))"
  by (simp add: slots_def)

lemma sub64_le: "b \<le> a \<Longrightarrow> a < 2 ^ 64 \<Longrightarrow> sub64 a b = a - b"
  unfolding sub64_def by (simp add: algebra_simps mod_if)

lemma mod_distinct: "i < j \<Longrightarrow> j - i < n \<Longrightarrow> i mod n \<noteq> j mod n" for i j n :: nat
  by (metis less_imp_le_nat mod_eq_dvd_iff_nat nat_dvd_not_less zero_less_diff)

lemma WorkStealingDeque_ok: "2 \<le> n \<Longrightarrow> sd_ok (WorkStealingDeque n)" "slots (WorkStealingDeque n) = []"
  by (simp_all add: sd_ok_def WorkStealingDeque_def slots_def)

lemma slots_distinct: "sd_ok q \<Longrightarrow> sd_top q \<le> i \<Longrightarrow> i < j \<Longrightarrow> j \<le> sd_bottom q \<Longrightarrow> i mod length (sd_buffer q) \<noteq> j mod length (sd_buffer q)"
  by (rule mod_distinct) (simp, unfold sd_ok_def, linarith)

lemma residue:
  fixes j n t :: nat
  assumes "j < n"
  shows "\<exists>d < n. (t + d) mod n = j"
proof -
  have "t mod n \<le> n" "n * (t div n) + t mod n = t" using assms by (simp_all add: less_imp_le)
  then have "t + (j + (n - t mod n)) = j + (n * (t div n) + n)" by linarith
  then have "t + (j + (n - t mod n)) = j + n * (t div n + 1)" by simp
  then have "(t + (j + (n - t mod n))) mod n = j" using assms by (simp only: mod_mult_self2 mod_less)
  then have "(t + (j + (n - t mod n)) mod n) mod n = j" by (simp only: mod_add_right_eq)
  then show ?thesis using assms by (intro exI[of _ "(j + (n - t mod n)) mod n"]) simp
qed

lemma sd_index: "sd_ok q \<Longrightarrow> i mod length (sd_buffer q) < length (sd_buffer q)" "sd_ok q \<Longrightarrow> sd_buffer q \<noteq> []"
  unfolding sd_ok_def by (rule mod_less_divisor, linarith, auto)

section \<open>The calls\<close>

lemma sd_size_slots: "sd_size q = length (slots q)"
  by (simp add: sd_size_def)

lemma steal_law:
  assumes "sd_ok q"
  shows "case slots q of [] \<Rightarrow> steal q = Some (None, q)
    | x # xs \<Rightarrow> \<exists>q'. steal q = Some (Some x, q') \<and> sd_ok q' \<and> slots q' = xs \<and> sd_steal_count q' = sd_steal_count q + 1 \<and>
        length (sd_buffer q') = length (sd_buffer q) \<and> sd_bottom q' = sd_bottom q \<and> sd_top q' = sd_top q + 1"
proof (cases "sd_top q < sd_bottom q")
  case False
  then show ?thesis by (simp add: steal_def slots_def)
next
  case True
  let ?n = "length (sd_buffer q)" and ?t = "sd_top q"
  let ?q = "q\<lparr>sd_buffer := (sd_buffer q)[?t mod ?n := None], sd_top := ?t + 1, sd_steal_count := sd_steal_count q + 1\<rparr>"
  note n = sd_index(1)[OF assms, of ?t]
  have eq: "slots q = sd_buffer q ! (?t mod ?n) # map (\<lambda>i. sd_buffer q ! (i mod ?n)) [?t + 1..<sd_bottom q]"
    using True by (simp add: slots_def upt_conv_Cons)
  have "slots ?q = map (\<lambda>i. sd_buffer q ! (i mod ?n)) [?t + 1..<sd_bottom q]"
  proof -
    have "?t mod ?n \<noteq> i mod ?n" if "?t < i" "i < sd_bottom q" for i using slots_distinct[OF assms, of ?t i] that by simp
    then show ?thesis by (simp add: slots_def nth_list_update)
  qed
  moreover have "steal q = Some (Some (sd_buffer q ! (?t mod ?n)), ?q)" using True n by (simp add: steal_def Let_def)
  moreover have "sd_ok ?q" using assms True by (simp add: sd_ok_def) linarith
  ultimately show ?thesis by (simp add: eq)
qed

text \<open>\<^verbatim>\<open>popBottom\<close> takes the last element, but drops a single one.\<close>

lemma popBottom_law:
  assumes "sd_ok q"
  shows "\<exists>q'. popBottom q = Some (if length (slots q) < 2 then None else Some (last (slots q)), q') \<and> sd_ok q' \<and>
    slots q' = (if length (slots q) < 2 then [] else butlast (slots q)) \<and>
    length (sd_buffer q') = length (sd_buffer q) \<and> sd_top q' = sd_top q \<and> sd_bottom q' \<le> sd_bottom q"
proof -
  let ?n = "length (sd_buffer q)" and ?t = "sd_top q" and ?b = "sd_bottom q"
  consider "?b \<le> ?t" | "?b = ?t + 1" | "?t + 1 < ?b" by linarith
  then show ?thesis
  proof cases
    case 1
    then show ?thesis using assms by (simp add: popBottom_def slots_def)
  next
    case 2
    then show ?thesis using assms sd_index(2)[OF assms] by (simp add: popBottom_def slots_def sd_ok_def Let_def)
  next
    case 3
    let ?q = "q\<lparr>sd_bottom := ?b - 1, sd_buffer := (sd_buffer q)[(?b - 1) mod ?n := None]\<rparr>"
    note n = sd_index(1)[OF assms, of "?b - 1"]
    have up: "[?t..<?b] = [?t..<?b - 1] @ [?b - 1]" using 3 upt_Suc_append[of ?t "?b - 1"] by simp
    define ys where "ys = map (\<lambda>i. sd_buffer q ! (i mod ?n)) [?t..<?b - 1]"
    have eq: "slots q = ys @ [sd_buffer q ! ((?b - 1) mod ?n)]" by (simp add: slots_def up ys_def)
    have "slots ?q = ys"
    proof -
      have "(?b - 1) mod ?n \<noteq> i mod ?n" if "?t \<le> i" "i < ?b - 1" for i
        using slots_distinct[OF assms, of i "?b - 1"] that by simp
      then show ?thesis by (simp add: slots_def ys_def nth_list_update)
    qed
    moreover have "popBottom q = Some (Some (sd_buffer q ! ((?b - 1) mod ?n)), ?q)" using 3 n by (simp add: popBottom_def Let_def)
    moreover have "sd_ok ?q" using assms 3 by (auto simp: sd_ok_def)
    moreover have "\<not> length (slots q) < 2" using 3 by simp
    ultimately show ?thesis by (intro exI[of _ ?q]) (simp add: eq)
  qed
qed

text \<open>Resizing keeps the slots where they were but starts to count at 0.\<close>

lemma resizeBuffer_law:
  assumes ok: "sd_ok q" and small: "sd_small q"
  shows "\<exists>q'. resizeBuffer q = Some q' \<and> length (sd_buffer q') = 2 * length (sd_buffer q) \<and> sd_top q' = 0 \<and> sd_bottom q' = length (slots q) \<and>
    (\<forall>j < length (sd_buffer q). sd_buffer q' ! j = (if \<exists>i. sd_top q \<le> i \<and> i < sd_bottom q \<and> j = i mod length (sd_buffer q) then sd_buffer q ! j else None))"
proof -
  let ?n = "length (sd_buffer q)" and ?t = "sd_top q" and ?b = "sd_bottom q"
  let ?body = "\<lambda>i (buffer, new_buffer). do {
         x \<leftarrow> vec_at buffer (i mod ?n); new_buffer \<leftarrow> vec_set new_buffer (i mod ?n) x; buffer \<leftarrow> vec_set buffer (i mod ?n) None;
         Some (buffer, new_buffer) }"
  define I where "I k s \<longleftrightarrow> length (fst s) = ?n \<and> length (snd s) = 2 * ?n \<and>
      (\<forall>i. k \<le> i \<longrightarrow> i < ?b \<longrightarrow> fst s ! (i mod ?n) = sd_buffer q ! (i mod ?n)) \<and>
      (\<forall>j < ?n. snd s ! j = (if \<exists>i. ?t \<le> i \<and> i < k \<and> j = i mod ?n then sd_buffer q ! j else None))"
    for k and s :: "'a option list \<times> 'a option list"
  have "\<exists>s. for_each ?body [?t..<?b] (sd_buffer q, replicate (?n * 2) None) = Some s \<and> I ?b s"
  proof (rule for_each_upt_inv[where I = I])
    show "?t \<le> ?b" using ok by (simp add: sd_ok_def)
    show "I ?t (sd_buffer q, replicate (?n * 2) None)" by (auto simp: I_def)
    fix i s
    assume i: "?t \<le> i" "i < ?b" and s: "I i s"
    obtain buffer new_buffer where [simp]: "s = (buffer, new_buffer)" by (cases s)
    note n = sd_index(1)[OF ok, of i]
    let ?s = "(buffer[i mod ?n := None], new_buffer[i mod ?n := sd_buffer q ! (i mod ?n)])"
    have other: "i mod ?n \<noteq> k mod ?n" if "i < k" "k < ?b" for k using slots_distinct[OF ok, of i k] that i by simp
    have "(\<exists>k. ?t \<le> k \<and> k < Suc i \<and> j = k mod ?n) \<longleftrightarrow> j = i mod ?n \<or> (\<exists>k. ?t \<le> k \<and> k < i \<and> j = k mod ?n)" for j
      using i(1) by (auto simp: less_Suc_eq)
    then have "I (Suc i) ?s" using s n other by (auto simp: I_def nth_list_update Suc_le_eq)
    moreover have "?body i s = Some ?s" using s n i by (simp add: I_def)
    ultimately show "\<exists>s'. ?body i s = Some s' \<and> I (Suc i) s'" by blast
  qed
  then obtain s where s: "for_each ?body [?t..<?b] (sd_buffer q, replicate (?n * 2) None) = Some s" "I ?b s" by blast
  have "sub64 ?b ?t = ?b - ?t" using ok small by (intro sub64_le) (simp_all add: sd_ok_def sd_small_def)
  then show ?thesis using s by (cases s) (simp add: resizeBuffer_def Let_def I_def)
qed

text \<open>
  A full buffer has one slot that is not in use, the one before the first.  After resizing, the slots in use are those from 0 up to the
  last but one: unless the first slot was slot 0, the unused slot is among them and the element of the last slot is not.
\<close>

lemma pushBottom_room:
  assumes ok: "sd_ok q" and small: "sd_small q" and room: "length (slots q) + 1 < length (sd_buffer q)"
  shows "\<exists>q'. pushBottom x q = Some q' \<and> sd_ok q' \<and> slots q' = slots q @ [Some x] \<and> length (sd_buffer q') = length (sd_buffer q) \<and>
    sd_bottom q' = sd_bottom q + 1 \<and> sd_top q' = sd_top q"
proof -
  let ?n = "length (sd_buffer q)" and ?t = "sd_top q" and ?b = "sd_bottom q"
  let ?q = "q\<lparr>sd_buffer := (sd_buffer q)[?b mod ?n := Some x], sd_bottom := ?b + 1\<rparr>"
  note n = sd_index(1)[OF ok, of ?b]
  have "sub64 ?b ?t = ?b - ?t" "sub64 ?n 1 = ?n - 1" using ok small by (intro sub64_le; simp add: sd_ok_def sd_small_def)+
  moreover have "\<not> ?n - 1 \<le> ?b - ?t" using room by simp
  ultimately have "pushBottom x q = Some ?q" using n by (simp add: pushBottom_def Let_def)
  moreover have "slots ?q = slots q @ [Some x]"
  proof -
    have "?b mod ?n \<noteq> i mod ?n" if "?t \<le> i" "i < ?b" for i using slots_distinct[OF ok, of i ?b] that by simp
    then show ?thesis using ok n by (simp add: slots_def sd_ok_def nth_list_update)
  qed
  moreover have "sd_ok ?q" using ok room by (simp add: sd_ok_def)
  ultimately show ?thesis by (intro exI[of _ ?q]) simp
qed

lemma pushBottom_full:
  assumes ok: "sd_ok q" and small: "sd_small q" and full: "length (slots q) + 1 = length (sd_buffer q)"
  shows "\<exists>q'. pushBottom x q = Some q' \<and> sd_ok q' \<and> length (sd_buffer q') = 2 * length (sd_buffer q) \<and> sd_bottom q' = length (sd_buffer q) \<and> sd_top q' = 0 \<and>
    slots q' = map (\<lambda>j. if j = sd_bottom q mod length (sd_buffer q) then None else sd_buffer q ! j) [0..<length (sd_buffer q) - 1] @ [Some x]"
proof -
  let ?n = "length (sd_buffer q)" and ?t = "sd_top q" and ?b = "sd_bottom q"
  obtain q1 where q1: "resizeBuffer q = Some q1" "length (sd_buffer q1) = 2 * ?n" "sd_top q1 = 0" "sd_bottom q1 = length (slots q)"
    "\<And>j. j < ?n \<Longrightarrow> sd_buffer q1 ! j = (if \<exists>i. ?t \<le> i \<and> i < ?b \<and> j = i mod ?n then sd_buffer q ! j else None)"
    using resizeBuffer_law[OF ok small] by blast
  have used: "(\<exists>i. ?t \<le> i \<and> i < ?b \<and> j = i mod ?n) \<longleftrightarrow> j \<noteq> ?b mod ?n" if "j < ?n" for j
  proof
    assume "\<exists>i. ?t \<le> i \<and> i < ?b \<and> j = i mod ?n"
    then obtain i where "?t \<le> i" "i < ?b" "j = i mod ?n" by blast
    then show "j \<noteq> ?b mod ?n" using slots_distinct[OF ok, of i ?b] by simp
  next
    assume j: "j \<noteq> ?b mod ?n"
    obtain d where d: "d < ?n" "(?t + d) mod ?n = j" using residue[OF \<open>j < ?n\<close>] by blast
    have "?t + d \<noteq> ?b" using d(2) j by auto
    then have "?t + d < ?b" using d(1) full ok unfolding sd_ok_def slots_length by linarith
    then show "\<exists>i. ?t \<le> i \<and> i < ?b \<and> j = i mod ?n" using d(2) by (intro exI[of _ "?t + d"]) simp
  qed
  let ?k = "?n - 1"
  let ?q = "q1\<lparr>sd_buffer := (sd_buffer q1)[?k := Some x], sd_bottom := ?n\<rparr>"
  have n: "2 \<le> ?n" using ok by (simp add: sd_ok_def)
  have "sub64 ?b ?t = ?b - ?t" "sub64 ?n 1 = ?n - 1" using ok small by (intro sub64_le; simp add: sd_ok_def sd_small_def)+
  moreover have "?b - ?t = ?n - 1" using full by simp
  ultimately have "pushBottom x q = Some ?q" using q1(1,2,4) n by (simp add: pushBottom_def Let_def)
  moreover have "slots ?q = map (\<lambda>j. if j = ?b mod ?n then None else sd_buffer q ! j) [0..<?k] @ [Some x]"
  proof -
    have k: "Suc ?k = ?n" using n by linarith
    have "[0..<?n] = [0..<?k] @ [?k]" using upt_Suc_append[of 0 ?k] unfolding k by simp
    then show ?thesis using n q1(2,3,5) used sd_index(2)[OF ok] by (simp add: slots_def)
  qed
  moreover have "sd_ok ?q" using n q1(2,3) sd_index(2)[OF ok] by (simp add: sd_ok_def)
  ultimately show ?thesis using q1(2,3) by (intro exI[of _ ?q]) simp
qed

text \<open>In terms of the elements: the first slot is the one after the unused one.\<close>

definition resized :: "nat \<Rightarrow> nat \<Rightarrow> 'a option list \<Rightarrow> 'a option list" where
  "resized n r xs = (if r = 0 then xs else drop (n - r) xs @ None # take (n - r - 1) xs)"

lemma slots_resized:
  assumes ok: "sd_ok q" and full: "length (slots q) + 1 = length (sd_buffer q)"
  shows "map (\<lambda>j. if j = sd_bottom q mod length (sd_buffer q) then None else sd_buffer q ! j) [0..<length (sd_buffer q) - 1] =
    resized (length (sd_buffer q)) (sd_top q mod length (sd_buffer q)) (slots q)"
proof -
  let ?n = "length (sd_buffer q)" and ?t = "sd_top q" and ?b = "sd_bottom q"
  define r where "r = ?t mod ?n"
  have n: "2 \<le> ?n" "r < ?n" using ok sd_index(1)[OF ok, of ?t] by (simp_all add: sd_ok_def r_def)
  have b: "?b = ?t + (?n - 1)" using full ok unfolding sd_ok_def slots_length by linarith
  have at: "(?t + k) mod ?n = (r + k) mod ?n" for k by (simp add: r_def mod_add_left_eq)
  have nth: "slots q ! i = sd_buffer q ! ((r + i) mod ?n)" if "i < ?n - 1" for i
    using that full by (simp add: slots_nth at)
  show ?thesis
  proof (cases "r = 0")
    case True
    have "?b mod ?n = ?n - 1" using at[of "?n - 1"] True n by (simp add: b)
    then show ?thesis using True nth full by (intro nth_equalityI) (simp_all add: resized_def flip: r_def)
  next
    case False
    have "?b mod ?n = (r + (?n - 1)) mod ?n" using at[of "?n - 1"] b by simp
    also have "r + (?n - 1) = (r - 1) + ?n" using False n by simp
    finally have bm: "?b mod ?n = r - 1" using n by simp
    have len: "length (slots q) = ?n - 1" using full by simp
    show ?thesis
    proof (rule nth_equalityI)
      show "length (map (\<lambda>j. if j = ?b mod ?n then None else sd_buffer q ! j) [0..<?n - 1]) = length (resized ?n (?t mod ?n) (slots q))"
        using False n len by (simp add: resized_def flip: r_def)
      fix j
      assume "j < length (map (\<lambda>j. if j = ?b mod ?n then None else sd_buffer q ! j) [0..<?n - 1])"
      then have j: "j < ?n - 1" by simp
      consider "j < r - 1" | "j = r - 1" | "r \<le> j" by linarith
      then have "resized ?n r (slots q) ! j = (if j = r - 1 then None else sd_buffer q ! j)"
      proof cases
        case 1
        have "slots q ! (?n - r + j) = sd_buffer q ! ((r + (?n - r + j)) mod ?n)" using 1 n j by (intro nth) linarith
        moreover have "r + (?n - r + j) = j + ?n" using n by simp
        ultimately show ?thesis using 1 n j len False by (simp add: resized_def nth_append)
      next
        case 2
        then show ?thesis using n len False by (simp add: resized_def nth_append)
      next
        case 3
        have "slots q ! (j - r) = sd_buffer q ! ((r + (j - r)) mod ?n)" using 3 n j by (intro nth) linarith
        moreover have "(r + (j - r)) mod ?n = j" using 3 j by simp
        moreover have "j - (r - 1) = Suc (j - r)" "\<not> j < r - 1" "j \<noteq> r - 1" using 3 False by simp_all
        ultimately show ?thesis using 3 n j len False by (simp add: resized_def nth_append)
      qed
      then show "map (\<lambda>j. if j = ?b mod ?n then None else sd_buffer q ! j) [0..<?n - 1] ! j = resized ?n (?t mod ?n) (slots q) ! j"
        using j bm by (simp flip: r_def)
    qed
  qed
qed

section \<open>Properties\<close>

datatype 'a deque_call = Push 'a | Pop | Steal

fun deque_run :: "'a deque_call list \<Rightarrow> 'a stealing_deque \<Rightarrow> ('a option option list \<times> 'a stealing_deque) option" where
  "deque_run [] q = Some ([], q)"
| "deque_run (Push x # cs) q = do { q \<leftarrow> pushBottom x q; deque_run cs q }"
| "deque_run (Pop # cs) q = do { (r, q) \<leftarrow> popBottom q; (rs, q') \<leftarrow> deque_run cs q; Some (r # rs, q') }"
| "deque_run (Steal # cs) q = do { (r, q) \<leftarrow> steal q; (rs, q') \<leftarrow> deque_run cs q; Some (r # rs, q') }"

text \<open>
  The list machine: its state is the capacity, the slot of the first element and the elements.  It differs from a deque in two places:
  a single element is dropped by \<open>Pop\<close>, and growing inserts an empty element and drops one unless the first slot is slot 0.
\<close>

fun list_run :: "'a deque_call list \<Rightarrow> nat \<Rightarrow> nat \<Rightarrow> 'a option list \<Rightarrow> 'a option option list \<times> 'a option list" where
  "list_run [] n r xs = ([], xs)"
| "list_run (Push x # cs) n r xs = (if length xs + 1 < n then list_run cs n r (xs @ [Some x])
     else list_run cs (2 * n) 0 (resized n r xs @ [Some x]))"
| "list_run (Pop # cs) n r xs = (if length xs < 2 then apfst (Cons None) (list_run cs n r [])
     else apfst (Cons (Some (last xs))) (list_run cs n r (butlast xs)))"
| "list_run (Steal # cs) n r xs = (case xs of [] \<Rightarrow> apfst (Cons None) (list_run cs n r [])
     | x # xs \<Rightarrow> apfst (Cons (Some x)) (list_run cs n ((r + 1) mod n) xs))"

lemma pushBottom_law:
  assumes ok: "sd_ok q" and small: "sd_small q"
  defines "n \<equiv> length (sd_buffer q)" and "r \<equiv> sd_top q mod length (sd_buffer q)"
  shows "\<exists>q'. pushBottom x q = Some q' \<and> sd_ok q' \<and> sd_bottom q' \<le> sd_bottom q + 1 \<and>
    (if length (slots q) + 1 < n then slots q' = slots q @ [Some x] \<and> length (sd_buffer q') = n \<and> sd_top q' mod n = r
     else slots q' = resized n r (slots q) @ [Some x] \<and> length (sd_buffer q') = 2 * n \<and> sd_top q' = 0 \<and> n \<le> sd_bottom q + 1)"
proof (cases "length (slots q) + 1 < n")
  case True
  then obtain q' where "pushBottom x q = Some q'" "sd_ok q'" "slots q' = slots q @ [Some x]" "length (sd_buffer q') = n" "sd_bottom q' = sd_bottom q + 1" "sd_top q' = sd_top q"
    using pushBottom_room[OF ok small, of x] unfolding n_def by blast
  then show ?thesis using True by (intro exI[of _ q']) (simp add: n_def r_def)
next
  case False
  then have full: "length (slots q) + 1 = length (sd_buffer q)" using ok by (simp add: n_def sd_ok_def)
  then obtain q' where "pushBottom x q = Some q'" "sd_ok q'" "length (sd_buffer q') = 2 * n" "sd_bottom q' = n" "sd_top q' = 0"
      "slots q' = resized n r (slots q) @ [Some x]"
    using pushBottom_full[OF ok small full, of x] unfolding slots_resized[OF ok full] n_def r_def by blast
  moreover have "n \<le> sd_bottom q + 1" using full by (simp add: n_def)
  ultimately show ?thesis using False by (intro exI[of _ q']) simp
qed

lemma deque_run_list:
  "sd_ok q \<Longrightarrow> length (sd_buffer q) < 2 ^ 64 \<Longrightarrow> sd_bottom q + length cs < 2 ^ 62 \<Longrightarrow>
    map_option fst (deque_run cs q) = Some (fst (list_run cs (length (sd_buffer q)) (sd_top q mod length (sd_buffer q)) (slots q))) \<and>
    map_option (slots \<circ> snd) (deque_run cs q) = Some (snd (list_run cs (length (sd_buffer q)) (sd_top q mod length (sd_buffer q)) (slots q)))"
proof (induction cs arbitrary: q)
  case (Cons c cs)
  let ?n = "length (sd_buffer q)" and ?r = "sd_top q mod length (sd_buffer q)"
  show ?case
  proof (cases c)
    case (Push x)
    have small: "sd_small q" using Cons.prems by (simp add: sd_small_def)
    from pushBottom_law[OF Cons.prems(1) small, of x] obtain q' where q': "pushBottom x q = Some q'" "sd_ok q'" "sd_bottom q' \<le> sd_bottom q + 1"
      "if length (slots q) + 1 < ?n then slots q' = slots q @ [Some x] \<and> length (sd_buffer q') = ?n \<and> sd_top q' mod ?n = ?r
       else slots q' = resized ?n ?r (slots q) @ [Some x] \<and> length (sd_buffer q') = 2 * ?n \<and> sd_top q' = 0 \<and> ?n \<le> sd_bottom q + 1" by blast
    have "length (sd_buffer q') < 2 ^ 64" "sd_bottom q' + length cs < 2 ^ 62" using q'(3,4) Cons.prems by (auto split: if_splits)
    from Cons.IH[OF q'(2) this] show ?thesis using q'(1,4) Push by (auto split: if_splits)
  next
    case Pop
    from popBottom_law[OF Cons.prems(1)] obtain q' where q': "popBottom q = Some (if length (slots q) < 2 then None else Some (last (slots q)), q')"
      "sd_ok q'" "slots q' = (if length (slots q) < 2 then [] else butlast (slots q))" "length (sd_buffer q') = ?n" "sd_top q' = sd_top q"
      "sd_bottom q' \<le> sd_bottom q" by blast
    have "length (sd_buffer q') < 2 ^ 64" "sd_bottom q' + length cs < 2 ^ 62" using q' Cons.prems by auto
    from Cons.IH[OF q'(2) this] q' show ?thesis
      unfolding Pop by (cases "deque_run cs q'") (auto split: prod.splits)
  next
    case Steal
    show ?thesis
    proof (cases "slots q")
      case Nil
      then have "steal q = Some (None, q)" using steal_law[OF Cons.prems(1)] by simp
      then show ?thesis using Cons.IH[OF Cons.prems(1)] Cons.prems Nil unfolding Steal by (cases "deque_run cs q") auto
    next
      case Nil': (Cons x xs)
      then obtain q' where q': "steal q = Some (Some x, q')" "sd_ok q'" "slots q' = xs" "length (sd_buffer q') = ?n" "sd_bottom q' = sd_bottom q"
          "sd_top q' = sd_top q + 1"
        using steal_law[OF Cons.prems(1)] by auto
      have "length (sd_buffer q') < 2 ^ 64" "sd_bottom q' + length cs < 2 ^ 62" using q' Cons.prems by auto
      moreover have "sd_top q' mod ?n = (?r + 1) mod ?n" by (simp add: q'(6) mod_Suc_eq)
      ultimately show ?thesis using Cons.IH[OF q'(2)] q' Nil' unfolding Steal by (cases "deque_run cs q'") auto
    qed
  qed
qed simp

text \<open>
  C9: the work-stealing deque answers every sequence of calls that do not overlap as the list machine: it never
  leaves its buffer, but drops a task popped as the only one, and on growing drops one and makes an empty one unless no task was stolen
  since the slots were laid out.
\<close>

theorem deque_refines_leaky:
  fixes cs :: "'a deque_call list"
  assumes "2 \<le> n" "n < 2 ^ 64" "length cs < 2 ^ 62"
  shows "\<exists>q. deque_run cs (WorkStealingDeque n) = Some (fst (list_run cs n 0 []), q) \<and> slots q = snd (list_run cs n 0 [])"
proof -
  let ?q = "WorkStealingDeque n :: 'a stealing_deque"
  have w: "sd_bottom ?q = 0" "length (sd_buffer ?q) = n" "sd_top ?q = 0" "slots ?q = []"
    by (simp_all add: WorkStealingDeque_def slots_def)
  have "map_option fst (deque_run cs ?q) = Some (fst (list_run cs n 0 [])) \<and> map_option (slots \<circ> snd) (deque_run cs ?q) = Some (snd (list_run cs n 0 []))"
    using deque_run_list[OF WorkStealingDeque_ok(1)[OF assms(1)], of cs] assms(2,3) by (simp only: w) simp
  then show ?thesis by (cases "deque_run cs ?q") auto
qed

text \<open>A task pushed and popped by its owner is gone; after a steal, growing loses the fourth task and makes an empty one.\<close>

theorem deque_refines_leaky_witness:
  "map_option fst (deque_run [Push 1, Pop, Pop] (WorkStealingDeque 4)) = Some [None, None] \<and>
   map_option fst (deque_run [Push 1, Push 2, Steal, Push 3, Push 4, Push (5 :: int), Steal, Steal, Steal, Steal] (WorkStealingDeque 4)) =
     Some [Some (Some 1), Some None, Some (Some 2), Some (Some 3), Some (Some 5)]"
  using deque_refines_leaky[of 4 "[Push 1, Pop, Pop]"]
    deque_refines_leaky[of 4 "[Push 1, Push 2, Steal, Push 3, Push 4, Push (5 :: int), Steal, Steal, Steal, Steal]"]
  by (auto simp: resized_def)

end
