(* ===== verification/Stealing_Pool.thy ===== *)
theory Stealing_Pool
  imports Stealing_Deque
begin

text \<open>
  \<^verbatim>\<open>ThreadPool\<close> of \<^verbatim>\<open>src/cc/algo/src/algo/algo_thread_pool.cc\<close>: workers with stealing deques, sharded shared queues and rejection
  policies.  Any number of submitting threads and the workers interleave, in steps of one access to a shared field: a load, store or
  exchange of an atomic, one move of a function into or out of a slot, one access to a vector, one critical section of a shard.
  \<^const>\<open>None\<close> is an index outside a vector or a remainder by zero.
\<close>

section \<open>The calls of a deque, access by access\<close>

text \<open>
  Program points of the calls; the functions and numbers they carry are local variables.  No call excludes another, so
  any of these points may be reached by several threads on one deque.
\<close>

datatype 'a dq_pc =
  DqPushBottom 'a
| DqPushTop 'a nat
| DqPushCheck 'a nat nat
| DqGrowNew 'a
| DqGrowTop 'a nat "'a option list"
| DqGrowBottom 'a nat "'a option list" nat
| DqGrowMove 'a nat "'a option list" nat nat nat
| DqGrowReplace 'a "'a option list" nat nat
| DqGrowStoreTop 'a nat nat
| DqGrowStoreBottom 'a nat nat
| DqPushReload 'a
| DqPushWrite 'a nat
| DqPushStore nat
| DqPushed
| DqPopBottom
| DqPopTop nat
| DqPopStore nat
| DqPopTopAgain nat
| DqPopMove nat nat
| DqPopExchange "'a option" nat nat
| DqPopStoreTop "'a option" nat
| DqPopStoreBack nat
| DqPopReset nat
| DqStealTop
| DqStealBottom nat
| DqStealExchange nat
| DqStealCount nat
| DqStealMove nat
| DqTaken "'a option option"
| DqSizeBottom
| DqSizeTop nat
| DqSized nat

definition inc64 :: "nat \<Rightarrow> nat" where
  "inc64 a = (a + 1) mod 2 ^ 64"

text \<open>\<^verbatim>\<open>std::move(buffer_[i % buffer_.size()])\<close>: the slot is empty afterwards.\<close>

definition move_slot :: "'a stealing_deque \<Rightarrow> nat \<Rightarrow> ('a option \<times> 'a stealing_deque) option" where
  "move_slot q i = do {
     task \<leftarrow> vec_at (sd_buffer q) (i mod length (sd_buffer q));
     buffer \<leftarrow> vec_set (sd_buffer q) (i mod length (sd_buffer q)) None;
     Some (task, q\<lparr>sd_buffer := buffer\<rparr>)}"

fun dq_grow_step :: "'a stealing_deque \<Rightarrow> 'a dq_pc \<Rightarrow> ('a stealing_deque \<times> 'a dq_pc) option" where
  "dq_grow_step q (DqGrowNew task) = (let old_size = length (sd_buffer q) in Some (q, DqGrowTop task old_size (replicate (old_size * 2) None)))"
| "dq_grow_step q (DqGrowTop task old_size new_buffer) = Some (q, DqGrowBottom task old_size new_buffer (sd_top q))"
| "dq_grow_step q (DqGrowBottom task old_size new_buffer t) = Some (q, DqGrowMove task old_size new_buffer t (sd_bottom q) t)"
| "dq_grow_step q (DqGrowMove task old_size new_buffer t b i) =
       (if i < b then do {
          x \<leftarrow> vec_at (sd_buffer q) (i mod old_size);
          new_buffer \<leftarrow> vec_set new_buffer (i mod old_size) x;
          buffer \<leftarrow> vec_set (sd_buffer q) (i mod old_size) None;
          Some (q\<lparr>sd_buffer := buffer\<rparr>, DqGrowMove task old_size new_buffer t b (i + 1)) }
        else Some (q, DqGrowReplace task new_buffer t b))"
| "dq_grow_step q (DqGrowReplace task new_buffer t b) = Some (q\<lparr>sd_buffer := new_buffer\<rparr>, DqGrowStoreTop task t b)"
| "dq_grow_step q (DqGrowStoreTop task t b) = Some (q\<lparr>sd_top := 0\<rparr>, DqGrowStoreBottom task t b)"
| "dq_grow_step q (DqGrowStoreBottom task t b) = Some (q\<lparr>sd_bottom := sub64 b t\<rparr>, DqPushReload task)"
| "dq_grow_step q pc = Some (q, pc)"

fun dq_push_step :: "'a stealing_deque \<Rightarrow> 'a dq_pc \<Rightarrow> ('a stealing_deque \<times> 'a dq_pc) option" where
  "dq_push_step q (DqPushBottom task) = Some (q, DqPushTop task (sd_bottom q))"
| "dq_push_step q (DqPushTop task b) = Some (q, DqPushCheck task b (sd_top q))"
| "dq_push_step q (DqPushCheck task b t) = Some (q, if sub64 b t \<ge> sub64 (length (sd_buffer q)) 1 then DqGrowNew task else DqPushWrite task b)"
| "dq_push_step q (DqPushReload task) = Some (q, DqPushWrite task (sd_bottom q))"
| "dq_push_step q (DqPushWrite task b) = do {
       buffer \<leftarrow> vec_set (sd_buffer q) (b mod length (sd_buffer q)) (Some task);
       Some (q\<lparr>sd_buffer := buffer\<rparr>, DqPushStore b)}"
| "dq_push_step q (DqPushStore b) = Some (q\<lparr>sd_bottom := inc64 b\<rparr>, DqPushed)"
| "dq_push_step q DqPushed = Some (q, DqPushed)"
| "dq_push_step q pc = dq_grow_step q pc"

text \<open>The exchange in \<^verbatim>\<open>popBottom\<close> stands behind a test that excludes it; when it fails, the moved function is destroyed.\<close>

fun dq_pop_step :: "'a stealing_deque \<Rightarrow> 'a dq_pc \<Rightarrow> ('a stealing_deque \<times> 'a dq_pc) option" where
  "dq_pop_step q DqPopBottom = Some (q, DqPopTop (sd_bottom q))"
| "dq_pop_step q (DqPopTop b) = Some (q, if b \<le> sd_top q then DqTaken None else DqPopStore (b - 1))"
| "dq_pop_step q (DqPopStore b) = Some (q\<lparr>sd_bottom := b\<rparr>, DqPopTopAgain b)"
| "dq_pop_step q (DqPopTopAgain b) = Some (q, if b > sd_top q then DqPopMove b (sd_top q) else DqPopReset (sd_top q))"
| "dq_pop_step q (DqPopMove b tp) = do {
       (task, q) \<leftarrow> move_slot q b;
       Some (q, if b = tp then DqPopExchange task b tp else DqTaken (Some task))}"
| "dq_pop_step q (DqPopExchange task b tp) =
       Some (if sd_top q = tp then (q\<lparr>sd_top := inc64 tp\<rparr>, DqPopStoreTop task tp) else (q, DqPopStoreBack b))"
| "dq_pop_step q (DqPopStoreTop task tp) = Some (q\<lparr>sd_bottom := tp\<rparr>, DqTaken (Some task))"
| "dq_pop_step q (DqPopStoreBack b) = Some (q\<lparr>sd_bottom := b\<rparr>, DqTaken None)"
| "dq_pop_step q (DqPopReset tp) = Some (q\<lparr>sd_bottom := tp\<rparr>, DqTaken None)"
| "dq_pop_step q pc = Some (q, pc)"

fun dq_steal_step :: "'a stealing_deque \<Rightarrow> 'a dq_pc \<Rightarrow> ('a stealing_deque \<times> 'a dq_pc) option" where
  "dq_steal_step q DqStealTop = Some (q, DqStealBottom (sd_top q))"
| "dq_steal_step q (DqStealBottom t) = Some (q, if t \<ge> sd_bottom q then DqTaken None else DqStealExchange t)"
| "dq_steal_step q (DqStealExchange t) = Some (if sd_top q = t then (q\<lparr>sd_top := inc64 t\<rparr>, DqStealCount t) else (q, DqTaken None))"
| "dq_steal_step q (DqStealCount t) = Some (q\<lparr>sd_steal_count := sd_steal_count q + 1\<rparr>, DqStealMove t)"
| "dq_steal_step q (DqStealMove t) = do { (task, q) \<leftarrow> move_slot q t; Some (q, DqTaken (Some task)) }"
| "dq_steal_step q pc = Some (q, pc)"

fun dq_size_step :: "'a stealing_deque \<Rightarrow> 'a dq_pc \<Rightarrow> ('a stealing_deque \<times> 'a dq_pc) option" where
  "dq_size_step q DqSizeBottom = Some (q, DqSizeTop (sd_bottom q))"
| "dq_size_step q (DqSizeTop b) = Some (q, DqSized (if b > sd_top q then b - sd_top q else 0))"
| "dq_size_step q pc = Some (q, pc)"

section \<open>The pool\<close>

datatype reject_policy = CALLER_RUNS | DISCARD | DISCARD_OLDEST | ABORT

text \<open>What a call may throw: the call of an empty function, or the error of \<open>ABORT\<close>.\<close>

datatype sp_exception = BadFunctionCall | QueueFull

datatype sp_call = Submit | SubmitVoid

text \<open>
  Program points of a worker and of a thread in \<^verbatim>\<open>submit\<close> or \<^verbatim>\<open>submitVoid\<close>.  A call returns whether the task was accepted
  (\<^verbatim>\<open>submit\<close> returns its future in both cases) or throws.
\<close>

datatype 'a sp_pc =
  WStart
| WGrow
| WOwn
| WLoop
| WFrom
| WMost nat
| WSteal nat nat nat
| WStealing nat nat nat nat "'a dq_pc"
| WPopping "'a dq_pc"
| WShard
| WTakeShard nat
| WShardAgain
| WOther nat nat
| WTakeOther nat nat
| WFound 'a
| WRunning 'a
| WRan
| WExited
| CPick sp_call 'a
| CSize sp_call 'a nat "'a dq_pc"
| CPush nat "'a dq_pc"
| CShard sp_call 'a nat
| CPushShard sp_call 'a nat
| CReject "'a option"
| CDiscard nat "'a dq_pc"
| CReturned "sp_exception + bool"

record 'a steal_pool =
  sp_workers :: "'a sp_pc list"
  sp_clients :: "'a sp_pc list"
  sp_local :: "'a stealing_deque list"
  sp_shared :: "'a list list"
  sp_shutdown :: bool
  sp_active :: nat
  sp_policy :: reject_policy
  sp_max :: nat
  sp_next :: nat
  sp_executed :: "'a list"

text \<open>The constructor starts the threads first and then makes the shards, one after the other.\<close>

definition sp_ThreadPool :: "nat \<Rightarrow> nat \<Rightarrow> reject_policy \<Rightarrow> nat \<Rightarrow> 'a steal_pool" where
  "sp_ThreadPool hardware_concurrency num_threads policy max_queue_size =
     (let n = (if num_threads = 0 then hardware_concurrency else num_threads); n = (if n = 0 then 4 else n) in
      \<lparr>sp_workers = replicate n WStart, sp_clients = [], sp_local = [], sp_shared = [], sp_shutdown = False, sp_active = 0,
       sp_policy = policy, sp_max = max_queue_size, sp_next = 0, sp_executed = []\<rparr>)"

definition num_shards :: "'a steal_pool \<Rightarrow> nat" where
  "num_shards p = min (length (sp_workers p) * 2) 32"

definition sp_add_shard :: "'a steal_pool \<Rightarrow> 'a steal_pool option" where
  "sp_add_shard p = (if length (sp_shared p) < num_shards p then Some (p\<lparr>sp_shared := sp_shared p @ [[]]\<rparr>) else None)"

text \<open>A step of a call on the deque \<open>idx\<close>; \<open>k\<close> says how the caller goes on.\<close>

definition on_deque :: "('a stealing_deque \<Rightarrow> 'a dq_pc \<Rightarrow> ('a stealing_deque \<times> 'a dq_pc) option) \<Rightarrow> nat \<Rightarrow> 'a dq_pc \<Rightarrow> 'a steal_pool \<Rightarrow>
    ('a dq_pc \<Rightarrow> 'a sp_pc) \<Rightarrow> ('a steal_pool \<times> 'a sp_pc) option" where
  "on_deque step idx d p k = do {
     q \<leftarrow> vec_at (sp_local p) idx;
     (q, d) \<leftarrow> step q d;
     Some (p\<lparr>sp_local := (sp_local p)[idx := q]\<rparr>, k d)}"

text \<open>One critical section that takes the front of a shard.\<close>

definition take_shard :: "nat \<Rightarrow> 'a steal_pool \<Rightarrow> 'a sp_pc \<Rightarrow> ('a steal_pool \<times> 'a sp_pc) option" where
  "take_shard shard p otherwise = do {
     queue \<leftarrow> vec_at (sp_shared p) shard;
     Some (case queue of [] \<Rightarrow> (p, otherwise) | t # ts \<Rightarrow> (p\<lparr>sp_shared := (sp_shared p)[shard := ts]\<rparr>, WFound t))}"

fun worker_step :: "nat \<Rightarrow> 'a steal_pool \<Rightarrow> 'a sp_pc \<Rightarrow> ('a steal_pool \<times> 'a sp_pc) option" where
  "worker_step worker_id p WStart = Some (p, if length (sp_local p) \<le> worker_id then WGrow else WOwn)"
| "worker_step worker_id p WGrow = Some (p\<lparr>sp_local := sp_local p @ [WorkStealingDeque 256]\<rparr>, WOwn)"
| "worker_step worker_id p WOwn = (if worker_id < length (sp_local p) then Some (p, WLoop) else None)"
| "worker_step worker_id p WLoop = Some (p, if sp_shutdown p then WExited else WFrom)"
| "worker_step worker_id p WFrom = (if sp_local p = [] then None else Some (p, WMost ((worker_id + 1) mod length (sp_local p))))"
| "worker_step worker_id p (WMost start) = Some (p, WSteal start 0 (length (sp_local p)))"
| "worker_step worker_id p (WSteal start steals max_steals) =
       (if steals < max_steals then
          if sp_local p = [] then None
          else let idx = (start + steals) mod length (sp_local p) in
            Some (p, if idx \<noteq> worker_id then WStealing start steals max_steals idx DqStealTop else WSteal start (steals + 1) max_steals)
        else Some (p, WPopping DqPopBottom))"
| "worker_step worker_id p (WStealing start steals max_steals idx d) = on_deque dq_steal_step idx d p (\<lambda>d. case d of
       DqTaken r \<Rightarrow> (case r of Some (Some t) \<Rightarrow> WFound t | _ \<Rightarrow> WSteal start (steals + 1) max_steals)
     | _ \<Rightarrow> WStealing start steals max_steals idx d)"
| "worker_step worker_id p (WPopping d) = on_deque dq_pop_step worker_id d p (\<lambda>d. case d of
       DqTaken r \<Rightarrow> (case r of Some (Some t) \<Rightarrow> WFound t | _ \<Rightarrow> WShard)
     | _ \<Rightarrow> WPopping d)"
| "worker_step worker_id p WShard = (if sp_shared p = [] then None else Some (p, WTakeShard (worker_id mod length (sp_shared p))))"
| "worker_step worker_id p (WTakeShard shard) = take_shard shard p WShardAgain"
| "worker_step worker_id p WShardAgain = (if sp_shared p = [] then None else Some (p, WOther (worker_id mod length (sp_shared p)) 0))"
| "worker_step worker_id p (WOther shard i) = Some (p,
       if i < length (sp_shared p) then if i = shard then WOther shard (i + 1) else WTakeOther shard i else WLoop)"
| "worker_step worker_id p (WTakeOther shard i) = take_shard i p (WOther shard (i + 1))"
| "worker_step worker_id p (WFound t) = Some (p\<lparr>sp_active := sp_active p + 1\<rparr>, WRunning t)"
| "worker_step worker_id p (WRunning t) = Some (p\<lparr>sp_executed := sp_executed p @ [t]\<rparr>, WRan)"
| "worker_step worker_id p WRan = Some (p\<lparr>sp_active := sp_active p - 1\<rparr>, WLoop)"
| "worker_step worker_id p pc = Some (p, pc)"

text \<open>
  \<^verbatim>\<open>submit\<close> wraps the task twice, so that the function given to \<^verbatim>\<open>handleRejection\<close> is not empty; \<^verbatim>\<open>submitVoid\<close> has moved its task away
  when it hands it over.
\<close>

definition rejected :: "sp_call \<Rightarrow> 'a \<Rightarrow> 'a option" where
  "rejected c task = (case c of Submit \<Rightarrow> Some task | SubmitVoid \<Rightarrow> None)"

definition handleRejection :: "'a steal_pool \<Rightarrow> 'a option \<Rightarrow> ('a steal_pool \<times> 'a sp_pc) option" where
  "handleRejection p task = (case sp_policy p of
     CALLER_RUNS \<Rightarrow> Some (case task of
         None \<Rightarrow> (p, CReturned (Inl BadFunctionCall))
       | Some t \<Rightarrow> (p\<lparr>sp_executed := sp_executed p @ [t]\<rparr>, CReturned (Inr False)))
   | DISCARD \<Rightarrow> Some (p, CReturned (Inr False))
   | DISCARD_OLDEST \<Rightarrow> (if sp_local p = [] then None else Some (p, CDiscard (sp_next p mod length (sp_local p)) DqPopBottom))
   | ABORT \<Rightarrow> Some (p, CReturned (Inl QueueFull)))"

fun client_step :: "'a steal_pool \<Rightarrow> 'a sp_pc \<Rightarrow> ('a steal_pool \<times> 'a sp_pc) option" where
  "client_step p (CPick c task) = (if sp_local p = [] then None
       else Some (p\<lparr>sp_next := inc64 (sp_next p)\<rparr>, CSize c task (sp_next p mod length (sp_local p)) DqSizeBottom))"
| "client_step p (CSize c task idx d) = on_deque dq_size_step idx d p (\<lambda>d. case d of
       DqSized local_size \<Rightarrow> (if local_size < sp_max p then CPush idx (DqPushBottom task) else CShard c task idx)
     | _ \<Rightarrow> CSize c task idx d)"
| "client_step p (CPush idx d) = on_deque dq_push_step idx d p (\<lambda>d. case d of DqPushed \<Rightarrow> CReturned (Inr True) | _ \<Rightarrow> CPush idx d)"
| "client_step p (CShard c task idx) = (if sp_shared p = [] then None else Some (p, CPushShard c task (idx mod length (sp_shared p))))"
| "client_step p (CPushShard c task shard) = do {
       queue \<leftarrow> vec_at (sp_shared p) shard;
       Some (if length queue < sp_max p then (p\<lparr>sp_shared := (sp_shared p)[shard := queue @ [task]]\<rparr>, CReturned (Inr True))
             else (p, CReject (rejected c task)))}"
| "client_step p (CReject task) = handleRejection p task"
| "client_step p (CDiscard idx d) = on_deque dq_pop_step idx d p (\<lambda>d. case d of DqTaken _ \<Rightarrow> CReturned (Inr False) | _ \<Rightarrow> CDiscard idx d)"
| "client_step p pc = Some (p, pc)"

definition shutdownAll :: "'a steal_pool \<Rightarrow> 'a steal_pool" where
  "shutdownAll p = p\<lparr>sp_shutdown := True\<rparr>"

text \<open>
  One event of the program: the constructor makes a shard, a thread enters \<^verbatim>\<open>submit\<close> or \<^verbatim>\<open>submitVoid\<close> (when the constructor is
  done), a worker or a submitting thread makes a step, a thread sets the shutdown flag.
\<close>

datatype 'a sp_event = AddShard | Enter sp_call 'a | WorkerStep nat | ClientStep nat | Shutdown

definition sp_event :: "'a sp_event \<Rightarrow> 'a steal_pool \<Rightarrow> 'a steal_pool option" where
  "sp_event e p = (case e of
     AddShard \<Rightarrow> sp_add_shard p
   | Enter c task \<Rightarrow> (if length (sp_shared p) = num_shards p then Some (p\<lparr>sp_clients := sp_clients p @ [CPick c task]\<rparr>) else None)
   | WorkerStep i \<Rightarrow> do {
       pc \<leftarrow> vec_at (sp_workers p) i;
       (p, pc) \<leftarrow> worker_step i p pc;
       Some (p\<lparr>sp_workers := (sp_workers p)[i := pc]\<rparr>)}
   | ClientStep i \<Rightarrow> do {
       pc \<leftarrow> vec_at (sp_clients p) i;
       (p, pc) \<leftarrow> client_step p pc;
       Some (p\<lparr>sp_clients := (sp_clients p)[i := pc]\<rparr>)}
   | Shutdown \<Rightarrow> Some (shutdownAll p))"

definition submitted :: "'a sp_event \<Rightarrow> 'a list" where
  "submitted e = (case e of Enter c task \<Rightarrow> [task] | _ \<Rightarrow> [])"

text \<open>The states the program reaches, with the tasks given to it in order.\<close>

inductive sp_reach :: "nat \<Rightarrow> nat \<Rightarrow> reject_policy \<Rightarrow> nat \<Rightarrow> 'a list \<Rightarrow> 'a steal_pool \<Rightarrow> bool" for hw n policy mx where
  new: "sp_reach hw n policy mx [] (sp_ThreadPool hw n policy mx)"
| event: "sp_reach hw n policy mx xs p \<Longrightarrow> sp_event e p = Some p' \<Longrightarrow> sp_reach hw n policy mx (xs @ submitted e) p'"

text \<open>The observers, as functions of one state.\<close>

definition numThreads :: "'a steal_pool \<Rightarrow> nat" where
  "numThreads p = length (sp_workers p)"

definition local_queues_sum :: "'a steal_pool \<Rightarrow> nat" where
  "local_queues_sum p = sum_list (map sd_size (sp_local p))"

definition shared_queues_sum :: "'a steal_pool \<Rightarrow> nat" where
  "shared_queues_sum p = sum_list (map length (sp_shared p))"

definition pendingCount :: "'a steal_pool \<Rightarrow> nat" where
  "pendingCount p = local_queues_sum p + shared_queues_sum p"

text \<open>\<^verbatim>\<open>wait\<close> returns when this holds.\<close>

definition wait_over :: "'a steal_pool \<Rightarrow> bool" where
  "wait_over p \<longleftrightarrow> \<not> (pendingCount p > 0 \<or> sp_active p > 0)"

section \<open>Where the tasks are\<close>

definition items :: "'a option list \<Rightarrow> 'a multiset" where
  "items xs = mset (concat (map (case_option [] (\<lambda>x. [x])) xs))"

lemma items_simps [simp]: "items [] = {#}" "items (Some x # xs) = add_mset x (items xs)" "items (None # xs) = items xs" "items (xs @ ys) = items xs + items ys"
  "items (replicate n None) = {#}"
  by (simp_all add: items_def)

definition dq_held :: "'a dq_pc \<Rightarrow> 'a multiset" where
  "dq_held pc = (case pc of
     DqPushBottom task \<Rightarrow> {#task#} | DqPushTop task _ \<Rightarrow> {#task#} | DqPushCheck task _ _ \<Rightarrow> {#task#} | DqGrowNew task \<Rightarrow> {#task#}
   | DqGrowTop task _ new_buffer \<Rightarrow> add_mset task (items new_buffer)
   | DqGrowBottom task _ new_buffer _ \<Rightarrow> add_mset task (items new_buffer)
   | DqGrowMove task _ new_buffer _ _ _ \<Rightarrow> add_mset task (items new_buffer)
   | DqGrowReplace task new_buffer _ _ \<Rightarrow> add_mset task (items new_buffer)
   | DqGrowStoreTop task _ _ \<Rightarrow> {#task#} | DqGrowStoreBottom task _ _ \<Rightarrow> {#task#} | DqPushReload task \<Rightarrow> {#task#} | DqPushWrite task _ \<Rightarrow> {#task#}
   | DqPopExchange task _ _ \<Rightarrow> items [task] | DqPopStoreTop task _ \<Rightarrow> items [task]
   | DqTaken r \<Rightarrow> (case r of None \<Rightarrow> {#} | Some task \<Rightarrow> items [task])
   | _ \<Rightarrow> {#})"

definition held :: "'a sp_pc \<Rightarrow> 'a multiset" where
  "held pc = (case pc of
     WStealing _ _ _ _ d \<Rightarrow> dq_held d | WPopping d \<Rightarrow> dq_held d | WFound t \<Rightarrow> {#t#} | WRunning t \<Rightarrow> {#t#}
   | CPick _ t \<Rightarrow> {#t#} | CSize _ t _ d \<Rightarrow> add_mset t (dq_held d) | CPush _ d \<Rightarrow> dq_held d | CShard _ t _ \<Rightarrow> {#t#} | CPushShard _ t _ \<Rightarrow> {#t#}
   | CReject t \<Rightarrow> items [t] | CDiscard _ d \<Rightarrow> dq_held d | _ \<Rightarrow> {#})"

definition buffers_items :: "'a stealing_deque list \<Rightarrow> 'a multiset" where
  "buffers_items qs = sum_list (map (\<lambda>q. items (sd_buffer q)) qs)"

text \<open>The tasks outside the threads.\<close>

definition pool_items :: "'a steal_pool \<Rightarrow> 'a multiset" where
  "pool_items p = mset (sp_executed p) + buffers_items (sp_local p) + sum_list (map mset (sp_shared p))"

lemma items_set: "i < length xs \<Longrightarrow> items (xs[i := y]) + items [xs ! i] = items xs + items [y]"
proof (induction xs arbitrary: i)
  case (Cons x xs)
  then show ?case
  proof (cases i)
    case 0
    then show ?thesis by (cases x; cases y) (simp_all add: ac_simps)
  next
    case (Suc j)
    then show ?thesis using Cons by (cases x) (auto simp: ac_simps)
  qed
qed simp










lemma held_simps [simp]:
  "held (WStealing a b c e d) = dq_held d" "held (WPopping d) = dq_held d" "held (WFound t) = {#t#}" "held (WRunning t) = {#t#}"
  "held (CPick x t) = {#t#}" "held (CSize x t i d) = add_mset t (dq_held d)" "held (CPush i d) = dq_held d" "held (CShard x t i) = {#t#}"
  "held (CPushShard x t i) = {#t#}" "held (CReject r) = items [r]" "held (CDiscard i d) = dq_held d" "held (CReturned res) = {#}"
  "held WStart = {#}" "held WGrow = {#}" "held WOwn = {#}" "held WLoop = {#}" "held WFrom = {#}" "held (WMost a) = {#}" "held (WSteal a b c) = {#}"
  "held WShard = {#}" "held (WTakeShard i) = {#}" "held WShardAgain = {#}" "held (WOther a b) = {#}" "held (WTakeOther a b) = {#}" "held WRan = {#}" "held WExited = {#}"
  by (simp_all add: held_def)

lemma dq_held_simps [simp]:
  "dq_held DqStealTop = {#}" "dq_held DqPopBottom = {#}" "dq_held DqSizeBottom = {#}" "dq_held (DqPushBottom t) = {#t#}" "dq_held (DqSized n) = {#}"
  "dq_held (DqTaken (Some (Some t))) = {#t#}"
  by (simp_all add: dq_held_def)




text \<open>The tasks of a state: executed, held by a worker or a submitting thread, in a slot of a deque, and in a shard.\<close>

definition sp_tasks :: "'a steal_pool \<Rightarrow> 'a multiset" where
  "sp_tasks p = sum_list (map held (sp_workers p)) + sum_list (map held (sp_clients p)) + pool_items p"




section \<open>A call that no other call overlaps\<close>

primrec dq_steps :: "('a stealing_deque \<Rightarrow> 'a dq_pc \<Rightarrow> ('a stealing_deque \<times> 'a dq_pc) option) \<Rightarrow> nat \<Rightarrow> 'a stealing_deque \<times> 'a dq_pc \<Rightarrow>
    ('a stealing_deque \<times> 'a dq_pc) option" where
  "dq_steps step 0 c = Some c"
| "dq_steps step (Suc n) c = do { c \<leftarrow> step (fst c) (snd c); dq_steps step n c }"

lemma dq_steps_numeral:
  "dq_steps step (numeral k) c = do { c \<leftarrow> step (fst c) (snd c); dq_steps step (pred_numeral k) c }"
  by (simp add: numeral_eq_Suc)

lemma dq_steps_add: "dq_steps step (m + n) c = Option.bind (dq_steps step m c) (dq_steps step n)"
  by (induction m arbitrary: c) (auto split: Option.bind_splits)

lemma steal_alone:
  assumes "sd_top q + 1 < 2 ^ 64"
  shows "dq_steps dq_steal_step 5 (q, DqStealTop) = map_option (\<lambda>(r, q'). (q', DqTaken r)) (steal q)"
  using assms by (simp add: dq_steps_numeral steal_def move_slot_def inc64_def vec_at_def vec_set_def Let_def)

lemma popBottom_alone: "dq_steps dq_pop_step 5 (q, DqPopBottom) = map_option (\<lambda>(r, q'). (q', DqTaken r)) (popBottom q)"
  by (simp add: dq_steps_numeral popBottom_def move_slot_def vec_at_def vec_set_def Let_def)

lemma grow_alone:
  assumes "i \<le> b" "for_each (\<lambda>i (buffer, new_buffer). do {
         x \<leftarrow> vec_at buffer (i mod old_size);
         new_buffer \<leftarrow> vec_set new_buffer (i mod old_size) x;
         buffer \<leftarrow> vec_set buffer (i mod old_size) None;
         Some (buffer, new_buffer) }) [i..<b] (sd_buffer q, new_buffer) = Some (buffer', new')"
  shows "dq_steps dq_push_step (b - i) (q, DqGrowMove task old_size new_buffer t b i) =
    Some (q\<lparr>sd_buffer := buffer'\<rparr>, DqGrowMove task old_size new' t b b)"
  using assms
proof (induction "b - i" arbitrary: i q new_buffer)
  case (Suc n)
  then have "i < b" "[i..<b] = i # [Suc i..<b]" "b - i = Suc (b - Suc i)" by (simp_all add: upt_conv_Cons)
  moreover obtain x new1 buf1 where "vec_at (sd_buffer q) (i mod old_size) = Some x" "vec_set new_buffer (i mod old_size) x = Some new1"
    "vec_set (sd_buffer q) (i mod old_size) None = Some buf1" using Suc.prems(2) calculation(2) by (auto simp: bind_eq_Some_conv)
  ultimately show ?case using Suc.hyps(1)[of "Suc i" "q\<lparr>sd_buffer := buf1\<rparr>" new1] Suc.hyps(2) Suc.prems(2)
    by simp
qed simp

text \<open>A call running alone makes the transition of the function of \<^verbatim>\<open>Stealing_Deque\<close>.\<close>

lemma pushBottom_alone:
  assumes "pushBottom task q = Some q'" "sd_top q \<le> sd_bottom q" "sd_bottom q + 1 < 2 ^ 64"
  shows "\<exists>n. dq_steps dq_push_step n (q, DqPushBottom task) = Some (q', DqPushed)"
proof (cases "sub64 (sd_bottom q) (sd_top q) \<ge> sub64 (length (sd_buffer q)) 1")
  case False
  then have "dq_steps dq_push_step 5 (q, DqPushBottom task) = Some (q', DqPushed)"
    using assms by (auto simp: dq_steps_numeral pushBottom_def inc64_def bind_eq_Some_conv Let_def)
  then show ?thesis by blast
next
  case True
  let ?old = "length (sd_buffer q)" and ?t = "sd_top q" and ?b = "sd_bottom q"
  obtain buffer' new' where grown: "for_each (\<lambda>i (buffer, new_buffer). do {
         x \<leftarrow> vec_at buffer (i mod ?old);
         new_buffer \<leftarrow> vec_set new_buffer (i mod ?old) x;
         buffer \<leftarrow> vec_set buffer (i mod ?old) None;
         Some (buffer, new_buffer) }) [?t..<?b] (sd_buffer q, replicate (?old * 2) None) = Some (buffer', new')"
    and q1: "resizeBuffer q = Some (q\<lparr>sd_buffer := new', sd_top := 0, sd_bottom := sub64 ?b ?t\<rparr>)"
    using assms(1) True unfolding pushBottom_def resizeBuffer_def by (auto simp: Let_def bind_eq_Some_conv)
  have small: "sub64 ?b ?t + 1 < 2 ^ 64" using assms(2,3) by (simp add: sub64_le)
  have "dq_steps dq_push_step 6 (q, DqPushBottom task) = Some (q, DqGrowMove task ?old (replicate (?old * 2) None) ?t ?b ?t)"
    using True by (simp add: dq_steps_numeral Let_def)
  moreover have "dq_steps dq_push_step (?b - ?t) (q, DqGrowMove task ?old (replicate (?old * 2) None) ?t ?b ?t) =
      Some (q\<lparr>sd_buffer := buffer'\<rparr>, DqGrowMove task ?old new' ?t ?b ?b)" using grow_alone[OF assms(2) grown] .
  moreover have "dq_steps dq_push_step 7 (q\<lparr>sd_buffer := buffer'\<rparr>, DqGrowMove task ?old new' ?t ?b ?b) = Some (q', DqPushed)"
    using assms(1) True q1 small by (auto simp: dq_steps_numeral pushBottom_def inc64_def bind_eq_Some_conv Let_def)
  ultimately have "dq_steps dq_push_step (6 + (?b - ?t) + 7) (q, DqPushBottom task) = Some (q', DqPushed)"
    unfolding dq_steps_add by simp
  then show ?thesis by blast
qed

section \<open>Properties\<close>


lemma sp_run_reach:
  "sp_reach hw n policy mx xs p \<Longrightarrow> for_each sp_event es p = Some p' \<Longrightarrow> sp_reach hw n policy mx (xs @ concat (map submitted es)) p'"
proof (induction es arbitrary: xs p)
  case (Cons e es)
  then obtain p1 where p1: "sp_event e p = Some p1" "for_each sp_event es p1 = Some p'" by (auto simp: bind_eq_Some_conv)
  from Cons.IH[OF sp_reach.event[OF Cons.prems(1) p1(1)] p1(2)] show ?case by simp
qed simp

text \<open>A pool with one worker, which has made its deque, and two shards.\<close>

definition start_events :: "int sp_event list" where
  "start_events = [WorkerStep 0, AddShard, WorkerStep 0, WorkerStep 0, AddShard]"

definition idle_pool :: "int steal_pool" where
  "idle_pool = \<lparr>sp_workers = [WLoop], sp_clients = [], sp_local = [WorkStealingDeque 256], sp_shared = [[], []], sp_shutdown = False, sp_active = 0,
     sp_policy = DISCARD, sp_max = 10, sp_next = 0, sp_executed = []\<rparr>"

lemmas sp_run_simps = sp_event_def on_deque_def take_shard_def
  move_slot_def inc64_def sub64_def WorkStealingDeque_def vec_at_def vec_set_def

lemma idle_pool_run: "for_each sp_event start_events (sp_ThreadPool 8 1 DISCARD 10) = Some idle_pool"
  by (simp add: start_events_def sp_ThreadPool_def sp_add_shard_def num_shards_def idle_pool_def sp_run_simps)

lemma sp_reach_idle: "sp_reach 8 1 DISCARD 10 [] idle_pool"
  using sp_run_reach[OF sp_reach.new idle_pool_run] by (simp add: start_events_def submitted_def)


definition pushed_pool :: "int \<Rightarrow> int steal_pool" where
  "pushed_pool x = idle_pool\<lparr>sp_clients := [CReturned (Inr True)], sp_next := 1,
     sp_local := [\<lparr>sd_buffer = (replicate 256 None)[0 := Some x], sd_top = 0, sd_bottom = 1, sd_steal_count = 0\<rparr>]\<rparr>"



section \<open>What goes wrong\<close>

text \<open>
  A task submitted to an idle pool with one worker is never executed: the worker's next iteration takes the only element for none and
  resets the positions, so that the deque is empty again and \<^verbatim>\<open>wait\<close> returns.
\<close>

definition iteration_events :: "int sp_event list" where
  "iteration_events = [WorkerStep 0, WorkerStep 0, WorkerStep 0, WorkerStep 0, WorkerStep 0, WorkerStep 0, WorkerStep 0, WorkerStep 0, WorkerStep 0,
     WorkerStep 0, WorkerStep 0, WorkerStep 0, WorkerStep 0, WorkerStep 0, WorkerStep 0, WorkerStep 0, WorkerStep 0]"

lemma sp_loses_single:
  "\<exists>p. for_each sp_event iteration_events (pushed_pool x) = Some p \<and> sp_workers p = [WLoop] \<and> sp_clients p = [CReturned (Inr True)] \<and>
    sp_executed p = [] \<and> wait_over p"
  by (simp add: iteration_events_def pushed_pool_def idle_pool_def sp_run_simps wait_over_def pendingCount_def local_queues_sum_def
    shared_queues_sum_def sd_size_def)

text \<open>
  Two submitting threads that push on one deque: both come to write slot 0, a data race; both calls return that the task
  was accepted, and one of the two tasks is gone.
\<close>

definition two_submits :: "int \<Rightarrow> int \<Rightarrow> int sp_event list" where
  "two_submits x y = [Enter Submit x, Enter Submit y, ClientStep 0, ClientStep 0, ClientStep 0, ClientStep 0, ClientStep 0, ClientStep 0,
     ClientStep 1, ClientStep 1, ClientStep 1, ClientStep 1, ClientStep 1, ClientStep 1]"

definition racing_pool :: "int \<Rightarrow> int \<Rightarrow> int steal_pool" where
  "racing_pool x y = idle_pool\<lparr>sp_clients := [CPush 0 (DqPushWrite x 0), CPush 0 (DqPushWrite y 0)], sp_next := 2\<rparr>"

lemma two_submits_run: "for_each sp_event (two_submits x y) idle_pool = Some (racing_pool x y)"
  by (simp add: two_submits_def racing_pool_def idle_pool_def num_shards_def sp_run_simps)

lemma sp_submits_race:
  "sp_reach 8 1 DISCARD 10 [x, y] (racing_pool x y)"
  "\<exists>p. for_each sp_event [ClientStep 0, ClientStep 1, ClientStep 0, ClientStep 1] (racing_pool x y) = Some p \<and>
    sp_clients p = [CReturned (Inr True), CReturned (Inr True)] \<and> sp_tasks p = {#y#}"
proof -
  show "sp_reach 8 1 DISCARD 10 [x, y] (racing_pool x y)"
    using sp_run_reach[OF sp_reach_idle two_submits_run[of x y]] by (simp add: two_submits_def submitted_def)
  have "items ((replicate 256 None)[0 := Some y]) = {#y#}" using items_set[of 0 "replicate 256 None" "Some y"] by simp
  then show "\<exists>p. for_each sp_event [ClientStep 0, ClientStep 1, ClientStep 0, ClientStep 1] (racing_pool x y) = Some p \<and>
    sp_clients p = [CReturned (Inr True), CReturned (Inr True)] \<and> sp_tasks p = {#y#}"
    by (simp add: racing_pool_def idle_pool_def sp_run_simps sp_tasks_def pool_items_def buffers_items_def)
qed

text \<open>Threads that start in another order than their numbers, and calls before the first has started, leave the vectors.\<close>

lemma start_order: "length (sp_local p) \<le> i \<Longrightarrow> worker_step i p WOwn = None"
  by simp

lemma submit_too_early: "sp_local p = [] \<Longrightarrow> client_step p (CPick c x) = None"
  by simp

text \<open>A rejected \<^verbatim>\<open>submitVoid\<close> under \<open>CALLER_RUNS\<close> calls the function it has moved away.\<close>

lemma submitVoid_caller_runs:
  "sp_policy p = CALLER_RUNS \<Longrightarrow> client_step p (CReject (rejected SubmitVoid x)) = Some (p, CReturned (Inl BadFunctionCall))"
  by (simp add: handleRejection_def rejected_def)

text \<open>\<^verbatim>\<open>wait\<close> does not see a task that a worker has taken and not yet counted, and a worker that sees the shutdown leaves its tasks.\<close>

lemma wait_misses_held: "sp_local p = [] \<Longrightarrow> sp_shared p = [] \<Longrightarrow> sp_active p = 0 \<Longrightarrow> sp_workers p = [WFound t] \<Longrightarrow> wait_over p"
  by (simp add: wait_over_def pendingCount_def local_queues_sum_def shared_queues_sum_def)

lemma shutdown_leaves: "worker_step i (shutdownAll p) WLoop = Some (shutdownAll p, WExited)"
  by (simp add: shutdownAll_def)

end
