(* ===== verification/Bucket_Chains.thy ===== *)
theory Bucket_Chains
  imports Xlab_Prelude
begin

text \<open>
  The first/next representation of bucket chains that \<^verbatim>\<open>HashJoinMap\<close>, \<^verbatim>\<open>OptimizedHashJoinMap\<close> and
  \<^verbatim>\<open>SIMDProbingHashJoinMap\<close> of \<^verbatim>\<open>src/cc/algo/src/algo/algo_join_hash_map.cc\<close> share:
  \<^verbatim>\<open>first_[b]\<close> is the newest entry of bucket \<open>b\<close> and \<^verbatim>\<open>next_[i]\<close> the entry of the same
  bucket before entry \<open>i\<close>.  A walk along a chain is a loop the code does not bound, so it is a
  partial function: \<^const>\<open>None\<close> is an access out of range or a walk that never ends.  The
  well-formedness predicate \<open>chains_ok\<close> makes every walk return, and gives its result.
\<close>

section \<open>Table sizes\<close>

definition INVALID_INDEX :: nat where
  "INVALID_INDEX = 2 ^ 64 - 1"

definition initial_capacity_of :: "nat \<Rightarrow> nat" where
  "initial_capacity_of n = unat (next_power_of_two (of_nat n))"

definition mask_bucket :: "nat \<Rightarrow> u64 \<Rightarrow> nat" where
  "mask_bucket capacity hash = unat (hash AND (of_nat capacity - 1))"

definition table_size :: "nat \<Rightarrow> bool" where
  "table_size c \<longleftrightarrow> (\<exists>k \<le> 62. c = 2 ^ k)"

lemma table_size_pow2: "table_size c \<Longrightarrow> pow2 c"
  unfolding table_size_def pow2_def by force

lemma table_size_pos: "table_size c \<Longrightarrow> 0 < c"
  by (auto simp: table_size_def)

lemma table_size_le: "table_size c \<Longrightarrow> c \<le> 2 ^ 62"
  unfolding table_size_def using power_increasing[of _ 62 "2::nat"] by fastforce

lemma table_size_double:
  assumes "table_size c" "c < 2 ^ 62"
  shows "table_size (2 * c)" "(c * 2) mod 2 ^ 64 = 2 * c"
proof -
  obtain k where k: "c = 2 ^ k" using assms(1) by (auto simp: table_size_def)
  then have "k < 62" using assms(2) power_less_imp_less_exp[of "2::nat" k 62] by simp
  then show "table_size (2 * c)" unfolding table_size_def k by (intro exI[of _ "Suc k"]) simp
  show "(c * 2) mod 2 ^ 64 = 2 * c" using assms(2) by simp
qed

lemma mask_bucket_mod: "pow2 c \<Longrightarrow> mask_bucket c h = unat h mod c"
  unfolding pow2_def mask_bucket_def using word_index_pow2 by auto

lemma mask_bucket_less: "pow2 c \<Longrightarrow> mask_bucket c h < c"
  by (simp add: mask_bucket_mod pow2_pos)

lemma initial_capacity_of_spec:
  assumes "n \<le> 2 ^ 62"
  shows "table_size (initial_capacity_of n)" "n \<le> initial_capacity_of n"
    "0 < n \<Longrightarrow> initial_capacity_of n < 2 * n"
proof -
  have *: "table_size (initial_capacity_of n) \<and> n \<le> initial_capacity_of n \<and>
    (0 < n \<longrightarrow> initial_capacity_of n < 2 * n)"
  proof (cases "n = 0")
    case True
    then show ?thesis by (auto simp: initial_capacity_of_def next_power_of_two_def table_size_def intro: exI[of _ 0])
  next
    case False
    have un: "unat (of_nat n :: u64) = n" using assms by (simp add: unsigned_of_nat take_bit_nat_eq_self)
    then have "0 < (of_nat n :: u64)" using False by (metis unat_0 gr0I word_neq_0_conv)
    moreover have "(of_nat n :: u64) \<le> 2 ^ 63" using un assms by (simp add: word_le_nat_alt)
    ultimately obtain k where k: "initial_capacity_of n = 2 ^ k" "n \<le> 2 ^ k" "2 ^ k < 2 * n"
      unfolding initial_capacity_of_def using next_power_of_two_spec un by metis
    have "(2::nat) ^ k < 2 ^ 63" using k(3) assms by simp
    then have "k < 63" by (rule power_less_imp_less_exp[rotated]) simp
    then show ?thesis using k by (auto simp: table_size_def)
  qed
  then show "table_size (initial_capacity_of n)" "n \<le> initial_capacity_of n"
    "0 < n \<Longrightarrow> initial_capacity_of n < 2 * n" by blast+
qed

section \<open>Hash functions and key comparisons\<close>

text \<open>What a table needs of its template parameters \<^verbatim>\<open>Hash\<close> and \<^verbatim>\<open>KeyEqual\<close>: the comparison is an equivalence
  and equal keys have equal hashes.\<close>

definition keys_ok :: "('k \<Rightarrow> u64) \<Rightarrow> ('k \<Rightarrow> 'k \<Rightarrow> bool) \<Rightarrow> bool" where
  "keys_ok hash_fn key_equal \<longleftrightarrow> equivp key_equal \<and> (\<forall>a b. key_equal a b \<longrightarrow> hash_fn a = hash_fn b)"

lemma keys_ok_eq: "keys_ok hash_fn (=)"
  by (simp add: keys_ok_def identity_equivp)

lemma keys_ok_D:
  assumes "keys_ok hash_fn key_equal"
  shows "key_equal a a" "key_equal a b \<Longrightarrow> key_equal b a"
    "key_equal a b \<Longrightarrow> key_equal b c \<Longrightarrow> key_equal a c" "key_equal a b \<Longrightarrow> hash_fn a = hash_fn b"
  using assms unfolding keys_ok_def by (metis equivp_reflp equivp_symp equivp_transp)+

section \<open>Linking and walking\<close>

text \<open>The two assignments that put entry \<open>i\<close> at the head of bucket \<open>b\<close>.\<close>

definition chain_link :: "nat \<Rightarrow> nat \<Rightarrow> nat list \<times> nat list \<Rightarrow> (nat list \<times> nat list) option" where
  "chain_link i b = (\<lambda>(first, nxt). do {
     f \<leftarrow> vec_at first b;
     nxt \<leftarrow> vec_set nxt i f;
     first \<leftarrow> vec_set first b i;
     Some (first, nxt)})"

text \<open>The loop of \<^verbatim>\<open>FindFirst\<close> and \<^verbatim>\<open>FindNext\<close>: follow \<^verbatim>\<open>next_\<close> until an entry satisfies the test.\<close>

partial_function (option) chain_find :: "nat list \<Rightarrow> (nat \<Rightarrow> bool option) \<Rightarrow> nat \<Rightarrow> nat option" where
  "chain_find nxt test current =
     (if current = INVALID_INDEX then Some INVALID_INDEX
      else do {
        hit \<leftarrow> test current;
        if hit then Some current
        else do {
          c \<leftarrow> vec_at nxt current;
          chain_find nxt test c}})"

text \<open>The counting walk of \<^verbatim>\<open>GetStatistics\<close>.\<close>

partial_function (option) chain_length :: "nat list \<Rightarrow> nat \<Rightarrow> nat \<Rightarrow> nat option" where
  "chain_length nxt current len =
     (if current = INVALID_INDEX then Some len
      else do {
        c \<leftarrow> vec_at nxt current;
        chain_length nxt c (len + 1)})"

section \<open>Well-formed chains\<close>

text \<open>\<open>last_sat Q n\<close> is the greatest index below \<open>n\<close> that satisfies \<open>Q\<close>, or
  \<^verbatim>\<open>INVALID_INDEX\<close>.\<close>

primrec last_sat :: "(nat \<Rightarrow> bool) \<Rightarrow> nat \<Rightarrow> nat" where
  "last_sat Q 0 = INVALID_INDEX"
| "last_sat Q (Suc n) = (if Q n then n else last_sat Q n)"

definition chains_ok :: "(nat \<Rightarrow> nat) \<Rightarrow> nat \<Rightarrow> nat \<Rightarrow> nat list \<Rightarrow> nat list \<Rightarrow> bool" where
  "chains_ok bucket c n first nxt \<longleftrightarrow>
     length first = c \<and> n \<le> length nxt \<and> (\<forall>i<n. bucket i < c) \<and>
     (\<forall>b<c. first ! b = last_sat (\<lambda>i. bucket i = b) n) \<and>
     (\<forall>i<n. nxt ! i = last_sat (\<lambda>j. bucket j = bucket i) i)"

lemma last_sat_cong: "(\<And>i. i < n \<Longrightarrow> Q i = R i) \<Longrightarrow> last_sat Q n = last_sat R n"
  by (induction n) auto

lemma last_sat_cases:
  obtains "last_sat Q n = INVALID_INDEX" "\<And>i. i < n \<Longrightarrow> \<not> Q i"
  | m where "last_sat Q n = m" "m < n" "Q m" "\<And>i. m < i \<Longrightarrow> i < n \<Longrightarrow> \<not> Q i"
proof (induction n arbitrary: thesis)
  case (Suc n)
  show ?case
  proof (cases "Q n")
    case True
    then show ?thesis using Suc.prems(2)[of n] by auto
  next
    case False
    then show ?thesis
      using Suc.IH Suc.prems by (metis last_sat.simps(2) less_Suc_eq)
  qed
qed simp

lemma last_sat_none: "(\<And>i. i < n \<Longrightarrow> \<not> Q i) \<Longrightarrow> last_sat Q n = INVALID_INDEX"
  by (induction n) auto

lemma last_sat_found: "m < n \<Longrightarrow> Q m \<Longrightarrow> (\<And>i. m < i \<Longrightarrow> i < n \<Longrightarrow> \<not> Q i) \<Longrightarrow> last_sat Q n = m"
  by (induction n) (auto simp: less_Suc_eq)

lemma last_sat_skip:
  "j \<le> m \<Longrightarrow> (\<And>i. j \<le> i \<Longrightarrow> i < m \<Longrightarrow> \<not> Q i) \<Longrightarrow> last_sat Q m = last_sat Q j"
  by (induction m) (auto simp: le_Suc_eq)

lemma filter_upt_split:
  assumes "j < m" "Q j" "\<And>i. j < i \<Longrightarrow> i < m \<Longrightarrow> \<not> Q i"
  shows "filter Q [0..<m] = filter Q [0..<j] @ [j]"
proof -
  have "[0..<m] = [0..<j] @ j # [Suc j..<m]"
    using assms(1) by (metis less_imp_add_positive upt_add_eq_append upt_conv_Cons zero_le less_imp_le_nat)
  then show ?thesis using assms(2,3) by (simp add: filter_empty_conv)
qed

lemma chains_ok_empty: "chains_ok bucket c 0 (replicate c INVALID_INDEX) nxt"
  by (simp add: chains_ok_def)

lemma chain_link_ok:
  assumes "chains_ok bucket c n first nxt" "n < length nxt" "bucket n < c"
  shows "\<exists>first' nxt'. chain_link n (bucket n) (first, nxt) = Some (first', nxt') \<and>
    chains_ok bucket c (Suc n) first' nxt' \<and> length nxt' = length nxt"
  using assms by (auto simp: chain_link_def chains_ok_def nth_list_update less_Suc_eq)

lemma chains_ok_cong:
  assumes "chains_ok bucket c n first nxt" "\<And>i. i < n \<Longrightarrow> bucket' i = bucket i"
  shows "chains_ok bucket' c n first nxt"
proof -
  have "last_sat (\<lambda>i. bucket' i = b) m = last_sat (\<lambda>i. bucket i = b) m" if "m \<le> n" for m b
    using that assms(2) by (intro last_sat_cong) auto
  then show ?thesis using assms by (auto simp: chains_ok_def)
qed

lemma chains_ok_extend:
  "chains_ok bucket c n first nxt \<Longrightarrow> chains_ok bucket c n first (nxt @ xs)"
  by (auto simp: chains_ok_def nth_append)

text \<open>Linking all entries into fresh buckets, as \<^verbatim>\<open>grow\<close> does.\<close>

lemma chain_rebuild:
  assumes "\<And>i. i < n \<Longrightarrow> bucket i < c" "n \<le> length nxt"
  shows "\<exists>first' nxt'. for_each (\<lambda>i. chain_link i (bucket i)) [0..<n] (replicate c INVALID_INDEX, nxt) =
     Some (first', nxt') \<and> chains_ok bucket c n first' nxt' \<and> length nxt' = length nxt"
  using assms
proof (induction n)
  case 0
  then show ?case by (simp add: chains_ok_empty)
next
  case (Suc n)
  then obtain f' n' where "for_each (\<lambda>i. chain_link i (bucket i)) [0..<n] (replicate c INVALID_INDEX, nxt) =
     Some (f', n')" "chains_ok bucket c n f' n'" "length n' = length nxt" by auto
  then show ?case using chain_link_ok[of bucket c n f' n'] Suc.prems by auto
qed

lemma chain_find_last_sat:
  assumes ok: "chains_ok bucket c n first nxt" and n: "n \<le> 2 ^ 62"
    and test: "\<And>i. i < n \<Longrightarrow> test i = Some (P i)"
  shows "m \<le> n \<Longrightarrow> chain_find nxt test (last_sat (\<lambda>i. bucket i = b) m) =
    Some (last_sat (\<lambda>i. bucket i = b \<and> P i) m)"
proof (induction m rule: less_induct)
  case (less m)
  show ?case
  proof (cases rule: last_sat_cases[of "\<lambda>i. bucket i = b" m])
    case 1
    then have "last_sat (\<lambda>i. bucket i = b \<and> P i) m = INVALID_INDEX" by (auto intro: last_sat_none)
    then show ?thesis using 1 by (simp add: chain_find.simps)
  next
    case (2 j)
    have j: "j < n" "j \<noteq> INVALID_INDEX" using 2 less.prems n by (auto simp: INVALID_INDEX_def)
    have nx: "vec_at nxt j = Some (last_sat (\<lambda>i. bucket i = b) j)"
      using ok j 2(3) by (auto simp: chains_ok_def)
    show ?thesis
    proof (cases "P j")
      case True
      then have "last_sat (\<lambda>i. bucket i = b \<and> P i) m = j" using 2 by (intro last_sat_found) auto
      then show ?thesis using 2(1) True j test by (subst chain_find.simps) simp
    next
      case False
      have "last_sat (\<lambda>i. bucket i = b \<and> P i) m = last_sat (\<lambda>i. bucket i = b \<and> P i) j"
        using 2(2,4) False by (intro last_sat_skip) (auto simp: le_less)
      then show ?thesis using 2(1,2) False j test nx less.IH[of j] less.prems
        by (subst chain_find.simps) simp
    qed
  qed
qed

lemma chain_length_count:
  assumes ok: "chains_ok bucket c n first nxt" and n: "n \<le> 2 ^ 62"
  shows "m \<le> n \<Longrightarrow> chain_length nxt (last_sat (\<lambda>i. bucket i = b) m) len =
    Some (len + length (filter (\<lambda>i. bucket i = b) [0..<m]))"
proof (induction m arbitrary: len rule: less_induct)
  case (less m)
  show ?case
  proof (cases rule: last_sat_cases[of "\<lambda>i. bucket i = b" m])
    case 1
    then show ?thesis by (simp add: chain_length.simps filter_empty_conv)
  next
    case (2 j)
    have j: "j < n" "j \<noteq> INVALID_INDEX" using 2 less.prems n by (auto simp: INVALID_INDEX_def)
    have nx: "vec_at nxt j = Some (last_sat (\<lambda>i. bucket i = b) j)"
      using ok j 2(3) by (auto simp: chains_ok_def)
    have "length (filter (\<lambda>i. bucket i = b) [0..<m]) = Suc (length (filter (\<lambda>i. bucket i = b) [0..<j]))"
      using filter_upt_split[of j m "\<lambda>i. bucket i = b"] 2(2,3,4) by simp
    then show ?thesis using 2(1,2) j nx less.IH[of j "len + 1"] less.prems
      by (subst chain_length.simps) simp
  qed
qed

section \<open>Walks with a round limit\<close>

text \<open>The entries of bucket \<open>b\<close> below \<open>m\<close>, in chain order, and the first of a list that
  passes a test.\<close>

definition chain_of :: "(nat \<Rightarrow> nat) \<Rightarrow> nat \<Rightarrow> nat \<Rightarrow> nat list" where
  "chain_of bucket b m = rev (filter (\<lambda>i. bucket i = b) [0..<m])"

definition first_hit :: "(nat \<Rightarrow> bool) \<Rightarrow> nat list \<Rightarrow> nat" where
  "first_hit P is = (case find P is of None \<Rightarrow> INVALID_INDEX | Some i \<Rightarrow> i)"

lemma first_hit_simps [simp]:
  "first_hit P [] = INVALID_INDEX" "first_hit P (i # is) = (if P i then i else first_hit P is)"
  by (simp_all add: first_hit_def)

lemma chain_of_cases:
  obtains "last_sat (\<lambda>i. bucket i = b) m = INVALID_INDEX" "chain_of bucket b m = []"
  | j where "last_sat (\<lambda>i. bucket i = b) m = j" "j < m" "bucket j = b" "chain_of bucket b m = j # chain_of bucket b j"
proof (cases rule: last_sat_cases[of "\<lambda>i. bucket i = b" m])
  case 1
  then show ?thesis using that(1) by (simp add: chain_of_def filter_empty_conv)
next
  case (2 j)
  then show ?thesis using that(2)[of j] filter_upt_split[of j m "\<lambda>i. bucket i = b"] by (simp add: chain_of_def)
qed

lemma first_hit_last_sat: "first_hit P (chain_of bucket b m) = last_sat (\<lambda>i. bucket i = b \<and> P i) m"
  by (induction m) (auto simp: chain_of_def)

end
