(* ===== verification/Join_Contract.thy ===== *)
theory Join_Contract
  imports Xlab_Prelude
begin

text \<open>
  The hash join that the tables of \<^verbatim>\<open>src/cc/algo/src/algo/algo_join_hash_map.cc\<close> are built for, over
  any table: a build phase inserts the rows of one side, a probe phase looks up every key of the other
  side and emits one result row per match (the simulated join of \<^verbatim>\<open>test_hash_join_map\<close>).  The locale
  \<open>join_table\<close> states what the join needs of a table: an insertion adds one entry and keeps the
  invariant while the table is below its limit, and a lookup returns the values of all entries with an
  equal key.  The join is proved correct once, against the nested-loop join, and each table interprets
  the locale.
\<close>

definition build_phase :: "('t \<Rightarrow> 'k \<Rightarrow> 'v \<Rightarrow> 't option) \<Rightarrow> ('k \<times> 'v) list \<Rightarrow> 't \<Rightarrow> 't option" where
  "build_phase ins rows t = for_each (\<lambda>(k, v) t. ins t k v) rows t"

definition probe_phase :: "('t \<Rightarrow> 'k \<Rightarrow> 'v list option) \<Rightarrow> 't \<Rightarrow> 'k list \<Rightarrow> ('k \<times> 'v) list option" where
  "probe_phase lookup t probe_keys =
     for_each (\<lambda>k join_results. do { vs \<leftarrow> lookup t k; Some (join_results @ map (Pair k) vs) }) probe_keys []"

definition hash_join ::
  "('t \<Rightarrow> 'k \<Rightarrow> 'v \<Rightarrow> 't option) \<Rightarrow> ('t \<Rightarrow> 'k \<Rightarrow> 'v list option) \<Rightarrow> 't \<Rightarrow>
   ('k \<times> 'v) list \<Rightarrow> 'k list \<Rightarrow> ('k \<times> 'v) list option" where
  "hash_join ins lookup t rows probe_keys = do {
     t \<leftarrow> build_phase ins rows t;
     probe_phase lookup t probe_keys}"

text \<open>The specification: compare every probe key with every build row.\<close>

definition nested_loop_join :: "('k \<Rightarrow> 'k \<Rightarrow> bool) \<Rightarrow> ('k \<times> 'v) list \<Rightarrow> 'k list \<Rightarrow> ('k \<times> 'v) list" where
  "nested_loop_join key_equal rows probe_keys =
     concat (map (\<lambda>k. map (\<lambda>(_, v). (k, v)) (filter (\<lambda>(k', _). key_equal k' k) rows)) probe_keys)"

text \<open>The contract: \<open>rel t es\<close> says that table \<open>t\<close> is well formed and holds the rows \<open>es\<close>.\<close>

locale join_table =
  fixes rel :: "'t \<Rightarrow> ('k \<times> 'v) list \<Rightarrow> bool"
    and ins :: "'t \<Rightarrow> 'k \<Rightarrow> 'v \<Rightarrow> 't option"
    and lookup :: "'t \<Rightarrow> 'k \<Rightarrow> 'v list option"
    and key_equal :: "'k \<Rightarrow> 'k \<Rightarrow> bool"
    and limit :: nat
  assumes ins_adds: "rel t es \<Longrightarrow> length es < limit \<Longrightarrow> \<exists>t'. ins t k v = Some t' \<and> rel t' (es @ [(k, v)])"
    and lookup_all: "rel t es \<Longrightarrow>
      \<exists>vs. lookup t k = Some vs \<and> mset vs = mset (map snd (filter (\<lambda>e. key_equal (fst e) k) es))"
begin

lemma build_phase_ok:
  "rel t es \<Longrightarrow> length es + length rows \<le> limit \<Longrightarrow>
    \<exists>t'. build_phase ins rows t = Some t' \<and> rel t' (es @ rows)"
proof (induction rows arbitrary: t es)
  case Nil
  then show ?case by (simp add: build_phase_def)
next
  case (Cons r rows)
  obtain k v where r: "r = (k, v)" by fastforce
  obtain t' where t': "ins t k v = Some t'" "rel t' (es @ [(k, v)])"
    using ins_adds[OF Cons.prems(1)] Cons.prems(2) by fastforce
  then show ?case using Cons.IH[of t' "es @ [(k, v)]"] Cons.prems(2) r by (auto simp: build_phase_def)
qed

lemma probe_phase_ok:
  assumes "rel t es"
  shows "\<exists>out. for_each (\<lambda>k acc. do { vs \<leftarrow> lookup t k; Some (acc @ map (Pair k) vs) }) ks acc = Some out \<and>
    mset out = mset acc + mset (nested_loop_join key_equal es ks)"
proof (induction ks arbitrary: acc)
  case (Cons k ks)
  obtain vs where vs: "lookup t k = Some vs" "mset vs = mset (map snd (filter (\<lambda>e. key_equal (fst e) k) es))"
    using lookup_all[OF assms] by blast
  have "mset (map (Pair k) vs) = mset (map (\<lambda>(_, v). (k, v)) (filter (\<lambda>(k', _). key_equal k' k) es))"
    using arg_cong[OF vs(2), of "image_mset (Pair k)"] by (simp add: multiset.map_comp o_def case_prod_unfold)
  then show ?case using Cons.IH[of "acc @ map (Pair k) vs"] vs(1) by (auto simp: add.assoc nested_loop_join_def)
qed (simp add: nested_loop_join_def)

theorem hash_join_nested_loop:
  assumes "rel t []" "length rows \<le> limit"
  shows "\<exists>out. hash_join ins lookup t rows probe_keys = Some out \<and>
    mset out = mset (nested_loop_join key_equal rows probe_keys)"
proof -
  obtain t' where t': "build_phase ins rows t = Some t'" "rel t' rows"
    using build_phase_ok[OF assms(1), of rows] assms(2) by auto
  then show ?thesis
    using probe_phase_ok[OF t'(2), of probe_keys "[]"] by (simp add: hash_join_def probe_phase_def)
qed

end

end
