(* ===== verification/Hash_Join_Map.thy ===== *)
theory Hash_Join_Map
  imports Bucket_Chains Join_Contract
begin

text \<open>
  \<^verbatim>\<open>HashJoinMap\<close> of \<^verbatim>\<open>src/cc/algo/src/algo/algo_join_hash_map.cc\<close>: a bucket-chained multimap on
  parallel arrays.  The hash function and the key comparison are the template parameters of the class
  and stay parameters here; what the table needs of them is \<open>keys_ok\<close>.  Every vector access is
  bounds-checked: \<^const>\<open>None\<close> is undefined behaviour or a loop that does not end, and the theorems
  show that neither occurs.  Sizes are natural numbers with the wrap-around of \<^verbatim>\<open>size_t\<close> written out
  where the code multiplies.
\<close>

section \<open>State and operations\<close>

record ('k, 'v) hash_join_map =
  hjm_capacity :: nat
  hjm_size :: nat
  hjm_first :: "nat list"
  hjm_next :: "nat list"
  hjm_keys :: "'k list"
  hjm_values :: "'v list"

definition HashJoinMap :: "nat \<Rightarrow> ('k, 'v) hash_join_map" where
  "HashJoinMap initial_capacity =
     (let capacity = initial_capacity_of initial_capacity in
      \<lparr>hjm_capacity = capacity, hjm_size = 0, hjm_first = replicate capacity INVALID_INDEX,
       hjm_next = [], hjm_keys = [], hjm_values = []\<rparr>)"

text \<open>The move constructor and the move assignment: the new object and what is left of the old one.\<close>

definition hjm_move :: "('k, 'v) hash_join_map \<Rightarrow> ('k, 'v) hash_join_map \<times> ('k, 'v) hash_join_map" where
  "hjm_move other =
     (other, \<lparr>hjm_capacity = 0, hjm_size = 0, hjm_first = [], hjm_next = [], hjm_keys = [], hjm_values = []\<rparr>)"

definition hjm_hash_to_bucket :: "('k, 'v) hash_join_map \<Rightarrow> u64 \<Rightarrow> nat" where
  "hjm_hash_to_bucket m hash = mask_bucket (hjm_capacity m) hash"

definition hjm_grow :: "('k \<Rightarrow> u64) \<Rightarrow> ('k, 'v) hash_join_map \<Rightarrow> ('k, 'v) hash_join_map option" where
  "hjm_grow hash_fn m =
     (let new_capacity = (hjm_capacity m * 2) mod 2 ^ 64;
          new_first = replicate new_capacity INVALID_INDEX
      in do {
        (new_first, nxt) \<leftarrow>
          for_each (\<lambda>i s. do { k \<leftarrow> vec_at (hjm_keys m) i;
                               chain_link i (mask_bucket new_capacity (hash_fn k)) s })
            [0..<hjm_size m] (new_first, hjm_next m);
        Some (m\<lparr>hjm_first := new_first, hjm_next := nxt, hjm_capacity := new_capacity\<rparr>)})"

definition hjm_Insert ::
  "('k \<Rightarrow> u64) \<Rightarrow> ('k, 'v) hash_join_map \<Rightarrow> 'k \<Rightarrow> 'v \<Rightarrow> (('k, 'v) hash_join_map \<times> nat) option" where
  "hjm_Insert hash_fn m key value = do {
     m \<leftarrow> (if hjm_size m \<ge> (hjm_capacity m * 2) mod 2 ^ 64 then hjm_grow hash_fn m else Some m);
     let hash = hash_fn key;
     let bucket = hjm_hash_to_bucket m hash;
     let new_index = hjm_size m;
     let m = m\<lparr>hjm_keys := hjm_keys m @ [key], hjm_values := hjm_values m @ [value],
               hjm_next := hjm_next m @ [INVALID_INDEX]\<rparr>;
     (first, nxt) \<leftarrow> chain_link new_index bucket (hjm_first m, hjm_next m);
     Some (m\<lparr>hjm_first := first, hjm_next := nxt, hjm_size := hjm_size m + 1\<rparr>, new_index)}"

definition hjm_FindFirst ::
  "('k \<Rightarrow> u64) \<Rightarrow> ('k \<Rightarrow> 'k \<Rightarrow> bool) \<Rightarrow> ('k, 'v) hash_join_map \<Rightarrow> 'k \<Rightarrow> nat option" where
  "hjm_FindFirst hash_fn key_equal m key = do {
     let bucket = hjm_hash_to_bucket m (hash_fn key);
     current \<leftarrow> vec_at (hjm_first m) bucket;
     chain_find (hjm_next m) (\<lambda>i. do { k \<leftarrow> vec_at (hjm_keys m) i; Some (key_equal k key) }) current}"

definition hjm_FindNext :: "('k \<Rightarrow> 'k \<Rightarrow> bool) \<Rightarrow> ('k, 'v) hash_join_map \<Rightarrow> nat \<Rightarrow> nat option" where
  "hjm_FindNext key_equal m index =
     (if index \<ge> hjm_size m then Some INVALID_INDEX
      else do {
        key \<leftarrow> vec_at (hjm_keys m) index;
        current \<leftarrow> vec_at (hjm_next m) index;
        chain_find (hjm_next m) (\<lambda>i. do { k \<leftarrow> vec_at (hjm_keys m) i; Some (key_equal k key) }) current})"

definition hjm_GetKey :: "('k, 'v) hash_join_map \<Rightarrow> nat \<Rightarrow> 'k option" where
  "hjm_GetKey m index = vec_at (hjm_keys m) index"

definition hjm_GetValue :: "('k, 'v) hash_join_map \<Rightarrow> nat \<Rightarrow> 'v option" where
  "hjm_GetValue m index = vec_at (hjm_values m) index"

text \<open>Writing through the mutable reference returned by the second \<^verbatim>\<open>GetValue\<close>.\<close>

definition hjm_PutValue :: "('k, 'v) hash_join_map \<Rightarrow> nat \<Rightarrow> 'v \<Rightarrow> ('k, 'v) hash_join_map option" where
  "hjm_PutValue m index v = do { vs \<leftarrow> vec_set (hjm_values m) index v; Some (m\<lparr>hjm_values := vs\<rparr>) }"

partial_function (option) hjm_find_all_loop ::
  "('k \<Rightarrow> 'k \<Rightarrow> bool) \<Rightarrow> ('k, 'v) hash_join_map \<Rightarrow> nat \<Rightarrow> nat list \<Rightarrow> nat list option" where
  "hjm_find_all_loop key_equal m current indices =
     (if current = INVALID_INDEX then Some indices
      else do {
        c \<leftarrow> hjm_FindNext key_equal m current;
        hjm_find_all_loop key_equal m c (indices @ [current])})"

definition hjm_FindAll ::
  "('k \<Rightarrow> u64) \<Rightarrow> ('k \<Rightarrow> 'k \<Rightarrow> bool) \<Rightarrow> ('k, 'v) hash_join_map \<Rightarrow> 'k \<Rightarrow> nat list option" where
  "hjm_FindAll hash_fn key_equal m key = do {
     current \<leftarrow> hjm_FindFirst hash_fn key_equal m key;
     hjm_find_all_loop key_equal m current []}"

text \<open>The class \<^verbatim>\<open>Iterator\<close>: an index into the map.\<close>

record hjm_iterator = it_index :: nat

definition hjm_GetIterator ::
  "('k \<Rightarrow> u64) \<Rightarrow> ('k \<Rightarrow> 'k \<Rightarrow> bool) \<Rightarrow> ('k, 'v) hash_join_map \<Rightarrow> 'k \<Rightarrow> hjm_iterator option" where
  "hjm_GetIterator hash_fn key_equal m key = do {
     first \<leftarrow> hjm_FindFirst hash_fn key_equal m key;
     Some \<lparr>it_index = first\<rparr>}"

definition hjm_HasNext :: "hjm_iterator \<Rightarrow> bool" where
  "hjm_HasNext it \<longleftrightarrow> it_index it \<noteq> INVALID_INDEX"

definition hjm_Next ::
  "('k \<Rightarrow> 'k \<Rightarrow> bool) \<Rightarrow> ('k, 'v) hash_join_map \<Rightarrow> hjm_iterator \<Rightarrow> (nat \<times> hjm_iterator) option" where
  "hjm_Next key_equal m it = do {
     let current = it_index it;
     it \<leftarrow> (if it_index it \<noteq> INVALID_INDEX
           then do { i \<leftarrow> hjm_FindNext key_equal m (it_index it); Some (it\<lparr>it_index := i\<rparr>) }
           else Some it);
     Some (current, it)}"

definition hjm_Clear :: "('k, 'v) hash_join_map \<Rightarrow> ('k, 'v) hash_join_map" where
  "hjm_Clear m = m\<lparr>hjm_first := replicate (hjm_capacity m) INVALID_INDEX, hjm_next := [],
                   hjm_keys := [], hjm_values := [], hjm_size := 0\<rparr>"

record hjm_statistics =
  num_buckets :: nat
  num_entries :: nat
  max_chain_length :: nat
  avg_chain_length :: nat
  empty_buckets :: nat

definition hjm_GetStatistics :: "('k, 'v) hash_join_map \<Rightarrow> hjm_statistics option" where
  "hjm_GetStatistics m = do {
     (empty, max_len, total_chain_length, non_empty_buckets) \<leftarrow>
       for_each (\<lambda>i (empty, max_len, total, non_empty). do {
           f \<leftarrow> vec_at (hjm_first m) i;
           if f = INVALID_INDEX then Some (empty + 1, max_len, total, non_empty)
           else do {
             len \<leftarrow> chain_length (hjm_next m) f 0;
             Some (empty, max max_len len, total + len, non_empty + 1)}})
         [0..<hjm_capacity m] (0, 0, 0, 0);
     Some \<lparr>num_buckets = hjm_capacity m, num_entries = hjm_size m, max_chain_length = max_len,
           avg_chain_length = (if non_empty_buckets > 0 then total_chain_length div non_empty_buckets else 0),
           empty_buckets = empty\<rparr>}"

section \<open>Invariant and abstraction\<close>

definition key_bucket :: "('k \<Rightarrow> u64) \<Rightarrow> nat \<Rightarrow> 'k list \<Rightarrow> nat \<Rightarrow> nat" where
  "key_bucket hash_fn c ks = (\<lambda>i. mask_bucket c (hash_fn (ks ! i)))"

definition hjm_inv :: "('k \<Rightarrow> u64) \<Rightarrow> ('k, 'v) hash_join_map \<Rightarrow> bool" where
  "hjm_inv hash_fn m \<longleftrightarrow>
     table_size (hjm_capacity m) \<and> hjm_size m \<le> 2 ^ 62 \<and>
     length (hjm_next m) = hjm_size m \<and> length (hjm_keys m) = hjm_size m \<and>
     length (hjm_values m) = hjm_size m \<and>
     chains_ok (key_bucket hash_fn (hjm_capacity m) (hjm_keys m)) (hjm_capacity m) (hjm_size m) (hjm_first m) (hjm_next m)"

definition hjm_entries :: "('k, 'v) hash_join_map \<Rightarrow> ('k \<times> 'v) list" where
  "hjm_entries m = zip (hjm_keys m) (hjm_values m)"

lemma HashJoinMap_empty [simp]:
  "hjm_size (HashJoinMap n) = 0" "hjm_keys (HashJoinMap n) = []" "hjm_values (HashJoinMap n) = []"
  "hjm_entries (HashJoinMap n) = []"
  by (simp_all add: HashJoinMap_def Let_def hjm_entries_def)

lemma hjm_inv_new: "n \<le> 2 ^ 62 \<Longrightarrow> hjm_inv hash_fn (HashJoinMap n) \<and> hjm_entries (HashJoinMap n) = []"
  using initial_capacity_of_spec(1)[of n]
  by (simp add: hjm_inv_def HashJoinMap_def Let_def hjm_entries_def chains_ok_empty)

lemma hjm_inv_Clear: "hjm_inv hash_fn m \<Longrightarrow> hjm_inv hash_fn (hjm_Clear m) \<and> hjm_entries (hjm_Clear m) = []"
  by (simp add: hjm_inv_def hjm_Clear_def hjm_entries_def chains_ok_empty)

lemma hjm_grow_ok:
  assumes inv: "hjm_inv hash_fn m" and cap: "hjm_capacity m < 2 ^ 62"
  obtains m' where "hjm_grow hash_fn m = Some m'" "hjm_inv hash_fn m'"
    "hjm_capacity m' = 2 * hjm_capacity m" "hjm_size m' = hjm_size m"
    "hjm_keys m' = hjm_keys m" "hjm_values m' = hjm_values m"
proof -
  define c where "c = 2 * hjm_capacity m"
  define bk where "bk = key_bucket hash_fn c (hjm_keys m)"
  have c: "table_size c" "(hjm_capacity m * 2) mod 2 ^ 64 = c"
    using table_size_double[of "hjm_capacity m"] inv cap by (simp_all add: hjm_inv_def c_def)
  obtain f' n' where fn: "for_each (\<lambda>i. chain_link i (bk i)) [0..<hjm_size m] (replicate c INVALID_INDEX, hjm_next m)
      = Some (f', n')" "chains_ok bk c (hjm_size m) f' n'" "length n' = length (hjm_next m)"
    using chain_rebuild[of "hjm_size m" bk c "hjm_next m"] inv mask_bucket_less[OF table_size_pow2[OF c(1)]]
    by (auto simp: bk_def key_bucket_def hjm_inv_def)
  have "for_each (\<lambda>i s. do { k \<leftarrow> vec_at (hjm_keys m) i; chain_link i (mask_bucket c (hash_fn k)) s })
      [0..<hjm_size m] (replicate c INVALID_INDEX, hjm_next m) = Some (f', n')"
    unfolding fn(1)[symmetric] by (rule for_each_cong) (use inv in \<open>auto simp: hjm_inv_def bk_def key_bucket_def\<close>)
  then have "hjm_grow hash_fn m = Some (m\<lparr>hjm_first := f', hjm_next := n', hjm_capacity := c\<rparr>)"
    unfolding hjm_grow_def c(2) Let_def by simp
  then show ?thesis
    by (rule that) (use inv c fn in \<open>auto simp: hjm_inv_def c_def bk_def\<close>)
qed

lemma hjm_Insert_ok:
  assumes inv: "hjm_inv hash_fn m" and size: "hjm_size m < 2 ^ 62"
  shows "\<exists>m'. hjm_Insert hash_fn m k v = Some (m', hjm_size m) \<and> hjm_inv hash_fn m' \<and>
    hjm_keys m' = hjm_keys m @ [k] \<and> hjm_values m' = hjm_values m @ [v] \<and> hjm_size m' = hjm_size m + 1 \<and>
    hjm_capacity m' \<le> max (hjm_capacity m) (hjm_size m)"
proof -
  obtain g where g: "(if hjm_size m \<ge> (hjm_capacity m * 2) mod 2 ^ 64 then hjm_grow hash_fn m else Some m) = Some g"
    and ginv: "hjm_inv hash_fn g" and gs: "hjm_size g = hjm_size m" "hjm_keys g = hjm_keys m" "hjm_values g = hjm_values m"
      "hjm_capacity g \<le> max (hjm_capacity m) (hjm_size m)"
  proof (cases "hjm_size m \<ge> (hjm_capacity m * 2) mod 2 ^ 64")
    case True
    have "hjm_capacity m < 2 ^ 62"
      using True size table_size_le[of "hjm_capacity m"] inv by (cases "hjm_capacity m = 2 ^ 62") (auto simp: hjm_inv_def)
    then have "2 * hjm_capacity m \<le> hjm_size m" using True by simp
    with hjm_grow_ok[OF inv \<open>hjm_capacity m < 2 ^ 62\<close>] show ?thesis
      using True that by (metis max.coboundedI2)
  qed (use inv that in auto)
  define c where "c = hjm_capacity g"
  define bk where "bk = key_bucket hash_fn c (hjm_keys m @ [k])"
  have pow: "pow2 c" using ginv table_size_pow2 by (simp add: hjm_inv_def c_def)
  have "chains_ok (key_bucket hash_fn c (hjm_keys m)) c (hjm_size m) (hjm_first g) (hjm_next g)"
    using ginv gs by (simp add: hjm_inv_def c_def)
  moreover have "length (hjm_keys m) = hjm_size m" "length (hjm_next g) = hjm_size m"
    using inv ginv gs by (simp_all add: hjm_inv_def)
  ultimately have ext: "chains_ok bk c (hjm_size m) (hjm_first g) (hjm_next g @ [INVALID_INDEX])"
    by (intro chains_ok_extend, elim chains_ok_cong) (simp add: bk_def key_bucket_def nth_append)
  have less: "hjm_size m < length (hjm_next g @ [INVALID_INDEX])" "length (hjm_next g) = hjm_size m"
    using ginv gs by (simp_all add: hjm_inv_def)
  have "bk (hjm_size m) < c" by (simp add: bk_def key_bucket_def mask_bucket_less[OF pow])
  from chain_link_ok[OF ext less(1) this] less(2) obtain f' n' where
    fn: "chain_link (hjm_size m) (bk (hjm_size m)) (hjm_first g, hjm_next g @ [INVALID_INDEX]) = Some (f', n')"
      "chains_ok bk c (Suc (hjm_size m)) f' n'" "length n' = Suc (hjm_size m)"
    by auto
  have "bk (hjm_size m) = mask_bucket c (hash_fn k)"
    using inv by (simp add: bk_def key_bucket_def hjm_inv_def nth_append)
  then have "hjm_Insert hash_fn m k v =
      Some (g\<lparr>hjm_keys := hjm_keys m @ [k], hjm_values := hjm_values m @ [v], hjm_first := f', hjm_next := n',
              hjm_size := hjm_size m + 1\<rparr>, hjm_size m)"
    unfolding hjm_Insert_def g using fn(1) by (simp add: gs hjm_hash_to_bucket_def c_def Let_def)
  then show ?thesis using fn inv ginv gs size by (simp add: hjm_inv_def bk_def c_def)
qed

lemma hjm_entries_Insert:
  assumes "hjm_inv hash_fn m" "hjm_keys m' = hjm_keys m @ [k]" "hjm_values m' = hjm_values m @ [v]"
  shows "hjm_entries m' = hjm_entries m @ [(k, v)]"
  using assms by (simp add: hjm_entries_def hjm_inv_def)

definition hjm_match :: "('k \<Rightarrow> 'k \<Rightarrow> bool) \<Rightarrow> ('k, 'v) hash_join_map \<Rightarrow> 'k \<Rightarrow> nat \<Rightarrow> bool" where
  "hjm_match key_equal m key = (\<lambda>i. key_equal (hjm_keys m ! i) key)"

lemma hjm_walk:
  assumes inv: "hjm_inv hash_fn m" and ok: "keys_ok hash_fn key_equal" and n: "n \<le> hjm_size m"
    and b: "b = hjm_hash_to_bucket m (hash_fn key)"
  shows "chain_find (hjm_next m) (\<lambda>i. do { k \<leftarrow> vec_at (hjm_keys m) i; Some (key_equal k key) })
      (last_sat (\<lambda>i. key_bucket hash_fn (hjm_capacity m) (hjm_keys m) i = b) n) = Some (last_sat (hjm_match key_equal m key) n)"
proof -
  let ?bk = "key_bucket hash_fn (hjm_capacity m) (hjm_keys m)"
  have "chain_find (hjm_next m) (\<lambda>i. do { k \<leftarrow> vec_at (hjm_keys m) i; Some (key_equal k key) })
      (last_sat (\<lambda>i. ?bk i = b) n) = Some (last_sat (\<lambda>i. ?bk i = b \<and> hjm_match key_equal m key i) n)"
    using inv n by (intro chain_find_last_sat) (auto simp: hjm_inv_def hjm_match_def)
  also have "last_sat (\<lambda>i. ?bk i = b \<and> hjm_match key_equal m key i) n = last_sat (hjm_match key_equal m key) n"
    using ok b by (intro last_sat_cong) (auto simp: keys_ok_def hjm_match_def key_bucket_def hjm_hash_to_bucket_def)
  finally show ?thesis .
qed

lemma hjm_FindFirst_eq:
  assumes inv: "hjm_inv hash_fn m" and ok: "keys_ok hash_fn key_equal"
  shows "hjm_FindFirst hash_fn key_equal m key = Some (last_sat (hjm_match key_equal m key) (hjm_size m))"
proof -
  let ?b = "hjm_hash_to_bucket m (hash_fn key)"
  have "?b < hjm_capacity m"
    using inv mask_bucket_less table_size_pow2 by (simp add: hjm_inv_def hjm_hash_to_bucket_def)
  then have "vec_at (hjm_first m) ?b =
      Some (last_sat (\<lambda>i. key_bucket hash_fn (hjm_capacity m) (hjm_keys m) i = ?b) (hjm_size m))"
    using inv by (auto simp: hjm_inv_def chains_ok_def)
  then show ?thesis using hjm_walk[OF inv ok, of "hjm_size m"] by (simp add: hjm_FindFirst_def)
qed

lemma hjm_FindNext_eq:
  assumes inv: "hjm_inv hash_fn m" and ok: "keys_ok hash_fn key_equal" and i: "i < hjm_size m"
  shows "hjm_FindNext key_equal m i = Some (last_sat (hjm_match key_equal m (hjm_keys m ! i)) i)"
proof -
  have "vec_at (hjm_keys m) i = Some (hjm_keys m ! i)"
    "vec_at (hjm_next m) i = Some (last_sat (\<lambda>j. key_bucket hash_fn (hjm_capacity m) (hjm_keys m) j =
       hjm_hash_to_bucket m (hash_fn (hjm_keys m ! i))) i)"
    using inv i by (auto simp: hjm_inv_def chains_ok_def key_bucket_def hjm_hash_to_bucket_def)
  then show ?thesis using hjm_walk[OF inv ok, of i] i by (simp add: hjm_FindNext_def)
qed

lemma hjm_match_trans:
  assumes "keys_ok hash_fn key_equal" "hjm_match key_equal m key i"
  shows "hjm_match key_equal m (hjm_keys m ! i) = hjm_match key_equal m key"
  using assms unfolding keys_ok_def hjm_match_def fun_eq_iff by (metis equivp_symp equivp_transp)

lemma hjm_find_all_loop_eq:
  assumes inv: "hjm_inv hash_fn m" and ok: "keys_ok hash_fn key_equal"
  shows "n \<le> hjm_size m \<Longrightarrow> hjm_find_all_loop key_equal m (last_sat (hjm_match key_equal m key) n) acc =
    Some (acc @ rev (filter (hjm_match key_equal m key) [0..<n]))"
proof (induction n arbitrary: acc rule: less_induct)
  case (less n)
  let ?Q = "hjm_match key_equal m key"
  show ?case
  proof (cases rule: last_sat_cases[of ?Q n])
    case 1
    then show ?thesis by (simp add: hjm_find_all_loop.simps filter_empty_conv)
  next
    case (2 j)
    have j: "j < hjm_size m" "j \<noteq> INVALID_INDEX"
      using 2(2) less.prems inv by (auto simp: hjm_inv_def INVALID_INDEX_def)
    have "hjm_FindNext key_equal m j = Some (last_sat ?Q j)"
      using hjm_FindNext_eq[OF inv ok j(1)] hjm_match_trans[OF ok 2(3)] by simp
    then show ?thesis
      using 2(1,2) j less.IH[of j "acc @ [j]"] less.prems filter_upt_split[of j n ?Q] 2(3,4)
      by (subst hjm_find_all_loop.simps) simp
  qed
qed

lemma hjm_FindAll_eq:
  assumes "hjm_inv hash_fn m" "keys_ok hash_fn key_equal"
  shows "hjm_FindAll hash_fn key_equal m key = Some (rev (filter (hjm_match key_equal m key) [0..<hjm_size m]))"
  using hjm_FindFirst_eq[OF assms] hjm_find_all_loop_eq[OF assms, of "hjm_size m" key "[]"]
  by (simp add: hjm_FindAll_def)

section \<open>Statistics\<close>

definition hjm_chain :: "('k \<Rightarrow> u64) \<Rightarrow> ('k, 'v) hash_join_map \<Rightarrow> nat \<Rightarrow> nat" where
  "hjm_chain hash_fn m b =
     length (filter (\<lambda>k. hjm_hash_to_bucket m (hash_fn k) = b) (hjm_keys m))"

lemma hjm_chain_index:
  assumes "hjm_inv hash_fn m"
  shows "hjm_chain hash_fn m b =
    length (filter (\<lambda>i. key_bucket hash_fn (hjm_capacity m) (hjm_keys m) i = b) [0..<hjm_size m])"
proof -
  have "hjm_keys m = map ((!) (hjm_keys m)) [0..<hjm_size m]"
    using assms map_nth[of "hjm_keys m"] by (simp add: hjm_inv_def)
  then have "hjm_chain hash_fn m b = length (filter (\<lambda>k. hjm_hash_to_bucket m (hash_fn k) = b)
      (map ((!) (hjm_keys m)) [0..<hjm_size m]))"
    unfolding hjm_chain_def by metis
  then show ?thesis
    by (simp add: filter_map o_def hjm_hash_to_bucket_def key_bucket_def)
qed

lemma hjm_chain_sum:
  assumes "hjm_inv hash_fn m"
  shows "(\<Sum>b<hjm_capacity m. hjm_chain hash_fn m b) = hjm_size m"
  unfolding hjm_chain_def
  using assms mask_bucket_less[OF table_size_pow2]
  by (subst sum_filter_partition) (auto simp: hjm_inv_def hjm_hash_to_bucket_def)

lemma hjm_stats_loop:
  assumes inv: "hjm_inv hash_fn m" and n: "n \<le> hjm_capacity m"
  shows "for_each (\<lambda>i (empty, max_len, total, non_empty). do {
           f \<leftarrow> vec_at (hjm_first m) i;
           if f = INVALID_INDEX then Some (empty + 1, max_len, total, non_empty)
           else do {
             len \<leftarrow> chain_length (hjm_next m) f 0;
             Some (empty, max max_len len, total + len, non_empty + 1)}})
         [0..<n] (0, 0, 0, 0) =
      Some (card {b. b < n \<and> hjm_chain hash_fn m b = 0}, Max (insert 0 (hjm_chain hash_fn m ` {..<n})),
            (\<Sum>b<n. hjm_chain hash_fn m b), card {b. b < n \<and> hjm_chain hash_fn m b \<noteq> 0})"
  using n
proof (induction n)
  case (Suc n)
  let ?bk = "key_bucket hash_fn (hjm_capacity m) (hjm_keys m)"
  have ok: "chains_ok ?bk (hjm_capacity m) (hjm_size m) (hjm_first m) (hjm_next m)" "hjm_size m \<le> 2 ^ 62"
    using inv by (simp_all add: hjm_inv_def)
  have f: "vec_at (hjm_first m) n = Some (last_sat (\<lambda>i. ?bk i = n) (hjm_size m))"
    using ok Suc.prems by (auto simp: chains_ok_def)
  have len: "chain_length (hjm_next m) (last_sat (\<lambda>i. ?bk i = n) (hjm_size m)) 0 = Some (hjm_chain hash_fn m n)"
    using chain_length_count[OF ok, of "hjm_size m" n 0] hjm_chain_index[OF inv] by simp
  have inval: "last_sat (\<lambda>i. ?bk i = n) (hjm_size m) = INVALID_INDEX \<longleftrightarrow> hjm_chain hash_fn m n = 0"
    using ok(2) unfolding hjm_chain_index[OF inv]
    by (cases rule: last_sat_cases[of "\<lambda>i. ?bk i = n" "hjm_size m"])
      (auto simp: filter_empty_conv INVALID_INDEX_def)
  have sets: "{b. b < Suc n \<and> P b} = (if P n then insert n {b. b < n \<and> P b} else {b. b < n \<and> P b})" for P
    by (auto simp: less_Suc_eq)
  have mx: "Max (insert 0 (hjm_chain hash_fn m ` {..<Suc n})) =
      max (Max (insert 0 (hjm_chain hash_fn m ` {..<n}))) (hjm_chain hash_fn m n)"
    by (simp add: lessThan_Suc insert_commute[of 0] max.commute)
  show ?case using Suc f len inval by (auto simp: sets mx)
qed simp

lemma hjm_GetStatistics_eq:
  assumes inv: "hjm_inv hash_fn m"
  shows "hjm_GetStatistics m = Some
    \<lparr>num_buckets = hjm_capacity m, num_entries = hjm_size m,
     max_chain_length = Max (hjm_chain hash_fn m ` {..<hjm_capacity m}),
     avg_chain_length = hjm_size m div card {b. b < hjm_capacity m \<and> hjm_chain hash_fn m b \<noteq> 0},
     empty_buckets = card {b. b < hjm_capacity m \<and> hjm_chain hash_fn m b = 0}\<rparr>"
proof -
  have "0 < hjm_capacity m" using inv table_size_pos by (auto simp: hjm_inv_def)
  then have "Max (insert 0 (hjm_chain hash_fn m ` {..<hjm_capacity m})) = Max (hjm_chain hash_fn m ` {..<hjm_capacity m})"
    by (subst Max_insert) auto
  moreover have "\<forall>b<hjm_capacity m. hjm_chain hash_fn m b = 0 \<Longrightarrow> hjm_size m = 0"
    using hjm_chain_sum[OF inv] by simp
  ultimately show ?thesis
    unfolding hjm_GetStatistics_def hjm_stats_loop[OF inv order_refl] by (auto simp: hjm_chain_sum[OF inv])
qed

section \<open>The table as a join table\<close>

text \<open>The probe loop of the simulated join: iterate over the matches and read their values.\<close>

partial_function (option) hjm_probe_loop ::
  "('k \<Rightarrow> 'k \<Rightarrow> bool) \<Rightarrow> ('k, 'v) hash_join_map \<Rightarrow> hjm_iterator \<Rightarrow> 'v list \<Rightarrow> 'v list option" where
  "hjm_probe_loop key_equal m it vs =
     (if hjm_HasNext it then do {
        (idx, it) \<leftarrow> hjm_Next key_equal m it;
        v \<leftarrow> hjm_GetValue m idx;
        hjm_probe_loop key_equal m it (vs @ [v])}
      else Some vs)"

definition hjm_probe ::
  "('k \<Rightarrow> u64) \<Rightarrow> ('k \<Rightarrow> 'k \<Rightarrow> bool) \<Rightarrow> ('k, 'v) hash_join_map \<Rightarrow> 'k \<Rightarrow> 'v list option" where
  "hjm_probe hash_fn key_equal m key = do {
     it \<leftarrow> hjm_GetIterator hash_fn key_equal m key;
     hjm_probe_loop key_equal m it []}"

definition hjm_put :: "('k \<Rightarrow> u64) \<Rightarrow> ('k, 'v) hash_join_map \<Rightarrow> 'k \<Rightarrow> 'v \<Rightarrow> ('k, 'v) hash_join_map option" where
  "hjm_put hash_fn m k v = map_option fst (hjm_Insert hash_fn m k v)"

lemma hjm_probe_loop_eq:
  assumes inv: "hjm_inv hash_fn m" and ok: "keys_ok hash_fn key_equal"
  shows "n \<le> hjm_size m \<Longrightarrow>
    hjm_probe_loop key_equal m \<lparr>it_index = last_sat (hjm_match key_equal m key) n\<rparr> acc =
    Some (acc @ map ((!) (hjm_values m)) (rev (filter (hjm_match key_equal m key) [0..<n])))"
proof (induction n arbitrary: acc rule: less_induct)
  case (less n)
  let ?Q = "hjm_match key_equal m key"
  show ?case
  proof (cases rule: last_sat_cases[of ?Q n])
    case 1
    then show ?thesis by (simp add: hjm_probe_loop.simps filter_empty_conv hjm_HasNext_def)
  next
    case (2 j)
    have j: "j < hjm_size m" "j \<noteq> INVALID_INDEX" "hjm_GetValue m j = Some (hjm_values m ! j)"
      using 2(2) less.prems inv by (auto simp: hjm_inv_def INVALID_INDEX_def hjm_GetValue_def)
    have "hjm_FindNext key_equal m j = Some (last_sat ?Q j)"
      using hjm_FindNext_eq[OF inv ok j(1)] hjm_match_trans[OF ok 2(3)] by simp
    then show ?thesis
      using 2(1,2) j less.IH[of j "acc @ [hjm_values m ! j]"] less.prems filter_upt_split[of j n ?Q] 2(3,4)
      by (subst hjm_probe_loop.simps) (simp add: hjm_HasNext_def hjm_Next_def)
  qed
qed

lemma hjm_probe_eq:
  assumes "hjm_inv hash_fn m" "keys_ok hash_fn key_equal"
  shows "hjm_probe hash_fn key_equal m key =
    Some (rev (map snd (filter (\<lambda>e. key_equal (fst e) key) (hjm_entries m))))"
proof -
  have z: "hjm_entries m = map (\<lambda>i. (hjm_keys m ! i, hjm_values m ! i)) [0..<hjm_size m]"
    using assms(1) by (intro nth_equalityI) (auto simp: hjm_entries_def hjm_inv_def)
  show ?thesis
    using hjm_FindFirst_eq[OF assms] hjm_probe_loop_eq[OF assms, of "hjm_size m" key "[]"]
    by (simp add: hjm_probe_def hjm_GetIterator_def z filter_map o_def rev_map hjm_match_def)
qed

lemma hjm_size_entries: "hjm_inv hash_fn m \<Longrightarrow> length (hjm_entries m) = hjm_size m"
  by (simp add: hjm_inv_def hjm_entries_def)

definition hjm_rel :: "('k \<Rightarrow> u64) \<Rightarrow> ('k, 'v) hash_join_map \<Rightarrow> ('k \<times> 'v) list \<Rightarrow> bool" where
  "hjm_rel hash_fn m es \<longleftrightarrow> hjm_inv hash_fn m \<and> hjm_entries m = es"

lemma hjm_join_table:
  assumes "keys_ok hash_fn key_equal"
  shows "join_table (hjm_rel hash_fn) (hjm_put hash_fn) (hjm_probe hash_fn key_equal) key_equal (2 ^ 62)"
proof
  fix m :: "('a, 'b) hash_join_map" and es k v
  assume rel: "hjm_rel hash_fn m es" and "length es < 2 ^ 62"
  then have inv: "hjm_inv hash_fn m" and "hjm_size m < 2 ^ 62"
    by (auto simp: hjm_rel_def hjm_size_entries)
  from hjm_Insert_ok[OF this, of k v] rel show "\<exists>t'. hjm_put hash_fn m k v = Some t' \<and> hjm_rel hash_fn t' (es @ [(k, v)])"
    using hjm_entries_Insert[OF inv] by (fastforce simp: hjm_put_def hjm_rel_def)
next
  fix m :: "('a, 'b) hash_join_map" and es k
  assume rel: "hjm_rel hash_fn m es"
  then show "\<exists>vs. hjm_probe hash_fn key_equal m k = Some vs \<and>
      mset vs = mset (map snd (filter (\<lambda>e. key_equal (fst e) k) es))"
    using hjm_probe_eq[of hash_fn m key_equal k] assms by (simp add: hjm_rel_def)
qed

text \<open>The instance the test program uses: keys compared with \<^verbatim>\<open>std::equal_to\<close>, any hash function.\<close>

interpretation hjm_eq: join_table "hjm_rel hash_fn" "hjm_put hash_fn" "hjm_probe hash_fn (=)" "(=)" "2 ^ 62" for hash_fn
  by (rule hjm_join_table[OF keys_ok_eq])

section \<open>Properties\<close>

text \<open>C4: a hash join on \<^verbatim>\<open>HashJoinMap\<close>, built from an empty table of any initial capacity
  up to \<open>2 ^ 62\<close> and probed with any keys, returns (no undefined behaviour, no endless chain) and
  its result rows are, with multiplicity, those of the nested-loop join, for every hash function and
  however often the table grew.\<close>

theorem hjm_hash_join_correct:
  assumes "length rows \<le> 2 ^ 62" "n \<le> 2 ^ 62"
  shows "\<exists>out. hash_join (hjm_put hash_fn) (hjm_probe hash_fn (=)) (HashJoinMap n) rows probe_keys = Some out \<and>
    mset out = mset (nested_loop_join (=) rows probe_keys)"
  by (rule hjm_eq.hash_join_nested_loop) (use assms in \<open>simp_all add: hjm_rel_def hjm_inv_new\<close>)

theorem hjm_hash_join_correct_witness:
  "\<exists>out. hash_join (hjm_put of_nat) (hjm_probe of_nat (=)) (HashJoinMap 1)
      [(1::nat, ''a''), (2, ''b''), (1, ''c'')] [1, 3] = Some out \<and> mset out = {#(1, ''a''), (1, ''c'')#}"
  using hjm_hash_join_correct[of "[(1::nat, ''a''), (2, ''b''), (1, ''c'')]" 1 of_nat "[1, 3]"]
  by (simp add: nested_loop_join_def)

text \<open>An insertion below \<open>2 ^ 62\<close> entries succeeds, returns the old size as the index of the
  new entry, appends exactly that entry and keeps the invariant, also when it makes the table grow.\<close>

theorem hjm_Insert_correct:
  assumes "hjm_inv hash_fn m" "hjm_size m < 2 ^ 62"
  shows "\<exists>m'. hjm_Insert hash_fn m k v = Some (m', hjm_size m) \<and> hjm_inv hash_fn m' \<and>
    hjm_entries m' = hjm_entries m @ [(k, v)] \<and> hjm_GetKey m' (hjm_size m) = Some k \<and>
    hjm_GetValue m' (hjm_size m) = Some v"
proof -
  obtain m' where m': "hjm_Insert hash_fn m k v = Some (m', hjm_size m)" "hjm_inv hash_fn m'"
      "hjm_keys m' = hjm_keys m @ [k]" "hjm_values m' = hjm_values m @ [v]"
    using hjm_Insert_ok[OF assms] by blast
  then show ?thesis using hjm_entries_Insert[OF assms(1)] assms(1)
    by (auto simp: hjm_GetKey_def hjm_GetValue_def vec_at_def hjm_inv_def nth_append)
qed

text \<open>\<^verbatim>\<open>FindAll\<close> returns the indices of all entries with an equal key and no others, newest first;
  the head of that list is what \<^verbatim>\<open>FindFirst\<close> returns (\<^verbatim>\<open>INVALID_INDEX\<close> when there is none).  The comparison
  may be any equivalence that the hash function respects.\<close>

theorem hjm_FindAll_correct:
  assumes "hjm_inv hash_fn m" "keys_ok hash_fn key_equal"
  shows "\<exists>is. hjm_FindAll hash_fn key_equal m key = Some is \<and>
    is = rev (filter (\<lambda>i. key_equal (hjm_keys m ! i) key) [0..<hjm_size m]) \<and>
    hjm_FindFirst hash_fn key_equal m key = Some (case is of [] \<Rightarrow> INVALID_INDEX | i # _ \<Rightarrow> i)"
proof -
  let ?Q = "hjm_match key_equal m key"
  have "(case rev (filter ?Q [0..<hjm_size m]) of [] \<Rightarrow> INVALID_INDEX | i # _ \<Rightarrow> i) = last_sat ?Q (hjm_size m)"
    by (cases rule: last_sat_cases[of ?Q "hjm_size m"])
      (auto simp: filter_empty_conv filter_upt_split split: list.split)
  then show ?thesis
    using hjm_FindAll_eq[OF assms] hjm_FindFirst_eq[OF assms] by (simp add: hjm_match_def)
qed

text \<open>\<^verbatim>\<open>GetStatistics\<close> returns the true figures: every entry is counted in exactly one chain, the longest
  chain is the largest number of keys that share a bucket, the empty buckets are those no key hashes to,
  and the average is taken over the non-empty ones.\<close>

theorem hjm_statistics_correct:
  assumes "hjm_inv hash_fn m"
  shows "\<exists>s. hjm_GetStatistics m = Some s \<and> num_buckets s = hjm_capacity m \<and> num_entries s = hjm_size m \<and>
    max_chain_length s = Max (hjm_chain hash_fn m ` {..<hjm_capacity m}) \<and>
    empty_buckets s = card {b. b < hjm_capacity m \<and> hjm_chain hash_fn m b = 0} \<and>
    avg_chain_length s = hjm_size m div card {b. b < hjm_capacity m \<and> hjm_chain hash_fn m b \<noteq> 0} \<and>
    (\<Sum>b<hjm_capacity m. hjm_chain hash_fn m b) = hjm_size m"
  using hjm_GetStatistics_eq[OF assms] hjm_chain_sum[OF assms] by simp

text \<open>A moved-from map has capacity zero, and inserting into it writes outside its bucket array:
  the growth step doubles zero and the mask of a zero capacity lets every hash through.\<close>

lemma hjm_moved_from_Insert:
  "hjm_Insert hash_fn (snd (hjm_move m)) k v = None"
  by (simp add: hjm_Insert_def hjm_move_def hjm_grow_def chain_link_def vec_at_def Let_def)

end
