(* ===== verification/Hash_Join_Variants.thy ===== *)
theory Hash_Join_Variants
  imports Hash_Join_Map
begin

text \<open>
  Two variants of \<^verbatim>\<open>HashJoinMap\<close> from \<^verbatim>\<open>src/cc/algo/src/algo/algo_join_hash_map.cc\<close>.
  \<^verbatim>\<open>OptimizedHashJoinMap\<close> stores the hash of every key; it is shown to refine \<^verbatim>\<open>HashJoinMap\<close> step by
  step.  \<^verbatim>\<open>SIMDProbingHashJoinMap\<close> has 32-bit signed keys, a fixed multiplicative hash, a stored mask, and
  a probe that handles eight keys at a time with 32-bit vector arithmetic and a limit of 100 rounds; the
  table refines \<^verbatim>\<open>HashJoinMap\<close>, and the vector probe is compared with the scalar one.
\<close>

section \<open>OptimizedHashJoinMap\<close>

record ('k, 'v) optimized_map =
  ohm_capacity :: nat
  ohm_size :: nat
  ohm_first :: "nat list"
  ohm_next :: "nat list"
  ohm_keys :: "'k list"
  ohm_values :: "'v list"
  ohm_hashes :: "u64 list"

definition OptimizedHashJoinMap :: "nat \<Rightarrow> ('k, 'v) optimized_map" where
  "OptimizedHashJoinMap initial_capacity =
     (let capacity = initial_capacity_of initial_capacity in
      \<lparr>ohm_capacity = capacity, ohm_size = 0, ohm_first = replicate capacity INVALID_INDEX,
       ohm_next = [], ohm_keys = [], ohm_values = [], ohm_hashes = []\<rparr>)"

definition ohm_grow :: "('k, 'v) optimized_map \<Rightarrow> ('k, 'v) optimized_map option" where
  "ohm_grow m =
     (let new_capacity = (ohm_capacity m * 2) mod 2 ^ 64;
          new_first = replicate new_capacity INVALID_INDEX
      in do {
        (new_first, nxt) \<leftarrow>
          for_each (\<lambda>i s. do { h \<leftarrow> vec_at (ohm_hashes m) i;
                               chain_link i (mask_bucket new_capacity h) s })
            [0..<ohm_size m] (new_first, ohm_next m);
        Some (m\<lparr>ohm_first := new_first, ohm_next := nxt, ohm_capacity := new_capacity\<rparr>)})"

definition ohm_InsertWithHash ::
  "('k, 'v) optimized_map \<Rightarrow> 'k \<Rightarrow> 'v \<Rightarrow> u64 \<Rightarrow> (('k, 'v) optimized_map \<times> nat) option" where
  "ohm_InsertWithHash m key value hash = do {
     m \<leftarrow> (if ohm_size m \<ge> (ohm_capacity m * 2) mod 2 ^ 64 then ohm_grow m else Some m);
     let bucket = mask_bucket (ohm_capacity m) hash;
     let new_index = ohm_size m;
     let m = m\<lparr>ohm_keys := ohm_keys m @ [key], ohm_values := ohm_values m @ [value],
               ohm_hashes := ohm_hashes m @ [hash], ohm_next := ohm_next m @ [INVALID_INDEX]\<rparr>;
     (first, nxt) \<leftarrow> chain_link new_index bucket (ohm_first m, ohm_next m);
     Some (m\<lparr>ohm_first := first, ohm_next := nxt, ohm_size := ohm_size m + 1\<rparr>, new_index)}"

text \<open>The key and value ranges are lists; the value iterator is dereferenced as often as the key one.\<close>

definition ohm_BatchInsert ::
  "('k \<Rightarrow> u64) \<Rightarrow> ('k, 'v) optimized_map \<Rightarrow> 'k list \<Rightarrow> 'v list \<Rightarrow> ('k, 'v) optimized_map option" where
  "ohm_BatchInsert hash_fn m ks vs =
     for_each (\<lambda>j m. do { v \<leftarrow> vec_at vs j;
                          (m, _) \<leftarrow> ohm_InsertWithHash m (ks ! j) v (hash_fn (ks ! j));
                          Some m }) [0..<length ks] m"

definition ohm_FindFirst ::
  "('k \<Rightarrow> u64) \<Rightarrow> ('k \<Rightarrow> 'k \<Rightarrow> bool) \<Rightarrow> ('k, 'v) optimized_map \<Rightarrow> 'k \<Rightarrow> nat option" where
  "ohm_FindFirst hash_fn key_equal m key = do {
     let hash = hash_fn key;
     let bucket = mask_bucket (ohm_capacity m) hash;
     current \<leftarrow> vec_at (ohm_first m) bucket;
     chain_find (ohm_next m)
       (\<lambda>i. do { h \<leftarrow> vec_at (ohm_hashes m) i;
                 if h = hash then do { k \<leftarrow> vec_at (ohm_keys m) i; Some (key_equal k key) }
                 else Some False }) current}"

definition ohm_GetValue :: "('k, 'v) optimized_map \<Rightarrow> nat \<Rightarrow> 'v option" where
  "ohm_GetValue m index = vec_at (ohm_values m) index"

text \<open>Forgetting the stored hashes.\<close>

definition ohm_abs :: "('k, 'v) optimized_map \<Rightarrow> ('k, 'v) hash_join_map" where
  "ohm_abs m = \<lparr>hjm_capacity = ohm_capacity m, hjm_size = ohm_size m, hjm_first = ohm_first m,
     hjm_next = ohm_next m, hjm_keys = ohm_keys m, hjm_values = ohm_values m\<rparr>"

definition ohm_ok :: "('k \<Rightarrow> u64) \<Rightarrow> ('k, 'v) optimized_map \<Rightarrow> bool" where
  "ohm_ok hash_fn m \<longleftrightarrow> ohm_hashes m = map hash_fn (ohm_keys m) \<and> length (ohm_keys m) = ohm_size m"

lemma ohm_abs_sel [simp]:
  "hjm_capacity (ohm_abs m) = ohm_capacity m" "hjm_size (ohm_abs m) = ohm_size m"
  "hjm_first (ohm_abs m) = ohm_first m" "hjm_next (ohm_abs m) = ohm_next m"
  "hjm_keys (ohm_abs m) = ohm_keys m" "hjm_values (ohm_abs m) = ohm_values m"
  by (simp_all add: ohm_abs_def)

lemma ohm_abs_new [simp]: "ohm_abs (OptimizedHashJoinMap n) = HashJoinMap n"
  by (simp add: ohm_abs_def OptimizedHashJoinMap_def HashJoinMap_def Let_def)

lemma OptimizedHashJoinMap_empty [simp]:
  "ohm_size (OptimizedHashJoinMap n) = 0" "ohm_keys (OptimizedHashJoinMap n) = []"
  "ohm_values (OptimizedHashJoinMap n) = []"
  by (simp_all add: OptimizedHashJoinMap_def Let_def)

lemma ohm_ok_new [simp]: "ohm_ok hash_fn (OptimizedHashJoinMap n)"
  by (simp add: ohm_ok_def OptimizedHashJoinMap_def Let_def)

lemma ohm_grow_refines:
  assumes "ohm_ok hash_fn m"
  shows "map_option ohm_abs (ohm_grow m) = hjm_grow hash_fn (ohm_abs m)"
    and "ohm_grow m = Some m' \<Longrightarrow> ohm_ok hash_fn m'"
proof -
  have loop: "for_each (\<lambda>i s. do { h \<leftarrow> vec_at (ohm_hashes m) i; chain_link i (mask_bucket c h) s }) [0..<ohm_size m] s =
      for_each (\<lambda>i s. do { k \<leftarrow> vec_at (ohm_keys m) i; chain_link i (mask_bucket c (hash_fn k)) s }) [0..<ohm_size m] s" for c s
    by (rule for_each_cong) (use assms in \<open>auto simp: ohm_ok_def\<close>)
  show "map_option ohm_abs (ohm_grow m) = hjm_grow hash_fn (ohm_abs m)"
    unfolding ohm_grow_def hjm_grow_def Let_def loop ohm_abs_sel
    by (simp add: ohm_abs_def map_option_bind o_def case_prod_unfold)
  show "ohm_grow m = Some m' \<Longrightarrow> ohm_ok hash_fn m'"
    using assms by (auto simp: ohm_grow_def Let_def ohm_ok_def Option.bind_eq_Some_conv)
qed

lemma ohm_Insert_refines:
  assumes "ohm_ok hash_fn m"
  shows "map_option (\<lambda>(m, i). (ohm_abs m, i)) (ohm_InsertWithHash m k v (hash_fn k)) = hjm_Insert hash_fn (ohm_abs m) k v"
    and "ohm_InsertWithHash m k v (hash_fn k) = Some (m', i) \<Longrightarrow> ohm_ok hash_fn m'"
proof -
  define g where "g = (if ohm_size m \<ge> (ohm_capacity m * 2) mod 2 ^ 64 then ohm_grow m else Some m)"
  have g: "(if hjm_size (ohm_abs m) \<ge> (hjm_capacity (ohm_abs m) * 2) mod 2 ^ 64 then hjm_grow hash_fn (ohm_abs m)
      else Some (ohm_abs m)) = map_option ohm_abs g"
    using ohm_grow_refines(1)[OF assms] by (simp add: g_def)
  have ok: "g = Some g' \<Longrightarrow> ohm_ok hash_fn g'" for g'
    using ohm_grow_refines(2)[OF assms] assms by (auto simp: g_def split: if_splits)
  show "map_option (\<lambda>(m, i). (ohm_abs m, i)) (ohm_InsertWithHash m k v (hash_fn k)) = hjm_Insert hash_fn (ohm_abs m) k v"
    unfolding ohm_InsertWithHash_def hjm_Insert_def g g_def[symmetric]
    by (cases g) (simp_all add: hjm_hash_to_bucket_def ohm_abs_def Let_def map_option_bind o_def case_prod_unfold)
  show "ohm_InsertWithHash m k v (hash_fn k) = Some (m', i) \<Longrightarrow> ohm_ok hash_fn m'"
    unfolding ohm_InsertWithHash_def g_def[symmetric]
    by (auto simp: ohm_ok_def Let_def Option.bind_eq_Some_conv dest!: ok)
qed

lemma ohm_FindFirst_refines:
  assumes "ohm_ok hash_fn m" "hjm_inv hash_fn (ohm_abs m)" "keys_ok hash_fn key_equal"
  shows "ohm_FindFirst hash_fn key_equal m key = hjm_FindFirst hash_fn key_equal (ohm_abs m) key"
proof -
  let ?b = "hjm_hash_to_bucket (ohm_abs m) (hash_fn key)"
  let ?bk = "key_bucket hash_fn (ohm_capacity m) (ohm_keys m)"
  let ?P = "\<lambda>i. hash_fn (ohm_keys m ! i) = hash_fn key \<and> key_equal (ohm_keys m ! i) key"
  have b: "?b < ohm_capacity m"
    using assms(2) mask_bucket_less table_size_pow2 by (simp add: hjm_inv_def hjm_hash_to_bucket_def)
  have ok: "chains_ok ?bk (ohm_capacity m) (ohm_size m) (ohm_first m) (ohm_next m)" "ohm_size m \<le> 2 ^ 62"
    using assms(2) by (simp_all add: hjm_inv_def)
  have "ohm_FindFirst hash_fn key_equal m key = Some (last_sat (\<lambda>i. ?bk i = ?b \<and> ?P i) (ohm_size m))"
  proof -
    have "chain_find (ohm_next m)
       (\<lambda>i. do { h \<leftarrow> vec_at (ohm_hashes m) i;
                 if h = hash_fn key then do { k \<leftarrow> vec_at (ohm_keys m) i; Some (key_equal k key) }
                 else Some False }) (last_sat (\<lambda>i. ?bk i = ?b) (ohm_size m)) =
       Some (last_sat (\<lambda>i. ?bk i = ?b \<and> ?P i) (ohm_size m))"
      using assms(1) by (intro chain_find_last_sat[OF ok]) (auto simp: ohm_ok_def)
    then show ?thesis using b ok(1)
      by (simp add: ohm_FindFirst_def chains_ok_def hjm_hash_to_bucket_def Let_def)
  qed
  also have "last_sat (\<lambda>i. ?bk i = ?b \<and> ?P i) (ohm_size m) = last_sat (hjm_match key_equal (ohm_abs m) key) (ohm_size m)"
    using assms(3) by (intro last_sat_cong) (auto simp: hjm_match_def keys_ok_def key_bucket_def hjm_hash_to_bucket_def)
  finally show ?thesis using hjm_FindFirst_eq[OF assms(2,3)] by simp
qed

lemma ohm_Insert_ok:
  assumes "ohm_ok hash_fn m" "hjm_inv hash_fn (ohm_abs m)" "ohm_size m < 2 ^ 62"
  obtains m' where "ohm_InsertWithHash m k v (hash_fn k) = Some (m', ohm_size m)" "ohm_ok hash_fn m'"
    "hjm_inv hash_fn (ohm_abs m')" "ohm_keys m' = ohm_keys m @ [k]" "ohm_values m' = ohm_values m @ [v]"
    "ohm_size m' = ohm_size m + 1"
proof -
  obtain h where h: "hjm_Insert hash_fn (ohm_abs m) k v = Some (h, ohm_size m)" "hjm_inv hash_fn h"
      "hjm_keys h = ohm_keys m @ [k]" "hjm_values h = ohm_values m @ [v]" "hjm_size h = ohm_size m + 1"
    using hjm_Insert_ok[OF assms(2), of k v] assms(3) by auto
  then obtain m' where m': "ohm_InsertWithHash m k v (hash_fn k) = Some (m', ohm_size m)" "h = ohm_abs m'"
    using ohm_Insert_refines(1)[OF assms(1), of k v] by (auto simp: map_option_case split: option.splits)
  then show ?thesis using that h ohm_Insert_refines(2)[OF assms(1) m'(1)] by auto
qed

lemma ohm_BatchInsert_ok:
  assumes "length ks \<le> length vs" "ohm_ok hash_fn m" "hjm_inv hash_fn (ohm_abs m)" "ohm_size m + length ks \<le> 2 ^ 62"
  shows "\<exists>m'. ohm_BatchInsert hash_fn m ks vs = Some m' \<and> ohm_ok hash_fn m' \<and> hjm_inv hash_fn (ohm_abs m') \<and>
    ohm_keys m' = ohm_keys m @ ks \<and> ohm_values m' = ohm_values m @ take (length ks) vs"
proof -
  define body where "body = (\<lambda>j m. do { v \<leftarrow> vec_at vs j;
      (m, _) \<leftarrow> ohm_InsertWithHash m (ks ! j) v (hash_fn (ks ! j)); Some m })"
  have "\<exists>m'. for_each body [0..<j] m = Some m' \<and> ohm_ok hash_fn m' \<and> hjm_inv hash_fn (ohm_abs m') \<and>
      ohm_keys m' = ohm_keys m @ take j ks \<and> ohm_values m' = ohm_values m @ take j vs \<and>
      ohm_size m' = ohm_size m + j" if "j \<le> length ks" for j
    using that
  proof (induction j)
    case (Suc j)
    then obtain m1 where m1: "for_each body [0..<j] m = Some m1" "ohm_ok hash_fn m1" "hjm_inv hash_fn (ohm_abs m1)"
      "ohm_keys m1 = ohm_keys m @ take j ks" "ohm_values m1 = ohm_values m @ take j vs" "ohm_size m1 = ohm_size m + j"
      by auto
    moreover have "ohm_size m1 < 2 ^ 62" using m1(6) Suc.prems assms(4) by simp
    ultimately obtain m2 where "ohm_InsertWithHash m1 (ks ! j) (vs ! j) (hash_fn (ks ! j)) = Some (m2, ohm_size m1)"
      "ohm_ok hash_fn m2" "hjm_inv hash_fn (ohm_abs m2)" "ohm_keys m2 = ohm_keys m1 @ [ks ! j]"
      "ohm_values m2 = ohm_values m1 @ [vs ! j]" "ohm_size m2 = ohm_size m1 + 1"
      using ohm_Insert_ok[of hash_fn m1 "ks ! j" "vs ! j"] by metis
    then show ?case using m1 Suc.prems assms(1) by (simp add: body_def take_Suc_conv_app_nth)
  qed (use assms in simp)
  then show ?thesis unfolding ohm_BatchInsert_def body_def[symmetric] by fastforce
qed

text \<open>\<^verbatim>\<open>OptimizedHashJoinMap\<close> behaves as the plain table: a batch of any keys and values inserted into an
  empty map is stored in order, and \<^verbatim>\<open>FindFirst\<close> with the stored-hash shortcut returns the last
  position of an equal key, which is what \<^verbatim>\<open>HashJoinMap::FindFirst\<close> returns on the same contents.\<close>

lemma ohm_batch_lookup:
  assumes "keys_ok hash_fn key_equal" "n \<le> 2 ^ 62" "length ks \<le> 2 ^ 62" "length vs = length ks"
  shows "\<exists>m. ohm_BatchInsert hash_fn (OptimizedHashJoinMap n) ks vs = Some m \<and>
    ohm_keys m = ks \<and> ohm_values m = vs \<and>
    ohm_FindFirst hash_fn key_equal m key = Some (last_sat (\<lambda>i. key_equal (ks ! i) key) (length ks)) \<and>
    ohm_FindFirst hash_fn key_equal m key = hjm_FindFirst hash_fn key_equal (ohm_abs m) key"
proof -
  have inv: "hjm_inv hash_fn (ohm_abs (OptimizedHashJoinMap n :: ('a, 'b) optimized_map))"
    using hjm_inv_new[OF assms(2)] by simp
  obtain m where m: "ohm_BatchInsert hash_fn (OptimizedHashJoinMap n) ks vs = Some m" "ohm_ok hash_fn m"
      "hjm_inv hash_fn (ohm_abs m)" "ohm_keys m = ks" "ohm_values m = vs"
    using ohm_BatchInsert_ok[OF _ ohm_ok_new inv, of ks vs] assms by auto
  then have "ohm_size m = length ks" by (simp add: ohm_ok_def)
  then show ?thesis
    using m ohm_FindFirst_refines[OF m(2,3) assms(1)] hjm_FindFirst_eq[OF m(3) assms(1), of key]
    by (simp add: hjm_match_def)
qed

section \<open>SIMDProbingHashJoinMap\<close>

text \<open>A 32-bit key; \<^verbatim>\<open>static_cast<size_t>\<close> of the signed type extends its sign.\<close>

type_synonym i32 = "32 word"

record 'v simd_map =
  smd_capacity :: nat
  smd_mask :: u64
  smd_size :: nat
  smd_keys :: "i32 list"
  smd_values :: "'v list"
  smd_first :: "nat list"
  smd_next :: "nat list"

definition hash_key :: "i32 \<Rightarrow> u64" where
  "hash_key key = scast key * 0x9e3779b9"

definition SIMDProbingHashJoinMap :: "nat \<Rightarrow> 'v simd_map" where
  "SIMDProbingHashJoinMap initial_capacity =
     (let capacity = initial_capacity_of initial_capacity in
      \<lparr>smd_capacity = capacity, smd_mask = of_nat capacity - 1, smd_size = 0, smd_keys = [], smd_values = [],
       smd_first = replicate capacity INVALID_INDEX, smd_next = []\<rparr>)"

definition smd_grow :: "'v simd_map \<Rightarrow> 'v simd_map option" where
  "smd_grow m =
     (let new_capacity = (smd_capacity m * 2) mod 2 ^ 64;
          new_mask = of_nat new_capacity - 1;
          new_first = replicate new_capacity INVALID_INDEX
      in do {
        (new_first, nxt) \<leftarrow>
          for_each (\<lambda>i s. do { k \<leftarrow> vec_at (smd_keys m) i;
                               chain_link i (unat (hash_key k AND new_mask)) s })
            [0..<smd_size m] (new_first, smd_next m);
        Some (m\<lparr>smd_first := new_first, smd_next := nxt, smd_capacity := new_capacity, smd_mask := new_mask\<rparr>)})"

definition smd_Insert :: "'v simd_map \<Rightarrow> i32 \<Rightarrow> 'v \<Rightarrow> 'v simd_map option" where
  "smd_Insert m key value = do {
     m \<leftarrow> (if smd_size m \<ge> (smd_capacity m * 2) mod 2 ^ 64 then smd_grow m else Some m);
     let bucket = unat (hash_key key AND smd_mask m);
     let new_index = smd_size m;
     let m = m\<lparr>smd_keys := smd_keys m @ [key], smd_values := smd_values m @ [value],
               smd_next := smd_next m @ [INVALID_INDEX]\<rparr>;
     (first, nxt) \<leftarrow> chain_link new_index bucket (smd_first m, smd_next m);
     Some (m\<lparr>smd_first := first, smd_next := nxt, smd_size := smd_size m + 1\<rparr>)}"

definition scalar_probe :: "'v simd_map \<Rightarrow> i32 \<Rightarrow> nat option" where
  "scalar_probe m probe_key = do {
     let bucket = unat (hash_key probe_key AND smd_mask m);
     current \<leftarrow> vec_at (smd_first m) bucket;
     chain_find (smd_next m) (\<lambda>i. do { k \<leftarrow> vec_at (smd_keys m) i; Some (k = probe_key) }) current}"

text \<open>One lane of the vector probe: the entries at one position of the arrays \<^verbatim>\<open>probe_vec\<close>, \<^verbatim>\<open>indices\<close>,
  \<^verbatim>\<open>match_flags\<close>, \<^verbatim>\<open>result_idx\<close> and \<^verbatim>\<open>table_keys\<close>.  The last is not initialised in the code; the
  value it starts with here is never used for a decision.\<close>

record simd_lane =
  lane_key :: i32
  lane_index :: nat
  lane_flag :: bool
  lane_result :: nat
  lane_table_key :: i32

definition lane_init :: "'v simd_map \<Rightarrow> i32 \<Rightarrow> simd_lane option" where
  "lane_init m key = do {
     let hash = key * 0x9e3779b9;
     let bucket = unat ((scast (hash :: i32) :: u64) AND smd_mask m);
     i \<leftarrow> vec_at (smd_first m) bucket;
     Some \<lparr>lane_key = key, lane_index = i, lane_flag = False, lane_result = INVALID_INDEX, lane_table_key = 0\<rparr>}"

definition lane_gather :: "'v simd_map \<Rightarrow> simd_lane \<Rightarrow> simd_lane option" where
  "lane_gather m l =
     (if lane_flag l then Some l
      else if lane_index l = INVALID_INDEX then Some (l\<lparr>lane_flag := True\<rparr>)
      else do { k \<leftarrow> vec_at (smd_keys m) (lane_index l); Some (l\<lparr>lane_table_key := k\<rparr>) })"

definition lane_compare :: "'v simd_map \<Rightarrow> simd_lane \<Rightarrow> simd_lane option" where
  "lane_compare m l =
     (if lane_flag l then Some l
      else if lane_key l = lane_table_key l then Some (l\<lparr>lane_flag := True, lane_result := lane_index l\<rparr>)
      else do { i \<leftarrow> vec_at (smd_next m) (lane_index l); Some (l\<lparr>lane_index := i\<rparr>) })"

text \<open>The rounds of one chunk; the first argument is the number of rounds left of \<^verbatim>\<open>max_iterations\<close>.\<close>

primrec simd_rounds :: "'v simd_map \<Rightarrow> nat \<Rightarrow> simd_lane list \<Rightarrow> simd_lane list option" where
  "simd_rounds m 0 lanes = Some lanes"
| "simd_rounds m (Suc left) lanes =
     (if list_all lane_flag lanes then Some lanes
      else do {
        lanes \<leftarrow> map_opt (lane_gather m) lanes;
        lanes \<leftarrow> map_opt (lane_compare m) lanes;
        simd_rounds m left lanes})"

definition SIMD_WIDTH :: nat where "SIMD_WIDTH = 8"

definition simd_chunk :: "'v simd_map \<Rightarrow> i32 list \<Rightarrow> nat list option" where
  "simd_chunk m ks = do {
     lanes \<leftarrow> map_opt (lane_init m) ks;
     lanes \<leftarrow> simd_rounds m 100 lanes;
     Some (map lane_result lanes)}"

text \<open>\<^verbatim>\<open>SIMDProbe\<close> compiled for AVX2: whole chunks by vector, the rest by scalar probes.  The result is
  the content of the \<^verbatim>\<open>results\<close> array.\<close>

function SIMDProbe :: "'v simd_map \<Rightarrow> i32 list \<Rightarrow> nat list option" where
  "SIMDProbe m ks =
     (if SIMD_WIDTH \<le> length ks then do {
        rs \<leftarrow> simd_chunk m (take SIMD_WIDTH ks);
        rest \<leftarrow> SIMDProbe m (drop SIMD_WIDTH ks);
        Some (rs @ rest)}
      else map_opt (scalar_probe m) ks)"
  by pat_completeness auto
termination by (relation "measure (\<lambda>(m, ks). length ks)") (auto simp: SIMD_WIDTH_def)

declare SIMDProbe.simps [simp del]

subsection \<open>Refinement of the plain table\<close>

definition smd_abs :: "'v simd_map \<Rightarrow> (i32, 'v) hash_join_map" where
  "smd_abs m = \<lparr>hjm_capacity = smd_capacity m, hjm_size = smd_size m, hjm_first = smd_first m,
     hjm_next = smd_next m, hjm_keys = smd_keys m, hjm_values = smd_values m\<rparr>"

definition smd_inv :: "'v simd_map \<Rightarrow> bool" where
  "smd_inv m \<longleftrightarrow> smd_mask m = of_nat (smd_capacity m) - 1 \<and> hjm_inv hash_key (smd_abs m)"

lemma smd_abs_sel [simp]:
  "hjm_capacity (smd_abs m) = smd_capacity m" "hjm_size (smd_abs m) = smd_size m"
  "hjm_first (smd_abs m) = smd_first m" "hjm_next (smd_abs m) = smd_next m"
  "hjm_keys (smd_abs m) = smd_keys m" "hjm_values (smd_abs m) = smd_values m"
  by (simp_all add: smd_abs_def)

lemma smd_new [simp]:
  "smd_abs (SIMDProbingHashJoinMap n) = HashJoinMap n" "smd_size (SIMDProbingHashJoinMap n) = 0"
  "smd_keys (SIMDProbingHashJoinMap n) = []"
  "smd_mask (SIMDProbingHashJoinMap n) = of_nat (smd_capacity (SIMDProbingHashJoinMap n)) - 1"
  by (simp_all add: smd_abs_def SIMDProbingHashJoinMap_def HashJoinMap_def Let_def)

lemma smd_inv_new: "n \<le> 2 ^ 62 \<Longrightarrow> smd_inv (SIMDProbingHashJoinMap n)"
  by (simp add: smd_inv_def hjm_inv_new)

lemma smd_grow_refines:
  "map_option smd_abs (smd_grow m) = hjm_grow hash_key (smd_abs m)"
  "smd_grow m = Some m' \<Longrightarrow> smd_mask m' = of_nat (smd_capacity m') - 1"
  unfolding smd_grow_def hjm_grow_def Let_def smd_abs_sel mask_bucket_def
  by (auto simp: smd_abs_def map_option_bind o_def case_prod_unfold Option.bind_eq_Some_conv)

lemma smd_Insert_refines:
  assumes "smd_mask m = of_nat (smd_capacity m) - 1"
  shows "map_option smd_abs (smd_Insert m k v) = map_option fst (hjm_Insert hash_key (smd_abs m) k v)"
    and "smd_Insert m k v = Some m' \<Longrightarrow> smd_mask m' = of_nat (smd_capacity m') - 1"
proof -
  define g where "g = (if smd_size m \<ge> (smd_capacity m * 2) mod 2 ^ 64 then smd_grow m else Some m)"
  have g: "(if hjm_size (smd_abs m) \<ge> (hjm_capacity (smd_abs m) * 2) mod 2 ^ 64 then hjm_grow hash_key (smd_abs m)
      else Some (smd_abs m)) = map_option smd_abs g"
    using smd_grow_refines(1)[of m] by (simp add: g_def)
  have ok: "g = Some g' \<Longrightarrow> smd_mask g' = of_nat (smd_capacity g') - 1" for g'
    using smd_grow_refines(2) assms by (auto simp: g_def split: if_splits)
  show "map_option smd_abs (smd_Insert m k v) = map_option fst (hjm_Insert hash_key (smd_abs m) k v)"
    unfolding smd_Insert_def hjm_Insert_def g g_def[symmetric]
    using ok
    by (cases g) (simp_all add: hjm_hash_to_bucket_def mask_bucket_def smd_abs_def Let_def map_option_bind o_def
        case_prod_unfold)
  show "smd_Insert m k v = Some m' \<Longrightarrow> smd_mask m' = of_nat (smd_capacity m') - 1"
    unfolding smd_Insert_def g_def[symmetric]
    by (auto simp: Let_def Option.bind_eq_Some_conv dest!: ok)
qed

lemma smd_Insert_ok:
  assumes "smd_inv m" "smd_size m < 2 ^ 62"
  obtains m' where "smd_Insert m k v = Some m'" "smd_inv m'" "smd_keys m' = smd_keys m @ [k]"
    "smd_values m' = smd_values m @ [v]" "smd_size m' = smd_size m + 1"
    "smd_capacity m' \<le> max (smd_capacity m) (smd_size m)"
proof -
  have mask: "smd_mask m = of_nat (smd_capacity m) - 1" using assms(1) by (simp add: smd_inv_def)
  obtain h where h: "hjm_Insert hash_key (smd_abs m) k v = Some (h, smd_size m)" "hjm_inv hash_key h"
      "hjm_keys h = smd_keys m @ [k]" "hjm_values h = smd_values m @ [v]" "hjm_size h = smd_size m + 1"
      "hjm_capacity h \<le> max (smd_capacity m) (smd_size m)"
    using hjm_Insert_ok[of hash_key "smd_abs m" k v] assms by (auto simp: smd_inv_def)
  then obtain m' where m': "smd_Insert m k v = Some m'" "h = smd_abs m'"
    using smd_Insert_refines(1)[OF mask, of k v] by auto
  then show ?thesis using that h smd_Insert_refines(2)[OF mask m'(1)] by (simp add: smd_inv_def)
qed

lemma scalar_probe_refines:
  "smd_inv m \<Longrightarrow> scalar_probe m k = hjm_FindFirst hash_key (=) (smd_abs m) k"
  by (simp add: scalar_probe_def hjm_FindFirst_def smd_inv_def hjm_hash_to_bucket_def mask_bucket_def Let_def)

subsection \<open>The vector probe\<close>

lemma take_bit_sint32: "take_bit 32 (sint x) = uint (x :: i32)"
  by transfer (simp add: take_bit_signed_take_bit)

lemma uint_scast64: "uint (scast (x :: i32) :: u64) = take_bit 64 (sint x)"
  by transfer simp

lemma uint_low32_scast: "uint (take_bit 32 (scast x :: u64)) = uint (x :: i32)"
  by (simp add: unsigned_take_bit_eq uint_scast64 take_bit_sint32)

lemma uint_low32_hash_key: "uint (take_bit 32 (hash_key k)) = uint (k * 0x9e3779b9 :: i32)"
proof -
  have "uint (k * 0x9e3779b9 :: i32) = take_bit 32 (uint k * 0x9e3779b9)"
    by (simp add: uint_word_ariths take_bit_eq_mod)
  also have "\<dots> = take_bit 32 (sint k * 0x9e3779b9)"
    unfolding take_bit_sint32[symmetric] by (simp add: take_bit_eq_mod mod_mult_left_eq)
  also have "\<dots> = uint (take_bit 32 (hash_key k))"
    unfolding unsigned_take_bit_eq hash_key_def
    by (simp add: uint_word_ariths uint_scast64 take_bit_eq_mod mod_mult_left_eq mod_mod_cancel)
  finally show ?thesis by simp
qed

lemma simd_hash_low_bits:
  "take_bit 32 (scast (k * 0x9e3779b9 :: i32) :: u64) = take_bit 32 (hash_key k)"
  by (rule word_uint_eqI) (simp only: uint_low32_scast uint_low32_hash_key)

lemma unat_hash_key_mod: "unat (hash_key k) mod 2 ^ 32 = unat k * 0x9e3779b9 mod 2 ^ 32"
proof -
  have "unat (take_bit 32 (hash_key k)) = unat (k * 0x9e3779b9 :: i32)"
    using uint_low32_hash_key[of k] by (metis unat_eq_nat_uint)
  then show ?thesis
    unfolding unsigned_take_bit_eq by (simp add: unat_word_ariths take_bit_eq_mod)
qed
lemma pow2_dvd: "pow2 c \<Longrightarrow> c \<le> 2 ^ n \<Longrightarrow> c dvd 2 ^ n"
  unfolding pow2_def using power_le_imp_le_exp[of "2::nat" _ n] le_imp_power_dvd[of _ n "2::nat"] by fastforce

lemma mask_bucket_low_bits:
  assumes "pow2 c" "c \<le> 2 ^ 32" "take_bit 32 h = take_bit 32 h'"
  shows "mask_bucket c h = mask_bucket c h'"
proof -
  have "take_bit 32 (unat h) = take_bit 32 (unat h')"
    using arg_cong[OF assms(3), of unat] by (simp only: unsigned_take_bit_eq)
  then have "unat h mod 2 ^ 32 mod c = unat h' mod 2 ^ 32 mod c" by (simp only: take_bit_eq_mod)
  then have "unat h mod c = unat h' mod c" using pow2_dvd[OF assms(1,2)] by (simp only: mod_mod_cancel)
  then show ?thesis by (simp add: mask_bucket_mod[OF assms(1)])
qed

definition smd_bucket :: "'v simd_map \<Rightarrow> nat \<Rightarrow> nat" where
  "smd_bucket m = key_bucket hash_key (smd_capacity m) (smd_keys m)"

definition smd_chain :: "'v simd_map \<Rightarrow> i32 \<Rightarrow> nat list" where
  "smd_chain m k = chain_of (smd_bucket m) (mask_bucket (smd_capacity m) (hash_key k)) (smd_size m)"

lemma smd_inv_facts:
  assumes "smd_inv m"
  shows "chains_ok (smd_bucket m) (smd_capacity m) (smd_size m) (smd_first m) (smd_next m)"
    "smd_size m \<le> 2 ^ 62" "length (smd_keys m) = smd_size m" "length (smd_next m) = smd_size m"
    "pow2 (smd_capacity m)" "smd_mask m = of_nat (smd_capacity m) - 1"
  using assms table_size_pow2 by (simp_all add: smd_inv_def hjm_inv_def smd_bucket_def)

lemma scalar_probe_eq:
  assumes "smd_inv m"
  shows "scalar_probe m k = Some (first_hit (\<lambda>i. smd_keys m ! i = k) (smd_chain m k))"
proof -
  have inv: "hjm_inv hash_key (smd_abs m)" using assms by (simp add: smd_inv_def)
  have "scalar_probe m k = Some (last_sat (\<lambda>i. smd_keys m ! i = k) (smd_size m))"
    using hjm_FindFirst_eq[OF inv keys_ok_eq] scalar_probe_refines[OF assms] by (simp add: hjm_match_def)
  also have "last_sat (\<lambda>i. smd_keys m ! i = k) (smd_size m) =
      last_sat (\<lambda>i. smd_bucket m i = mask_bucket (smd_capacity m) (hash_key k) \<and> smd_keys m ! i = k) (smd_size m)"
    by (rule last_sat_cong) (auto simp: smd_bucket_def key_bucket_def)
  finally show ?thesis by (simp add: smd_chain_def first_hit_last_sat)
qed

text \<open>A lane that is still searching stands at the head of a suffix of the chain of its key;
  \<open>lane_goal n\<close> is what it will have found after \<open>n\<close> more rounds.\<close>

definition lane_at :: "'v simd_map \<Rightarrow> simd_lane \<Rightarrow> nat \<Rightarrow> bool" where
  "lane_at m l j \<longleftrightarrow> j \<le> smd_size m \<and> \<not> lane_flag l \<and> lane_result l = INVALID_INDEX \<and>
     lane_index l = last_sat (\<lambda>i. smd_bucket m i = mask_bucket (smd_capacity m) (hash_key (lane_key l))) j"

definition lane_chain :: "'v simd_map \<Rightarrow> simd_lane \<Rightarrow> nat \<Rightarrow> nat list" where
  "lane_chain m l j = chain_of (smd_bucket m) (mask_bucket (smd_capacity m) (hash_key (lane_key l))) j"

definition lane_goal :: "'v simd_map \<Rightarrow> nat \<Rightarrow> simd_lane \<Rightarrow> nat \<Rightarrow> bool" where
  "lane_goal m n l r \<longleftrightarrow> lane_flag l \<and> lane_result l = r \<or>
     (\<exists>j. lane_at m l j \<and> r = first_hit (\<lambda>i. smd_keys m ! i = lane_key l) (take n (lane_chain m l j)))"

definition lane_round :: "'v simd_map \<Rightarrow> simd_lane \<Rightarrow> simd_lane option" where
  "lane_round m l = do { l \<leftarrow> lane_gather m l; lane_compare m l }"

lemma lane_round_goal:
  assumes inv: "smd_inv m" and "lane_goal m (Suc n) l r"
  shows "\<exists>l'. lane_round m l = Some l' \<and> lane_goal m n l' r"
proof (cases "lane_flag l")
  case True
  then have "lane_goal m n l r" using assms(2) by (auto simp: lane_goal_def lane_at_def)
  then show ?thesis using True by (simp add: lane_round_def lane_gather_def lane_compare_def)
next
  case False
  let ?b = "mask_bucket (smd_capacity m) (hash_key (lane_key l))"
  note facts = smd_inv_facts[OF inv]
  from False assms(2) obtain j where j: "lane_at m l j"
    "r = first_hit (\<lambda>i. smd_keys m ! i = lane_key l) (take (Suc n) (lane_chain m l j))"
    by (auto simp: lane_goal_def)
  show ?thesis
  proof (cases rule: chain_of_cases[of "smd_bucket m" ?b j])
    case 1
    then show ?thesis using j False
      by (simp add: lane_at_def lane_chain_def lane_round_def lane_gather_def lane_compare_def lane_goal_def)
  next
    case (2 i)
    have i: "i < smd_size m" "i \<noteq> INVALID_INDEX" "lane_index l = i"
      using 2(1,2) j(1) facts(2) by (auto simp: lane_at_def INVALID_INDEX_def)
    have nx: "smd_next m ! i = last_sat (\<lambda>k. smd_bucket m k = ?b) i"
      using facts(1) i(1) 2(3) by (auto simp: chains_ok_def)
    show ?thesis
    proof (cases "smd_keys m ! i = lane_key l")
      case True
      then show ?thesis using i False 2(4) j(2) facts
        by (simp add: lane_round_def lane_gather_def lane_compare_def lane_goal_def lane_chain_def)
    next
      case no: False
      define l' where "l' = l\<lparr>lane_table_key := smd_keys m ! i, lane_index := smd_next m ! i\<rparr>"
      have "lane_round m l = Some l'"
        using i False no facts by (simp add: lane_round_def lane_gather_def lane_compare_def l'_def eq_commute[of "lane_key l"])
      moreover have "lane_at m l' i" using j(1) i nx by (simp add: lane_at_def l'_def)
      moreover have "r = first_hit (\<lambda>i. smd_keys m ! i = lane_key l') (take n (lane_chain m l' i))"
        using j(2) 2(4) no by (simp add: lane_chain_def l'_def)
      ultimately show ?thesis by (auto simp: lane_goal_def)
    qed
  qed
qed

lemma map_opt_rounds:
  assumes "smd_inv m" "list_all2 (lane_goal m (Suc n)) ls rs"
  shows "\<exists>ls'. (do { ls \<leftarrow> map_opt (lane_gather m) ls; map_opt (lane_compare m) ls }) = Some ls' \<and>
    list_all2 (lane_goal m n) ls' rs"
  using assms(2)
proof (induction rule: list_all2_induct)
  case (Cons l ls r rs)
  then obtain ls' where ls': "(do { ls \<leftarrow> map_opt (lane_gather m) ls; map_opt (lane_compare m) ls }) = Some ls'"
    "list_all2 (lane_goal m n) ls' rs" by auto
  obtain l' where "lane_round m l = Some l'" "lane_goal m n l' r"
    using lane_round_goal[OF assms(1) Cons(1)] by blast
  then show ?case using ls' by (auto simp: lane_round_def Option.bind_eq_Some_conv)
qed simp

lemma lane_goal_done: "lane_goal m n l r \<Longrightarrow> lane_flag l \<Longrightarrow> lane_result l = r"
  by (auto simp: lane_goal_def lane_at_def)

lemma simd_rounds_goal:
  assumes inv: "smd_inv m"
  shows "list_all2 (lane_goal m n) ls rs \<Longrightarrow> \<exists>ls'. simd_rounds m n ls = Some ls' \<and> map lane_result ls' = rs"
proof (induction n arbitrary: ls)
  case 0
  then have "map lane_result ls = rs"
    by (induction rule: list_all2_induct) (auto simp: lane_goal_def lane_at_def)
  then show ?case by simp
next
  case (Suc n)
  show ?case
  proof (cases "list_all lane_flag ls")
    case True
    have "map lane_result ls = rs"
      using Suc.prems True by (induction rule: list_all2_induct) (auto dest: lane_goal_done)
    then show ?thesis using True by simp
  next
    case False
    from map_opt_rounds[OF inv Suc.prems] obtain ls' where
      "(do { ls \<leftarrow> map_opt (lane_gather m) ls; map_opt (lane_compare m) ls }) = Some ls'"
      "list_all2 (lane_goal m n) ls' rs" by blast
    then show ?thesis using Suc.IH[of ls'] False by (auto simp: Option.bind_eq_Some_conv)
  qed
qed

text \<open>What the vector probe looks at: the first 100 entries of the chain.\<close>

definition probe_limited :: "'v simd_map \<Rightarrow> i32 \<Rightarrow> nat" where
  "probe_limited m k = first_hit (\<lambda>i. smd_keys m ! i = k) (take 100 (smd_chain m k))"

lemma lane_init_goal:
  assumes inv: "smd_inv m" and cap: "smd_capacity m \<le> 2 ^ 32"
  shows "\<exists>l. lane_init m k = Some l \<and> lane_goal m 100 l (probe_limited m k)"
proof -
  note facts = smd_inv_facts[OF inv]
  let ?b = "mask_bucket (smd_capacity m) (hash_key k)"
  have "unat ((scast (k * 0x9e3779b9) :: u64) AND smd_mask m) = ?b"
    using mask_bucket_low_bits[OF facts(5) cap simd_hash_low_bits[of k]] facts(6) by (simp add: mask_bucket_def)
  moreover have "?b < smd_capacity m" by (rule mask_bucket_less[OF facts(5)])
  ultimately have "lane_init m k = Some \<lparr>lane_key = k,
      lane_index = last_sat (\<lambda>i. smd_bucket m i = ?b) (smd_size m), lane_flag = False,
      lane_result = INVALID_INDEX, lane_table_key = 0\<rparr>"
    using facts(1) unfolding lane_init_def Let_def by (simp add: chains_ok_def)
  then show ?thesis
    by (auto simp: lane_goal_def lane_at_def lane_chain_def probe_limited_def smd_chain_def intro!: exI[of _ "smd_size m"])
qed

lemma simd_chunk_eq:
  assumes inv: "smd_inv m" and cap: "smd_capacity m \<le> 2 ^ 32"
  shows "simd_chunk m ks = Some (map (probe_limited m) ks)"
proof -
  have "\<exists>ls. map_opt (lane_init m) ks = Some ls \<and> list_all2 (lane_goal m 100) ls (map (probe_limited m) ks)"
  proof (induction ks)
    case (Cons k ks)
    then show ?case using lane_init_goal[OF assms, of k] by auto
  qed simp
  then show ?thesis using simd_rounds_goal[OF inv] by (fastforce simp: simd_chunk_def)
qed

text \<open>C38: on a well-formed table of at most \<open>2 ^ 32\<close> buckets in which the chains of the probed keys
  have at most 100 entries, the AVX2 probe returns for every key what the scalar probe returns, although it
  computes the hashes in 32-bit lanes, sign-extends them and walks eight chains in lock step; and it always
  returns.\<close>

theorem simd_probe_equivalent:
  assumes "smd_inv m" "smd_capacity m \<le> 2 ^ 32" "\<forall>k\<in>set ks. length (smd_chain m k) \<le> 100"
  shows "SIMDProbe m ks = map_opt (scalar_probe m) ks \<and> SIMDProbe m ks \<noteq> None"
proof -
  let ?f = "\<lambda>k. first_hit (\<lambda>i. smd_keys m ! i = k) (smd_chain m k)"
  have scalar: "map_opt (scalar_probe m) ks = Some (map ?f ks)" for ks
    by (rule map_opt_Some) (rule scalar_probe_eq[OF assms(1)])
  have "SIMDProbe m ks = Some (map ?f ks)" using assms
  proof (induction m ks rule: SIMDProbe.induct)
    case (1 m ks)
    have sc: "map_opt (scalar_probe m) ks = Some (map (\<lambda>k. first_hit (\<lambda>i. smd_keys m ! i = k) (smd_chain m k)) ks)"
      by (rule map_opt_Some) (rule scalar_probe_eq[OF 1(2)])
    show ?case
    proof (cases "SIMD_WIDTH \<le> length ks")
      case True
      have "simd_chunk m (take SIMD_WIDTH ks) =
          Some (map (\<lambda>k. first_hit (\<lambda>i. smd_keys m ! i = k) (smd_chain m k)) (take SIMD_WIDTH ks))"
        unfolding simd_chunk_eq[OF 1(2,3)] using 1(4)
        by (auto simp: probe_limited_def dest: in_set_takeD)
      moreover have "SIMDProbe m (drop SIMD_WIDTH ks) =
          Some (map (\<lambda>k. first_hit (\<lambda>i. smd_keys m ! i = k) (smd_chain m k)) (drop SIMD_WIDTH ks))"
        using 1(1)[OF True _ 1(2,3)] calculation 1(4) by (auto dest: in_set_dropD)
      ultimately show ?thesis
        using True by (subst SIMDProbe.simps) (simp flip: map_append)
    next
      case False
      then show ?thesis using sc by (subst SIMDProbe.simps) simp
    qed
  qed
  then show ?thesis using scalar by simp
qed

theorem simd_probe_equivalent_witness:
  "SIMDProbe (SIMDProbingHashJoinMap 16 :: nat simd_map) [1, 2, 3, 4, 5, 6, 7, 8, 9] =
   map_opt (scalar_probe (SIMDProbingHashJoinMap 16 :: nat simd_map)) [1, 2, 3, 4, 5, 6, 7, 8, 9]"
proof (rule simd_probe_equivalent[THEN conjunct1])
  show "smd_capacity (SIMDProbingHashJoinMap 16) \<le> 2 ^ 32"
    using initial_capacity_of_spec(3)[of 16] by (simp add: SIMDProbingHashJoinMap_def Let_def)
qed (simp_all add: smd_inv_new smd_chain_def chain_of_def)

subsection \<open>Long chains\<close>

lemma smd_Insert_many:
  assumes "n \<le> 2 ^ 62" "length ks \<le> 2 ^ 62"
  shows "\<exists>m. for_each (\<lambda>k m. smd_Insert m k v) ks (SIMDProbingHashJoinMap n) = Some m \<and> smd_inv m \<and>
    smd_keys m = ks \<and> smd_size m = length ks \<and>
    smd_capacity m \<le> max (initial_capacity_of n) (length ks)"
  using assms(2)
proof (induction ks rule: rev_induct)
  case Nil
  then show ?case using smd_inv_new[OF assms(1)] by (simp add: SIMDProbingHashJoinMap_def Let_def)
next
  case (snoc k ks)
  then obtain m where m: "for_each (\<lambda>k m. smd_Insert m k v) ks (SIMDProbingHashJoinMap n) = Some m" "smd_inv m"
    "smd_keys m = ks" "smd_size m = length ks" "smd_capacity m \<le> max (initial_capacity_of n) (length ks)" by auto
  then obtain m' where "smd_Insert m k v = Some m'" "smd_inv m'" "smd_keys m' = smd_keys m @ [k]"
    "smd_size m' = smd_size m + 1" "smd_capacity m' \<le> max (smd_capacity m) (smd_size m)"
    using smd_Insert_ok[of m k v] snoc.prems by (metis Suc_eq_plus1 Suc_le_eq length_append_singleton)
  then show ?case using m by auto
qed

definition colliding_keys :: "i32 list" where
  "colliding_keys = map (\<lambda>i. of_nat (i * 1024)) [0..<101]"

lemma colliding_bucket:
  assumes "pow2 c" "c \<le> 1024"
  shows "mask_bucket c (hash_key (of_nat (i * 1024))) = 0"
proof -
  have c: "c dvd 1024" "c dvd 2 ^ 32" using pow2_dvd[OF assms(1), of 10] pow2_dvd[OF assms(1), of 32] assms(2) by simp_all
  have "unat (of_nat (i * 1024) :: i32) = i * 1024 mod 2 ^ 32" by (simp only: unsigned_of_nat take_bit_eq_mod) simp
  then have "c dvd unat (of_nat (i * 1024) :: i32)" using c dvd_mod[of c "i * 1024" "2 ^ 32"] by simp
  moreover have "unat (hash_key k) mod c = unat k * 0x9e3779b9 mod c" for k
    using arg_cong[OF unat_hash_key_mod[of k], of "\<lambda>x. x mod c"] c(2) by (simp only: mod_mod_cancel)
  ultimately show ?thesis using assms(1) by (simp add: mask_bucket_mod del: of_nat_mult)
qed
text \<open>The round limit of the AVX2 probe loses matches: after 101 insertions of colliding keys into a fresh table,
  probing eight times for the first key inserted finds nothing with the vector probe, while the scalar
  probe finds it at index 0.\<close>

lemma simd_probe_misses:
  "\<exists>m. for_each (\<lambda>k m. smd_Insert m k ()) colliding_keys (SIMDProbingHashJoinMap 16) = Some m \<and>
     scalar_probe m 0 = Some 0 \<and> SIMDProbe m (replicate 8 0) = Some (replicate 8 INVALID_INDEX)"
proof -
  obtain m where m: "for_each (\<lambda>k m. smd_Insert m k ()) colliding_keys (SIMDProbingHashJoinMap 16) = Some m"
    "smd_inv m" "smd_keys m = colliding_keys" "smd_size m = 101"
    "smd_capacity m \<le> max (initial_capacity_of 16) 101"
    using smd_Insert_many[of 16 colliding_keys "()"] by (auto simp: colliding_keys_def)
  have cap: "smd_capacity m \<le> 1024" using m(5) initial_capacity_of_spec(3)[of 16] by simp
  have key: "i < 101 \<Longrightarrow> smd_keys m ! i = of_nat (i * 1024)" for i
    using m(3) by (simp add: colliding_keys_def)
  have bucket: "mask_bucket (smd_capacity m) (hash_key (of_nat (i * 1024))) = 0" for i
    using colliding_bucket smd_inv_facts(5)[OF m(2)] cap by blast
  have "i < 101 \<Longrightarrow> smd_bucket m i = 0" for i
    using key bucket by (simp add: smd_bucket_def key_bucket_def del: of_nat_mult)
  then have "filter (\<lambda>i. smd_bucket m i = 0) [0..<101] = [0..<101]"
    by (intro filter_True) simp
  moreover have "mask_bucket (smd_capacity m) (hash_key 0) = 0" using bucket[of 0] by simp
  ultimately have chain: "smd_chain m 0 = rev [0..<101]" using m(4) by (simp add: smd_chain_def chain_of_def)
  have hit: "smd_keys m ! i = 0 \<longleftrightarrow> i = 0" if "i < 101" for i
  proof -
    have "unat (of_nat (i * 1024) :: i32) = i * 1024"
      using that by (simp only: unsigned_of_nat take_bit_eq_mod) simp
    then show ?thesis using key[OF that] by (metis mult_eq_0_iff of_nat_0 unat_0 zero_neq_numeral)
  qed
  have none: "first_hit P is = INVALID_INDEX" if "\<And>i. i \<in> set is \<Longrightarrow> \<not> P i" for P "is"
    using that by (induction "is") auto
  have split: "rev [0..<101] = rev [1..<101] @ [0::nat]"
    by (simp add: upt_conv_Cons flip: rev.simps(2))
  have last_hit: "first_hit (\<lambda>i. smd_keys m ! i = 0) (is @ [0]) = 0" if "\<And>i. i \<in> set is \<Longrightarrow> smd_keys m ! i \<noteq> 0" for "is"
    using that hit by (induction "is") auto
  have "first_hit (\<lambda>i. smd_keys m ! i = 0) (rev [1..<101] @ [0]) = 0"
    by (rule last_hit) (use hit in auto)
  then have "scalar_probe m 0 = Some 0"
    unfolding scalar_probe_eq[OF m(2)] chain split by simp
  moreover have "probe_limited m 0 = INVALID_INDEX"
    unfolding probe_limited_def chain split using hit by (intro none) auto
  then have "simd_chunk m (take SIMD_WIDTH (replicate 8 0)) = Some (replicate 8 INVALID_INDEX)"
    using simd_chunk_eq[OF m(2)] cap by (simp add: SIMD_WIDTH_def)
  then have "SIMDProbe m (replicate 8 0) = Some (replicate 8 INVALID_INDEX)"
    by (subst SIMDProbe.simps) (simp add: SIMD_WIDTH_def SIMDProbe.simps[of m "[]"])
  ultimately show ?thesis using m(1) by blast
qed

end
