(* ===== verification/Linear_Probing.thy ===== *)
theory Linear_Probing
  imports Bucket_Chains
begin

text \<open>
  Open addressing with linear probing and tombstones, as \<^verbatim>\<open>LinearChainedHashTable\<close>
  (\<^verbatim>\<open>src/cc/algo/src/algo/algo_hash_table.cc\<close>) and \<^verbatim>\<open>LinearChainedHashJoinMap\<close>
  (\<^verbatim>\<open>src/cc/algo/src/algo/algo_join_hash_map.cc\<close>) use it.  A slot is empty, a tombstone or holds a
  payload; the lifetime of the payload's members is the constructor.  The probe loops count down the
  probes that are left, and an access out of range is \<^const>\<open>None\<close>.
\<close>

datatype 'e slot = EMPTY | OCCUPIED 'e | TOMBSTONE

definition next_index :: "nat \<Rightarrow> nat \<Rightarrow> nat" where
  "next_index capacity index = (index + 1) AND (capacity - 1)"

text \<open>The search loop: stop at the first empty slot or at the first payload that passes the test.\<close>

primrec probe_find :: "nat \<Rightarrow> nat \<Rightarrow> 'e slot list \<Rightarrow> ('e \<Rightarrow> bool) \<Rightarrow> nat \<Rightarrow> nat \<Rightarrow> nat option" where
  "probe_find not_found capacity slots test 0 index = Some not_found"
| "probe_find not_found capacity slots test (Suc left) index = do {
     s \<leftarrow> vec_at slots index;
     case s of
       EMPTY \<Rightarrow> Some not_found
     | OCCUPIED e \<Rightarrow> (if test e then Some index
                     else probe_find not_found capacity slots test left (next_index capacity index))
     | TOMBSTONE \<Rightarrow> probe_find not_found capacity slots test left (next_index capacity index)}"

text \<open>The insertion loop: the first empty slot, or the first tombstone when there is no empty slot.\<close>

primrec probe_free :: "nat \<Rightarrow> 'e slot list \<Rightarrow> nat \<Rightarrow> nat \<Rightarrow> nat \<Rightarrow> nat option" where
  "probe_free capacity slots 0 index first_tombstone = Some first_tombstone"
| "probe_free capacity slots (Suc left) index first_tombstone = do {
     s \<leftarrow> vec_at slots index;
     case s of
       EMPTY \<Rightarrow> Some index
     | OCCUPIED _ \<Rightarrow> probe_free capacity slots left (next_index capacity index) first_tombstone
     | TOMBSTONE \<Rightarrow> probe_free capacity slots left (next_index capacity index)
                     (if first_tombstone = capacity then index else first_tombstone)}"

section \<open>Reachability by probing\<close>

definition no_gap :: "'e slot list \<Rightarrow> nat \<Rightarrow> nat \<Rightarrow> nat \<Rightarrow> bool" where
  "no_gap slots s d e \<longleftrightarrow> (\<forall>j. d \<le> j \<and> j < e \<longrightarrow> slots ! ((s + j) mod length slots) \<noteq> EMPTY)"

definition reach :: "'e slot list \<Rightarrow> nat \<Rightarrow> nat \<Rightarrow> bool" where
  "reach slots s i \<longleftrightarrow> (\<exists>d < length slots. i = (s + d) mod length slots \<and> no_gap slots s 0 d)"

definition probe_ok :: "('e \<Rightarrow> nat) \<Rightarrow> 'e slot list \<Rightarrow> bool" where
  "probe_ok home slots \<longleftrightarrow> (\<forall>i < length slots. \<forall>e. slots ! i = OCCUPIED e \<longrightarrow> reach slots (home e) i)"

primrec slot_mset :: "'e slot \<Rightarrow> 'e multiset" where
  "slot_mset EMPTY = {#}"
| "slot_mset (OCCUPIED e) = {#e#}"
| "slot_mset TOMBSTONE = {#}"

definition contents :: "'e slot list \<Rightarrow> 'e multiset" where
  "contents slots = sum_list (map slot_mset slots)"

lemma next_index_mod:
  assumes "pow2 c"
  shows "next_index c ((s + d) mod c) = (s + Suc d) mod c"
  using assms by (simp add: next_index_def mod_Suc_eq)

lemma no_gap_Suc: "no_gap slots s d e \<Longrightarrow> slots ! ((s + e) mod length slots) \<noteq> EMPTY \<Longrightarrow> no_gap slots s d (Suc e)"
  by (auto simp: no_gap_def less_Suc_eq)

lemma probe_find_spec:
  assumes c: "pow2 (length slots)" and "left + d = length slots" "no_gap slots s 0 d"
    and "\<And>j e. j < d \<Longrightarrow> slots ! ((s + j) mod length slots) = OCCUPIED e \<Longrightarrow> \<not> test e"
  shows "(\<exists>i e. probe_find nf (length slots) slots test left ((s + d) mod length slots) = Some i \<and>
            i < length slots \<and> slots ! i = OCCUPIED e \<and> test e) \<or>
         (probe_find nf (length slots) slots test left ((s + d) mod length slots) = Some nf \<and>
            (\<forall>i e. reach slots s i \<longrightarrow> slots ! i = OCCUPIED e \<longrightarrow> \<not> test e))"
  using assms(2-)
proof (induction left arbitrary: d)
  case 0
  then show ?case by (auto simp: reach_def)
next
  case (Suc left)
  let ?i = "(s + d) mod length slots"
  have len: "?i < length slots" using pow2_pos[OF c] by simp
  have step: "next_index (length slots) ?i = (s + Suc d) mod length slots" by (rule next_index_mod[OF c])
  show ?case
  proof (cases "slots ! ?i = EMPTY")
    case True
    have "\<not> test e" if r: "reach slots s i" and o: "slots ! i = OCCUPIED e" for i e
    proof -
      obtain j where j: "i = (s + j) mod length slots" "no_gap slots s 0 j" using r unfolding reach_def by blast
      have "\<not> d < j" using j(2) True by (auto simp: no_gap_def)
      then have "j \<le> d" by simp
      then have "j < d" using True o j(1) by (cases "j = d") auto
      then show ?thesis using Suc.prems(3) j(1) o by blast
    qed
    then show ?thesis using len True by simp
  next
    case False
    note gap = no_gap_Suc[OF Suc.prems(2) False]
    show ?thesis
    proof (cases "\<exists>e. slots ! ?i = OCCUPIED e \<and> test e")
      case True
      then show ?thesis using len by auto
    next
      case no: False
      have "\<And>j e. j < Suc d \<Longrightarrow> slots ! ((s + j) mod length slots) = OCCUPIED e \<Longrightarrow> \<not> test e"
        using no Suc.prems(3) by (auto simp: less_Suc_eq)
      with Suc.IH[of "Suc d"] gap Suc.prems(1) show ?thesis
        using len False no step by (cases "slots ! ?i") auto
    qed
  qed
qed

lemma probe_free_spec:
  assumes c: "pow2 (length slots)" and "left + d = length slots" "no_gap slots s 0 d"
    and "ft = length slots \<and> (\<forall>j<d. \<exists>e. slots ! ((s + j) mod length slots) = OCCUPIED e) \<or>
         (\<exists>j<d. ft = (s + j) mod length slots \<and> slots ! ft = TOMBSTONE)"
  shows "(\<exists>i. probe_free (length slots) slots left ((s + d) mod length slots) ft = Some i \<and> i < length slots \<and>
            slots ! i \<in> {EMPTY, TOMBSTONE} \<and> reach slots s i) \<or>
         (probe_free (length slots) slots left ((s + d) mod length slots) ft = Some (length slots) \<and>
            (\<forall>j < length slots. \<exists>e. slots ! ((s + j) mod length slots) = OCCUPIED e))"
  using assms(2-)
proof (induction left arbitrary: d ft)
  case 0
  have "reach slots s ((s + j) mod length slots)" if "j < d" for j
    using that 0 by (auto simp: reach_def no_gap_def)
  moreover have "0 < length slots" using c by (rule pow2_pos)
  ultimately show ?case using 0 by fastforce
next
  case (Suc left)
  let ?i = "(s + d) mod length slots"
  have len: "?i < length slots" using pow2_pos[OF c] by simp
  have step: "next_index (length slots) ?i = (s + Suc d) mod length slots" by (rule next_index_mod[OF c])
  show ?case
  proof (cases "slots ! ?i")
    case EMPTY
    have "reach slots s ?i" unfolding reach_def using Suc.prems by (intro exI[of _ d]) simp
    then show ?thesis using EMPTY len by auto
  next
    case (OCCUPIED e)
    have "ft = length slots \<and> (\<forall>j<Suc d. \<exists>e. slots ! ((s + j) mod length slots) = OCCUPIED e) \<or>
         (\<exists>j<Suc d. ft = (s + j) mod length slots \<and> slots ! ft = TOMBSTONE)"
      using Suc.prems(3) OCCUPIED by (auto simp: less_Suc_eq)
    moreover have "no_gap slots s 0 (Suc d)" using no_gap_Suc[OF Suc.prems(2)] OCCUPIED by simp
    ultimately show ?thesis using Suc.IH[of "Suc d" ft] Suc.prems(1) OCCUPIED len step by simp
  next
    case TOMBSTONE
    define ft' where "ft' = (if ft = length slots then ?i else ft)"
    have "\<exists>j<Suc d. ft' = (s + j) mod length slots \<and> slots ! ft' = TOMBSTONE"
      using Suc.prems(3) TOMBSTONE by (auto simp: ft'_def less_Suc_eq)
    moreover have "no_gap slots s 0 (Suc d)" using no_gap_Suc[OF Suc.prems(2)] TOMBSTONE by simp
    ultimately show ?thesis using Suc.IH[of "Suc d" ft'] Suc.prems(1) TOMBSTONE len step
      by (simp add: ft'_def)
  qed
qed

section \<open>Updates and contents\<close>

lemma reach_mono:
  assumes "reach slots s i" "length slots' = length slots"
    and "\<And>j. j < length slots \<Longrightarrow> slots ! j \<noteq> EMPTY \<Longrightarrow> slots' ! j \<noteq> EMPTY"
  shows "reach slots' s i"
proof -
  obtain d where d: "d < length slots" "i = (s + d) mod length slots" "no_gap slots s 0 d"
    using assms(1) by (auto simp: reach_def)
  have "0 < length slots" using d(1) by linarith
  then have "no_gap slots' s 0 d" using d(3) assms(2,3) unfolding no_gap_def by (metis mod_less_divisor)
  then show ?thesis using d assms(2) by (auto simp: reach_def)
qed

lemma probe_ok_update:
  assumes "probe_ok home slots" "i < length slots" "x \<noteq> EMPTY" "\<And>e. x = OCCUPIED e \<Longrightarrow> reach slots (home e) i"
  shows "probe_ok home (slots[i := x])"
  unfolding probe_ok_def
proof (intro allI impI)
  fix j e assume j: "j < length (slots[i := x])" "slots[i := x] ! j = OCCUPIED e"
  have "reach slots (home e) j" using assms j by (cases "j = i") (auto simp: probe_ok_def)
  then show "reach (slots[i := x]) (home e) j"
  proof (rule reach_mono)
    show "k < length slots \<Longrightarrow> slots ! k \<noteq> EMPTY \<Longrightarrow> slots[i := x] ! k \<noteq> EMPTY" for k
      using assms(3) by (cases "k = i") auto
  qed simp
qed

lemma probe_ok_empty: "probe_ok home (replicate c EMPTY)"
  by (simp add: probe_ok_def)

lemma contents_empty [simp]: "contents (replicate c EMPTY) = {#}"
  by (induction c) (simp_all add: contents_def)

lemma contents_update:
  "i < length slots \<Longrightarrow> contents (slots[i := x]) + slot_mset (slots ! i) = contents slots + slot_mset x"
  unfolding contents_def by (rule sum_list_map_update)

lemma contents_put:
  "i < length slots \<Longrightarrow> slots ! i \<in> {EMPTY, TOMBSTONE} \<Longrightarrow> contents (slots[i := OCCUPIED e]) = add_mset e (contents slots)"
  using contents_update[of i slots "OCCUPIED e"] by auto

lemma contents_replace:
  "i < length slots \<Longrightarrow> slots ! i = OCCUPIED e' \<Longrightarrow>
    \<exists>rest. contents slots = add_mset e' rest \<and> contents (slots[i := x]) = rest + slot_mset x"
  using contents_update[of i slots TOMBSTONE] contents_update[of i "slots[i := TOMBSTONE]" x]
  by (intro exI[of _ "contents (slots[i := TOMBSTONE])"]) simp

lemma contents_mem: "e \<in># contents slots \<longleftrightarrow> (\<exists>i < length slots. slots ! i = OCCUPIED e)"
proof -
  have "e \<in># slot_mset s \<longleftrightarrow> s = OCCUPIED e" for s by (cases s) auto
  then have "e \<in># contents slots \<longleftrightarrow> OCCUPIED e \<in> set slots"
    unfolding contents_def by (induction slots) auto
  then show ?thesis by (auto simp: in_set_conv_nth)
qed

lemma contents_pair:
  assumes "i < length slots" "j < length slots" "i \<noteq> j" "slots ! i = OCCUPIED a" "slots ! j = OCCUPIED b"
  shows "{#a, b#} \<subseteq># contents slots"
proof -
  let ?r = "slots[i := TOMBSTONE]"
  have c: "contents slots = add_mset a (contents ?r)"
    using contents_update[OF assms(1), of TOMBSTONE] assms(4) by simp
  have "b \<in># contents ?r" unfolding contents_mem using assms by (auto intro!: exI[of _ j])
  then show ?thesis unfolding c by simp
qed

lemma size_contents_le: "size (contents slots) \<le> length slots"
proof -
  have "size (slot_mset s) \<le> 1" for s :: "'a slot" by (cases s) auto
  then show ?thesis unfolding contents_def
  proof (induction slots)
    case (Cons s slots)
    show ?case using Cons.IH[OF Cons.prems] Cons.prems[of s] by simp
  qed simp
qed

lemma all_occupied_full:
  assumes "0 < length slots" "\<forall>j < length slots. \<exists>e. slots ! ((s + j) mod length slots) = OCCUPIED e"
  shows "size (contents slots) = length slots"
proof -
  have occ: "\<exists>e. slots ! i = OCCUPIED e" if "i < length slots" for i
  proof -
    let ?c = "length slots"
    define j where "j = (i + (?c - s mod ?c)) mod ?c"
    have "(s + j) mod ?c = (s mod ?c + (i + (?c - s mod ?c))) mod ?c"
      unfolding j_def by (simp add: mod_add_left_eq mod_add_right_eq)
    also have "\<dots> = i" using that mod_less_divisor[OF assms(1), of s] by simp
    finally show ?thesis using assms(2) assms(1) by (metis j_def mod_less_divisor)
  qed
  then have "\<forall>x\<in>set slots. \<exists>e. x = OCCUPIED e" by (auto simp: in_set_conv_nth)
  then show ?thesis unfolding contents_def by (induction slots) auto
qed

section \<open>Whole scans\<close>

lemma probe_find_start:
  assumes "pow2 (length slots)" "s < length slots"
  obtains (found) i e where "probe_find nf (length slots) slots test (length slots) s = Some i"
      "i < length slots" "slots ! i = OCCUPIED e" "test e"
  | (none) "probe_find nf (length slots) slots test (length slots) s = Some nf"
      "\<And>i e. reach slots s i \<Longrightarrow> slots ! i = OCCUPIED e \<Longrightarrow> \<not> test e"
  using probe_find_spec[OF assms(1), of "length slots" 0 s test nf] assms(2)
  by (auto simp: no_gap_def)

lemma probe_free_start:
  assumes "pow2 (length slots)" "s < length slots"
  obtains (free) i where "probe_free (length slots) slots (length slots) s (length slots) = Some i"
      "i < length slots" "slots ! i \<in> {EMPTY, TOMBSTONE}" "reach slots s i"
  | (full) "probe_free (length slots) slots (length slots) s (length slots) = Some (length slots)"
      "size (contents slots) = length slots"
proof -
  have "0 < length slots" using assms(2) by linarith
  then show ?thesis
    using probe_free_spec[OF assms(1), of "length slots" 0 s "length slots"] assms(2) free full
      all_occupied_full[of slots s]
    by (auto simp: no_gap_def)
qed

text \<open>A search finds every payload that passes the test, provided such payloads have the start of the
  search as their home.\<close>

lemma probe_lookup:
  assumes "pow2 (length slots)" "s < length slots" "probe_ok home slots"
    and home: "\<And>e. e \<in># contents slots \<Longrightarrow> test e \<Longrightarrow> home e = s"
  obtains (found) i e where "probe_find nf (length slots) slots test (length slots) s = Some i"
      "i < length slots" "slots ! i = OCCUPIED e" "test e"
  | (none) "probe_find nf (length slots) slots test (length slots) s = Some nf"
      "\<And>e. e \<in># contents slots \<Longrightarrow> \<not> test e"
proof (cases rule: probe_find_start[OF assms(1,2), where nf = nf and test = test])
  case (1 i e)
  then show ?thesis by (rule found)
next
  case 2
  have "\<not> test e" if e: "e \<in># contents slots" for e
  proof
    assume test: "test e"
    obtain i where i: "i < length slots" "slots ! i = OCCUPIED e" using e by (auto simp: contents_mem)
    then have "reach slots s i" using assms(3) home[OF e test] by (auto simp: probe_ok_def)
    then show False using 2(2) i(2) test by blast
  qed
  then show ?thesis using none 2(1) by blast
qed

lemma next_index_less: "pow2 c \<Longrightarrow> next_index c i < c"
  using pow2_pos by (simp add: next_index_def)

text \<open>The sentinel for a failed search does not matter.\<close>

lemma probe_find_sentinel:
  assumes "pow2 c" "length slots = c"
  shows "index < c \<Longrightarrow> probe_find nf c slots test left index =
    map_option (\<lambda>i. if i = c then nf else i) (probe_find c c slots test left index)"
proof (induction left arbitrary: index)
  case (Suc left)
  then show ?case using assms(2) next_index_less[OF assms(1)] by (cases "slots ! index") auto
qed simp

end
