(* ===== verification/Linear_Hash_Table.thy ===== *)
theory Linear_Hash_Table
  imports Linear_Probing
begin

text \<open>
  \<^verbatim>\<open>LinearChainedHashTable\<close> of \<^verbatim>\<open>src/cc/algo/src/algo/algo_hash_table.cc\<close>: a map with open addressing.
  The stored float \<^verbatim>\<open>max_load_factor_\<close> is represented by the function it is used for,
  \<open>lct_limit c\<close> = \<^verbatim>\<open>static_cast<size_t>(c * max_load_factor_)\<close>; nothing below assumes anything of it.
  The theory proves the laws of a finite map for \<^verbatim>\<open>Find\<close>, \<^verbatim>\<open>Insert\<close> and \<^verbatim>\<open>Erase\<close>, across
  rehashing and tombstones, for any equivalence of keys that the hash function respects.
\<close>

section \<open>State and operations\<close>

type_synonym ('k, 'v) lc_bucket = "(u64 \<times> 'k \<times> 'v) slot"

record ('k, 'v) lc_table =
  lct_capacity :: nat
  lct_limit :: "nat \<Rightarrow> nat"
  lct_size :: nat
  lct_buckets :: "('k, 'v) lc_bucket list"

definition LinearChainedHashTable :: "nat \<Rightarrow> (nat \<Rightarrow> nat) \<Rightarrow> ('k, 'v) lc_table" where
  "LinearChainedHashTable initial_capacity limit =
     (let capacity = initial_capacity_of initial_capacity in
      \<lparr>lct_capacity = capacity, lct_limit = limit, lct_size = 0, lct_buckets = replicate capacity EMPTY\<rparr>)"

definition lct_move :: "('k, 'v) lc_table \<Rightarrow> ('k, 'v) lc_table \<times> ('k, 'v) lc_table" where
  "lct_move other = (other, other\<lparr>lct_capacity := 0, lct_size := 0, lct_buckets := []\<rparr>)"

definition hash_to_index :: "('k, 'v) lc_table \<Rightarrow> u64 \<Rightarrow> nat" where
  "hash_to_index t hash = mask_bucket (lct_capacity t) hash"

definition find_index ::
  "('k \<Rightarrow> 'k \<Rightarrow> bool) \<Rightarrow> ('k, 'v) lc_table \<Rightarrow> 'k \<Rightarrow> u64 \<Rightarrow> nat \<Rightarrow> nat option" where
  "find_index key_equal t key hash start_index =
     probe_find (lct_capacity t) (lct_capacity t) (lct_buckets t)
       (\<lambda>(h, k, v). h = hash \<and> key_equal k key) (lct_capacity t) start_index"

definition find_insertion_point :: "('k, 'v) lc_table \<Rightarrow> u64 \<Rightarrow> nat \<Rightarrow> nat option" where
  "find_insertion_point t hash start_index =
     probe_free (lct_capacity t) (lct_buckets t) (lct_capacity t) start_index (lct_capacity t)"

definition should_rehash :: "('k, 'v) lc_table \<Rightarrow> bool" where
  "should_rehash t \<longleftrightarrow> lct_size t \<ge> lct_limit t (lct_capacity t)"

definition lct_store :: "('k, 'v) lc_table \<Rightarrow> nat \<Rightarrow> u64 \<Rightarrow> 'k \<Rightarrow> 'v \<Rightarrow> ('k, 'v) lc_table option" where
  "lct_store t i hash key value = do {
     bs \<leftarrow> vec_set (lct_buckets t) i (OCCUPIED (hash, key, value));
     Some (t\<lparr>lct_buckets := bs, lct_size := lct_size t + 1\<rparr>)}"

definition rehash_to_capacity :: "nat \<Rightarrow> ('k, 'v) lc_table \<Rightarrow> ('k, 'v) lc_table option" where
  "rehash_to_capacity new_capacity t =
     (let new_capacity = (if new_capacity < lct_size t then initial_capacity_of (lct_size t) else new_capacity);
          old_buckets = lct_buckets t;
          t = t\<lparr>lct_capacity := new_capacity, lct_buckets := replicate new_capacity EMPTY, lct_size := 0\<rparr>
      in for_each (\<lambda>b t. case b of
             OCCUPIED (hash, key, value) \<Rightarrow> do {
               insert_index \<leftarrow> find_insertion_point t hash (hash_to_index t hash);
               if insert_index \<noteq> lct_capacity t then lct_store t insert_index hash key value else Some t}
           | _ \<Rightarrow> Some t) old_buckets t)"

definition rehash :: "('k, 'v) lc_table \<Rightarrow> ('k, 'v) lc_table option" where
  "rehash t = rehash_to_capacity ((lct_capacity t * 2) mod 2 ^ 64) t"

text \<open>One attempt of \<^verbatim>\<open>Insert\<close> after the load check: \<open>Some None\<close> is the full table, which \<^verbatim>\<open>Insert\<close>
  answers with a rehash and a retry.\<close>

definition lct_try_insert ::
  "('k \<Rightarrow> u64) \<Rightarrow> ('k \<Rightarrow> 'k \<Rightarrow> bool) \<Rightarrow> ('k, 'v) lc_table \<Rightarrow> 'k \<Rightarrow> 'v \<Rightarrow>
   (('k, 'v) lc_table \<times> bool) option option" where
  "lct_try_insert hash_fn key_equal t key value = do {
     let hash = hash_fn key;
     let index = hash_to_index t hash;
     found_index \<leftarrow> find_index key_equal t key hash index;
     if found_index \<noteq> lct_capacity t then do {
       b \<leftarrow> vec_at (lct_buckets t) found_index;
       case b of
         OCCUPIED (h, k, _) \<Rightarrow>
           Some (Some (t\<lparr>lct_buckets := (lct_buckets t)[found_index := OCCUPIED (h, k, value)]\<rparr>, False))
       | _ \<Rightarrow> None}
     else do {
       insert_index \<leftarrow> find_insertion_point t hash index;
       if insert_index = lct_capacity t then Some None
       else do {
         t \<leftarrow> lct_store t insert_index hash key value;
         Some (Some (t, True))}}}"

partial_function (option) lct_Insert ::
  "('k \<Rightarrow> u64) \<Rightarrow> ('k \<Rightarrow> 'k \<Rightarrow> bool) \<Rightarrow> ('k, 'v) lc_table \<Rightarrow> 'k \<Rightarrow> 'v \<Rightarrow> (('k, 'v) lc_table \<times> bool) option" where
  "lct_Insert hash_fn key_equal t key value = do {
     t \<leftarrow> (if should_rehash t then rehash t else Some t);
     r \<leftarrow> lct_try_insert hash_fn key_equal t key value;
     case r of
       Some (t, new) \<Rightarrow> Some (t, new)
     | None \<Rightarrow> do {
         t \<leftarrow> rehash t;
         lct_Insert hash_fn key_equal t key value}}"

definition lct_Find ::
  "('k \<Rightarrow> u64) \<Rightarrow> ('k \<Rightarrow> 'k \<Rightarrow> bool) \<Rightarrow> ('k, 'v) lc_table \<Rightarrow> 'k \<Rightarrow> 'v option option" where
  "lct_Find hash_fn key_equal t key = do {
     let hash = hash_fn key;
     found_index \<leftarrow> find_index key_equal t key hash (hash_to_index t hash);
     if found_index \<noteq> lct_capacity t then do {
       b \<leftarrow> vec_at (lct_buckets t) found_index;
       case b of OCCUPIED (_, _, v) \<Rightarrow> Some (Some v) | _ \<Rightarrow> None}
     else Some None}"

definition lct_Contains :: "('k \<Rightarrow> u64) \<Rightarrow> ('k \<Rightarrow> 'k \<Rightarrow> bool) \<Rightarrow> ('k, 'v) lc_table \<Rightarrow> 'k \<Rightarrow> bool option" where
  "lct_Contains hash_fn key_equal t key = do { r \<leftarrow> lct_Find hash_fn key_equal t key; Some (r \<noteq> None) }"

definition lct_Erase ::
  "('k \<Rightarrow> u64) \<Rightarrow> ('k \<Rightarrow> 'k \<Rightarrow> bool) \<Rightarrow> ('k, 'v) lc_table \<Rightarrow> 'k \<Rightarrow> (('k, 'v) lc_table \<times> bool) option" where
  "lct_Erase hash_fn key_equal t key = do {
     let hash = hash_fn key;
     found_index \<leftarrow> find_index key_equal t key hash (hash_to_index t hash);
     if found_index = lct_capacity t then Some (t, False)
     else do {
       bs \<leftarrow> vec_set (lct_buckets t) found_index TOMBSTONE;
       Some (t\<lparr>lct_buckets := bs, lct_size := lct_size t - 1\<rparr>, True)}}"

definition lct_Clear :: "('k, 'v) lc_table \<Rightarrow> ('k, 'v) lc_table" where
  "lct_Clear t = t\<lparr>lct_buckets := map (\<lambda>_. EMPTY) (lct_buckets t), lct_size := 0\<rparr>"

definition lct_Reserve :: "nat \<Rightarrow> ('k, 'v) lc_table \<Rightarrow> ('k, 'v) lc_table option" where
  "lct_Reserve n t =
     (let new_capacity = initial_capacity_of n in
      if new_capacity > lct_capacity t then rehash_to_capacity new_capacity t else Some t)"

section \<open>Invariant\<close>

definition lct_home :: "nat \<Rightarrow> u64 \<times> 'k \<times> 'v \<Rightarrow> nat" where
  "lct_home c = (\<lambda>(h, _). mask_bucket c h)"

text \<open>The part of the invariant that does not look at keys.\<close>

definition lct_shape :: "('k, 'v) lc_table \<Rightarrow> bool" where
  "lct_shape t \<longleftrightarrow> pow2 (lct_capacity t) \<and> length (lct_buckets t) = lct_capacity t \<and>
     lct_size t = size (contents (lct_buckets t)) \<and> probe_ok (lct_home (lct_capacity t)) (lct_buckets t)"

definition lct_entries :: "('k, 'v) lc_table \<Rightarrow> (u64 \<times> 'k \<times> 'v) multiset" where
  "lct_entries t = contents (lct_buckets t)"

definition lct_keys_ok :: "('k \<Rightarrow> u64) \<Rightarrow> ('k \<Rightarrow> 'k \<Rightarrow> bool) \<Rightarrow> (u64 \<times> 'k \<times> 'v) multiset \<Rightarrow> bool" where
  "lct_keys_ok hash_fn key_equal M \<longleftrightarrow> (\<forall>e\<in>#M. fst e = hash_fn (fst (snd e))) \<and>
     (\<forall>a b. {#a, b#} \<subseteq># M \<longrightarrow> \<not> key_equal (fst (snd a)) (fst (snd b)))"

definition lct_inv :: "('k \<Rightarrow> u64) \<Rightarrow> ('k \<Rightarrow> 'k \<Rightarrow> bool) \<Rightarrow> ('k, 'v) lc_table \<Rightarrow> bool" where
  "lct_inv hash_fn key_equal t \<longleftrightarrow> lct_shape t \<and> lct_keys_ok hash_fn key_equal (lct_entries t)"

lemma lct_shape_new: "pow2 c \<Longrightarrow> lct_shape (t\<lparr>lct_capacity := c, lct_buckets := replicate c EMPTY, lct_size := 0\<rparr>)"
  by (simp add: lct_shape_def probe_ok_empty)

lemma lct_free_slot:
  assumes "lct_shape t"
  obtains (free) i where "find_insertion_point t h (hash_to_index t h) = Some i" "i < lct_capacity t"
      "\<And>k v. \<exists>t'. lct_store t i h k v = Some t' \<and> lct_shape t' \<and> lct_capacity t' = lct_capacity t \<and>
         lct_limit t' = lct_limit t \<and> lct_entries t' = add_mset (h, k, v) (lct_entries t)"
  | (full) "find_insertion_point t h (hash_to_index t h) = Some (lct_capacity t)" "lct_size t = lct_capacity t"
proof -
  let ?bs = "lct_buckets t"
  have sh: "pow2 (length ?bs)" "length ?bs = lct_capacity t"
    "probe_ok (lct_home (lct_capacity t)) ?bs" "lct_size t = size (contents ?bs)"
    using assms by (simp_all add: lct_shape_def)
  have s: "hash_to_index t h < length ?bs" using sh(1,2) mask_bucket_less by (simp add: hash_to_index_def)
  show ?thesis
  proof (cases rule: probe_free_start[OF sh(1) s])
    case (1 i)
    have "probe_ok (lct_home (lct_capacity t)) (?bs[i := OCCUPIED (h, k, v)])" for k v
      using 1 sh(3) by (intro probe_ok_update) (auto simp: lct_home_def hash_to_index_def)
    then have "\<exists>t'. lct_store t i h k v = Some t' \<and> lct_shape t' \<and> lct_capacity t' = lct_capacity t \<and>
       lct_limit t' = lct_limit t \<and> lct_entries t' = add_mset (h, k, v) (lct_entries t)" for k v
      using 1 sh by (simp add: lct_store_def lct_shape_def lct_entries_def contents_put)
    then show ?thesis using free 1 sh(2) by (simp add: find_insertion_point_def)
  next
    case 2
    then show ?thesis using full sh by (simp add: find_insertion_point_def)
  qed
qed

lemma rehash_loop:
  "lct_shape t \<Longrightarrow> lct_size t + size (contents bs) \<le> lct_capacity t \<Longrightarrow>
   \<exists>t'. for_each (\<lambda>b t. case b of
             OCCUPIED (hash, key, value) \<Rightarrow> do {
               insert_index \<leftarrow> find_insertion_point t hash (hash_to_index t hash);
               if insert_index \<noteq> lct_capacity t then lct_store t insert_index hash key value else Some t}
           | _ \<Rightarrow> Some t) bs t = Some t' \<and> lct_shape t' \<and> lct_capacity t' = lct_capacity t \<and>
     lct_limit t' = lct_limit t \<and> lct_entries t' = lct_entries t + contents bs"
proof (induction bs arbitrary: t)
  case (Cons b bs)
  show ?case
  proof (cases b)
    case (OCCUPIED e)
    obtain h k v where e: "e = (h, k, v)" by (cases e) auto
    have "lct_size t < lct_capacity t" using Cons.prems(2) OCCUPIED by (simp add: contents_def)
    then obtain i t' where
      i: "find_insertion_point t h (hash_to_index t h) = Some i" "i < lct_capacity t"
        "lct_store t i h k v = Some t'" "lct_shape t'" "lct_capacity t' = lct_capacity t"
        "lct_limit t' = lct_limit t" "lct_entries t' = add_mset e (lct_entries t)"
      using lct_free_slot[OF Cons.prems(1), of h] e by (metis less_irrefl)
    have "lct_size t' + size (contents bs) \<le> lct_capacity t'"
      using Cons.prems i(4,5,7) OCCUPIED by (simp add: lct_shape_def lct_entries_def contents_def)
    from Cons.IH[OF i(4) this] show ?thesis
      using i OCCUPIED e by (auto simp: contents_def)
  qed (use Cons in \<open>simp_all add: contents_def\<close>)
qed (simp add: contents_def)

lemma rehash_to_capacity_ok:
  assumes sh: "lct_shape t" and c: "pow2 c" "lct_size t \<le> c"
  obtains t' where "rehash_to_capacity c t = Some t'" "lct_shape t'" "lct_capacity t' = c"
    "lct_limit t' = lct_limit t" "lct_entries t' = lct_entries t" "lct_size t' = lct_size t"
proof -
  define t0 where "t0 = t\<lparr>lct_capacity := c, lct_buckets := replicate c EMPTY, lct_size := 0\<rparr>"
  have t0: "lct_shape t0" "lct_size t0 + size (contents (lct_buckets t)) \<le> lct_capacity t0"
    using lct_shape_new[OF c(1)] sh c(2) by (simp_all add: t0_def lct_shape_def)
  from rehash_loop[OF t0] obtain t' where "rehash_to_capacity c t = Some t'" "lct_shape t'" "lct_capacity t' = c"
    "lct_limit t' = lct_limit t" "lct_entries t' = lct_entries t"
    using c(2) by (auto simp: rehash_to_capacity_def Let_def t0_def lct_entries_def)
  moreover then have "lct_size t' = lct_size t" using sh by (simp add: lct_shape_def lct_entries_def)
  ultimately show ?thesis by (rule that)
qed

section \<open>Lookup, insertion and removal\<close>

definition lct_holds :: "('k \<Rightarrow> 'k \<Rightarrow> bool) \<Rightarrow> (u64 \<times> 'k \<times> 'v) multiset \<Rightarrow> 'k \<Rightarrow> 'v \<Rightarrow> bool" where
  "lct_holds key_equal M key v \<longleftrightarrow> (\<exists>e\<in>#M. snd (snd e) = v \<and> key_equal (fst (snd e)) key)"

lemma lct_holds_add [simp]:
  "lct_holds key_equal (add_mset e M) key v \<longleftrightarrow>
     snd (snd e) = v \<and> key_equal (fst (snd e)) key \<or> lct_holds key_equal M key v"
  by (auto simp: lct_holds_def)

lemma find_index_cases:
  assumes inv: "lct_inv hash_fn key_equal t" and ok: "keys_ok hash_fn key_equal"
  obtains (found) i k v where
      "find_index key_equal t key (hash_fn key) (hash_to_index t (hash_fn key)) = Some i"
      "i < lct_capacity t" "i < length (lct_buckets t)" "lct_buckets t ! i = OCCUPIED (hash_fn key, k, v)" "key_equal k key"
  | (none) "find_index key_equal t key (hash_fn key) (hash_to_index t (hash_fn key)) = Some (lct_capacity t)"
      "\<And>v. \<not> lct_holds key_equal (lct_entries t) key v"
proof -
  let ?bs = "lct_buckets t"
  have sh: "pow2 (length ?bs)" "length ?bs = lct_capacity t" "probe_ok (lct_home (lct_capacity t)) ?bs"
    "lct_keys_ok hash_fn key_equal (contents ?bs)"
    using inv by (simp_all add: lct_inv_def lct_shape_def lct_entries_def)
  have s: "hash_to_index t (hash_fn key) < length ?bs" using sh(1,2) mask_bucket_less by (simp add: hash_to_index_def)
  have home: "lct_home (lct_capacity t) e = hash_to_index t (hash_fn key)"
    if "e \<in># contents ?bs" "(\<lambda>(h, k, v). h = hash_fn key \<and> key_equal k key) e" for e
    using that by (auto simp: lct_home_def hash_to_index_def)
  show ?thesis
  proof (cases rule: probe_lookup[OF sh(1) s sh(3), where nf = "lct_capacity t" and
        test = "\<lambda>(h, k, v). h = hash_fn key \<and> key_equal k key"])
    case 1
    then show ?case by (rule home)
  next
    case (2 i e)
    then show ?thesis using found[of i] sh(2) by (cases e) (auto simp: find_index_def)
  next
    case 3
    have "\<not> key_equal (fst (snd e)) key" if "e \<in># contents ?bs" for e
      using 3(2)[OF that] sh(4) that keys_ok_D(4)[OF ok, of "fst (snd e)" key]
      by (cases e) (auto simp: lct_keys_ok_def)
    then have "\<not> lct_holds key_equal (lct_entries t) key v" for v
      by (auto simp: lct_holds_def lct_entries_def)
    then show ?thesis using none 3(1) sh(2) by (simp add: find_index_def)
  qed
qed

lemma lct_holds_unique:
  assumes inv: "lct_inv hash_fn key_equal t" and ok: "keys_ok hash_fn key_equal"
    and "i < length (lct_buckets t)" "lct_buckets t ! i = OCCUPIED (h, k, v)" "key_equal k key"
  shows "lct_holds key_equal (lct_entries t) key v' \<longleftrightarrow> v' = v"
proof
  assume "lct_holds key_equal (lct_entries t) key v'"
  then obtain h' k' where m: "(h', k', v') \<in># contents (lct_buckets t)" "key_equal k' key"
    by (auto simp: lct_holds_def lct_entries_def)
  then obtain j where j: "j < length (lct_buckets t)" "lct_buckets t ! j = OCCUPIED (h', k', v')"
    by (auto simp: contents_mem)
  have "key_equal k k'" using keys_ok_D[OF ok] assms(5) m(2) by blast
  then have "i = j"
    using contents_pair[OF assms(3) j(1) _ assms(4) j(2)] inv
    unfolding lct_inv_def lct_keys_ok_def lct_entries_def by fastforce
  then show "v' = v" using j assms(4) by simp
next
  assume "v' = v"
  moreover have "(h, k, v) \<in># lct_entries t" using assms(3,4) by (auto simp: lct_entries_def contents_mem)
  ultimately show "lct_holds key_equal (lct_entries t) key v'" using assms(5) by (force simp: lct_holds_def)
qed

lemma lct_Find_holds:
  assumes "lct_inv hash_fn key_equal t" "keys_ok hash_fn key_equal"
  obtains r where "lct_Find hash_fn key_equal t key = Some r"
    "\<And>v. r = Some v \<longleftrightarrow> lct_holds key_equal (lct_entries t) key v"
proof (cases rule: find_index_cases[OF assms, of key])
  case (1 i k v)
  then show ?thesis
    using that[of "Some v"] lct_holds_unique[OF assms 1(3,4,5)]
    by (auto simp: lct_Find_def Let_def)
next
  case 2
  then show ?thesis using that[of None] by (simp add: lct_Find_def Let_def)
qed

lemma lct_Find_eqI:
  assumes "lct_inv hash_fn key_equal t" "lct_inv hash_fn key_equal t'" "keys_ok hash_fn key_equal"
    and "\<And>v. lct_holds key_equal (lct_entries t) key v = lct_holds key_equal (lct_entries t') key v"
  shows "lct_Find hash_fn key_equal t key = lct_Find hash_fn key_equal t' key"
proof -
  obtain r where r: "lct_Find hash_fn key_equal t key = Some r"
    "\<And>v. r = Some v \<longleftrightarrow> lct_holds key_equal (lct_entries t) key v"
    by (rule lct_Find_holds[OF assms(1,3), of key]) blast
  obtain r' where r': "lct_Find hash_fn key_equal t' key = Some r'"
    "\<And>v. r' = Some v \<longleftrightarrow> lct_holds key_equal (lct_entries t') key v"
    by (rule lct_Find_holds[OF assms(2,3), of key]) blast
  have "r = r'" using r(2) r'(2) assms(4) by (cases r; cases r') auto
  then show ?thesis using r r' by simp
qed

lemma lct_Find_SomeI:
  assumes "lct_inv hash_fn key_equal t" "keys_ok hash_fn key_equal" "lct_holds key_equal (lct_entries t) key v"
  shows "lct_Find hash_fn key_equal t key = Some (Some v)"
  using lct_Find_holds[OF assms(1,2), of key] assms(3) by metis

lemma lct_Find_NoneI:
  assumes "lct_inv hash_fn key_equal t" "keys_ok hash_fn key_equal" "\<And>v. \<not> lct_holds key_equal (lct_entries t) key v"
  shows "lct_Find hash_fn key_equal t key = Some None"
proof -
  obtain r where "lct_Find hash_fn key_equal t key = Some r" "\<And>v. r = Some v \<longleftrightarrow> lct_holds key_equal (lct_entries t) key v"
    by (rule lct_Find_holds[OF assms(1,2), of key]) blast
  then show ?thesis using assms(3) by (cases r) auto
qed

text \<open>How the contents may change without breaking the key conditions.\<close>

lemma lct_keys_ok_add_iff:
  "lct_keys_ok hash_fn key_equal (add_mset e M) \<longleftrightarrow>
     fst e = hash_fn (fst (snd e)) \<and> lct_keys_ok hash_fn key_equal M \<and>
     (\<forall>e'\<in>#M. \<not> key_equal (fst (snd e)) (fst (snd e')) \<and> \<not> key_equal (fst (snd e')) (fst (snd e)))"
  unfolding lct_keys_ok_def pair_subset_add_mset set_mset_add_mset_insert by blast

text \<open>The effect of a successful insertion of \<open>v\<close> under \<open>key\<close>; the flag is true for a new key.\<close>

definition lct_inserted ::
  "('k \<Rightarrow> 'k \<Rightarrow> bool) \<Rightarrow> 'k \<Rightarrow> 'v \<Rightarrow> (u64 \<times> 'k \<times> 'v) multiset \<Rightarrow> (u64 \<times> 'k \<times> 'v) multiset \<Rightarrow> bool \<Rightarrow> bool" where
  "lct_inserted key_equal key v M M' new \<longleftrightarrow>
     (if new then (\<forall>w. \<not> lct_holds key_equal M key w) \<and> (\<exists>h. M' = add_mset (h, key, v) M)
      else \<exists>h k w rest. key_equal k key \<and> M = add_mset (h, k, w) rest \<and> M' = add_mset (h, k, v) rest)"

lemma lct_inserted_holds:
  assumes "lct_inserted key_equal key v M M' new" "keys_ok hash_fn key_equal" "lct_keys_ok hash_fn key_equal M"
  shows "key_equal key k' \<Longrightarrow> lct_holds key_equal M' k' v"
    and "\<not> key_equal key k' \<Longrightarrow> lct_holds key_equal M' k' w = lct_holds key_equal M k' w"
proof -
  obtain h k rest where k: "key_equal k key" "M' = add_mset (h, k, v) rest"
    and M: "M = rest \<or> (\<exists>u. M = add_mset (h, k, u) rest)"
    using assms(1) keys_ok_D(1)[OF assms(2)] by (auto simp: lct_inserted_def split: if_splits)
  show "key_equal key k' \<Longrightarrow> lct_holds key_equal M' k' v"
    using k keys_ok_D(3)[OF assms(2) k(1)] by auto
  have "\<not> key_equal key k' \<Longrightarrow> \<not> key_equal k k'"
    using keys_ok_D[OF assms(2)] k(1) by blast
  then show "\<not> key_equal key k' \<Longrightarrow> lct_holds key_equal M' k' w = lct_holds key_equal M k' w"
    using k(2) M by auto
qed

lemma lct_inserted_keys_ok:
  assumes "lct_inserted key_equal key v M M' new" "keys_ok hash_fn key_equal" "lct_keys_ok hash_fn key_equal M"
    and "new \<Longrightarrow> M' = add_mset (hash_fn key, key, v) M"
  shows "lct_keys_ok hash_fn key_equal M'"
  using assms(1,3,4) unfolding lct_inserted_def lct_holds_def
  by (auto simp: lct_keys_ok_add_iff split: if_splits dest: keys_ok_D(2)[OF assms(2)])

lemma lct_try_insert_cases:
  assumes inv: "lct_inv hash_fn key_equal t" and ok: "keys_ok hash_fn key_equal"
  obtains (inserted) t' new where "lct_try_insert hash_fn key_equal t key v = Some (Some (t', new))"
      "lct_inv hash_fn key_equal t'" "lct_capacity t' = lct_capacity t"
      "lct_inserted key_equal key v (lct_entries t) (lct_entries t') new"
  | (full) "lct_try_insert hash_fn key_equal t key v = Some None" "lct_size t = lct_capacity t"
proof (cases rule: find_index_cases[OF inv ok, of key])
  case (1 i k w)
  define t' where "t' = t\<lparr>lct_buckets := (lct_buckets t)[i := OCCUPIED (hash_fn key, k, v)]\<rparr>"
  obtain re where re: "lct_entries t = add_mset (hash_fn key, k, w) re" "lct_entries t' = add_mset (hash_fn key, k, v) re"
    using contents_replace[OF 1(3,4), of "OCCUPIED (hash_fn key, k, v)"] by (auto simp: lct_entries_def t'_def)
  then have ins: "lct_inserted key_equal key v (lct_entries t) (lct_entries t') False"
    using 1(5) by (auto simp: lct_inserted_def)
  have home: "reach (lct_buckets t) (lct_home (lct_capacity t) (hash_fn key, k, w)) i"
    using inv 1(3,4) by (simp add: lct_inv_def lct_shape_def probe_ok_def)
  have "probe_ok (lct_home (lct_capacity t)) (lct_buckets t')"
    using inv 1(3) home by (auto simp: lct_inv_def lct_shape_def t'_def lct_home_def intro!: probe_ok_update)
  moreover have "size (lct_entries t') = size (lct_entries t)" using re by simp
  ultimately have "lct_inv hash_fn key_equal t'"
    using lct_inserted_keys_ok[OF ins ok] inv by (simp add: lct_inv_def lct_shape_def lct_entries_def t'_def)
  then show ?thesis using 1 ins inserted[of t' False] by (simp add: lct_try_insert_def Let_def t'_def)
next
  case 2
  have "lct_shape t" using inv by (simp add: lct_inv_def)
  then show ?thesis
  proof (cases rule: lct_free_slot[of t "hash_fn key"])
    case (free i)
    obtain t' where i: "lct_store t i (hash_fn key) key v = Some t'" "lct_shape t'" "lct_capacity t' = lct_capacity t"
        "lct_entries t' = add_mset (hash_fn key, key, v) (lct_entries t)" using free(3) by blast
    then have ins: "lct_inserted key_equal key v (lct_entries t) (lct_entries t') True"
      using 2(2) by (auto simp: lct_inserted_def)
    then have "lct_inv hash_fn key_equal t'"
      using lct_inserted_keys_ok[OF ins ok] inv i by (simp add: lct_inv_def)
    then show ?thesis using 2 i ins free inserted[of t' True] by (simp add: lct_try_insert_def Let_def)
  next
    case f: full
    then show ?thesis using 2 full by (simp add: lct_try_insert_def Let_def)
  qed
qed

lemma lct_Insert_ok:
  assumes inv: "lct_inv hash_fn key_equal t" and ok: "keys_ok hash_fn key_equal"
    and cap: "lct_capacity t \<le> 2 ^ 60"
  obtains t' new where "lct_Insert hash_fn key_equal t key v = Some (t', new)" "lct_inv hash_fn key_equal t'"
    "lct_inserted key_equal key v (lct_entries t) (lct_entries t') new"
proof -
  have dbl: "\<exists>t'. rehash t = Some t' \<and> lct_inv hash_fn key_equal t' \<and> lct_capacity t' = 2 * lct_capacity t \<and>
      lct_entries t' = lct_entries t \<and> lct_size t' < lct_capacity t'"
    if inv: "lct_inv hash_fn key_equal t" and c: "lct_capacity t \<le> 2 ^ 61" for t :: "('a, 'b) lc_table"
  proof -
    have sh: "lct_shape t" "pow2 (lct_capacity t)" "lct_size t \<le> lct_capacity t"
      using inv size_contents_le[of "lct_buckets t"] by (simp_all add: lct_inv_def lct_shape_def)
    have p: "pow2 (2 * lct_capacity t)" "(lct_capacity t * 2) mod 2 ^ 64 = 2 * lct_capacity t"
      using pow2_double[OF sh(2)] c by simp_all
    obtain t' where t': "rehash_to_capacity (2 * lct_capacity t) t = Some t'" "lct_shape t'"
      "lct_capacity t' = 2 * lct_capacity t" "lct_entries t' = lct_entries t" "lct_size t' = lct_size t"
      using rehash_to_capacity_ok[OF sh(1) p(1)] sh(3) by (metis le_add1 mult_2 le_trans)
    then show ?thesis using inv sh(3) pow2_pos[OF sh(2)] p(2) by (simp add: rehash_def lct_inv_def)
  qed
  define g where "g = (if should_rehash t then rehash t else Some t)"
  obtain t1 where t1: "g = Some t1" "lct_inv hash_fn key_equal t1" "lct_entries t1 = lct_entries t"
      "lct_capacity t1 \<le> 2 * lct_capacity t" "t1 = t \<or> lct_size t1 < lct_capacity t1"
    using dbl[OF inv] cap inv by (cases "should_rehash t") (auto simp: g_def)
  show ?thesis
  proof (cases rule: lct_try_insert_cases[OF t1(2) ok, of key v])
    case (1 t' new)
    then have "lct_Insert hash_fn key_equal t key v = Some (t', new)"
      using t1(1) unfolding g_def by (subst lct_Insert.simps) simp
    then show ?thesis using that 1 t1(3) by simp
  next
    case 2
    note full = 2
    obtain t2 where t2: "rehash t1 = Some t2" "lct_inv hash_fn key_equal t2" "lct_capacity t2 = 2 * lct_capacity t1"
      "lct_entries t2 = lct_entries t" "lct_size t2 < lct_capacity t2"
      using dbl[OF t1(2)] t1(3,4) cap by auto
    define g2 where "g2 = (if should_rehash t2 then rehash t2 else Some t2)"
    obtain t3 where t3: "g2 = Some t3" "lct_inv hash_fn key_equal t3" "lct_entries t3 = lct_entries t"
        "lct_size t3 < lct_capacity t3"
      using dbl[OF t2(2)] t2 t1(4,5) full cap by (cases "should_rehash t2") (auto simp: g2_def)
    obtain t' new where t': "lct_try_insert hash_fn key_equal t3 key v = Some (Some (t', new))"
      "lct_inv hash_fn key_equal t'" "lct_inserted key_equal key v (lct_entries t3) (lct_entries t') new"
      using lct_try_insert_cases[OF t3(2) ok, of key v] t3(4) by (metis less_irrefl)
    have "lct_Insert hash_fn key_equal t2 key v = Some (t', new)"
      using t3(1) t'(1) unfolding g2_def by (subst lct_Insert.simps) simp
    then have "lct_Insert hash_fn key_equal t key v = Some (t', new)"
      using t1(1) full(1) t2(1) unfolding g_def by (subst lct_Insert.simps) simp
    then show ?thesis using that t'(2,3) t3(3) by simp
  qed
qed

lemma lct_Erase_ok:
  assumes inv: "lct_inv hash_fn key_equal t" and ok: "keys_ok hash_fn key_equal"
  obtains (erased) t' h k w where "lct_Erase hash_fn key_equal t key = Some (t', True)" "lct_inv hash_fn key_equal t'"
      "key_equal k key" "lct_entries t = add_mset (h, k, w) (lct_entries t')"
  | (absent) "lct_Erase hash_fn key_equal t key = Some (t, False)" "\<And>v. \<not> lct_holds key_equal (lct_entries t) key v"
proof (cases rule: find_index_cases[OF inv ok, of key])
  case (1 i k w)
  define t' where "t' = t\<lparr>lct_buckets := (lct_buckets t)[i := TOMBSTONE], lct_size := lct_size t - 1\<rparr>"
  have M: "lct_entries t = add_mset (hash_fn key, k, w) (lct_entries t')"
    using contents_update[OF 1(3), of TOMBSTONE] 1(4) by (simp add: lct_entries_def t'_def)
  have "probe_ok (lct_home (lct_capacity t)) (lct_buckets t')"
    using inv 1(3) by (auto simp: lct_inv_def lct_shape_def t'_def intro!: probe_ok_update)
  moreover have "lct_size t - Suc 0 = size (contents ((lct_buckets t)[i := TOMBSTONE]))"
    using M inv by (simp add: lct_inv_def lct_shape_def lct_entries_def t'_def)
  ultimately have "lct_inv hash_fn key_equal t'"
    using inv M by (simp add: lct_inv_def lct_shape_def t'_def lct_keys_ok_add_iff)
  moreover have "lct_Erase hash_fn key_equal t key = Some (t', True)"
    using 1 by (simp add: lct_Erase_def Let_def t'_def)
  ultimately show ?thesis using erased 1(5) M by blast
next
  case 2
  then show ?thesis using absent by (simp add: lct_Erase_def Let_def)
qed

lemma lct_inv_new: "n \<le> 2 ^ 62 \<Longrightarrow> lct_inv hash_fn key_equal (LinearChainedHashTable n limit)"
  using initial_capacity_of_spec(1)[of n]
  by (simp add: lct_inv_def lct_shape_def LinearChainedHashTable_def Let_def table_size_pow2 probe_ok_empty
      lct_entries_def lct_keys_ok_def)

lemma lct_inv_Clear: "lct_inv hash_fn key_equal t \<Longrightarrow> lct_inv hash_fn key_equal (lct_Clear t) \<and> lct_entries (lct_Clear t) = {#}"
proof -
  assume inv: "lct_inv hash_fn key_equal t"
  have "lct_Clear t = t\<lparr>lct_buckets := replicate (lct_capacity t) EMPTY, lct_size := 0\<rparr>"
    using inv by (simp add: lct_Clear_def lct_inv_def lct_shape_def map_replicate_const)
  moreover have "pow2 (lct_capacity t)" using inv by (simp add: lct_inv_def lct_shape_def)
  ultimately show ?thesis
    by (simp add: lct_inv_def lct_shape_def lct_entries_def probe_ok_empty lct_keys_ok_def)
qed

section \<open>Properties\<close>

text \<open>C17: \<^verbatim>\<open>Insert\<close> returns (after at most one retry) and obeys the law of a map: afterwards the key, and every
  key equal to it, is bound to the new value, every other key is bound as before, and the result is
  true exactly when the key was absent; through load-triggered rehashes, a full table, tombstones and any load
  factor.\<close>

theorem lct_Insert_law:
  assumes "lct_inv hash_fn key_equal t" "keys_ok hash_fn key_equal" "lct_capacity t \<le> 2 ^ 60"
  shows "\<exists>t' new. lct_Insert hash_fn key_equal t key v = Some (t', new) \<and> lct_inv hash_fn key_equal t' \<and>
    new = (lct_Find hash_fn key_equal t key = Some None) \<and> lct_size t' = lct_size t + (if new then 1 else 0) \<and>
    (\<forall>k. lct_Find hash_fn key_equal t' k =
       (if key_equal key k then Some (Some v) else lct_Find hash_fn key_equal t k))"
proof -
  obtain t' new where t': "lct_Insert hash_fn key_equal t key v = Some (t', new)" "lct_inv hash_fn key_equal t'"
    "lct_inserted key_equal key v (lct_entries t) (lct_entries t') new"
    using lct_Insert_ok[OF assms] by blast
  have M: "lct_keys_ok hash_fn key_equal (lct_entries t)" using assms(1) by (simp add: lct_inv_def)
  note eff = lct_inserted_holds[OF t'(3) assms(2) M]
  have "lct_Find hash_fn key_equal t' k =
      (if key_equal key k then Some (Some v) else lct_Find hash_fn key_equal t k)" for k
    using lct_Find_SomeI[OF t'(2) assms(2)] lct_Find_eqI[OF t'(2) assms(1,2)] eff by auto
  moreover have "new = (lct_Find hash_fn key_equal t key = Some None)"
  proof -
    obtain r where r: "lct_Find hash_fn key_equal t key = Some r"
      "\<And>v. r = Some v \<longleftrightarrow> lct_holds key_equal (lct_entries t) key v"
      by (rule lct_Find_holds[OF assms(1,2), of key]) blast
    have "new \<longleftrightarrow> (\<forall>w. \<not> lct_holds key_equal (lct_entries t) key w)"
      using t'(3) by (auto simp: lct_inserted_def split: if_splits)
    then show ?thesis using r by (cases r) auto
  qed
  moreover have "lct_size t' = lct_size t + (if new then 1 else 0)"
    using t'(2,3) assms(1) by (auto simp: lct_inv_def lct_shape_def lct_entries_def lct_inserted_def split: if_splits)
  ultimately show ?thesis using t'(1,2) by blast
qed

theorem lct_Insert_law_witness:
  "\<exists>t' new. lct_Insert (\<lambda>_. 3) (=) (LinearChainedHashTable 1 (\<lambda>c. c * 3 div 4)) (7::nat) True = Some (t', new) \<and>
     lct_Find (\<lambda>_. 3) (=) t' 7 = Some (Some True)"
proof -
  let ?t = "LinearChainedHashTable 1 (\<lambda>c. c * 3 div 4) :: (nat, bool) lc_table"
  have "lct_capacity ?t \<le> 2 ^ 60"
    using initial_capacity_of_spec(3)[of 1] by (simp add: LinearChainedHashTable_def Let_def)
  moreover have "lct_inv (\<lambda>_. 3) (=) ?t" by (rule lct_inv_new) simp
  ultimately show ?thesis using lct_Insert_law[OF _ keys_ok_eq, of "\<lambda>_. 3" ?t 7 True] by auto
qed

text \<open>C16: \<^verbatim>\<open>Erase\<close> returns true exactly when the key was present; afterwards the key and its equals are absent and
  every other key is found as before: the tombstone keeps the probe sequences of the other keys intact.\<close>

theorem lct_Erase_law:
  assumes "lct_inv hash_fn key_equal t" "keys_ok hash_fn key_equal"
  shows "\<exists>t' found. lct_Erase hash_fn key_equal t key = Some (t', found) \<and> lct_inv hash_fn key_equal t' \<and>
    found = (lct_Find hash_fn key_equal t key \<noteq> Some None) \<and> lct_size t' + (if found then 1 else 0) = lct_size t \<and>
    (\<forall>k. lct_Find hash_fn key_equal t' k =
       (if key_equal key k then Some None else lct_Find hash_fn key_equal t k))"
proof (cases rule: lct_Erase_ok[OF assms, of key])
  case (1 t' h k0 w)
  have keys: "lct_keys_ok hash_fn key_equal (add_mset (h, k0, w) (lct_entries t'))"
    using assms(1) 1(4) by (simp add: lct_inv_def)
  have same: "lct_Find hash_fn key_equal t' k = lct_Find hash_fn key_equal t k" if "\<not> key_equal key k" for k
  proof (rule lct_Find_eqI[OF 1(2) assms])
    have "\<not> key_equal k0 k" using that 1(3) keys_ok_D[OF assms(2)] by blast
    then show "lct_holds key_equal (lct_entries t') k v = lct_holds key_equal (lct_entries t) k v" for v
      unfolding 1(4) by simp
  qed
  have gone: "lct_Find hash_fn key_equal t' k = Some None" if eq: "key_equal key k" for k
  proof -
    have "\<not> lct_holds key_equal (lct_entries t') k v" for v
    proof
      assume "lct_holds key_equal (lct_entries t') k v"
      then obtain e where e: "e \<in># lct_entries t'" "key_equal (fst (snd e)) k" by (auto simp: lct_holds_def)
      have "key_equal (fst (snd e)) k0" using keys_ok_D[OF assms(2)] e(2) eq 1(3) by blast
      then show False using keys e(1) by (simp add: lct_keys_ok_add_iff)
    qed
    then show ?thesis by (rule lct_Find_NoneI[OF 1(2) assms(2)])
  qed
  have "lct_Find hash_fn key_equal t key = Some (Some w)"
    by (rule lct_Find_SomeI[OF assms]) (simp add: 1(3,4))
  moreover have "lct_size t' + 1 = lct_size t"
    using 1(2,4) assms(1) by (simp add: lct_inv_def lct_shape_def lct_entries_def)
  ultimately show ?thesis using 1(1,2) same gone by auto
next
  case 2
  have "lct_Find hash_fn key_equal t k = Some None" if eq: "key_equal key k" for k
  proof -
    have "\<not> lct_holds key_equal (lct_entries t) k v" for v
    proof
      assume "lct_holds key_equal (lct_entries t) k v"
      then obtain e where e: "e \<in># lct_entries t" "snd (snd e) = v" "key_equal (fst (snd e)) k"
        by (auto simp: lct_holds_def)
      then have "key_equal (fst (snd e)) key" using keys_ok_D(2,3)[OF assms(2)] eq by blast
      then show False using 2(2)[of v] e by (auto simp: lct_holds_def)
    qed
    then show ?thesis by (rule lct_Find_NoneI[OF assms])
  qed
  then show ?thesis using 2(1) assms keys_ok_D(1)[OF assms(2)] by auto
qed

lemma lct_Find_new: "n \<le> 2 ^ 62 \<Longrightarrow> lct_Find hash_fn (=) (LinearChainedHashTable n limit) k = Some None"
  by (rule lct_Find_NoneI[OF lct_inv_new keys_ok_eq])
    (simp_all add: LinearChainedHashTable_def Let_def lct_entries_def lct_holds_def)

theorem lct_Erase_law_witness:
  "\<exists>t'. lct_Erase (\<lambda>_. 3) (=) (LinearChainedHashTable 4 id :: (nat, nat) lc_table) 5 = Some (t', False)"
proof -
  have "lct_inv (\<lambda>_. 3) (=) (LinearChainedHashTable 4 id :: (nat, nat) lc_table)" by (rule lct_inv_new) simp
  from lct_Erase_law[OF this keys_ok_eq, of 5] show ?thesis by (auto simp: lct_Find_new)
qed

text \<open>Rehashing to any power-of-two capacity that holds the entries (what \<^verbatim>\<open>Insert\<close> and \<^verbatim>\<open>Reserve\<close> do) drops no
  entry: the size and the result of every lookup are unchanged, and the silent skip of an entry without a
  slot never happens.\<close>

theorem lct_rehash_preserves:
  assumes "lct_inv hash_fn key_equal t" "keys_ok hash_fn key_equal" "pow2 c" "lct_size t \<le> c"
  shows "\<exists>t'. rehash_to_capacity c t = Some t' \<and> lct_inv hash_fn key_equal t' \<and> lct_capacity t' = c \<and>
    lct_size t' = lct_size t \<and> (\<forall>k. lct_Find hash_fn key_equal t' k = lct_Find hash_fn key_equal t k)"
proof -
  obtain t' where t': "rehash_to_capacity c t = Some t'" "lct_shape t'" "lct_capacity t' = c"
    "lct_entries t' = lct_entries t" "lct_size t' = lct_size t"
    using rehash_to_capacity_ok[OF _ assms(3,4)] assms(1) by (metis lct_inv_def)
  have inv: "lct_inv hash_fn key_equal t'" using t' assms(1) by (simp add: lct_inv_def)
  then show ?thesis using t' lct_Find_eqI[OF inv assms(1,2)] by auto
qed

end
