(* ===== verification/Linear_Join_Map.thy ===== *)
theory Linear_Join_Map
  imports Linear_Probing Join_Contract
begin

text \<open>
  \<^verbatim>\<open>LinearChainedHashJoinMap\<close> of \<^verbatim>\<open>src/cc/algo/src/algo/algo_join_hash_map.cc\<close>: linear probing for the
  keys, and for each key a chain of values threaded through \<^verbatim>\<open>value_next_\<close>.  A slot holds the key and
  \<^verbatim>\<open>value_head\<close>.  As in \<open>Linear_Hash_Table\<close>, the load factor is the function \<open>ljm_limit\<close>; here it
  matters, because a table that is never rehashed in time makes \<^verbatim>\<open>Insert\<close> throw.  Results are
  \<^const>\<open>None\<close> for undefined behaviour and \<open>Inl\<close> for a thrown exception.
\<close>

section \<open>State and operations\<close>

datatype ljm_error = HashTableIsFull

record ('k, 'v) linear_join_map =
  ljm_capacity :: nat
  ljm_limit :: "nat \<Rightarrow> nat"
  ljm_size :: nat
  ljm_slots :: "('k \<times> nat) slot list"
  ljm_values :: "'v list"
  ljm_value_next :: "nat list"

definition LinearChainedHashJoinMap :: "nat \<Rightarrow> (nat \<Rightarrow> nat) \<Rightarrow> ('k, 'v) linear_join_map" where
  "LinearChainedHashJoinMap initial_capacity limit =
     (let capacity = initial_capacity_of initial_capacity in
      \<lparr>ljm_capacity = capacity, ljm_limit = limit, ljm_size = 0, ljm_slots = replicate capacity EMPTY,
       ljm_values = [], ljm_value_next = []\<rparr>)"

definition ljm_hash_to_slot :: "('k, 'v) linear_join_map \<Rightarrow> u64 \<Rightarrow> nat" where
  "ljm_hash_to_slot t hash = mask_bucket (ljm_capacity t) hash"

definition ljm_should_rehash :: "('k, 'v) linear_join_map \<Rightarrow> bool" where
  "ljm_should_rehash t \<longleftrightarrow> ljm_size t \<ge> ljm_limit t (ljm_capacity t)"

text \<open>The probe loop of \<^verbatim>\<open>rehash\<close>: the first empty slot, if any.\<close>

primrec probe_empty :: "nat \<Rightarrow> 'e slot list \<Rightarrow> nat \<Rightarrow> nat \<Rightarrow> nat option option" where
  "probe_empty capacity slots 0 index = Some None"
| "probe_empty capacity slots (Suc left) index = do {
     s \<leftarrow> vec_at slots index;
     if s = EMPTY then Some (Some index)
     else probe_empty capacity slots left (next_index capacity index)}"

definition ljm_rehash :: "('k \<Rightarrow> u64) \<Rightarrow> ('k, 'v) linear_join_map \<Rightarrow> ('k, 'v) linear_join_map option" where
  "ljm_rehash hash_fn t =
     (let new_capacity = (ljm_capacity t * 2) mod 2 ^ 64;
          t = t\<lparr>ljm_capacity := new_capacity\<rparr>
      in do {
        new_slots \<leftarrow> for_each (\<lambda>s new_slots. case s of
             OCCUPIED (key, value_head) \<Rightarrow> do {
               free \<leftarrow> probe_empty new_capacity new_slots new_capacity (ljm_hash_to_slot t (hash_fn key));
               case free of
                 Some i \<Rightarrow> vec_set new_slots i (OCCUPIED (key, value_head))
               | None \<Rightarrow> Some new_slots}
           | _ \<Rightarrow> Some new_slots) (ljm_slots t) (replicate new_capacity EMPTY);
        Some (t\<lparr>ljm_slots := new_slots\<rparr>)})"

text \<open>The probe loop of \<^verbatim>\<open>find_or_insert_slot\<close>: the slot, and whether the key has to be stored there.\<close>

primrec slot_probe ::
  "('k \<Rightarrow> 'k \<Rightarrow> bool) \<Rightarrow> nat \<Rightarrow> ('k \<times> nat) slot list \<Rightarrow> 'k \<Rightarrow> nat \<Rightarrow> nat \<Rightarrow> nat \<Rightarrow> (ljm_error + nat \<times> bool) option" where
  "slot_probe key_equal capacity slots key 0 index first_tombstone = Some (Inl HashTableIsFull)"
| "slot_probe key_equal capacity slots key (Suc left) index first_tombstone = do {
     s \<leftarrow> vec_at slots index;
     case s of
       EMPTY \<Rightarrow> Some (Inr (if first_tombstone \<noteq> INVALID_INDEX then first_tombstone else index, True))
     | OCCUPIED (k, _) \<Rightarrow>
         (if key_equal k key then Some (Inr (index, False))
          else slot_probe key_equal capacity slots key left (next_index capacity index) first_tombstone)
     | TOMBSTONE \<Rightarrow>
         slot_probe key_equal capacity slots key left (next_index capacity index)
           (if first_tombstone = INVALID_INDEX then index else first_tombstone)}"

definition find_or_insert_slot ::
  "('k \<Rightarrow> 'k \<Rightarrow> bool) \<Rightarrow> ('k, 'v) linear_join_map \<Rightarrow> 'k \<Rightarrow> nat \<Rightarrow> (ljm_error + ('k, 'v) linear_join_map \<times> nat) option" where
  "find_or_insert_slot key_equal t key start_index = do {
     r \<leftarrow> slot_probe key_equal (ljm_capacity t) (ljm_slots t) key (ljm_capacity t) start_index INVALID_INDEX;
     case r of
       Inl e \<Rightarrow> Some (Inl e)
     | Inr (index, False) \<Rightarrow> Some (Inr (t, index))
     | Inr (index, True) \<Rightarrow> do {
         slots \<leftarrow> vec_set (ljm_slots t) index (OCCUPIED (key, INVALID_INDEX));
         Some (Inr (t\<lparr>ljm_slots := slots, ljm_size := ljm_size t + 1\<rparr>, index))}}"

definition ljm_Insert ::
  "('k \<Rightarrow> u64) \<Rightarrow> ('k \<Rightarrow> 'k \<Rightarrow> bool) \<Rightarrow> ('k, 'v) linear_join_map \<Rightarrow> 'k \<Rightarrow> 'v \<Rightarrow>
   (ljm_error + ('k, 'v) linear_join_map \<times> nat) option" where
  "ljm_Insert hash_fn key_equal t key value = do {
     t \<leftarrow> (if ljm_should_rehash t then ljm_rehash hash_fn t else Some t);
     r \<leftarrow> find_or_insert_slot key_equal t key (ljm_hash_to_slot t (hash_fn key));
     case r of
       Inl e \<Rightarrow> Some (Inl e)
     | Inr (t, slot_index) \<Rightarrow> do {
         s \<leftarrow> vec_at (ljm_slots t) slot_index;
         case s of
           OCCUPIED (k, value_head) \<Rightarrow>
             (let value_index = length (ljm_values t) in
              Some (Inr (t\<lparr>ljm_values := ljm_values t @ [value], ljm_value_next := ljm_value_next t @ [value_head],
                           ljm_slots := (ljm_slots t)[slot_index := OCCUPIED (k, value_index)]\<rparr>, slot_index)))
         | _ \<Rightarrow> None}}"

definition ljm_FindSlot ::
  "('k \<Rightarrow> u64) \<Rightarrow> ('k \<Rightarrow> 'k \<Rightarrow> bool) \<Rightarrow> ('k, 'v) linear_join_map \<Rightarrow> 'k \<Rightarrow> nat option" where
  "ljm_FindSlot hash_fn key_equal t key =
     probe_find INVALID_INDEX (ljm_capacity t) (ljm_slots t) (\<lambda>(k, _). key_equal k key) (ljm_capacity t)
       (ljm_hash_to_slot t (hash_fn key))"

definition slot_head :: "('k, 'v) linear_join_map \<Rightarrow> nat \<Rightarrow> nat option" where
  "slot_head t i = do { s \<leftarrow> vec_at (ljm_slots t) i; case s of OCCUPIED (_, h) \<Rightarrow> Some h | _ \<Rightarrow> Some INVALID_INDEX }"

text \<open>The value iterator: \<^verbatim>\<open>GetValueIterator\<close>, \<^verbatim>\<open>HasNext\<close> and \<^verbatim>\<open>Next\<close>.\<close>

record ljm_iterator = current_value_index :: nat

definition ljm_GetValueIterator ::
  "('k \<Rightarrow> u64) \<Rightarrow> ('k \<Rightarrow> 'k \<Rightarrow> bool) \<Rightarrow> ('k, 'v) linear_join_map \<Rightarrow> 'k \<Rightarrow> ljm_iterator option" where
  "ljm_GetValueIterator hash_fn key_equal t key = do {
     slot_index \<leftarrow> ljm_FindSlot hash_fn key_equal t key;
     i \<leftarrow> (if slot_index \<noteq> INVALID_INDEX \<and> slot_index < ljm_capacity t then slot_head t slot_index else Some INVALID_INDEX);
     Some \<lparr>current_value_index = i\<rparr>}"

definition ljm_HasNext :: "ljm_iterator \<Rightarrow> bool" where
  "ljm_HasNext it \<longleftrightarrow> current_value_index it \<noteq> INVALID_INDEX"

definition ljm_Next :: "('k, 'v) linear_join_map \<Rightarrow> ljm_iterator \<Rightarrow> ('v \<times> ljm_iterator) option" where
  "ljm_Next t it = do {
     v \<leftarrow> vec_at (ljm_values t) (current_value_index it);
     i \<leftarrow> vec_at (ljm_value_next t) (current_value_index it);
     Some (v, \<lparr>current_value_index = i\<rparr>)}"

partial_function (option) value_walk ::
  "('k, 'v) linear_join_map \<Rightarrow> nat \<Rightarrow> 'v list \<Rightarrow> 'v list option" where
  "value_walk t value_index result =
     (if value_index = INVALID_INDEX then Some result
      else do {
        v \<leftarrow> vec_at (ljm_values t) value_index;
        i \<leftarrow> vec_at (ljm_value_next t) value_index;
        value_walk t i (result @ [v])})"

definition ljm_GetAllValues ::
  "('k \<Rightarrow> u64) \<Rightarrow> ('k \<Rightarrow> 'k \<Rightarrow> bool) \<Rightarrow> ('k, 'v) linear_join_map \<Rightarrow> 'k \<Rightarrow> 'v list option" where
  "ljm_GetAllValues hash_fn key_equal t key = do {
     slot_index \<leftarrow> ljm_FindSlot hash_fn key_equal t key;
     if slot_index \<noteq> INVALID_INDEX then do {
       i \<leftarrow> slot_head t slot_index;
       value_walk t i []}
     else Some []}"

definition ljm_GetFirstValue ::
  "('k \<Rightarrow> u64) \<Rightarrow> ('k \<Rightarrow> 'k \<Rightarrow> bool) \<Rightarrow> ('k, 'v) linear_join_map \<Rightarrow> 'k \<Rightarrow> 'v option option" where
  "ljm_GetFirstValue hash_fn key_equal t key = do {
     slot_index \<leftarrow> ljm_FindSlot hash_fn key_equal t key;
     if slot_index \<noteq> INVALID_INDEX then do {
       h \<leftarrow> slot_head t slot_index;
       if h \<noteq> INVALID_INDEX then do { v \<leftarrow> vec_at (ljm_values t) h; Some (Some v) } else Some None}
     else Some None}"

definition ljm_Contains :: "('k \<Rightarrow> u64) \<Rightarrow> ('k \<Rightarrow> 'k \<Rightarrow> bool) \<Rightarrow> ('k, 'v) linear_join_map \<Rightarrow> 'k \<Rightarrow> bool option" where
  "ljm_Contains hash_fn key_equal t key = do {
     slot_index \<leftarrow> ljm_FindSlot hash_fn key_equal t key;
     Some (slot_index \<noteq> INVALID_INDEX)}"

definition ljm_Clear :: "('k, 'v) linear_join_map \<Rightarrow> ('k, 'v) linear_join_map" where
  "ljm_Clear t = t\<lparr>ljm_slots := map (\<lambda>_. EMPTY) (ljm_slots t), ljm_values := [], ljm_value_next := [], ljm_size := 0\<rparr>"

record ljm_statistics =
  ls_num_slots :: nat
  ls_num_keys :: nat
  ls_num_values :: nat
  ls_max_probe_length :: nat
  ls_avg_probe_length :: nat
  ls_max_value_chain_length :: nat
  ls_empty_slots :: nat

definition ljm_GetStatistics :: "('k \<Rightarrow> u64) \<Rightarrow> ('k, 'v) linear_join_map \<Rightarrow> ljm_statistics option" where
  "ljm_GetStatistics hash_fn t = do {
     (empty, occupied, total_probe, max_probe, max_chain) \<leftarrow>
       for_each (\<lambda>i (empty, occupied, total_probe, max_probe, max_chain). do {
           s \<leftarrow> vec_at (ljm_slots t) i;
           case s of
             EMPTY \<Rightarrow> Some (empty + 1, occupied, total_probe, max_probe, max_chain)
           | OCCUPIED (key, value_head) \<Rightarrow>
               (let expected_slot = ljm_hash_to_slot t (hash_fn key);
                    probe_length = (if i \<ge> expected_slot then i - expected_slot else ljm_capacity t - expected_slot + i)
                in do {
                  len \<leftarrow> chain_length (ljm_value_next t) value_head 0;
                  Some (empty, occupied + 1, total_probe + probe_length, max max_probe probe_length, max max_chain len)})
           | TOMBSTONE \<Rightarrow> Some (empty, occupied, total_probe, max_probe, max_chain)})
         [0..<ljm_capacity t] (0, 0, 0, 0, 0);
     Some \<lparr>ls_num_slots = ljm_capacity t, ls_num_keys = ljm_size t, ls_num_values = length (ljm_values t),
           ls_max_probe_length = max_probe, ls_avg_probe_length = (if occupied > 0 then total_probe div occupied else 0),
           ls_max_value_chain_length = max_chain, ls_empty_slots = empty\<rparr>}"

section \<open>Invariant\<close>

definition ljm_home :: "('k \<Rightarrow> u64) \<Rightarrow> nat \<Rightarrow> 'k \<times> nat \<Rightarrow> nat" where
  "ljm_home hash_fn c e = mask_bucket c (hash_fn (fst e))"

definition slots_ok :: "('k \<Rightarrow> u64) \<Rightarrow> nat \<Rightarrow> ('k \<times> nat) slot list \<Rightarrow> bool" where
  "slots_ok hash_fn c slots \<longleftrightarrow> table_size c \<and> length slots = c \<and> TOMBSTONE \<notin> set slots \<and>
     probe_ok (ljm_home hash_fn c) slots"

definition ljm_unique :: "('k \<Rightarrow> 'k \<Rightarrow> bool) \<Rightarrow> ('k \<times> nat) multiset \<Rightarrow> bool" where
  "ljm_unique key_equal M \<longleftrightarrow> (\<forall>a b. {#a, b#} \<subseteq># M \<longrightarrow> \<not> key_equal (fst a) (fst b))"

text \<open>The value chains of the rows \<open>es\<close>: every head is the newest row of its key, every link the row of
  the same key before it, and every row has a slot.\<close>

definition values_ok ::
  "('k \<Rightarrow> 'k \<Rightarrow> bool) \<Rightarrow> ('k \<times> nat) multiset \<Rightarrow> nat list \<Rightarrow> ('k \<times> 'v) list \<Rightarrow> bool" where
  "values_ok key_equal M links es \<longleftrightarrow>
     length es \<le> 2 ^ 62 \<and> length links = length es \<and>
     (\<forall>e\<in>#M. snd e = last_sat (\<lambda>i. key_equal (fst (es ! i)) (fst e)) (length es)) \<and>
     (\<forall>i < length es. links ! i = last_sat (\<lambda>j. key_equal (fst (es ! j)) (fst (es ! i))) i) \<and>
     (\<forall>i < length es. \<exists>e\<in>#M. key_equal (fst (es ! i)) (fst e))"

definition ljm_rel ::
  "('k \<Rightarrow> u64) \<Rightarrow> ('k \<Rightarrow> 'k \<Rightarrow> bool) \<Rightarrow> ('k, 'v) linear_join_map \<Rightarrow> ('k \<times> 'v) list \<Rightarrow> bool" where
  "ljm_rel hash_fn key_equal t es \<longleftrightarrow>
     slots_ok hash_fn (ljm_capacity t) (ljm_slots t) \<and> ljm_size t = size (contents (ljm_slots t)) \<and>
     ljm_size t \<le> length es \<and> ljm_unique key_equal (contents (ljm_slots t)) \<and> ljm_values t = map snd es \<and>
     values_ok key_equal (contents (ljm_slots t)) (ljm_value_next t) es"

lemma probe_empty_free:
  assumes "TOMBSTONE \<notin> set slots" "pow2 c" "length slots = c"
  shows "index < c \<Longrightarrow> probe_empty c slots left index =
    map_option (\<lambda>i. if i = c then None else Some i) (probe_free c slots left index c)"
proof (induction left arbitrary: index)
  case (Suc left)
  have nx: "next_index c index < c" by (rule next_index_less[OF assms(2)])
  have "slots ! index \<noteq> TOMBSTONE" using Suc.prems assms(1,3) by (metis nth_mem)
  then show ?case using Suc nx assms(3) by (cases "slots ! index") auto
qed simp

lemma slot_probe_find_free:
  assumes "TOMBSTONE \<notin> set slots" "pow2 c" "length slots = c"
  shows "index < c \<Longrightarrow> slot_probe key_equal c slots key left index INVALID_INDEX =
    (do { f \<leftarrow> probe_find c c slots (\<lambda>(k, _). key_equal k key) left index;
          if f \<noteq> c then Some (Inr (f, False))
          else do { p \<leftarrow> probe_free c slots left index c;
                    Some (if p = c then Inl HashTableIsFull else Inr (p, True)) } })"
proof (induction left arbitrary: index)
  case (Suc left)
  have nx: "next_index c index < c" by (rule next_index_less[OF assms(2)])
  have "slots ! index \<noteq> TOMBSTONE" using Suc.prems assms(1,3) by (metis nth_mem)
  then show ?case using Suc nx assms(3) by (cases "slots ! index") (auto cong: if_cong)
qed simp

lemma slots_ok_free:
  assumes ok: "slots_ok hash_fn c slots"
  obtains (free) i where "probe_free c slots c (mask_bucket c (hash_fn key)) c = Some i" "i < c" "slots ! i = EMPTY"
      "\<And>h. slots_ok hash_fn c (slots[i := OCCUPIED (key, h)])"
      "\<And>h. contents (slots[i := OCCUPIED (key, h)]) = add_mset (key, h) (contents slots)"
  | (full) "probe_free c slots c (mask_bucket c (hash_fn key)) c = Some c" "size (contents slots) = c"
proof -
  have s: "pow2 (length slots)" "mask_bucket c (hash_fn key) < length slots" "length slots = c"
    using ok mask_bucket_less table_size_pow2 by (auto simp: slots_ok_def)
  show ?thesis
  proof (cases rule: probe_free_start[OF s(1,2)])
    case (1 i)
    have e: "slots ! i = EMPTY" using 1(2,3) ok by (auto simp: slots_ok_def dest: nth_mem)
    have "slots_ok hash_fn c (slots[i := OCCUPIED (key, h)])" for h
      using ok 1 s(3) unfolding slots_ok_def
      by (auto simp: ljm_home_def intro!: probe_ok_update dest!: set_update_subset_insert[THEN subsetD])
    then show ?thesis using free 1 e s(3) contents_put[OF 1(2,3)] by simp
  next
    case 2
    then show ?thesis using full s(3) by simp
  qed
qed

lemma ljm_rehash_loop:
  "slots_ok hash_fn c ns \<Longrightarrow> size (contents ns) + size (contents ss) \<le> c \<Longrightarrow>
   \<exists>ns'. for_each (\<lambda>s new_slots. case s of
             OCCUPIED (key, value_head) \<Rightarrow> do {
               free \<leftarrow> probe_empty c new_slots c (mask_bucket c (hash_fn key));
               case free of
                 Some i \<Rightarrow> vec_set new_slots i (OCCUPIED (key, value_head))
               | None \<Rightarrow> Some new_slots}
           | _ \<Rightarrow> Some new_slots) ss ns = Some ns' \<and> slots_ok hash_fn c ns' \<and> contents ns' = contents ns + contents ss"
proof (induction ss arbitrary: ns)
  case (Cons s ss)
  show ?case
  proof (cases s)
    case (OCCUPIED e)
    obtain k h where e: "e = (k, h)" by fastforce
    have p: "pow2 c" "length ns = c" "TOMBSTONE \<notin> set ns" using Cons.prems(1) table_size_pow2 by (auto simp: slots_ok_def)
    have room: "size (contents ns) < c" using Cons.prems(2) OCCUPIED by (simp add: contents_def)
    from slots_ok_free[OF Cons.prems(1), of k] room obtain i where
      i: "probe_free c ns c (mask_bucket c (hash_fn k)) c = Some i" "i < c"
        "slots_ok hash_fn c (ns[i := OCCUPIED (k, h)])"
        "contents (ns[i := OCCUPIED (k, h)]) = add_mset (k, h) (contents ns)" by (metis less_irrefl)
    have "probe_empty c ns c (mask_bucket c (hash_fn k)) = Some (Some i)"
      using probe_empty_free[OF p(3,1,2) mask_bucket_less[OF p(1)]] i(1,2) by simp
    moreover have "size (contents (ns[i := OCCUPIED (k, h)])) + size (contents ss) \<le> c"
      using i(4) Cons.prems(2) OCCUPIED by (simp add: contents_def)
    ultimately show ?thesis using Cons.IH[OF i(3)] OCCUPIED e i p(2) by (auto simp: contents_def)
  qed (use Cons in \<open>simp_all add: contents_def\<close>)
qed (simp add: contents_def)

lemma ljm_rehash_ok:
  assumes "ljm_rel hash_fn key_equal t es" "ljm_capacity t < 2 ^ 62"
  obtains t' where "ljm_rehash hash_fn t = Some t'" "ljm_rel hash_fn key_equal t' es"
    "ljm_capacity t' = 2 * ljm_capacity t" "ljm_limit t' = ljm_limit t"
    "ljm_size t' = ljm_size t" "contents (ljm_slots t') = contents (ljm_slots t)"
proof -
  let ?c = "2 * ljm_capacity t"
  have c: "table_size ?c" "(ljm_capacity t * 2) mod 2 ^ 64 = ?c"
    using table_size_double[of "ljm_capacity t"] assms by (simp_all add: ljm_rel_def slots_ok_def)
  have "slots_ok hash_fn ?c (replicate ?c EMPTY)" using c(1) by (simp add: slots_ok_def probe_ok_empty)
  moreover have "size (contents (ljm_slots t)) \<le> ljm_capacity t"
    using size_contents_le[of "ljm_slots t"] assms(1) by (simp add: ljm_rel_def slots_ok_def)
  moreover have slot: "ljm_hash_to_slot (t\<lparr>ljm_capacity := ?c\<rparr>) h = mask_bucket ?c h" for h
    by (simp add: ljm_hash_to_slot_def)
  ultimately obtain ns where "slots_ok hash_fn ?c ns" "contents ns = contents (ljm_slots t)"
      "ljm_rehash hash_fn t = Some (t\<lparr>ljm_capacity := ?c, ljm_slots := ns\<rparr>)"
    using ljm_rehash_loop[of hash_fn ?c "replicate ?c EMPTY" "ljm_slots t"]
    unfolding ljm_rehash_def c(2) Let_def slot by auto
  then show ?thesis using that[of "t\<lparr>ljm_capacity := ?c, ljm_slots := ns\<rparr>"] assms(1) by (simp add: ljm_rel_def)
qed

section \<open>Lookup\<close>

lemma ljm_FindSlot_cases:
  assumes rel: "ljm_rel hash_fn key_equal t es" and ok: "keys_ok hash_fn key_equal"
  obtains (found) i k h where "ljm_FindSlot hash_fn key_equal t key = Some i" "i < ljm_capacity t" "i \<noteq> INVALID_INDEX"
      "ljm_slots t ! i = OCCUPIED (k, h)" "key_equal k key"
      "probe_find (ljm_capacity t) (ljm_capacity t) (ljm_slots t) (\<lambda>(k, _). key_equal k key) (ljm_capacity t)
         (ljm_hash_to_slot t (hash_fn key)) = Some i"
  | (none) "ljm_FindSlot hash_fn key_equal t key = Some INVALID_INDEX"
      "\<And>e. e \<in># contents (ljm_slots t) \<Longrightarrow> \<not> key_equal (fst e) key"
      "probe_find (ljm_capacity t) (ljm_capacity t) (ljm_slots t) (\<lambda>(k, _). key_equal k key) (ljm_capacity t)
         (ljm_hash_to_slot t (hash_fn key)) = Some (ljm_capacity t)"
proof -
  let ?ss = "ljm_slots t" and ?test = "\<lambda>(k, _). key_equal k key" and ?s = "ljm_hash_to_slot t (hash_fn key)"
  have sl: "table_size (ljm_capacity t)" "length ?ss = ljm_capacity t" "probe_ok (ljm_home hash_fn (ljm_capacity t)) ?ss"
    using rel by (simp_all add: ljm_rel_def slots_ok_def)
  have p: "pow2 (length ?ss)" "?s < length ?ss"
    using sl mask_bucket_less[OF table_size_pow2[OF sl(1)]] table_size_pow2 by (simp_all add: ljm_hash_to_slot_def)
  have home: "ljm_home hash_fn (ljm_capacity t) e = ?s" if "?test e" for e
    using that keys_ok_D(4)[OF ok] by (cases e) (auto simp: ljm_home_def ljm_hash_to_slot_def)
  have slot: "ljm_FindSlot hash_fn key_equal t key =
      map_option (\<lambda>i. if i = length ?ss then INVALID_INDEX else i) (probe_find (length ?ss) (length ?ss) ?ss ?test (length ?ss) ?s)"
    using probe_find_sentinel[OF p(1) refl p(2), of INVALID_INDEX ?test "length ?ss"] sl(2) by (simp add: ljm_FindSlot_def)
  show ?thesis
  proof (cases rule: probe_lookup[OF p sl(3), where nf = "length ?ss" and test = ?test])
    case (1 e)
    then show ?case using home by blast
  next
    case (2 i e)
    have "i \<noteq> INVALID_INDEX" using 2(2) sl(2) table_size_le[OF sl(1)] by (simp add: INVALID_INDEX_def)
    then show ?thesis using found[of i] 2 slot sl(2) by (cases e) simp
  next
    case 3
    then show ?thesis using none slot sl(2) by (fastforce simp: case_prod_unfold)
  qed
qed

lemma value_walk_eq:
  assumes vals: "values_ok key_equal M (ljm_value_next t) es" "ljm_values t = map snd es" and ok: "keys_ok hash_fn key_equal"
  shows "n \<le> length es \<Longrightarrow> value_walk t (last_sat (\<lambda>i. key_equal (fst (es ! i)) key) n) acc =
    Some (acc @ map (\<lambda>i. snd (es ! i)) (rev (filter (\<lambda>i. key_equal (fst (es ! i)) key) [0..<n])))"
proof (induction n arbitrary: acc rule: less_induct)
  case (less n)
  let ?Q = "\<lambda>i. key_equal (fst (es ! i)) key"
  show ?case
  proof (cases rule: last_sat_cases[of ?Q n])
    case 1
    then show ?thesis by (simp add: value_walk.simps filter_empty_conv)
  next
    case (2 j)
    have j: "j < length es" "j \<noteq> INVALID_INDEX" using 2(2) less.prems vals(1) by (auto simp: values_ok_def INVALID_INDEX_def)
    have "(\<lambda>i. key_equal (fst (es ! i)) (fst (es ! j))) = ?Q"
      using keys_ok_D(2,3)[OF ok] 2(3) by (intro ext) blast
    then have "vec_at (ljm_value_next t) j = Some (last_sat ?Q j)" using vals(1) j by (auto simp: values_ok_def)
    then show ?thesis
      using 2(1,2) j vals(2) less.IH[of j "acc @ [snd (es ! j)]"] less.prems filter_upt_split[of j n ?Q] 2(3,4)
      by (subst value_walk.simps) simp
  qed
qed

lemma map_snd_filter_index:
  "map (\<lambda>i. snd (es ! i)) (filter (\<lambda>i. key_equal (fst (es ! i)) key) [0..<length es]) =
     map snd (filter (\<lambda>e. key_equal (fst e) key) es)"
proof -
  have "filter (\<lambda>e. key_equal (fst e) key) es = filter (\<lambda>e. key_equal (fst e) key) (map ((!) es) [0..<length es])"
    by (simp add: map_nth)
  then show ?thesis by (simp add: filter_map o_def)
qed

lemma ljm_GetAllValues_eq:
  assumes rel: "ljm_rel hash_fn key_equal t es" and ok: "keys_ok hash_fn key_equal"
  shows "ljm_GetAllValues hash_fn key_equal t key = Some (rev (map snd (filter (\<lambda>e. key_equal (fst e) key) es)))"
proof -
  have vals: "values_ok key_equal (contents (ljm_slots t)) (ljm_value_next t) es" "ljm_values t = map snd es"
    and len: "length (ljm_slots t) = ljm_capacity t"
    using rel by (simp_all add: ljm_rel_def slots_ok_def)
  show ?thesis
  proof (cases rule: ljm_FindSlot_cases[OF rel ok, of key])
    case (1 i k h)
    have Q: "(\<lambda>i. key_equal (fst (es ! i)) k) = (\<lambda>i. key_equal (fst (es ! i)) key)"
      using keys_ok_D(2,3)[OF ok] 1(5) by (intro ext) blast
    have "(k, h) \<in># contents (ljm_slots t)" using 1(2,4) len by (auto simp: contents_mem)
    then have "h = last_sat (\<lambda>i. key_equal (fst (es ! i)) key) (length es)"
      using vals(1) Q by (force simp: values_ok_def)
    then show ?thesis
      using 1 len value_walk_eq[OF vals ok order_refl, of key "[]"] map_snd_filter_index[of es key_equal key]
      by (simp add: ljm_GetAllValues_def slot_head_def flip: rev_map)
  next
    case 2
    have "filter (\<lambda>e. key_equal (fst e) key) es = []"
    proof (rule ccontr)
      assume "filter (\<lambda>e. key_equal (fst e) key) es \<noteq> []"
      then obtain i where i: "i < length es" "key_equal (fst (es ! i)) key"
        by (auto simp: filter_empty_conv in_set_conv_nth)
      then obtain e where "e \<in># contents (ljm_slots t)" "key_equal (fst (es ! i)) (fst e)"
        using vals(1) by (auto simp: values_ok_def)
      then show False using 2(2) i(2) keys_ok_D(2,3)[OF ok] by blast
    qed
    then show ?thesis using 2(1) by (simp add: ljm_GetAllValues_def)
  qed
qed

section \<open>Insertion\<close>

lemma values_ok_insert:
  assumes len: "length es < 2 ^ 62" "length links = length es"
    and heads: "\<And>e. e \<in># rest \<Longrightarrow> snd e = last_sat (\<lambda>i. key_equal (fst (es ! i)) (fst e)) (length es) \<and>
                   \<not> key_equal key (fst e)"
    and links: "\<And>i. i < length es \<Longrightarrow> links ! i = last_sat (\<lambda>j. key_equal (fst (es ! j)) (fst (es ! i))) i"
    and cover: "\<And>i. i < length es \<Longrightarrow> key_equal (fst (es ! i)) k0 \<or> (\<exists>e\<in>#rest. key_equal (fst (es ! i)) (fst e))"
    and k0: "key_equal key k0" and h0: "h0 = last_sat (\<lambda>i. key_equal (fst (es ! i)) key) (length es)"
  shows "values_ok key_equal (add_mset (k0, length es) rest) (links @ [h0]) (es @ [(key, v)])"
proof -
  let ?n = "length es" and ?es = "es @ [(key, v)]"
  have old: "last_sat (\<lambda>j. key_equal (fst (?es ! j)) k) i = last_sat (\<lambda>j. key_equal (fst (es ! j)) k) i" if "i \<le> ?n" for i k
    using that by (intro last_sat_cong) (simp add: nth_append)
  have "snd e = last_sat (\<lambda>i. key_equal (fst (?es ! i)) (fst e)) (Suc ?n)" if "e \<in># add_mset (k0, ?n) rest" for e
  proof (cases "e \<in># rest")
    case True
    then show ?thesis using heads[OF True] old by simp
  next
    case False
    then have "e = (k0, ?n)" using that by simp
    then show ?thesis using k0 by simp
  qed
  moreover have "(links @ [h0]) ! i = last_sat (\<lambda>j. key_equal (fst (?es ! j)) (fst (?es ! i))) i" if "i < Suc ?n" for i
    using that old links h0 len(2) by (cases "i = ?n") (auto simp: nth_append)
  moreover have "\<exists>e\<in>#add_mset (k0, ?n) rest. key_equal (fst (?es ! i)) (fst e)" if "i < Suc ?n" for i
    using that cover k0 by (cases "i = ?n") (auto simp: nth_append)
  ultimately show ?thesis using len by (simp add: values_ok_def)
qed

lemma find_or_insert_slot_cases:
  assumes rel: "ljm_rel hash_fn key_equal t es" and ok: "keys_ok hash_fn key_equal"
  obtains (found) i k h where
      "find_or_insert_slot key_equal t key (ljm_hash_to_slot t (hash_fn key)) = Some (Inr (t, i))"
      "i < ljm_capacity t" "ljm_slots t ! i = OCCUPIED (k, h)" "key_equal k key"
  | (new) i where
      "find_or_insert_slot key_equal t key (ljm_hash_to_slot t (hash_fn key)) =
         Some (Inr (t\<lparr>ljm_slots := (ljm_slots t)[i := OCCUPIED (key, INVALID_INDEX)], ljm_size := ljm_size t + 1\<rparr>, i))"
      "i < ljm_capacity t" "slots_ok hash_fn (ljm_capacity t) ((ljm_slots t)[i := OCCUPIED (key, INVALID_INDEX)])"
      "contents ((ljm_slots t)[i := OCCUPIED (key, INVALID_INDEX)]) = add_mset (key, INVALID_INDEX) (contents (ljm_slots t))"
      "\<And>e. e \<in># contents (ljm_slots t) \<Longrightarrow> \<not> key_equal (fst e) key"
  | (full) "find_or_insert_slot key_equal t key (ljm_hash_to_slot t (hash_fn key)) = Some (Inl HashTableIsFull)"
      "ljm_size t = ljm_capacity t" "\<And>e. e \<in># contents (ljm_slots t) \<Longrightarrow> \<not> key_equal (fst e) key"
proof -
  let ?c = "ljm_capacity t"
  have so: "slots_ok hash_fn ?c (ljm_slots t)" and len: "length (ljm_slots t) = ?c"
    and size: "ljm_size t = size (contents (ljm_slots t))"
    using rel by (simp_all add: ljm_rel_def slots_ok_def)
  have p: "pow2 ?c" "TOMBSTONE \<notin> set (ljm_slots t)" using so table_size_pow2 by (auto simp: slots_ok_def)
  have s: "ljm_hash_to_slot t (hash_fn key) < ?c" using mask_bucket_less[OF p(1)] by (simp add: ljm_hash_to_slot_def)
  note probe = slot_probe_find_free[OF p(2,1) len s, of key_equal key ?c]
  show ?thesis
  proof (cases rule: ljm_FindSlot_cases[OF rel ok, of key])
    case (1 i k h)
    then show ?thesis using found[of i] probe by (simp add: find_or_insert_slot_def)
  next
    case 2
    show ?thesis
    proof (cases rule: slots_ok_free[OF so, of key])
      case (1 i)
      then show ?thesis using new[of i] probe 2 len by (simp add: find_or_insert_slot_def ljm_hash_to_slot_def)
    next
      case f: 2
      then show ?thesis using full probe 2 size by (simp add: find_or_insert_slot_def ljm_hash_to_slot_def)
    qed
  qed
qed

lemma slots_ok_set_head:
  assumes "slots_ok hash_fn c slots" "i < c" "slots ! i = OCCUPIED (k, h)"
  shows "slots_ok hash_fn c (slots[i := OCCUPIED (k, h')])"
proof -
  have "reach slots (ljm_home hash_fn c (k, h')) i"
    using assms by (auto simp: slots_ok_def probe_ok_def ljm_home_def)
  then show ?thesis using assms unfolding slots_ok_def
    by (auto intro!: probe_ok_update dest!: set_update_subset_insert[THEN subsetD])
qed

lemma ljm_unique_add:
  "ljm_unique key_equal (add_mset e M) \<longleftrightarrow> ljm_unique key_equal M \<and>
     (\<forall>e'\<in>#M. \<not> key_equal (fst e) (fst e') \<and> \<not> key_equal (fst e') (fst e))"
  unfolding ljm_unique_def pair_subset_add_mset by blast

text \<open>The last part of \<^verbatim>\<open>Insert\<close>: the slot of the key is at \<open>i\<close> and its chain is extended.\<close>

lemma ljm_extend_chain:
  assumes so: "slots_ok hash_fn c slots" "i < c" "slots ! i = OCCUPIED (k, h)" and ok: "keys_ok hash_fn key_equal"
    and M: "contents slots = add_mset (k, h) rest" "ljm_unique key_equal (contents slots)" and k: "key_equal k key"
    and vals: "length es < 2 ^ 62" "length links = length es"
      "\<And>e. e \<in># contents slots \<Longrightarrow> snd e = last_sat (\<lambda>i. key_equal (fst (es ! i)) (fst e)) (length es)"
      "\<And>i. i < length es \<Longrightarrow> links ! i = last_sat (\<lambda>j. key_equal (fst (es ! j)) (fst (es ! i))) i"
      "\<And>i. i < length es \<Longrightarrow> \<exists>e\<in>#contents slots. key_equal (fst (es ! i)) (fst e)"
  defines "slots' \<equiv> slots[i := OCCUPIED (k, length es)]"
  shows "slots_ok hash_fn c slots'" "size (contents slots') = size (contents slots)"
    "ljm_unique key_equal (contents slots')" "values_ok key_equal (contents slots') (links @ [h]) (es @ [(key, v)])"
proof -
  have "length slots = c" using so(1) by (simp add: slots_ok_def)
  then have M': "contents slots' = add_mset (k, length es) rest"
    using contents_update[of i slots "OCCUPIED (k, length es)"] so(2,3) M(1) by (simp add: slots'_def)
  show "slots_ok hash_fn c slots'" unfolding slots'_def by (rule slots_ok_set_head[OF so])
  show "size (contents slots') = size (contents slots)" using M M' by simp
  show "ljm_unique key_equal (contents slots')" using M M' by (simp add: ljm_unique_add)
  have Q: "(\<lambda>i. key_equal (fst (es ! i)) k) = (\<lambda>i. key_equal (fst (es ! i)) key)"
    using keys_ok_D(2,3)[OF ok] k by (intro ext) blast
  have "\<not> key_equal k (fst e)" if "e \<in># rest" for e
    using M that by (simp add: ljm_unique_add)
  then have "\<not> key_equal key (fst e)" if "e \<in># rest" for e
    using that keys_ok_D(3)[OF ok k] by blast
  moreover have "h = last_sat (\<lambda>i. key_equal (fst (es ! i)) key) (length es)"
    using vals(3)[of "(k, h)"] M(1) Q by simp
  ultimately show "values_ok key_equal (contents slots') (links @ [h]) (es @ [(key, v)])"
    unfolding M' using vals M(1) keys_ok_D(2)[OF ok k]
    by (intro values_ok_insert) auto
qed

lemma ljm_insert_room:
  assumes rel: "ljm_rel hash_fn key_equal t es" and ok: "keys_ok hash_fn key_equal"
    and len: "length es < 2 ^ 62" and room: "ljm_size t < ljm_capacity t"
  obtains t1 i k h where
    "find_or_insert_slot key_equal t key (ljm_hash_to_slot t (hash_fn key)) = Some (Inr (t1, i))"
    "i < length (ljm_slots t1)" "ljm_slots t1 ! i = OCCUPIED (k, h)" "length (ljm_values t1) = length es"
    "ljm_rel hash_fn key_equal (t1\<lparr>ljm_values := ljm_values t1 @ [v], ljm_value_next := ljm_value_next t1 @ [h],
       ljm_slots := (ljm_slots t1)[i := OCCUPIED (k, length es)]\<rparr>) (es @ [(key, v)])"
    "ljm_limit t1 = ljm_limit t"
proof -
  have R: "slots_ok hash_fn (ljm_capacity t) (ljm_slots t)" "ljm_size t = size (contents (ljm_slots t))"
    "ljm_unique key_equal (contents (ljm_slots t))" "ljm_values t = map snd es" "ljm_size t \<le> length es"
    and V: "values_ok key_equal (contents (ljm_slots t)) (ljm_value_next t) es"
    using rel by (simp_all add: ljm_rel_def)
  have lenS: "length (ljm_slots t) = ljm_capacity t" using R(1) by (simp add: slots_ok_def)
  have lenV: "length (ljm_value_next t) = length es"
    and links: "\<And>i. i < length es \<Longrightarrow> ljm_value_next t ! i = last_sat (\<lambda>j. key_equal (fst (es ! j)) (fst (es ! i))) i"
    and heads: "\<And>e. e \<in># contents (ljm_slots t) \<Longrightarrow> snd e = last_sat (\<lambda>i. key_equal (fst (es ! i)) (fst e)) (length es)"
    and cover: "\<And>i. i < length es \<Longrightarrow> \<exists>e\<in>#contents (ljm_slots t). key_equal (fst (es ! i)) (fst e)"
    using V by (simp_all add: values_ok_def)
  show ?thesis
  proof (cases rule: find_or_insert_slot_cases[OF rel ok, of key])
    case (1 i k h)
    obtain rest where rest: "contents (ljm_slots t) = add_mset (k, h) rest"
      using contents_replace[of i "ljm_slots t" "(k, h)" TOMBSTONE] 1(2,3) lenS by auto
    note ext = ljm_extend_chain[OF R(1) 1(2,3) ok rest R(3) 1(4) len lenV heads links cover]
    have "ljm_rel hash_fn key_equal (t\<lparr>ljm_values := ljm_values t @ [v], ljm_value_next := ljm_value_next t @ [h],
       ljm_slots := (ljm_slots t)[i := OCCUPIED (k, length es)]\<rparr>) (es @ [(key, v)])"
      using R ext by (simp add: ljm_rel_def)
    then show ?thesis using that[of t i k h] 1 R(4) lenS by simp
  next
    case (2 i)
    let ?s = "(ljm_slots t)[i := OCCUPIED (key, INVALID_INDEX)]"
    have nokey: "\<not> key_equal (fst (es ! j)) key" if j: "j < length es" for j
    proof
      assume "key_equal (fst (es ! j)) key"
      moreover obtain e where "e \<in># contents (ljm_slots t)" "key_equal (fst (es ! j)) (fst e)" using cover[OF j] by blast
      ultimately show False using 2(5) keys_ok_D(2,3)[OF ok] by blast
    qed
    have u: "ljm_unique key_equal (contents ?s)"
      using R(3) 2(4,5) keys_ok_D(2)[OF ok] by (auto simp: ljm_unique_add)
    have hd: "snd e = last_sat (\<lambda>i. key_equal (fst (es ! i)) (fst e)) (length es)" if "e \<in># contents ?s" for e
    proof (cases "e \<in># contents (ljm_slots t)")
      case False
      then show ?thesis using that 2(4) nokey last_sat_none[of "length es" "\<lambda>i. key_equal (fst (es ! i)) key"] by simp
    qed (rule heads)
    have cv: "\<exists>e\<in>#contents ?s. key_equal (fst (es ! i)) (fst e)" if "i < length es" for i
      using cover[OF that] 2(4) by auto
    have at: "?s ! i = OCCUPIED (key, INVALID_INDEX)" using 2(2) lenS by simp
    note ext = ljm_extend_chain[OF 2(3,2) at ok 2(4) u keys_ok_D(1)[OF ok] len lenV hd links cv]
    have "ljm_rel hash_fn key_equal (t\<lparr>ljm_size := ljm_size t + 1, ljm_values := ljm_values t @ [v],
       ljm_value_next := ljm_value_next t @ [INVALID_INDEX], ljm_slots := ?s[i := OCCUPIED (key, length es)]\<rparr>)
       (es @ [(key, v)])"
      using R(2,4,5) ext 2(4) by (simp add: ljm_rel_def)
    then show ?thesis
      using that[of "t\<lparr>ljm_slots := ?s, ljm_size := ljm_size t + 1\<rparr>" i key INVALID_INDEX] 2 R(4) lenS at
      by simp
  next
    case 3
    then show ?thesis using room by simp
  qed
qed

text \<open>The load factor must lie between one half and one.\<close>

definition load_ok :: "(nat \<Rightarrow> nat) \<Rightarrow> bool" where
  "load_ok limit \<longleftrightarrow> (\<forall>c. c div 2 \<le> limit c \<and> limit c \<le> c)"

lemma ljm_Insert_ok:
  assumes rel: "ljm_rel hash_fn key_equal t es" and ok: "keys_ok hash_fn key_equal"
    and load: "load_ok (ljm_limit t)" and len: "length es < 2 ^ 60"
  obtains t' i where "ljm_Insert hash_fn key_equal t key v = Some (Inr (t', i))"
    "ljm_rel hash_fn key_equal t' (es @ [(key, v)])" "ljm_limit t' = ljm_limit t"
proof -
  let ?c = "ljm_capacity t"
  have c: "table_size ?c" "ljm_size t \<le> ?c" "0 < ?c"
    using rel size_contents_le[of "ljm_slots t"] table_size_pos by (auto simp: ljm_rel_def slots_ok_def)
  obtain g where g: "(if ljm_should_rehash t then ljm_rehash hash_fn t else Some t) = Some g"
    "ljm_rel hash_fn key_equal g es" "ljm_limit g = ljm_limit t" "ljm_size g < ljm_capacity g"
  proof (cases "ljm_should_rehash t")
    case True
    have "ljm_size t \<le> length es" using rel by (simp add: ljm_rel_def)
    then have "?c div 2 < 2 ^ 60"
      using True load len unfolding ljm_should_rehash_def load_ok_def by (meson le_less_trans le_trans)
    then have "?c < 2 ^ 62" by simp
    from ljm_rehash_ok[OF rel this] show ?thesis using that True c(2,3) by (metis le_less_trans less_add_same_cancel1 mult_2)
  next
    case False
    then have "ljm_size t < ljm_limit t ?c" by (simp add: ljm_should_rehash_def)
    then have "ljm_size t < ?c" using load unfolding load_ok_def by (meson less_le_trans)
    then show ?thesis using that rel False by simp
  qed
  have len62: "length es < 2 ^ 62" using len by simp
  obtain t1 i k h where t1:
    "find_or_insert_slot key_equal g key (ljm_hash_to_slot g (hash_fn key)) = Some (Inr (t1, i))"
    "i < length (ljm_slots t1)" "ljm_slots t1 ! i = OCCUPIED (k, h)" "length (ljm_values t1) = length es"
    "ljm_rel hash_fn key_equal (t1\<lparr>ljm_values := ljm_values t1 @ [v], ljm_value_next := ljm_value_next t1 @ [h],
       ljm_slots := (ljm_slots t1)[i := OCCUPIED (k, length es)]\<rparr>) (es @ [(key, v)])"
    "ljm_limit t1 = ljm_limit g"
    by (rule ljm_insert_room[OF g(2) ok len62 g(4), of key v])
  have "ljm_Insert hash_fn key_equal t key v = Some (Inr (t1\<lparr>ljm_values := ljm_values t1 @ [v],
       ljm_value_next := ljm_value_next t1 @ [h], ljm_slots := (ljm_slots t1)[i := OCCUPIED (k, length es)]\<rparr>, i))"
    unfolding ljm_Insert_def g(1) using t1 by (simp add: Let_def)
  then show ?thesis using that t1(5,6) g(3) by simp
qed

section \<open>The map as a join table\<close>

text \<open>The default load factor: \<^verbatim>\<open>capacity * 0.75f\<close> is exact for a power of two and is then truncated.\<close>

definition default_limit :: "nat \<Rightarrow> nat" where
  "default_limit c = c * 3 div 4"

lemma load_ok_default: "load_ok default_limit"
  by (auto simp: load_ok_def default_limit_def)

definition ljm_put ::
  "('k \<Rightarrow> u64) \<Rightarrow> ('k \<Rightarrow> 'k \<Rightarrow> bool) \<Rightarrow> ('k, 'v) linear_join_map \<Rightarrow> 'k \<Rightarrow> 'v \<Rightarrow> ('k, 'v) linear_join_map option" where
  "ljm_put hash_fn key_equal t k v =
     do { r \<leftarrow> ljm_Insert hash_fn key_equal t k v; case r of Inl _ \<Rightarrow> None | Inr (t, _) \<Rightarrow> Some t }"

definition ljm_loaded ::
  "('k \<Rightarrow> u64) \<Rightarrow> ('k \<Rightarrow> 'k \<Rightarrow> bool) \<Rightarrow> ('k, 'v) linear_join_map \<Rightarrow> ('k \<times> 'v) list \<Rightarrow> bool" where
  "ljm_loaded hash_fn key_equal t es \<longleftrightarrow> ljm_rel hash_fn key_equal t es \<and> load_ok (ljm_limit t)"

lemma ljm_join_table:
  assumes ok: "keys_ok hash_fn key_equal"
  shows "join_table (ljm_loaded hash_fn key_equal) (ljm_put hash_fn key_equal) (ljm_GetAllValues hash_fn key_equal)
    key_equal (2 ^ 60)"
proof
  fix t :: "('a, 'b) linear_join_map" and es k v
  assume rel: "ljm_loaded hash_fn key_equal t es" and len: "length es < 2 ^ 60"
  then obtain t' i where "ljm_Insert hash_fn key_equal t k v = Some (Inr (t', i))"
    "ljm_rel hash_fn key_equal t' (es @ [(k, v)])" "ljm_limit t' = ljm_limit t"
    using ljm_Insert_ok[OF _ ok _ len, of t k v] unfolding ljm_loaded_def by blast
  then show "\<exists>t'. ljm_put hash_fn key_equal t k v = Some t' \<and> ljm_loaded hash_fn key_equal t' (es @ [(k, v)])"
    using rel by (simp add: ljm_put_def ljm_loaded_def)
next
  fix t :: "('a, 'b) linear_join_map" and es k
  assume "ljm_loaded hash_fn key_equal t es"
  then show "\<exists>vs. ljm_GetAllValues hash_fn key_equal t k = Some vs \<and>
      mset vs = mset (map snd (filter (\<lambda>e. key_equal (fst e) k) es))"
    using ljm_GetAllValues_eq[OF _ ok, of t es k] by (simp add: ljm_loaded_def)
qed

interpretation ljm_eq: join_table "ljm_loaded hash_fn (=)" "ljm_put hash_fn (=)" "ljm_GetAllValues hash_fn (=)" "(=)"
    "2 ^ 60" for hash_fn
  by (rule ljm_join_table[OF keys_ok_eq])

lemma ljm_rel_new: "n \<le> 2 ^ 62 \<Longrightarrow> ljm_rel hash_fn key_equal (LinearChainedHashJoinMap n limit) []"
  using initial_capacity_of_spec(1)[of n]
  by (simp add: ljm_rel_def LinearChainedHashJoinMap_def Let_def slots_ok_def probe_ok_empty ljm_unique_def values_ok_def)

section \<open>Properties\<close>

text \<open>C18: the hash join on \<^verbatim>\<open>LinearChainedHashJoinMap\<close> with a load factor between one half and one never throws
  and returns the rows of the nested-loop join, for every hash function and initial capacity.\<close>

theorem ljm_hash_join_correct:
  assumes "length rows \<le> 2 ^ 60" "n \<le> 2 ^ 62" "load_ok limit"
  shows "\<exists>out. hash_join (ljm_put hash_fn (=)) (ljm_GetAllValues hash_fn (=)) (LinearChainedHashJoinMap n limit) rows
      probe_keys = Some out \<and> mset out = mset (nested_loop_join (=) rows probe_keys)"
proof (rule ljm_eq.hash_join_nested_loop)
  show "ljm_loaded hash_fn (=) (LinearChainedHashJoinMap n limit) []"
    using ljm_rel_new[OF assms(2)] assms(3) by (simp add: ljm_loaded_def LinearChainedHashJoinMap_def Let_def)
qed (rule assms(1))

theorem ljm_hash_join_correct_witness:
  "\<exists>out. hash_join (ljm_put of_nat (=)) (ljm_GetAllValues of_nat (=)) (LinearChainedHashJoinMap 1 default_limit)
      [(1::nat, ''a''), (2, ''b''), (1, ''c'')] [1, 3] = Some out \<and> mset out = {#(1, ''a''), (1, ''c'')#}"
  using ljm_hash_join_correct[of "[(1::nat, ''a''), (2, ''b''), (1, ''c'')]" 1 default_limit of_nat "[1, 3]"] load_ok_default
  by (simp add: nested_loop_join_def)

text \<open>\<^verbatim>\<open>Insert\<close> adds exactly one row, and afterwards \<^verbatim>\<open>GetAllValues\<close> of any key returns the values
  inserted under equal keys, newest first.\<close>

theorem ljm_Insert_correct:
  assumes "ljm_rel hash_fn key_equal t es" "keys_ok hash_fn key_equal" "load_ok (ljm_limit t)" "length es < 2 ^ 60"
  shows "\<exists>t' i. ljm_Insert hash_fn key_equal t key v = Some (Inr (t', i)) \<and>
    ljm_rel hash_fn key_equal t' (es @ [(key, v)]) \<and>
    (\<forall>k. ljm_GetAllValues hash_fn key_equal t' k =
       Some ((if key_equal key k then [v] else []) @ rev (map snd (filter (\<lambda>e. key_equal (fst e) k) es))))"
proof -
  obtain t' i where t': "ljm_Insert hash_fn key_equal t key v = Some (Inr (t', i))"
    "ljm_rel hash_fn key_equal t' (es @ [(key, v)])" by (rule ljm_Insert_ok[OF assms])
  then show ?thesis using ljm_GetAllValues_eq[OF t'(2) assms(2)] by simp
qed

text \<open>A table that is full before its load limit asks for a rehash (a load factor above one) makes \<^verbatim>\<open>Insert\<close> of a
  new key throw, while a key it already holds is still accepted.\<close>

lemma ljm_Insert_full:
  assumes "ljm_rel hash_fn key_equal t es" "keys_ok hash_fn key_equal"
    and "ljm_size t = ljm_capacity t" "ljm_capacity t < ljm_limit t (ljm_capacity t)"
  shows "if ljm_Contains hash_fn key_equal t key = Some True
    then \<exists>t' i. ljm_Insert hash_fn key_equal t key v = Some (Inr (t', i)) \<and> ljm_size t' = ljm_size t
    else ljm_Insert hash_fn key_equal t key v = Some (Inl HashTableIsFull)"
proof -
  have rh: "\<not> ljm_should_rehash t" using assms(3,4) by (simp add: ljm_should_rehash_def)
  have len: "length (ljm_slots t) = ljm_capacity t" using assms(1) by (simp add: ljm_rel_def slots_ok_def)
  have contains: "ljm_Contains hash_fn key_equal t key = Some (\<exists>e\<in>#contents (ljm_slots t). key_equal (fst e) key)"
  proof (cases rule: ljm_FindSlot_cases[OF assms(1,2), of key])
    case (1 i k h)
    then have "(k, h) \<in># contents (ljm_slots t)" using len by (auto simp: contents_mem)
    then show ?thesis using 1 by (force simp: ljm_Contains_def)
  qed (auto simp: ljm_Contains_def)
  show ?thesis
  proof (cases rule: find_or_insert_slot_cases[OF assms(1,2), of key])
    case (1 i k h)
    then have "(k, h) \<in># contents (ljm_slots t)" using len by (auto simp: contents_mem)
    then have "ljm_Contains hash_fn key_equal t key = Some True" using 1(4) contains by force
    then show ?thesis using 1 rh len by (simp add: ljm_Insert_def Let_def)
  next
    case (2 i)
    have "size (contents ((ljm_slots t)[i := OCCUPIED (key, INVALID_INDEX)])) \<le> ljm_capacity t"
      using size_contents_le len by (metis length_list_update)
    then show ?thesis using 2(4) assms(1,3) by (simp add: ljm_rel_def)
  next
    case 3
    then have "ljm_Contains hash_fn key_equal t key = Some False" using contains by auto
    then show ?thesis using rh 3 by (simp add: ljm_Insert_def)
  qed
qed

definition crowded :: "(nat, bool) linear_join_map" where
  "crowded = \<lparr>ljm_capacity = 1, ljm_limit = (\<lambda>c. c * 2), ljm_size = 1, ljm_slots = [OCCUPIED (5, 0)],
     ljm_values = [True], ljm_value_next = [INVALID_INDEX]\<rparr>"

end
