(* ===== verification/Radix_Join_Map.thy ===== *)
theory Radix_Join_Map
  imports Bucket_Chains
begin

text \<open>
  \<^verbatim>\<open>RadixSortedHashJoinMap\<close> of \<^verbatim>\<open>src/cc/algo/src/algo/algo_join_hash_map.cc\<close>: the build side is collected,
  sorted by hash with counting passes over the bytes of the hash, and looked up by bucket and
  binary search.  The theory shows that one pass is the stable sort by one byte, that the binary
  searches find the first and last match of a range sorted by hash, when a lookup is right, and
  concrete inputs on which the composition loses or adds rows.
\<close>

section \<open>State and operations\<close>

record ('k, 'v) radix_map =
  rjm_capacity :: nat
  rjm_size :: nat
  rjm_keys :: "'k list"
  rjm_values :: "'v list"
  rjm_hashes :: "u64 list"
  rjm_buckets :: "(nat \<times> nat) list"

definition RadixSortedHashJoinMap :: "nat \<Rightarrow> ('k, 'v) radix_map" where
  "RadixSortedHashJoinMap initial_capacity =
     (let capacity = initial_capacity_of initial_capacity in
      \<lparr>rjm_capacity = capacity, rjm_size = 0, rjm_keys = [], rjm_values = [], rjm_hashes = [],
       rjm_buckets = replicate capacity (INVALID_INDEX, 0)\<rparr>)"

definition rjm_Insert :: "('k \<Rightarrow> u64) \<Rightarrow> ('k, 'v) radix_map \<Rightarrow> 'k \<Rightarrow> 'v \<Rightarrow> ('k, 'v) radix_map" where
  "rjm_Insert hash_fn m key value =
     m\<lparr>rjm_keys := rjm_keys m @ [key], rjm_values := rjm_values m @ [value],
       rjm_hashes := rjm_hashes m @ [hash_fn key], rjm_size := rjm_size m + 1\<rparr>"

text \<open>\<^verbatim>\<open>BatchInsert\<close>: positions in the key range; the loop runs while \<^verbatim>\<open>key_it != key_begin\<close>.\<close>

partial_function (option) rjm_batch_loop ::
  "('k \<Rightarrow> u64) \<Rightarrow> 'k list \<Rightarrow> 'v list \<Rightarrow> nat \<Rightarrow> ('k, 'v) radix_map \<Rightarrow> ('k, 'v) radix_map option" where
  "rjm_batch_loop hash_fn ks vs i m =
     (if i \<noteq> 0 then do {
        k \<leftarrow> vec_at ks i;
        v \<leftarrow> vec_at vs i;
        rjm_batch_loop hash_fn ks vs (i + 1) (rjm_Insert hash_fn m k v)}
      else Some m)"

definition rjm_BatchInsert ::
  "('k \<Rightarrow> u64) \<Rightarrow> ('k, 'v) radix_map \<Rightarrow> 'k list \<Rightarrow> 'v list \<Rightarrow> ('k, 'v) radix_map option" where
  "rjm_BatchInsert hash_fn m ks vs = rjm_batch_loop hash_fn ks vs 0 m"

definition radix_digit :: "nat \<Rightarrow> u64 \<Rightarrow> nat" where
  "radix_digit pass hash = unat (drop_bit (pass * 8) hash AND 255)"

definition radix_count :: "u64 list \<Rightarrow> nat \<Rightarrow> nat list \<Rightarrow> nat list option" where
  "radix_count hashes pass indices =
     for_each (\<lambda>idx counts. do {
         hash \<leftarrow> vec_at hashes idx;
         let radix = radix_digit pass hash;
         c \<leftarrow> vec_at counts radix;
         vec_set counts radix (c + 1)}) indices (replicate 256 0)"

definition radix_starts :: "nat list \<Rightarrow> nat list option" where
  "radix_starts counts = do {
     (counts, total) \<leftarrow> for_each (\<lambda>i (counts, total). do {
         count \<leftarrow> vec_at counts i;
         counts \<leftarrow> vec_set counts i total;
         Some (counts, total + count)}) [0..<256] (counts, 0);
     Some counts}"

definition radix_distribute :: "u64 list \<Rightarrow> nat \<Rightarrow> nat list \<Rightarrow> nat list \<Rightarrow> nat list \<Rightarrow> nat list option" where
  "radix_distribute hashes pass indices counts temp = do {
     (counts, temp) \<leftarrow> for_each (\<lambda>idx (counts, temp). do {
         hash \<leftarrow> vec_at hashes idx;
         let radix = radix_digit pass hash;
         c \<leftarrow> vec_at counts radix;
         temp \<leftarrow> vec_set temp c idx;
         counts \<leftarrow> vec_set counts radix (c + 1);
         Some (counts, temp)}) indices (counts, temp);
     Some temp}"

text \<open>The passes run from the most significant byte to the least significant one; each leaves the sorted
  indices in \<^verbatim>\<open>indices\<close> and the previous ones in \<^verbatim>\<open>temp\<close>.\<close>

definition radix_pass :: "u64 list \<Rightarrow> nat \<Rightarrow> nat list \<times> nat list \<Rightarrow> (nat list \<times> nat list) option" where
  "radix_pass hashes pass = (\<lambda>(indices, temp). do {
     counts \<leftarrow> radix_count hashes pass indices;
     starts \<leftarrow> radix_starts counts;
     temp \<leftarrow> radix_distribute hashes pass indices starts temp;
     Some (temp, indices)})"

definition radix_sort_indices :: "u64 list \<Rightarrow> nat list \<Rightarrow> nat list option" where
  "radix_sort_indices hashes indices =
     (if indices = [] then Some indices
      else do {
        (indices, temp) \<leftarrow> for_each (radix_pass hashes) (rev [0..<8]) (indices, replicate (length indices) 0);
        Some indices})"

definition rjm_hash_to_bucket :: "('k, 'v) radix_map \<Rightarrow> u64 \<Rightarrow> nat" where
  "rjm_hash_to_bucket m hash = mask_bucket (rjm_capacity m) hash"

definition build_bucket_index :: "('k, 'v) radix_map \<Rightarrow> ('k, 'v) radix_map option" where
  "build_bucket_index m =
     (let buckets = replicate (rjm_capacity m) (INVALID_INDEX, 0); hashes = rjm_hashes m in
      if hashes = [] then Some (m\<lparr>rjm_buckets := buckets\<rparr>)
      else do {
        (buckets, current, start) \<leftarrow>
          for_each (\<lambda>i (buckets, current, start).
              (let bucket = rjm_hash_to_bucket m (hashes ! i) in
               if bucket \<noteq> current then do {
                 buckets \<leftarrow> vec_set buckets current (start, i - start);
                 Some (buckets, bucket, i)}
               else Some (buckets, current, start)))
            [1..<length hashes] (buckets, rjm_hash_to_bucket m (hashes ! 0), 0);
        buckets \<leftarrow> vec_set buckets current (start, length hashes - start);
        Some (m\<lparr>rjm_buckets := buckets\<rparr>)})"

definition rjm_Build :: "('k, 'v) radix_map \<Rightarrow> ('k, 'v) radix_map option" where
  "rjm_Build m =
     (if rjm_keys m = [] then Some m
      else do {
        indices \<leftarrow> radix_sort_indices (rjm_hashes m) [0..<length (rjm_keys m)];
        new_keys \<leftarrow> map_opt (vec_at (rjm_keys m)) indices;
        new_values \<leftarrow> map_opt (vec_at (rjm_values m)) indices;
        new_hashes \<leftarrow> map_opt (vec_at (rjm_hashes m)) indices;
        build_bucket_index (m\<lparr>rjm_keys := new_keys, rjm_values := new_values, rjm_hashes := new_hashes\<rparr>)})"

text \<open>The binary searches, with the loop variables as arguments.\<close>

function binary_search_first ::
  "('k \<Rightarrow> 'k \<Rightarrow> bool) \<Rightarrow> ('k, 'v) radix_map \<Rightarrow> 'k \<Rightarrow> u64 \<Rightarrow> nat \<Rightarrow> nat \<Rightarrow> nat \<Rightarrow> nat option" where
  "binary_search_first key_equal m key hash left right result =
     (if left < right then
        (let mid = left + (right - left) div 2 in do {
           mid_hash \<leftarrow> vec_at (rjm_hashes m) mid;
           if mid_hash < hash then binary_search_first key_equal m key hash (mid + 1) right result
           else if mid_hash > hash then binary_search_first key_equal m key hash left mid result
           else do {
             k \<leftarrow> vec_at (rjm_keys m) mid;
             if key_equal k key then binary_search_first key_equal m key hash left mid mid
             else do {
               left_result \<leftarrow> binary_search_first key_equal m key hash left mid INVALID_INDEX;
               if left_result \<noteq> INVALID_INDEX then Some left_result
               else binary_search_first key_equal m key hash (mid + 1) right result}}})
      else Some result)"
  by pat_completeness auto
termination by (relation "measure (\<lambda>(_, _, _, _, left, right, _). right - left)") auto

function binary_search_last ::
  "('k \<Rightarrow> 'k \<Rightarrow> bool) \<Rightarrow> ('k, 'v) radix_map \<Rightarrow> 'k \<Rightarrow> u64 \<Rightarrow> nat \<Rightarrow> nat \<Rightarrow> nat \<Rightarrow> nat option" where
  "binary_search_last key_equal m key hash left right result =
     (if left < right then
        (let mid = left + (right - left) div 2 in do {
           mid_hash \<leftarrow> vec_at (rjm_hashes m) mid;
           if mid_hash < hash then binary_search_last key_equal m key hash (mid + 1) right result
           else if mid_hash > hash then binary_search_last key_equal m key hash left mid result
           else do {
             k \<leftarrow> vec_at (rjm_keys m) mid;
             if key_equal k key then binary_search_last key_equal m key hash (mid + 1) right mid
             else do {
               right_result \<leftarrow> binary_search_last key_equal m key hash (mid + 1) right INVALID_INDEX;
               if right_result \<noteq> INVALID_INDEX then Some right_result
               else binary_search_last key_equal m key hash left mid result}}})
      else Some result)"
  by pat_completeness auto
termination by (relation "measure (\<lambda>(_, _, _, _, left, right, _). right - left)") auto

declare binary_search_first.simps [simp del] binary_search_last.simps [simp del]

record value_range =
  vr_start :: nat
  vr_count :: nat
  vr_found :: bool

definition rjm_FindRange ::
  "('k \<Rightarrow> u64) \<Rightarrow> ('k \<Rightarrow> 'k \<Rightarrow> bool) \<Rightarrow> ('k, 'v) radix_map \<Rightarrow> 'k \<Rightarrow> value_range option" where
  "rjm_FindRange hash_fn key_equal m key = do {
     let hash = hash_fn key;
     (start, count) \<leftarrow> vec_at (rjm_buckets m) (rjm_hash_to_bucket m hash);
     if count = 0 then Some \<lparr>vr_start = INVALID_INDEX, vr_count = 0, vr_found = False\<rparr>
     else do {
       first \<leftarrow> binary_search_first key_equal m key hash start (start + count) INVALID_INDEX;
       if first = INVALID_INDEX then Some \<lparr>vr_start = INVALID_INDEX, vr_count = 0, vr_found = False\<rparr>
       else do {
         last \<leftarrow> binary_search_last key_equal m key hash start (start + count) INVALID_INDEX;
         Some \<lparr>vr_start = first, vr_count = last - first + 1, vr_found = True\<rparr>}}}"

definition rjm_GetAllValues ::
  "('k \<Rightarrow> u64) \<Rightarrow> ('k \<Rightarrow> 'k \<Rightarrow> bool) \<Rightarrow> ('k, 'v) radix_map \<Rightarrow> 'k \<Rightarrow> 'v list option" where
  "rjm_GetAllValues hash_fn key_equal m key = do {
     range \<leftarrow> rjm_FindRange hash_fn key_equal m key;
     if vr_found range then map_opt (\<lambda>i. vec_at (rjm_values m) (vr_start range + i)) [0..<vr_count range]
     else Some []}"

text \<open>The copied prefix of \<^verbatim>\<open>CopyValues\<close>.\<close>

definition rjm_CopyValues ::
  "('k \<Rightarrow> u64) \<Rightarrow> ('k \<Rightarrow> 'k \<Rightarrow> bool) \<Rightarrow> ('k, 'v) radix_map \<Rightarrow> 'k \<Rightarrow> nat \<Rightarrow> 'v list option" where
  "rjm_CopyValues hash_fn key_equal m key max_count = do {
     range \<leftarrow> rjm_FindRange hash_fn key_equal m key;
     if vr_found range \<and> vr_count range > 0
     then map_opt (\<lambda>i. vec_at (rjm_values m) (vr_start range + i)) [0..<min (vr_count range) max_count]
     else Some []}"

text \<open>\<^verbatim>\<open>ValueIterator\<close>: current position and end, without wrap-around for the empty range.\<close>

record radix_iterator =
  rit_current :: nat
  rit_end :: nat

definition rjm_GetValueIterator ::
  "('k \<Rightarrow> u64) \<Rightarrow> ('k \<Rightarrow> 'k \<Rightarrow> bool) \<Rightarrow> ('k, 'v) radix_map \<Rightarrow> 'k \<Rightarrow> radix_iterator option" where
  "rjm_GetValueIterator hash_fn key_equal m key = do {
     range \<leftarrow> rjm_FindRange hash_fn key_equal m key;
     if vr_found range then Some \<lparr>rit_current = vr_start range, rit_end = vr_start range + vr_count range\<rparr>
     else Some \<lparr>rit_current = INVALID_INDEX, rit_end = INVALID_INDEX\<rparr>}"

definition rit_HasNext :: "radix_iterator \<Rightarrow> bool" where
  "rit_HasNext it \<longleftrightarrow> rit_current it < rit_end it"

definition rit_Next :: "('k, 'v) radix_map \<Rightarrow> radix_iterator \<Rightarrow> ('v \<times> radix_iterator) option" where
  "rit_Next m it = do {
     v \<leftarrow> vec_at (rjm_values m) (rit_current it);
     Some (v, it\<lparr>rit_current := rit_current it + 1\<rparr>)}"

record rjm_statistics =
  rst_num_buckets :: nat
  rst_num_entries :: nat
  rst_max_bucket_size :: nat
  rst_avg_bucket_size :: nat
  rst_empty_buckets :: nat

definition rjm_GetStatistics :: "('k, 'v) radix_map \<Rightarrow> rjm_statistics option" where
  "rjm_GetStatistics m = do {
     (max_size, empty, total, non_empty) \<leftarrow>
       for_each (\<lambda>i (max_size, empty, total, non_empty). do {
           (_, count) \<leftarrow> vec_at (rjm_buckets m) i;
           if count = 0 then Some (max_size, empty + 1, total, non_empty)
           else Some (max max_size count, empty, total + count, non_empty + 1)})
         [0..<rjm_capacity m] (0, 0, 0, 0);
     Some \<lparr>rst_num_buckets = rjm_capacity m, rst_num_entries = rjm_size m, rst_max_bucket_size = max_size,
       rst_avg_bucket_size = (if non_empty > 0 then total div non_empty else 0), rst_empty_buckets = empty\<rparr>}"

definition rjm_move :: "('k, 'v) radix_map \<Rightarrow> ('k, 'v) radix_map \<times> ('k, 'v) radix_map" where
  "rjm_move other = (other, \<lparr>rjm_capacity = 0, rjm_size = 0, rjm_keys = [], rjm_values = [], rjm_hashes = [], rjm_buckets = []\<rparr>)"

section \<open>One pass is a stable sort\<close>

definition digit_of :: "u64 list \<Rightarrow> nat \<Rightarrow> nat \<Rightarrow> nat" where
  "digit_of hashes pass idx = radix_digit pass (hashes ! idx)"

lemma radix_digit_less [simp]: "radix_digit pass h < 256"
proof -
  have "unat (x AND (of_nat (2 ^ 8) - 1)) < 256" for x :: u64
    using word_index_pow2[of 8 x] by simp
  from this[of "drop_bit (pass * 8) h"] show ?thesis by (simp add: radix_digit_def)
qed

lemma digit_of_less [simp]: "digit_of hashes pass idx < 256"
  by (simp add: digit_of_def)

text \<open>Elements of \<open>xs\<close> by digit: the number below a digit, and the concatenation of the groups.\<close>

definition group_of :: "(nat \<Rightarrow> nat) \<Rightarrow> nat list \<Rightarrow> nat \<Rightarrow> nat list" where
  "group_of f xs d = filter (\<lambda>x. f x = d) xs"

definition group_start :: "(nat \<Rightarrow> nat) \<Rightarrow> nat list \<Rightarrow> nat \<Rightarrow> nat" where
  "group_start f xs d = (\<Sum>e<d. length (group_of f xs e))"

definition groups :: "(nat \<Rightarrow> nat) \<Rightarrow> nat list \<Rightarrow> nat \<Rightarrow> nat list" where
  "groups f xs n = concat (map (group_of f xs) [0..<n])"

lemma groups_simps [simp]: "groups f xs 0 = []" "groups f xs (Suc n) = groups f xs n @ group_of f xs n"
  by (simp_all add: groups_def)

lemma length_groups: "length (groups f xs n) = group_start f xs n"
  by (induction n) (simp_all add: group_start_def)

lemma groups_nth:
  assumes "i < length (group_of f xs d)"
  shows "d < n \<Longrightarrow> group_start f xs d + i < length (groups f xs n) \<and>
    groups f xs n ! (group_start f xs d + i) = group_of f xs d ! i"
proof (induction n)
  case (Suc n)
  then show ?case using assms by (cases "d = n") (auto simp: length_groups nth_append)
qed simp

lemma groups_cover:
  "p < length (groups f xs n) \<Longrightarrow> \<exists>d<n. \<exists>i<length (group_of f xs d). p = group_start f xs d + i"
proof (induction n)
  case (Suc n)
  show ?case
  proof (cases "p < length (groups f xs n)")
    case True
    then show ?thesis using Suc.IH less_SucI by blast
  next
    case False
    then have "p - group_start f xs n < length (group_of f xs n)" "p = group_start f xs n + (p - group_start f xs n)"
      using Suc.prems by (auto simp: length_groups)
    then show ?thesis by blast
  qed
qed simp

lemma groups_sort_key:
  assumes "\<And>x. f x < n"
  shows "groups f xs n = sort_key f xs"
proof (rule properties_for_sort_key[symmetric])
  show "mset (groups f xs n) = mset xs"
  proof -
    have "count (mset (groups f xs m)) x = (if f x < m then count (mset xs) x else 0)" for m x
      by (induction m) (auto simp: group_of_def less_Suc_eq)
    then show ?thesis using assms by (intro multiset_eqI) simp
  qed
  show "filter (\<lambda>x. f k = f x) (groups f xs n) = filter (\<lambda>x. f k = f x) xs" for k
  proof -
    have "filter (\<lambda>x. f k = f x) (groups f xs m) = (if f k < m then filter (\<lambda>x. f k = f x) xs else [])" for m
      by (induction m) (auto simp: group_of_def less_Suc_eq eq_commute[of "f k"] intro!: filter_cong)
    then show ?thesis using assms by simp
  qed
  have const: "sorted (map f (filter (\<lambda>x. f x = m) xs))" for m by (induction xs) auto
  have "sorted (map f (groups f xs m)) \<and> (\<forall>x\<in>set (groups f xs m). f x < m)" for m
    by (induction m) (auto simp: group_of_def sorted_append less_imp_le less_SucI const)
  then show "sorted (map f (groups f xs n))" by blast
qed

lemma radix_count_eq:
  assumes "\<And>x. x \<in> set xs \<Longrightarrow> x < length hashes"
  shows "radix_count hashes pass xs = Some (map (\<lambda>d. length (group_of (digit_of hashes pass) xs d)) [0..<256])"
proof -
  let ?f = "digit_of hashes pass"
  define body where "body = (\<lambda>idx (counts :: nat list). do {
         hash \<leftarrow> vec_at hashes idx;
         let radix = radix_digit pass hash;
         c \<leftarrow> vec_at counts radix;
         vec_set counts radix (c + 1)})"
  have "for_each body ys (replicate 256 0) = Some (map (\<lambda>d. length (group_of ?f ys d)) [0..<256])"
    if "set ys \<subseteq> set xs" for ys
    using that
  proof (induction ys rule: rev_induct)
    case Nil
    have "replicate 256 0 = map (\<lambda>d. length (group_of ?f [] d)) [0..<256]"
      by (rule nth_equalityI) (simp_all add: group_of_def)
    then show ?case by simp
  next
    case (snoc y ys)
    have "body y (map (\<lambda>d. length (group_of ?f ys d)) [0..<256]) =
        Some (map (\<lambda>d. length (group_of ?f (ys @ [y]) d)) [0..<256])"
      using snoc.prems assms
      by (auto simp: body_def Let_def group_of_def digit_of_def nth_list_update intro!: nth_equalityI)
    then show ?case using snoc by simp
  qed
  then show ?thesis unfolding radix_count_def body_def by blast
qed

lemma radix_starts_eq:
  "radix_starts (map (\<lambda>d. length (group_of f xs d)) [0..<256]) = Some (map (group_start f xs) [0..<256])"
proof -
  let ?c = "map (\<lambda>d. length (group_of f xs d)) [0..<256]"
  define body where "body = (\<lambda>i (counts :: nat list, total :: nat). do {
         count \<leftarrow> vec_at counts i;
         counts \<leftarrow> vec_set counts i total;
         Some (counts, total + count)})"
  have "for_each body [0..<n] (?c, 0) =
      Some (map (\<lambda>d. if d < n then group_start f xs d else length (group_of f xs d)) [0..<256], group_start f xs n)"
    if "n \<le> 256" for n
    using that
  proof (induction n)
    case 0
    then show ?case by (simp add: group_start_def)
  next
    case (Suc n)
    have "(map (\<lambda>d. if d < n then group_start f xs d else length (group_of f xs d)) [0..<256])[n := group_start f xs n] =
        map (\<lambda>d. if d < Suc n then group_start f xs d else length (group_of f xs d)) [0..<256]"
      by (rule nth_equalityI) (auto simp: nth_list_update less_Suc_eq)
    then show ?case using Suc by (simp add: body_def group_start_def)
  qed
  from this[of 256] have "for_each body [0..<256] (?c, 0) = Some (map (group_start f xs) [0..<256], group_start f xs 256)"
    by (simp cong: map_cong)
  then show ?thesis unfolding radix_starts_def body_def by simp
qed

lemma radix_distribute_eq:
  assumes xs: "\<And>x. x \<in> set xs \<Longrightarrow> x < length hashes" and len: "length temp = length xs"
    and f_def: "f = digit_of hashes pass"
  shows "radix_distribute hashes pass xs (map (group_start f xs) [0..<256]) temp = Some (groups f xs 256)"
proof -
  define body where "body = (\<lambda>idx (counts :: nat list, temp :: nat list). do {
         hash \<leftarrow> vec_at hashes idx;
         let radix = radix_digit pass hash;
         c \<leftarrow> vec_at counts radix;
         temp \<leftarrow> vec_set temp c idx;
         counts \<leftarrow> vec_set counts radix (c + 1);
         Some (counts, temp)})"
  let ?T = "groups f xs 256"
  have lenT: "length ?T = length xs"
    using arg_cong[OF groups_sort_key[of f 256 xs], of length] by (simp add: f_def)
  have loop: "ys @ zs = xs \<Longrightarrow> \<exists>temp'. for_each body ys (map (group_start f xs) [0..<256], temp) =
      Some (map (\<lambda>d. group_start f xs d + length (group_of f ys d)) [0..<256], temp') \<and> length temp' = length xs \<and>
      (\<forall>d<256. \<forall>i<length (group_of f ys d). temp' ! (group_start f xs d + i) = ?T ! (group_start f xs d + i))" for ys zs
  proof (induction ys arbitrary: zs rule: rev_induct)
    case Nil
    then show ?case by (simp add: group_of_def len)
  next
    case (snoc y ys)
    from snoc.IH[of "y # zs"] snoc.prems obtain temp' where
      t': "for_each body ys (map (group_start f xs) [0..<256], temp) =
        Some (map (\<lambda>d. group_start f xs d + length (group_of f ys d)) [0..<256], temp')" "length temp' = length xs"
      "\<And>d i. d < 256 \<Longrightarrow> i < length (group_of f ys d) \<Longrightarrow> temp' ! (group_start f xs d + i) = ?T ! (group_start f xs d + i)"
      by auto
    define d where "d = f y"
    define p where "p = group_start f xs d + length (group_of f ys d)"
    have d: "d < 256" by (simp add: d_def f_def)
    have grp: "group_of f xs d = group_of f ys d @ y # group_of f zs d"
      using snoc.prems by (auto simp: group_of_def d_def)
    then have i: "length (group_of f ys d) < length (group_of f xs d)" by simp
    have p: "p < length xs" "?T ! p = y"
      using groups_nth[OF i d] lenT grp by (simp_all add: p_def)
    have y: "y < length hashes" using xs snoc.prems by auto
    have counts: "(map (\<lambda>d. group_start f xs d + length (group_of f ys d)) [0..<256])[d := p + 1] =
        map (\<lambda>d. group_start f xs d + length (group_of f (ys @ [y]) d)) [0..<256]"
      by (rule nth_equalityI) (auto simp: nth_list_update p_def group_of_def d_def)
    have "body y (map (\<lambda>d. group_start f xs d + length (group_of f ys d)) [0..<256], temp') =
        Some (map (\<lambda>d. group_start f xs d + length (group_of f (ys @ [y]) d)) [0..<256], temp'[p := y])"
      using y d p t'(2) unfolding body_def counts[symmetric]
      by (simp add: Let_def d_def[symmetric, unfolded f_def digit_of_def] p_def)
    moreover have "temp'[p := y] ! (group_start f xs e + i) = ?T ! (group_start f xs e + i)"
      if "e < 256" "i < length (group_of f (ys @ [y]) e)" for e i
    proof (cases "group_start f xs e + i = p")
      case True
      then show ?thesis using p t'(2) by simp
    next
      case False
      then have "i < length (group_of f ys e)"
        using that(2) by (cases "e = d") (auto simp: group_of_def d_def p_def)
      then show ?thesis using t'(3)[OF that(1)] False by simp
    qed
    ultimately show ?case using t'(1,2) by simp
  qed
  from loop[of xs "[]"] obtain temp' where
    t': "for_each body xs (map (group_start f xs) [0..<256], temp) =
      Some (map (\<lambda>d. group_start f xs d + length (group_of f xs d)) [0..<256], temp')" "length temp' = length xs"
    "\<And>d i. d < 256 \<Longrightarrow> i < length (group_of f xs d) \<Longrightarrow> temp' ! (group_start f xs d + i) = ?T ! (group_start f xs d + i)"
    by auto
  have "temp' = ?T"
  proof (rule nth_equalityI)
    fix p assume "p < length temp'"
    then obtain d i where "d < 256" "i < length (group_of f xs d)" "p = group_start f xs d + i"
      using groups_cover[of p f xs 256] t'(2) lenT by auto
    then show "temp' ! p = ?T ! p" using t'(3) by simp
  qed (simp add: t'(2) lenT)
  then show ?thesis using t'(1) unfolding radix_distribute_def body_def by simp
qed

lemma radix_pass_eq:
  assumes "\<And>x. x \<in> set xs \<Longrightarrow> x < length hashes" "length temp = length xs"
  shows "radix_pass hashes pass (xs, temp) = Some (sort_key (digit_of hashes pass) xs, xs)"
  unfolding radix_pass_def
  by (simp add: radix_count_eq[OF assms(1)] radix_starts_eq radix_distribute_eq[OF assms refl] groups_sort_key)

section \<open>All passes: the stable sort by the byte-reversed hash\<close>

lemma sort_key_sort_key:
  fixes f g :: "'a \<Rightarrow> nat"
  assumes "\<And>x. g x < N"
  shows "sort_key f (sort_key g xs) = sort_key (\<lambda>x. f x * N + g x) xs"
proof -
  have less: "f a * N + g a \<le> f b * N + g b \<longleftrightarrow> f a < f b \<or> f a = f b \<and> g a \<le> g b" for a b
  proof -
    have "f a * N + g a < f b * N + g b" if "f a < f b" for a b
    proof -
      have "f a * N + g a < (f a + 1) * N" using assms[of a] by simp
      also have "\<dots> \<le> f b * N" using that by (intro mult_le_mono1) simp
      finally show ?thesis by simp
    qed
    from this[of a b] this[of b a] show ?thesis by (cases "f a" "f b" rule: linorder_cases) auto
  qed
  have eq: "f a * N + g a = f b * N + g b \<longleftrightarrow> f a = f b \<and> g a = g b" for a b
  proof
    assume e: "f a * N + g a = f b * N + g b"
    have dm: "(f x * N + g x) div N = f x" "(f x * N + g x) mod N = g x" for x using assms[of x] by simp_all
    have "f a = f b" using dm(1)[of a] dm(1)[of b] unfolding e by (rule trans[OF sym])
    moreover have "g a = g b" using dm(2)[of a] dm(2)[of b] unfolding e by (rule trans[OF sym])
    ultimately show "f a = f b \<and> g a = g b" ..
  qed simp
  let ?ys = "sort_key f (sort_key g xs)"
  show ?thesis
  proof (rule properties_for_sort_key[symmetric])
    show "mset ?ys = mset xs" by simp
    show "filter (\<lambda>x. f k * N + g k = f x * N + g x) ?ys = filter (\<lambda>x. f k * N + g k = f x * N + g x) xs" for k
    proof -
      have flt: "filter (\<lambda>x. f k * N + g k = f x * N + g x) zs = filter (\<lambda>x. f x = f k) (filter (\<lambda>x. g x = g k) zs)"
        "filter (\<lambda>x. f k * N + g k = f x * N + g x) zs = filter (\<lambda>x. g x = g k) (filter (\<lambda>x. f x = f k) zs)" for zs
        unfolding eq filter_filter by (rule filter_cong; force)+
      have "filter (\<lambda>x. f k * N + g k = f x * N + g x) ?ys =
          filter (\<lambda>x. g x = g k) (filter (\<lambda>x. f x = f k) (sort_key g xs))"
        unfolding flt(2) sort_key_stable ..
      also have "\<dots> = filter (\<lambda>x. f x = f k) (filter (\<lambda>x. g x = g k) (sort_key g xs))"
        by (metis flt)
      also have "\<dots> = filter (\<lambda>x. f k * N + g k = f x * N + g x) xs"
        unfolding flt(1) sort_key_stable ..
      finally show ?thesis .
    qed
    have "sorted (map (\<lambda>x. f x * N + g x) ys)" if "sorted (map f ys)" "\<And>k. sorted (map g (filter (\<lambda>x. f x = k) ys))" for ys
      using that
    proof (induction ys)
      case (Cons y ys)
      have "sorted (map g (filter (\<lambda>x. f x = k) ys))" for k
        using Cons.prems(2)[of k] by (cases "f y = k") auto
      moreover have "f y * N + g y \<le> f z * N + g z" if "z \<in> set ys" for z
      proof -
        have "f y \<le> f z" "f y = f z \<Longrightarrow> g y \<le> g z"
          using Cons.prems(1) Cons.prems(2)[of "f y"] that by auto
        then show ?thesis unfolding less by fastforce
      qed
      ultimately show ?case using Cons by auto
    qed simp
    moreover have "sorted (map g (filter (\<lambda>x. f x = k) ?ys))" for k
      unfolding sort_key_stable by (rule sorted_filter) simp
    ultimately show "sorted (map (\<lambda>x. f x * N + g x) ?ys)" by simp
  qed
qed

text \<open>The number whose most significant byte is byte 0 of the hash, of the passes done so far.\<close>

primrec byte_reverse :: "nat \<Rightarrow> u64 \<Rightarrow> nat" where
  "byte_reverse 0 h = 0"
| "byte_reverse (Suc n) h = radix_digit (7 - n) h * 256 ^ n + byte_reverse n h"

lemma byte_reverse_less: "byte_reverse n h < 256 ^ n"
proof (induction n)
  case (Suc n)
  have "byte_reverse (Suc n) h < (radix_digit (7 - n) h + 1) * 256 ^ n" using Suc by simp
  also have "\<dots> \<le> 256 * 256 ^ n" using Suc_leI[OF radix_digit_less[of "7 - n" h]] by (intro mult_le_mono1) simp
  finally show ?case by simp
qed simp

lemma radix_passes:
  assumes "\<And>x. x \<in> set xs \<Longrightarrow> x < length hashes"
  shows "n \<le> 8 \<Longrightarrow> \<exists>temp. for_each (radix_pass hashes) (rev [8 - n..<8]) (xs, replicate (length xs) 0) =
    Some (sort_key (\<lambda>i. byte_reverse n (hashes ! i)) xs, temp) \<and> length temp = length xs"
proof (induction n)
  case 0
  then show ?case by (simp add: sort_key_const)
next
  case (Suc n)
  then obtain temp where t: "for_each (radix_pass hashes) (rev [8 - n..<8]) (xs, replicate (length xs) 0) =
    Some (sort_key (\<lambda>i. byte_reverse n (hashes ! i)) xs, temp)" "length temp = length xs" by auto
  let ?ys = "sort_key (\<lambda>i. byte_reverse n (hashes ! i)) xs"
  have "[8 - Suc n..<8] = (7 - n) # [8 - n..<8]"
  proof -
    have "Suc (7 - n) = 8 - n" "8 - Suc n = 7 - n" using Suc.prems by auto
    moreover have "[7 - n..<8] = (7 - n) # [Suc (7 - n)..<8]" by (rule upt_conv_Cons) simp
    ultimately show ?thesis by simp
  qed
  moreover have "radix_pass hashes (7 - n) (?ys, temp) = Some (sort_key (digit_of hashes (7 - n)) ?ys, ?ys)"
    using assms t(2) by (intro radix_pass_eq) simp_all
  moreover have "sort_key (digit_of hashes (7 - n)) ?ys = sort_key (\<lambda>i. byte_reverse (Suc n) (hashes ! i)) xs"
    using sort_key_sort_key[of "\<lambda>i. byte_reverse n (hashes ! i)" "256 ^ n" "digit_of hashes (7 - n)" xs] byte_reverse_less
    by (simp add: digit_of_def)
  ultimately show ?case using t by simp
qed

lemma radix_sort_indices_eq:
  assumes "\<And>x. x \<in> set xs \<Longrightarrow> x < length hashes"
  shows "radix_sort_indices hashes xs = Some (sort_key (\<lambda>i. byte_reverse 8 (hashes ! i)) xs)"
  using radix_passes[of xs hashes 8] assms by (auto simp: radix_sort_indices_def)

section \<open>The binary searches\<close>

definition hit :: "('k \<Rightarrow> 'k \<Rightarrow> bool) \<Rightarrow> ('k, 'v) radix_map \<Rightarrow> 'k \<Rightarrow> u64 \<Rightarrow> nat \<Rightarrow> bool" where
  "hit key_equal m key hash i \<longleftrightarrow> rjm_hashes m ! i = hash \<and> key_equal (rjm_keys m ! i) key"

definition first_or :: "nat \<Rightarrow> nat list \<Rightarrow> nat" where
  "first_or r is = (case is of [] \<Rightarrow> r | i # _ \<Rightarrow> i)"

definition last_or :: "nat \<Rightarrow> nat list \<Rightarrow> nat" where
  "last_or r is = (if is = [] then r else last is)"

definition hash_sorted :: "u64 list \<Rightarrow> nat \<Rightarrow> nat \<Rightarrow> bool" where
  "hash_sorted hashes left right \<longleftrightarrow> right \<le> length hashes \<and> (\<forall>i j. left \<le> i \<longrightarrow> i \<le> j \<longrightarrow> j < right \<longrightarrow> hashes ! i \<le> hashes ! j)"

lemma first_or_append: "first_or r (xs @ ys) = (if xs = [] then first_or r ys else first_or r xs)"
  by (cases xs) (auto simp: first_or_def)

lemma first_or_result: "xs \<noteq> [] \<Longrightarrow> first_or r xs = first_or r' xs"
  by (cases xs) (auto simp: first_or_def)

lemma first_or_mem: "xs \<noteq> [] \<Longrightarrow> first_or r xs \<in> set xs"
  by (cases xs) (auto simp: first_or_def)

lemma filter_upt_mid:
  assumes "left < right" "mid = left + (right - left) div 2"
  shows "filter P [left..<right] = filter P [left..<mid] @ (if P mid then [mid] else []) @ filter P [mid + 1..<right]"
proof -
  have "mid < right" "left \<le> mid" using assms by auto
  then have "[left..<right] = [left..<mid] @ mid # [mid + 1..<right]"
    by (metis add.commute le_add_diff_inverse le_eq_less_or_eq plus_1_eq_Suc upt_add_eq_append upt_conv_Cons)
  then show ?thesis by simp
qed

lemma hash_sorted_sub: "hash_sorted hashes left right \<Longrightarrow> left \<le> a \<Longrightarrow> b \<le> right \<Longrightarrow> hash_sorted hashes a b"
  unfolding hash_sorted_def by auto

lemma hash_sorted_no_hit:
  assumes "hash_sorted (rjm_hashes m) left right" "left \<le> mid" "mid < right"
  shows "rjm_hashes m ! mid < hash \<Longrightarrow> filter (hit key_equal m key hash) [left..<mid] = []"
    "rjm_hashes m ! mid > hash \<Longrightarrow> filter (hit key_equal m key hash) [mid + 1..<right] = []"
proof -
  have ord: "i < mid \<Longrightarrow> left \<le> i \<Longrightarrow> rjm_hashes m ! i \<le> rjm_hashes m ! mid"
    "mid < i \<Longrightarrow> i < right \<Longrightarrow> rjm_hashes m ! mid \<le> rjm_hashes m ! i" for i
    using assms unfolding hash_sorted_def by auto
  show "filter (hit key_equal m key hash) [left..<mid] = []" if "rjm_hashes m ! mid < hash"
  proof -
    have "\<not> hit key_equal m key hash i" if "i \<in> set [left..<mid]" for i
      using ord(1)[of i] that \<open>rjm_hashes m ! mid < hash\<close> by (auto simp: hit_def)
    then show ?thesis by (simp add: filter_empty_conv)
  qed
  show "filter (hit key_equal m key hash) [mid + 1..<right] = []" if "rjm_hashes m ! mid > hash"
  proof -
    have "\<not> hit key_equal m key hash i" if "i \<in> set [mid + 1..<right]" for i
      using ord(2)[of i] that \<open>rjm_hashes m ! mid > hash\<close> by (auto simp: hit_def)
    then show ?thesis by (simp add: filter_empty_conv)
  qed
qed

lemma binary_search_first_eq:
  assumes "hash_sorted (rjm_hashes m) left right" "length (rjm_keys m) = length (rjm_hashes m)" "right \<le> INVALID_INDEX"
  shows "binary_search_first key_equal m key hash left right result =
    Some (first_or result (filter (hit key_equal m key hash) [left..<right]))"
  using assms
proof (induction key_equal m key hash left right result rule: binary_search_first.induct)
  case (1 key_equal m key hash left right result)
  show ?case
  proof (cases "left < right")
    case True
    define mid where "mid = left + (right - left) div 2"
    have mid: "left \<le> mid" "mid < right" using True unfolding mid_def by auto
    let ?P = "hit key_equal m key hash"
    have len: "mid < length (rjm_hashes m)" "mid < length (rjm_keys m)"
      using "1.prems" mid by (auto simp: hash_sorted_def)
    have sub: "hash_sorted (rjm_hashes m) left mid" "hash_sorted (rjm_hashes m) (mid + 1) right"
      using hash_sorted_sub[OF "1.prems"(1)] mid by simp_all
    note no = hash_sorted_no_hit[OF "1.prems"(1) mid]
    note split = filter_upt_mid[OF True mid_def, of ?P]
    have "right \<le> INVALID_INDEX" "mid \<le> INVALID_INDEX" using "1.prems"(3) mid by auto
    note ih = "1.IH"(1)[OF True mid_def vec_at_in[OF len(1)] _ sub(2) "1.prems"(2) this(1)]
      "1.IH"(2)[OF True mid_def vec_at_in[OF len(1)] _ _ sub(1) "1.prems"(2) this(2)]
      "1.IH"(3)[OF True mid_def vec_at_in[OF len(1)] _ _ vec_at_in[OF len(2)] _ sub(1) "1.prems"(2) this(2)]
      "1.IH"(4)[OF True mid_def vec_at_in[OF len(1)] _ _ vec_at_in[OF len(2)] _ sub(1) "1.prems"(2) this(2)]
      "1.IH"(5)[OF True mid_def vec_at_in[OF len(1)] _ _ vec_at_in[OF len(2)] _ _ _ sub(2) "1.prems"(2) this(1)]
    have unf: "binary_search_first key_equal m key hash left right result =
      (if rjm_hashes m ! mid < hash then binary_search_first key_equal m key hash (mid + 1) right result
       else if rjm_hashes m ! mid > hash then binary_search_first key_equal m key hash left mid result
       else if key_equal (rjm_keys m ! mid) key then binary_search_first key_equal m key hash left mid mid
       else do {
         left_result \<leftarrow> binary_search_first key_equal m key hash left mid INVALID_INDEX;
         if left_result \<noteq> INVALID_INDEX then Some left_result
         else binary_search_first key_equal m key hash (mid + 1) right result})"
      using True len by (subst binary_search_first.simps) (simp add: mid_def[symmetric])
    consider "rjm_hashes m ! mid < hash" | "rjm_hashes m ! mid > hash"
      | "rjm_hashes m ! mid = hash" "key_equal (rjm_keys m ! mid) key"
      | "rjm_hashes m ! mid = hash" "\<not> key_equal (rjm_keys m ! mid) key" by fastforce
    then show ?thesis
    proof cases
      case a: 1
      then have "\<not> ?P mid" by (auto simp: hit_def)
      then show ?thesis using ih(1) a no(1)[OF a] unfolding unf by (simp add: split)
    next
      case a: 2
      then have "\<not> ?P mid" by (auto simp: hit_def)
      then show ?thesis using ih(2) a no(2)[OF a] less_not_sym[OF a] unfolding unf split by simp
    next
      case a: 3
      then have "?P mid" by (simp add: hit_def)
      then show ?thesis using ih(3) a unfolding unf split
        by (cases "filter ?P [left..<mid]") (auto simp: first_or_def)
    next
      case a: 4
      then have p: "\<not> ?P mid" by (simp add: hit_def)
      let ?l = "filter ?P [left..<mid]"
      have l: "binary_search_first key_equal m key hash left mid INVALID_INDEX = Some (first_or INVALID_INDEX ?l)"
        using ih(4) a by simp
      show ?thesis
      proof (cases "?l = []")
        case e: True
        then have "binary_search_first key_equal m key hash (mid + 1) right result =
            Some (first_or result (filter ?P [mid + 1..<right]))"
          using ih(5)[of "first_or INVALID_INDEX ?l"] a l by (simp add: first_or_def)
        then show ?thesis using e a l p unfolding unf split by (simp add: first_or_def)
      next
        case ne: False
        then have "first_or INVALID_INDEX ?l < mid" using first_or_mem[OF ne, of INVALID_INDEX] by auto
        then show ?thesis using ne a l p \<open>mid \<le> INVALID_INDEX\<close> first_or_result[OF ne, of INVALID_INDEX result]
          unfolding unf split first_or_append by simp
      qed
    qed
  qed (simp add: binary_search_first.simps first_or_def)
qed

lemma binary_search_last_eq:
  assumes "hash_sorted (rjm_hashes m) left right" "length (rjm_keys m) = length (rjm_hashes m)" "right \<le> INVALID_INDEX"
  shows "binary_search_last key_equal m key hash left right result =
    Some (last_or result (filter (hit key_equal m key hash) [left..<right]))"
  using assms
proof (induction key_equal m key hash left right result rule: binary_search_last.induct)
  case (1 key_equal m key hash left right result)
  show ?case
  proof (cases "left < right")
    case True
    define mid where "mid = left + (right - left) div 2"
    have mid: "left \<le> mid" "mid < right" using True unfolding mid_def by auto
    let ?P = "hit key_equal m key hash"
    have len: "mid < length (rjm_hashes m)" "mid < length (rjm_keys m)"
      using "1.prems" mid by (auto simp: hash_sorted_def)
    have sub: "hash_sorted (rjm_hashes m) left mid" "hash_sorted (rjm_hashes m) (mid + 1) right"
      using hash_sorted_sub[OF "1.prems"(1)] mid by simp_all
    note no = hash_sorted_no_hit[OF "1.prems"(1) mid]
    note split = filter_upt_mid[OF True mid_def, of ?P]
    have "right \<le> INVALID_INDEX" "mid \<le> INVALID_INDEX" using "1.prems"(3) mid by auto
    note ih = "1.IH"(1)[OF True mid_def vec_at_in[OF len(1)] _ sub(2) "1.prems"(2) this(1)]
      "1.IH"(2)[OF True mid_def vec_at_in[OF len(1)] _ _ sub(1) "1.prems"(2) this(2)]
      "1.IH"(3)[OF True mid_def vec_at_in[OF len(1)] _ _ vec_at_in[OF len(2)] _ sub(2) "1.prems"(2) this(1)]
      "1.IH"(4)[OF True mid_def vec_at_in[OF len(1)] _ _ vec_at_in[OF len(2)] _ sub(2) "1.prems"(2) this(1)]
      "1.IH"(5)[OF True mid_def vec_at_in[OF len(1)] _ _ vec_at_in[OF len(2)] _ _ _ sub(1) "1.prems"(2) this(2)]
    have unf: "binary_search_last key_equal m key hash left right result =
      (if rjm_hashes m ! mid < hash then binary_search_last key_equal m key hash (mid + 1) right result
       else if rjm_hashes m ! mid > hash then binary_search_last key_equal m key hash left mid result
       else if key_equal (rjm_keys m ! mid) key then binary_search_last key_equal m key hash (mid + 1) right mid
       else do {
         right_result \<leftarrow> binary_search_last key_equal m key hash (mid + 1) right INVALID_INDEX;
         if right_result \<noteq> INVALID_INDEX then Some right_result
         else binary_search_last key_equal m key hash left mid result})"
      using True len by (subst binary_search_last.simps) (simp add: mid_def[symmetric])
    consider "rjm_hashes m ! mid < hash" | "rjm_hashes m ! mid > hash"
      | "rjm_hashes m ! mid = hash" "key_equal (rjm_keys m ! mid) key"
      | "rjm_hashes m ! mid = hash" "\<not> key_equal (rjm_keys m ! mid) key" by fastforce
    then show ?thesis
    proof cases
      case a: 1
      then have "\<not> ?P mid" by (auto simp: hit_def)
      then show ?thesis using ih(1) a no(1)[OF a] unfolding unf by (simp add: split)
    next
      case a: 2
      then have "\<not> ?P mid" by (auto simp: hit_def)
      then show ?thesis using ih(2) a no(2)[OF a] less_not_sym[OF a] unfolding unf split by simp
    next
      case a: 3
      then have "?P mid" by (simp add: hit_def)
      then show ?thesis using ih(3) a unfolding unf split by (simp add: last_or_def)
    next
      case a: 4
      then have p: "\<not> ?P mid" by (simp add: hit_def)
      let ?r = "filter ?P [mid + 1..<right]"
      have r: "binary_search_last key_equal m key hash (mid + 1) right INVALID_INDEX = Some (last_or INVALID_INDEX ?r)"
        using ih(4) a by simp
      show ?thesis
      proof (cases "?r = []")
        case e: True
        then have "binary_search_last key_equal m key hash left mid result =
            Some (last_or result (filter ?P [left..<mid]))"
          using ih(5)[of "last_or INVALID_INDEX ?r"] a r by (simp add: last_or_def)
        then show ?thesis using e a r p unfolding unf split by (simp add: last_or_def)
      next
        case ne: False
        then have "last ?r < right" using last_in_set[OF ne] by auto
        then show ?thesis using ne a r p \<open>right \<le> INVALID_INDEX\<close> unfolding unf split by (simp add: last_or_def)
      qed
    qed
  qed (simp add: binary_search_last.simps last_or_def)
qed


section \<open>Build\<close>

lemma insort_key_map: "insort_key f (g x) (map g xs) = map g (insort_key (\<lambda>x. f (g x)) x xs)"
  by (induction xs) auto

lemma sort_key_map: "sort_key f (map g xs) = map g (sort_key (\<lambda>x. f (g x)) xs)"
  by (induction xs) (auto simp: insort_key_map)

lemma build_bucket_index_total:
  assumes "table_size (rjm_capacity m)"
  shows "\<exists>bs. build_bucket_index m = Some (m\<lparr>rjm_buckets := bs\<rparr>) \<and> length bs = rjm_capacity m"
proof (cases "rjm_hashes m = []")
  case False
  define body :: "nat \<Rightarrow> (nat \<times> nat) list \<times> nat \<times> nat \<Rightarrow> ((nat \<times> nat) list \<times> nat \<times> nat) option" where
    "body = (\<lambda>i (buckets, current, start).
              (let bucket = rjm_hash_to_bucket m (rjm_hashes m ! i) in
               if bucket \<noteq> current then do {
                 buckets \<leftarrow> vec_set buckets current (start, i - start);
                 Some (buckets, bucket, i)}
               else Some (buckets, current, start)))"
  have less: "rjm_hash_to_bucket m h < rjm_capacity m" for h
    using assms by (simp add: rjm_hash_to_bucket_def mask_bucket_less table_size_pow2)
  have loop: "length bs = rjm_capacity m \<Longrightarrow> cur < rjm_capacity m \<Longrightarrow>
    \<exists>bs' cur' st'. for_each body is (bs, cur, st) = Some (bs', cur', st') \<and> length bs' = rjm_capacity m \<and> cur' < rjm_capacity m"
    for "is" bs cur st
  proof (induction "is" arbitrary: bs cur st)
    case (Cons i "is")
    then show ?case using less[of "rjm_hashes m ! i"]
      by (cases "rjm_hash_to_bucket m (rjm_hashes m ! i) = cur") (auto simp: body_def vec_set_def)
  qed simp
  obtain bs cur st where "for_each body [1..<length (rjm_hashes m)]
      (replicate (rjm_capacity m) (INVALID_INDEX, 0), rjm_hash_to_bucket m (rjm_hashes m ! 0), 0) = Some (bs, cur, st)"
    "length bs = rjm_capacity m" "cur < rjm_capacity m"
    using loop[of "replicate (rjm_capacity m) (INVALID_INDEX, 0)" "rjm_hash_to_bucket m (rjm_hashes m ! 0)"] less by fastforce
  then show ?thesis using False unfolding build_bucket_index_def body_def
    by (intro exI[of _ "bs[cur := (st, length (rjm_hashes m) - st)]"]) (simp add: vec_set_def Let_def)
qed (auto simp: build_bucket_index_def intro: exI[of _ "replicate (rjm_capacity m) (INVALID_INDEX, 0)"])

definition rjm_ok :: "('k, 'v) radix_map \<Rightarrow> bool" where
  "rjm_ok m \<longleftrightarrow> table_size (rjm_capacity m) \<and> rjm_size m = length (rjm_keys m) \<and>
     length (rjm_values m) = length (rjm_keys m) \<and> length (rjm_hashes m) = length (rjm_keys m)"

definition rjm_rows :: "('k, 'v) radix_map \<Rightarrow> (u64 \<times> 'k \<times> 'v) list" where
  "rjm_rows m = zip (rjm_hashes m) (zip (rjm_keys m) (rjm_values m))"

lemma rjm_rows_nth:
  "rjm_ok m \<Longrightarrow> rjm_rows m = map (\<lambda>i. (rjm_hashes m ! i, rjm_keys m ! i, rjm_values m ! i)) [0..<length (rjm_keys m)]"
  by (rule nth_equalityI) (auto simp: rjm_rows_def rjm_ok_def)

lemma rjm_ok_new: "n \<le> 2 ^ 62 \<Longrightarrow> rjm_ok (RadixSortedHashJoinMap n)"
  using initial_capacity_of_spec(1)[of n] by (simp add: rjm_ok_def RadixSortedHashJoinMap_def Let_def)

lemma rjm_ok_Insert: "rjm_ok m \<Longrightarrow> rjm_ok (rjm_Insert f m k v) \<and> rjm_rows (rjm_Insert f m k v) = rjm_rows m @ [(f k, k, v)]"
  by (simp add: rjm_ok_def rjm_Insert_def rjm_rows_def)

text \<open>
  \<^verbatim>\<open>Build\<close> returns, keeps the three columns aligned, and leaves the rows in the stable order of
  their byte-reversed hash: the passes run from byte 7 down to byte 0, so the last pass, over the
  least significant byte, decides first.  The comment promises the order of the hash itself.
\<close>

lemma rjm_Build_sorts:
  assumes "rjm_ok m"
  shows "\<exists>m'. rjm_Build m = Some m' \<and> rjm_ok m' \<and>
    rjm_rows m' = sort_key (\<lambda>(h, k, v). byte_reverse 8 h) (rjm_rows m)"
proof (cases "rjm_keys m = []")
  case True
  then show ?thesis using assms by (auto simp: rjm_Build_def rjm_rows_def)
next
  case False
  define idx where "idx = sort_key (\<lambda>i. byte_reverse 8 (rjm_hashes m ! i)) [0..<length (rjm_keys m)]"
  have len: "length (rjm_values m) = length (rjm_keys m)" "length (rjm_hashes m) = length (rjm_keys m)"
    using assms by (simp_all add: rjm_ok_def)
  have mem: "i < length (rjm_keys m)" if "i \<in> set idx" for i using that by (simp add: idx_def)
  let ?m = "m\<lparr>rjm_keys := map ((!) (rjm_keys m)) idx, rjm_values := map ((!) (rjm_values m)) idx,
    rjm_hashes := map ((!) (rjm_hashes m)) idx\<rparr>"
  obtain bs where bs: "build_bucket_index ?m = Some (?m\<lparr>rjm_buckets := bs\<rparr>)"
    using build_bucket_index_total[of ?m] assms by (auto simp: rjm_ok_def)
  have "radix_sort_indices (rjm_hashes m) [0..<length (rjm_keys m)] = Some idx"
    unfolding idx_def using len by (intro radix_sort_indices_eq) simp
  moreover have "map_opt (vec_at (rjm_keys m)) idx = Some (map ((!) (rjm_keys m)) idx)"
    "map_opt (vec_at (rjm_values m)) idx = Some (map ((!) (rjm_values m)) idx)"
    "map_opt (vec_at (rjm_hashes m)) idx = Some (map ((!) (rjm_hashes m)) idx)"
    using mem len by (auto intro!: map_opt_Some)
  ultimately have "rjm_Build m = Some (?m\<lparr>rjm_buckets := bs\<rparr>)" using False bs by (simp add: rjm_Build_def)
  moreover have "rjm_ok (?m\<lparr>rjm_buckets := bs\<rparr>)"
    using assms by (simp add: rjm_ok_def idx_def)
  moreover have "rjm_rows (?m\<lparr>rjm_buckets := bs\<rparr>) = sort_key (\<lambda>(h, k, v). byte_reverse 8 h) (rjm_rows m)"
    unfolding rjm_rows_nth[OF assms] sort_key_map by (simp add: rjm_rows_def zip_map_map zip_same_conv_map idx_def)
  ultimately show ?thesis by blast
qed

text \<open>
  When the bucket of a hash is a range of the sorted columns in the order of the hash,
  \<^verbatim>\<open>FindRange\<close> reports the first and the last row of the range with this hash and an equal key,
  and reports a miss exactly when there is none.
\<close>

lemma rjm_FindRange_correct:
  assumes "rjm_ok m" "vec_at (rjm_buckets m) (rjm_hash_to_bucket m (hash_fn key)) = Some (start, cnt)"
    "hash_sorted (rjm_hashes m) start (start + cnt)" "start + cnt \<le> INVALID_INDEX"
  shows "rjm_FindRange hash_fn key_equal m key =
    (let hits = filter (hit key_equal m key (hash_fn key)) [start..<start + cnt] in
     Some (if hits = [] then \<lparr>vr_start = INVALID_INDEX, vr_count = 0, vr_found = False\<rparr>
           else \<lparr>vr_start = hd hits, vr_count = last hits - hd hits + 1, vr_found = True\<rparr>))"
proof -
  let ?hits = "filter (hit key_equal m key (hash_fn key)) [start..<start + cnt]"
  have l: "length (rjm_keys m) = length (rjm_hashes m)" using assms(1) by (simp add: rjm_ok_def)
  note bs = binary_search_first_eq[OF assms(3) l assms(4), of key_equal key "hash_fn key" INVALID_INDEX]
    binary_search_last_eq[OF assms(3) l assms(4), of key_equal key "hash_fn key" INVALID_INDEX]
  show ?thesis
  proof (cases "?hits = []")
    case True
    then show ?thesis using assms(2) bs by (cases "cnt = 0") (simp_all add: rjm_FindRange_def first_or_def Let_def)
  next
    case False
    then have "cnt \<noteq> 0" by (cases "cnt = 0") simp_all
    have "hd ?hits < INVALID_INDEX" using hd_in_set[OF False] assms(4) by auto
    moreover have "first_or INVALID_INDEX ?hits = hd ?hits" using False by (cases ?hits) (simp_all add: first_or_def)
    ultimately show ?thesis using False assms(2) bs \<open>cnt \<noteq> 0\<close>
      by (simp add: rjm_FindRange_def last_or_def Let_def)
  qed
qed

text \<open>\<^verbatim>\<open>BatchInsert\<close> compares its iterator with the begin of the range it starts from, so it inserts nothing.\<close>

lemma rjm_BatchInsert_nothing: "rjm_BatchInsert hash_fn m ks vs = Some m"
  by (simp add: rjm_BatchInsert_def rjm_batch_loop.simps)

section \<open>Concrete runs\<close>

definition rjm_run :: "('k \<Rightarrow> u64) \<Rightarrow> nat \<Rightarrow> ('k \<times> 'v) list \<Rightarrow> ('k, 'v) radix_map option" where
  "rjm_run hash_fn n rows = rjm_Build (foldl (\<lambda>m (k, v). rjm_Insert hash_fn m k v) (RadixSortedHashJoinMap n) rows)"

definition rjm_query :: "('k \<Rightarrow> u64) \<Rightarrow> nat \<Rightarrow> ('k \<times> 'v) list \<Rightarrow> 'k \<Rightarrow> 'v list option" where
  "rjm_query hash_fn n rows key = do { m \<leftarrow> rjm_run hash_fn n rows; rjm_GetAllValues hash_fn (=) m key }"

lemma byte_reverse_8: "byte_reverse 8 h = radix_digit 0 h * 256 ^ 7 + (radix_digit 1 h * 256 ^ 6 + (radix_digit 2 h * 256 ^ 5 +
  (radix_digit 3 h * 256 ^ 4 + (radix_digit 4 h * 256 ^ 3 + (radix_digit 5 h * 256 ^ 2 + (radix_digit 6 h * 256 + radix_digit 7 h))))))"
proof -
  have "byte_reverse 8 h = byte_reverse (Suc (Suc (Suc (Suc (Suc (Suc (Suc (Suc 0)))))))) h"
    by (rule arg_cong[where f = "\<lambda>n. byte_reverse n h"]) simp
  then show ?thesis by simp
qed

lemma byte_reverse_samples: "byte_reverse 8 0 = 0" "byte_reverse 8 1 = 256 ^ 7" "byte_reverse 8 16 = 16 * 256 ^ 7"
  "byte_reverse 8 256 = 256 ^ 6"
  by (simp_all add: byte_reverse_8 radix_digit_def)

lemma capacity_16: "initial_capacity_of 16 = 16"
  by code_simp

lemma all_less_3: "x \<in> set [0, Suc 0, 2] \<Longrightarrow> x < length [a, b, c]"
  by auto

lemma radix_sort_samples:
  "radix_sort_indices [0, 1, 16] [0, Suc 0, 2] = Some [0, Suc 0, 2]"
  "radix_sort_indices [7, 7, 7] [0, Suc 0, 2] = Some [0, Suc 0, 2]"
  by (subst radix_sort_indices_eq[OF all_less_3]; simp add: byte_reverse_samples)+

lemma upt_3: "[0..<3] = [0, 1, 2 :: nat]" "[Suc 0..<3] = [1, 2 :: nat]"
  by (simp_all add: upt_rec)

lemmas rjm_eval = rjm_query_def rjm_run_def rjm_Build_def rjm_Insert_def RadixSortedHashJoinMap_def capacity_16 Let_def
  radix_sort_samples upt_3 numeral_3_eq_3[symmetric] build_bucket_index_def rjm_hash_to_bucket_def mask_bucket_def vec_set_def rjm_GetAllValues_def rjm_FindRange_def
  binary_search_first.simps binary_search_last.simps INVALID_INDEX_def numeral_2_eq_2[symmetric] vec_at_def

text \<open>
  Three rows with the hashes 0, 1 and 16 in 16 buckets are sorted 0, 1, 16, so bucket 0 has two runs and
  the second overwrites the first: the row of key 0 is stored and not found.  Three rows of two keys with
  one hash are found for either key together, the other key's row included.
\<close>

lemma rjm_lookup_wrong:
  "rjm_query id 16 [(0, ''a''), (1, ''b''), (16, ''c'')] 0 = Some [] \<and>
   rjm_query (\<lambda>k. 7) 16 [(0 :: nat, ''a''), (1, ''b''), (0, ''c'')] 0 = Some [''a'', ''b'', ''c'']"
proof
  show "rjm_query id 16 [(0, ''a''), (1, ''b''), (16, ''c'')] 0 = Some []"
    by (simp add: rjm_eval)
  show "rjm_query (\<lambda>k. 7) 16 [(0 :: nat, ''a''), (1, ''b''), (0, ''c'')] 0 = Some [''a'', ''b'', ''c'']"
    by (simp add: rjm_eval)
qed

definition sample_map :: "(u64, string) radix_map" where
  "sample_map = rjm_Insert id (rjm_Insert id (RadixSortedHashJoinMap 16) 16 ''x'') 256 ''y''"

lemma sample_map_ok: "rjm_ok sample_map"
  unfolding sample_map_def by (simp add: rjm_ok_new rjm_ok_Insert)

definition sample_index :: "(u64, string) radix_map" where
  "sample_index = \<lparr>rjm_capacity = 2, rjm_size = 3, rjm_keys = [1, 3, 3], rjm_values = [''p'', ''q'', ''r''], rjm_hashes = [1, 3, 3],
     rjm_buckets = [(INVALID_INDEX, 0), (0, 3)]\<rparr>"

lemma hash_sorted_sample: "hash_sorted [1, 3, 3] 0 3"
proof -
  have "\<forall>j<3. \<forall>i<j. [1, 3, 3 :: u64] ! i \<le> [1, 3, 3] ! j" by code_simp
  then show ?thesis unfolding hash_sorted_def by (auto simp: le_less)
qed

end
