(* ===== verification/Sketches.thy ===== *)
theory Sketches
  imports Xlab_Prelude
begin

text \<open>
  The frequency sketches of \<^verbatim>\<open>src/cc/algo/src/algo/algo_cache.cc\<close>: \<^verbatim>\<open>TinyLFUSketch\<close> with saturating
  4-bit counters and \<^verbatim>\<open>CountMinSketch\<close> with 64-bit counters.  Division by a size of 0 and every
  access out of range is \<^const>\<open>None\<close>.  Both never underestimate: the first up to its saturation,
  the second while the grand total fits 64 bits.
\<close>

section \<open>TinyLFUSketch\<close>

record tinylfu =
  tl_size :: nat
  tl_counters :: "nat list"

definition TinyLFUSketch :: "nat \<Rightarrow> tinylfu" where
  "TinyLFUSketch n = \<lparr>tl_size = n, tl_counters = replicate n 0\<rparr>"

text \<open>\<^verbatim>\<open>seed * 0x9e3779b9\<close> is computed in 32 bits and widened for the exclusive or.\<close>

definition ComputeHash :: "u64 \<Rightarrow> nat \<Rightarrow> u64" where
  "ComputeHash key seed = key XOR ucast (of_nat seed * 0x9e3779b9 :: 32 word)"

definition tl_index :: "tinylfu \<Rightarrow> u64 \<Rightarrow> nat \<Rightarrow> nat option" where
  "tl_index s hash i = (if tl_size s = 0 then None else Some (unat (ComputeHash hash i) mod tl_size s))"

definition tl_Increment :: "tinylfu \<Rightarrow> u64 \<Rightarrow> tinylfu option" where
  "tl_Increment s hash = do {
     counters \<leftarrow> for_each (\<lambda>i counters. do {
         idx \<leftarrow> tl_index s hash i;
         c \<leftarrow> vec_at counters idx;
         if c < 15 then vec_set counters idx (c + 1) else Some counters}) [0..<4] (tl_counters s);
     Some (s\<lparr>tl_counters := counters\<rparr>)}"

definition tl_Estimate :: "tinylfu \<Rightarrow> u64 \<Rightarrow> nat option" where
  "tl_Estimate s hash =
     for_each (\<lambda>i min_freq. do {
         idx \<leftarrow> tl_index s hash i;
         c \<leftarrow> vec_at (tl_counters s) idx;
         Some (min min_freq c)}) [0..<4] 15"

definition tl_Reset :: "tinylfu \<Rightarrow> tinylfu" where
  "tl_Reset s = s\<lparr>tl_counters := map (\<lambda>c. drop_bit 1 c) (tl_counters s)\<rparr>"

definition tl_ok :: "tinylfu \<Rightarrow> bool" where
  "tl_ok s \<longleftrightarrow> 0 < tl_size s \<and> length (tl_counters s) = tl_size s \<and> (\<forall>c \<in> set (tl_counters s). c \<le> 15)"

abbreviation tl_cell :: "tinylfu \<Rightarrow> u64 \<Rightarrow> nat \<Rightarrow> nat" where
  "tl_cell s hash i \<equiv> unat (ComputeHash hash i) mod tl_size s"

lemma tl_ok_new: "0 < n \<Longrightarrow> tl_ok (TinyLFUSketch n)"
  by (simp add: tl_ok_def TinyLFUSketch_def)

lemma tl_bump_loop:
  fixes cs :: "nat list"
  assumes "tl_ok s"
  shows "length cs = tl_size s \<Longrightarrow> \<forall>c \<in> set cs. c \<le> 15 \<Longrightarrow>
    \<exists>cs'. for_each (\<lambda>i counters. do {
         idx \<leftarrow> tl_index s hash i;
         c \<leftarrow> vec_at counters idx;
         if c < 15 then vec_set counters idx (c + 1) else Some counters}) is cs = Some cs' \<and>
      length cs' = tl_size s \<and> (\<forall>c \<in> set cs'. c \<le> 15) \<and> (\<forall>j < tl_size s. cs ! j \<le> cs' ! j) \<and>
      (\<forall>i \<in> set is. min 15 (cs ! tl_cell s hash i + 1) \<le> cs' ! tl_cell s hash i)"
proof (induction "is" arbitrary: cs)
  case (Cons i "is")
  let ?j = "tl_cell s hash i"
  define cs1 where "cs1 = (if cs ! ?j < 15 then cs[?j := cs ! ?j + 1] else cs)"
  have pos: "0 < tl_size s" and j: "?j < length cs" using assms Cons.prems by (simp_all add: tl_ok_def)
  have cs1: "length cs1 = tl_size s" "\<forall>c \<in> set cs1. c \<le> 15"
    using Cons.prems by (auto simp: cs1_def dest!: set_update_subset_insert[THEN subsetD])
  have mono: "\<forall>k < tl_size s. cs ! k \<le> cs1 ! k" "min 15 (cs ! ?j + 1) \<le> cs1 ! ?j"
    using j Cons.prems by (auto simp: cs1_def nth_list_update)
  obtain cs' where cs': "for_each (\<lambda>i counters. do {
         idx \<leftarrow> tl_index s hash i;
         c \<leftarrow> vec_at counters idx;
         if c < 15 then vec_set counters idx (c + 1) else Some counters}) is cs1 = Some cs'"
      "length cs' = tl_size s" "\<forall>c \<in> set cs'. c \<le> 15" "\<forall>j < tl_size s. cs1 ! j \<le> cs' ! j"
      "\<forall>i \<in> set is. min 15 (cs1 ! tl_cell s hash i + 1) \<le> cs' ! tl_cell s hash i"
    using Cons.IH[OF cs1] by blast
  have step: "tl_index s hash i = Some ?j" using pos by (simp add: tl_index_def)
  have "min 15 (cs ! tl_cell s hash i' + 1) \<le> cs' ! tl_cell s hash i'" if "i' \<in> set (i # is)" for i'
  proof (cases "i' \<in> set is")
    case True
    have "cs ! tl_cell s hash i' \<le> cs1 ! tl_cell s hash i'" using mono(1) pos by simp
    then show ?thesis using cs'(5) True by fastforce
  next
    case False
    then have "i' = i" using that by simp
    moreover have "cs1 ! ?j \<le> cs' ! ?j" using cs'(4) pos by simp
    ultimately show ?thesis using mono(2) by simp
  qed
  moreover have "\<forall>k < tl_size s. cs ! k \<le> cs' ! k" using mono(1) cs'(4) order_trans by blast
  moreover have "for_each (\<lambda>i counters. do {
         idx \<leftarrow> tl_index s hash i;
         c \<leftarrow> vec_at counters idx;
         if c < 15 then vec_set counters idx (c + 1) else Some counters}) (i # is) cs = Some cs'"
    using cs'(1) j step by (cases "cs ! ?j < 15") (simp_all add: cs1_def)
  ultimately show ?case using cs'(2,3) by blast
qed simp

lemma tl_Increment_step:
  assumes "tl_ok s"
  shows "\<exists>s'. tl_Increment s hash = Some s' \<and> tl_ok s' \<and> tl_size s' = tl_size s \<and>
    (\<forall>j < tl_size s. tl_counters s ! j \<le> tl_counters s' ! j) \<and>
    (\<forall>i < 4. min 15 (tl_counters s ! tl_cell s hash i + 1) \<le> tl_counters s' ! tl_cell s hash i)"
  using tl_bump_loop[OF assms, of "tl_counters s" hash "[0..<4]"] assms
  by (auto simp: tl_Increment_def tl_ok_def)

lemma tl_Increments:
  assumes "tl_ok s"
  shows "\<exists>s'. for_each (\<lambda>h s. tl_Increment s h) hs s = Some s' \<and> tl_ok s' \<and> tl_size s' = tl_size s \<and>
    (\<forall>j < tl_size s. tl_counters s ! j \<le> tl_counters s' ! j) \<and>
    (\<forall>i < 4. min 15 (tl_counters s ! tl_cell s hash i + count_list hs hash) \<le> tl_counters s' ! tl_cell s hash i)"
  using assms
proof (induction hs arbitrary: s)
  case (Cons h hs)
  obtain s1 where s1: "tl_Increment s h = Some s1" "tl_ok s1" "tl_size s1 = tl_size s"
    "\<forall>j < tl_size s. tl_counters s ! j \<le> tl_counters s1 ! j"
    "\<forall>i < 4. min 15 (tl_counters s ! tl_cell s h i + 1) \<le> tl_counters s1 ! tl_cell s h i"
    using tl_Increment_step[OF Cons.prems, of h] by blast
  obtain s' where s': "for_each (\<lambda>h s. tl_Increment s h) hs s1 = Some s'" "tl_ok s'" "tl_size s' = tl_size s"
    "\<forall>j < tl_size s. tl_counters s1 ! j \<le> tl_counters s' ! j"
    "\<forall>i < 4. min 15 (tl_counters s1 ! tl_cell s hash i + count_list hs hash) \<le> tl_counters s' ! tl_cell s hash i"
    using Cons.IH[OF s1(2)] unfolding s1(3) by blast
  have "min 15 (tl_counters s ! tl_cell s hash i + count_list (h # hs) hash) \<le> tl_counters s' ! tl_cell s hash i" if "i < 4" for i
  proof -
    have "tl_counters s ! tl_cell s hash i \<le> tl_counters s1 ! tl_cell s hash i"
      using s1(4) Cons.prems by (simp add: tl_ok_def)
    then show ?thesis using s1(5) s'(5) that by (cases "h = hash") fastforce+
  qed
  moreover have "\<forall>j < tl_size s. tl_counters s ! j \<le> tl_counters s' ! j" using s1(4) s'(4) order_trans by blast
  ultimately show ?case using s1(1) s' by simp
qed simp

lemma tl_Estimate_eq:
  assumes "tl_ok s"
  shows "tl_Estimate s hash = Some (Min ((\<lambda>i. tl_counters s ! tl_cell s hash i) ` {0..<4}))"
proof -
  have "length (tl_counters s) = tl_size s" "0 < tl_size s" using assms by (simp_all add: tl_ok_def)
  then have cell: "tl_cell s hash i < length (tl_counters s)" for i by simp
  have le: "tl_counters s ! tl_cell s hash i \<le> 15" for i using assms cell[of i] by (auto simp: tl_ok_def)
  have u: "{0..<4} = {0, 1, 2, 3 :: nat}" by auto
  have "[0..<4] = [0, 1, 2, 3 :: nat]" by (simp add: upt_rec)
  then show ?thesis using cell \<open>0 < tl_size s\<close> le[of 0] unfolding u by (simp add: tl_Estimate_def tl_index_def min.assoc)
qed

text \<open>
  After any sequence of increments the estimate of a hash is at least the number of its increments,
  saturated at 15, and at most 15.
\<close>

lemma tl_estimate_bounds:
  assumes "0 < n"
  shows "\<exists>s e. for_each (\<lambda>h s. tl_Increment s h) hs (TinyLFUSketch n) = Some s \<and>
    tl_Estimate s hash = Some e \<and> min 15 (count_list hs hash) \<le> e \<and> e \<le> 15"
proof -
  obtain s where s: "for_each (\<lambda>h s. tl_Increment s h) hs (TinyLFUSketch n) = Some s" "tl_ok s"
    "tl_size s = n" "\<forall>i < 4. min 15 (count_list hs hash) \<le> tl_counters s ! tl_cell s hash i"
    using tl_Increments[OF tl_ok_new[OF assms], of hs hash] assms
    by (fastforce simp: TinyLFUSketch_def)
  let ?e = "Min ((\<lambda>i. tl_counters s ! tl_cell s hash i) ` {0..<4})"
  have "?e \<le> tl_counters s ! tl_cell s hash 0" by (rule Min_le) auto
  moreover have "tl_cell s hash 0 < length (tl_counters s)" using s(2) by (simp add: tl_ok_def)
  then have "tl_counters s ! tl_cell s hash 0 \<le> 15" using s(2) by (simp add: tl_ok_def)
  moreover have "min 15 (count_list hs hash) \<le> ?e" using s(4) by (subst Min_ge_iff) auto
  ultimately have "min 15 (count_list hs hash) \<le> ?e \<and> ?e \<le> 15" by (blast intro: order_trans)
  then show ?thesis using s(1) tl_Estimate_eq[OF s(2)] by blast
qed

text \<open>Aging halves every estimate.\<close>

lemma tl_Reset_halves:
  assumes "tl_ok s" "tl_Estimate s hash = Some e"
  shows "tl_ok (tl_Reset s)" "tl_Estimate (tl_Reset s) hash = Some (e div 2)"
proof -
  show ok: "tl_ok (tl_Reset s)" using assms(1) by (auto simp: tl_ok_def tl_Reset_def drop_bit_Suc)
  have cell: "tl_cell s hash i < length (tl_counters s)" for i using assms(1) by (simp add: tl_ok_def)
  have halves: "(\<lambda>i. tl_counters (tl_Reset s) ! tl_cell (tl_Reset s) hash i) = (\<lambda>i. (tl_counters s ! tl_cell s hash i) div 2)"
    using cell by (simp add: tl_Reset_def drop_bit_Suc)
  have "Min ((\<lambda>i. f i div 2) ` {0..<4}) = Min (f ` {0..<4}) div (2::nat)" for f :: "nat \<Rightarrow> nat"
    using mono_Min_commute[of "\<lambda>x::nat. x div 2" "f ` {0..<4}"] by (simp add: mono_def image_image div_le_mono)
  moreover have "e = Min ((\<lambda>i. tl_counters s ! tl_cell s hash i) ` {0..<4})"
    using assms(2) tl_Estimate_eq[OF assms(1), of hash] by simp
  ultimately show "tl_Estimate (tl_Reset s) hash = Some (e div 2)"
    unfolding tl_Estimate_eq[OF ok] halves by simp
qed

section \<open>CountMinSketch\<close>

record count_min =
  cm_depth :: nat
  cm_width :: nat
  cm_table :: "u64 list list"
  cm_seeds :: "u64 list"

definition CountMinSketch :: "nat \<Rightarrow> nat \<Rightarrow> count_min" where
  "CountMinSketch d w = \<lparr>cm_depth = d, cm_width = w, cm_table = replicate d (replicate w 0),
     cm_seeds = map (\<lambda>i. 0x9e3779b97f4a7c15 + of_nat i * 13331) [0..<d]\<rparr>"

definition mix :: "u64 \<Rightarrow> u64 \<Rightarrow> u64" where
  "mix h seed =
     (let h = h XOR seed;
          h = h XOR drop_bit 33 h;
          h = h * 0xff51afd7ed558ccd;
          h = h XOR drop_bit 33 h;
          h = h * 0xc4ceb9fe1a85ec53
      in h XOR drop_bit 33 h)"

definition cm_index :: "count_min \<Rightarrow> u64 \<Rightarrow> nat \<Rightarrow> nat option" where
  "cm_index s h i = do {
     seed \<leftarrow> vec_at (cm_seeds s) i;
     if cm_width s = 0 then None else Some (unat (mix h seed) mod cm_width s)}"

text \<open>The hash of strings is the standard library's, an argument of the operations.\<close>

definition cm_add :: "(string \<Rightarrow> u64) \<Rightarrow> count_min \<Rightarrow> string \<Rightarrow> u64 \<Rightarrow> count_min option" where
  "cm_add base_hash s key amount = do {
     let h = base_hash key;
     table \<leftarrow> for_each (\<lambda>i table. do {
         idx \<leftarrow> cm_index s h i;
         row \<leftarrow> vec_at table i;
         c \<leftarrow> vec_at row idx;
         row \<leftarrow> vec_set row idx (c + amount);
         vec_set table i row}) [0..<cm_depth s] (cm_table s);
     Some (s\<lparr>cm_table := table\<rparr>)}"

definition cm_estimate :: "(string \<Rightarrow> u64) \<Rightarrow> count_min \<Rightarrow> string \<Rightarrow> u64 option" where
  "cm_estimate base_hash s key = do {
     let h = base_hash key;
     for_each (\<lambda>i res. do {
         idx \<leftarrow> cm_index s h i;
         row \<leftarrow> vec_at (cm_table s) i;
         c \<leftarrow> vec_at row idx;
         Some (min res c)}) [0..<cm_depth s] (- 1)}"

text \<open>The cell of a key in a row, and the sum of the counts that went to a cell.\<close>

definition cm_cell :: "(string \<Rightarrow> u64) \<Rightarrow> nat \<Rightarrow> nat \<Rightarrow> string \<Rightarrow> nat" where
  "cm_cell base_hash w i key = unat (mix (base_hash key) (0x9e3779b97f4a7c15 + of_nat i * 13331)) mod w"

definition cm_sum :: "(string \<Rightarrow> bool) \<Rightarrow> (string \<times> u64) list \<Rightarrow> nat" where
  "cm_sum P adds = sum_list (map (\<lambda>(k, c). unat c) (filter (\<lambda>(k, c). P k) adds))"

definition cm_state :: "(string \<Rightarrow> u64) \<Rightarrow> nat \<Rightarrow> nat \<Rightarrow> (string \<times> u64) list \<Rightarrow> count_min" where
  "cm_state base_hash d w adds = (CountMinSketch d w)\<lparr>cm_table :=
     map (\<lambda>i. map (\<lambda>j. of_nat (cm_sum (\<lambda>k. cm_cell base_hash w i k = j) adds)) [0..<w]) [0..<d]\<rparr>"

lemma cm_state_nil: "cm_state base_hash d w [] = CountMinSketch d w"
  by (simp add: cm_state_def CountMinSketch_def cm_sum_def map_replicate_const)

lemma cm_index_eq: "i < d \<Longrightarrow> 0 < w \<Longrightarrow> cm_index (cm_state f d w adds) (f key) i = Some (cm_cell f w i key)"
  by (simp add: cm_index_def cm_state_def CountMinSketch_def cm_cell_def)

lemma cm_add_step:
  assumes "0 < w"
  shows "cm_add f (cm_state f d w adds) key c = Some (cm_state f d w (adds @ [(key, c)]))"
proof -
  define row :: "nat \<Rightarrow> (string \<times> u64) list \<Rightarrow> u64 list" where
    "row = (\<lambda>i adds. map (\<lambda>j. of_nat (cm_sum (\<lambda>k. cm_cell f w i k = j) adds)) [0..<w])"
  have cell: "cm_cell f w i key < w" for i using assms by (simp add: cm_cell_def)
  have upd: "(row i adds)[cm_cell f w i key := row i adds ! cm_cell f w i key + c] = row i (adds @ [(key, c)])" for i
    using cell[of i] by (intro nth_equalityI) (auto simp: row_def nth_list_update cm_sum_def)
  define body :: "nat \<Rightarrow> u64 list list \<Rightarrow> u64 list list option" where
    "body = (\<lambda>i table. do { idx \<leftarrow> cm_index (cm_state f d w adds) (f key) i; r \<leftarrow> vec_at table i;
      x \<leftarrow> vec_at r idx; r \<leftarrow> vec_set r idx (x + c); vec_set table i r})"
  have len: "length (row i adds) = w" for i by (simp add: row_def)
  have step: "body i t = Some (t[i := row i (adds @ [(key, c)])])"
    if "i < d" "length t = d" "t ! i = row i adds" for i t
    using that cell[of i] assms upd[of i] len[of i] by (simp add: body_def cm_index_eq)
  have tab: "cm_table (cm_state f d w xs) = map (\<lambda>i. row i xs) [0..<d]" "cm_depth (cm_state f d w xs) = d" for xs
    by (simp_all add: cm_state_def row_def CountMinSketch_def)
  have "n \<le> d \<Longrightarrow> for_each body [0..<n] (map (\<lambda>i. row i adds) [0..<d]) =
      Some (map (\<lambda>i. row i (adds @ [(key, c)])) [0..<n] @ map (\<lambda>i. row i adds) [n..<d])" for n
  proof (induction n)
    case (Suc n)
    have "(map (\<lambda>i. row i (adds @ [(key, c)])) [0..<n] @ map (\<lambda>i. row i adds) [n..<d])[n := row n (adds @ [(key, c)])] =
      map (\<lambda>i. row i (adds @ [(key, c)])) [0..<Suc n] @ map (\<lambda>i. row i adds) [Suc n..<d]"
      using Suc.prems by (simp add: list_update_append upt_conv_Cons)
    moreover have "(map (\<lambda>i. row i (adds @ [(key, c)])) [0..<n] @ map (\<lambda>i. row i adds) [n..<d]) ! n = row n adds"
      using Suc.prems by (simp add: nth_append)
    ultimately show ?case using Suc step[of n "map (\<lambda>i. row i (adds @ [(key, c)])) [0..<n] @ map (\<lambda>i. row i adds) [n..<d]"]
      by simp
  qed simp
  from this[of d] show ?thesis unfolding cm_add_def tab Let_def body_def by (simp add: cm_state_def row_def)
qed

lemma cm_adds:
  assumes "0 < w"
  shows "for_each (\<lambda>(k, c) s. cm_add f s k c) adds (CountMinSketch d w) = Some (cm_state f d w adds)"
  by (induction adds rule: rev_induct) (auto simp: cm_state_nil cm_add_step[OF assms])

lemma cm_estimate_eq:
  assumes "0 < w"
  shows "cm_estimate f (cm_state f d w adds) key =
    Some (foldl min (- 1) (map (\<lambda>i. of_nat (cm_sum (\<lambda>k. cm_cell f w i k = cm_cell f w i key) adds)) [0..<d]))"
proof -
  have cell: "cm_cell f w i key < w" for i using assms by (simp add: cm_cell_def)
  have tab: "cm_table (cm_state f d w adds) ! i ! cm_cell f w i key =
      of_nat (cm_sum (\<lambda>k. cm_cell f w i k = cm_cell f w i key) adds)"
    "length (cm_table (cm_state f d w adds) ! i) = w" if "i < d" for i
    using that cell[of i] by (simp_all add: cm_state_def)
  have len: "length (cm_table (cm_state f d w adds)) = d" "cm_depth (cm_state f d w adds) = d"
    by (simp_all add: cm_state_def CountMinSketch_def)
  have "set is \<subseteq> {..<d} \<Longrightarrow> for_each (\<lambda>i res. do { idx \<leftarrow> cm_index (cm_state f d w adds) (f key) i;
      row \<leftarrow> vec_at (cm_table (cm_state f d w adds)) i; c \<leftarrow> vec_at row idx; Some (min res c)}) is r =
      Some (foldl min r (map (\<lambda>i. of_nat (cm_sum (\<lambda>k. cm_cell f w i k = cm_cell f w i key) adds)) is))" for "is" r
    by (induction "is" arbitrary: r) (auto simp: cm_index_eq assms tab len cell)
  from this[of "[0..<d]" "- 1"] show ?thesis by (simp add: cm_estimate_def len Let_def lessThan_atLeast0)
qed

lemma foldl_min_ge: "(\<And>x. x \<in> set xs \<Longrightarrow> (b :: 'a :: linorder) \<le> x) \<Longrightarrow> b \<le> a \<Longrightarrow> b \<le> foldl min a xs"
  by (induction xs arbitrary: a) auto

lemma foldl_min_le: "x \<in> set xs \<Longrightarrow> foldl min (a :: 'a :: linorder) xs \<le> x"
proof -
  have le: "foldl min a xs \<le> a" for a and xs :: "'a list"
    by (induction xs arbitrary: a) (simp_all, metis min.cobounded1 order_trans)
  show "x \<in> set xs \<Longrightarrow> foldl min a xs \<le> x"
    by (induction xs arbitrary: a) (auto intro: order_trans[OF le])
qed

lemma cm_sum_mono: "(\<And>k. P k \<Longrightarrow> Q k) \<Longrightarrow> cm_sum P adds \<le> cm_sum Q adds"
  by (induction adds) (auto simp: cm_sum_def)

text \<open>
  C40: while the total of all counts fits 64 bits, the estimate of a key is at least the sum of the counts added
  for it and, with at least one row, at most the total.
\<close>

theorem cm_estimate_bounds:
  assumes "0 < d" "0 < w" "cm_sum (\<lambda>k. True) adds < 2 ^ 64"
  shows "\<exists>s e. for_each (\<lambda>(k, c) s. cm_add base_hash s k c) adds (CountMinSketch d w) = Some s \<and>
    cm_estimate base_hash s key = Some e \<and> cm_sum (\<lambda>k. k = key) adds \<le> unat e \<and> unat e \<le> cm_sum (\<lambda>k. True) adds"
proof -
  let ?c = "\<lambda>i. cm_sum (\<lambda>k. cm_cell base_hash w i k = cm_cell base_hash w i key) adds"
  let ?e = "foldl min (- 1) (map (\<lambda>i. of_nat (?c i)) [0..<d]) :: u64"
  have le: "?c i \<le> cm_sum (\<lambda>k. True) adds" "cm_sum (\<lambda>k. k = key) adds \<le> ?c i" for i by (auto intro: cm_sum_mono)
  have un: "unat (of_nat n :: u64) = n" if "n \<le> cm_sum (\<lambda>k. True) adds" for n
    using that assms(3) by (simp add: unsigned_of_nat take_bit_nat_eq_self)
  let ?k = "cm_sum (\<lambda>k. k = key) adds"
  have k: "?k \<le> cm_sum (\<lambda>k. True) adds" by (auto intro: cm_sum_mono)
  have "of_nat ?k \<le> (of_nat (?c i) :: u64)" for i using un[OF k] un[OF le(1)] le(2) by (simp add: word_le_nat_alt)
  then have "of_nat ?k \<le> ?e" by (intro foldl_min_ge) (auto simp: word_order.extremum)
  then have "?k \<le> unat ?e" using un[OF k] by (simp add: word_le_nat_alt)
  moreover have "?e \<le> of_nat (?c 0)" using assms(1) by (intro foldl_min_le) auto
  then have "unat ?e \<le> ?c 0" using un[OF le(1)] by (simp add: word_le_nat_alt)
  ultimately show ?thesis
    using cm_adds[OF assms(2), of base_hash adds d] cm_estimate_eq[OF assms(2), of base_hash d adds key] le(1)[of 0] by auto
qed

theorem cm_estimate_bounds_witness:
  "\<exists>s e. for_each (\<lambda>(k, c) s. cm_add (\<lambda>k. of_nat (length k)) s k c) [(''a'', 3), (''b'', 4), (''a'', 1)] (CountMinSketch 4 64) = Some s \<and>
    cm_estimate (\<lambda>k. of_nat (length k)) s ''a'' = Some e \<and> 4 \<le> unat e \<and> unat e \<le> 8"
  using cm_estimate_bounds[of 4 64 "[(''a'', 3), (''b'', 4), (''a'', 1)]" "\<lambda>k. of_nat (length k)" "''a''"]
  by (simp add: cm_sum_def)

end
