(* ===== verification/Stl_List.thy ===== *)
theory Stl_List
  imports Xlab_Prelude "HOL-Library.AList"
begin

text \<open>
  \<^verbatim>\<open>std::list\<close> as the caches use it: a sequence of nodes with identities, so that an iterator is the
  identity of a node and stays valid while the node is in the list.  Using an iterator whose node is not
  in the list, and the last element of an empty list, are undefined behaviour and give \<^const>\<open>None\<close>.
  An index from keys to iterators (\<^verbatim>\<open>std::map\<close>, \<^verbatim>\<open>std::unordered_map\<close>) is an association list with
  distinct keys.  The predicate \<open>indexed\<close> ties both together.
\<close>

record 'a stl_list =
  sl_nodes :: "(nat \<times> 'a) list"
  sl_fresh :: nat

definition sl_new :: "'a stl_list" where
  "sl_new = \<lparr>sl_nodes = [], sl_fresh = 0\<rparr>"

definition sl_push_front :: "'a \<Rightarrow> 'a stl_list \<Rightarrow> nat \<times> 'a stl_list" where
  "sl_push_front x l = (sl_fresh l, \<lparr>sl_nodes = (sl_fresh l, x) # sl_nodes l, sl_fresh = sl_fresh l + 1\<rparr>)"

definition sl_deref :: "'a stl_list \<Rightarrow> nat \<Rightarrow> 'a option" where
  "sl_deref l it = map_of (sl_nodes l) it"

definition sl_assign :: "'a stl_list \<Rightarrow> nat \<Rightarrow> 'a \<Rightarrow> 'a stl_list option" where
  "sl_assign l it x =
     (if it \<in> fst ` set (sl_nodes l)
      then Some (l\<lparr>sl_nodes := map (\<lambda>(i, y). if i = it then (i, x) else (i, y)) (sl_nodes l)\<rparr>) else None)"

definition sl_erase :: "'a stl_list \<Rightarrow> nat \<Rightarrow> 'a stl_list option" where
  "sl_erase l it =
     (if it \<in> fst ` set (sl_nodes l)
      then Some (l\<lparr>sl_nodes := filter (\<lambda>(i, y). i \<noteq> it) (sl_nodes l)\<rparr>) else None)"

text \<open>\<^verbatim>\<open>l.splice(l.begin(), l, it)\<close>\<close>

definition sl_splice_front :: "'a stl_list \<Rightarrow> nat \<Rightarrow> 'a stl_list option" where
  "sl_splice_front l it = do {
     x \<leftarrow> sl_deref l it;
     Some (l\<lparr>sl_nodes := (it, x) # filter (\<lambda>(i, y). i \<noteq> it) (sl_nodes l)\<rparr>)}"

definition sl_back :: "'a stl_list \<Rightarrow> 'a option" where
  "sl_back l = (if sl_nodes l = [] then None else Some (snd (last (sl_nodes l))))"

definition sl_pop_back :: "'a stl_list \<Rightarrow> 'a stl_list option" where
  "sl_pop_back l = (if sl_nodes l = [] then None else Some (l\<lparr>sl_nodes := butlast (sl_nodes l)\<rparr>))"

definition sl_size :: "'a stl_list \<Rightarrow> nat" where
  "sl_size l = length (sl_nodes l)"

definition sl_elems :: "'a stl_list \<Rightarrow> 'a list" where
  "sl_elems l = map snd (sl_nodes l)"

definition sl_ok :: "'a stl_list \<Rightarrow> bool" where
  "sl_ok l \<longleftrightarrow> distinct (map fst (sl_nodes l)) \<and> (\<forall>i \<in> fst ` set (sl_nodes l). i < sl_fresh l)"

section \<open>An index of a list of keyed elements\<close>

definition indexed :: "('a \<Rightarrow> 'k) \<Rightarrow> 'a stl_list \<Rightarrow> ('k \<times> nat) list \<Rightarrow> bool" where
  "indexed key l m \<longleftrightarrow> sl_ok l \<and> distinct (map key (sl_elems l)) \<and> distinct (map fst m) \<and>
     map_of m = map_of (map (\<lambda>(it, x). (key x, it)) (sl_nodes l))"

lemma indexed_new: "indexed key sl_new []"
  by (simp add: indexed_def sl_new_def sl_ok_def sl_elems_def)

lemma indexed_None_iff: "indexed key l m \<Longrightarrow> map_of m k = None \<longleftrightarrow> k \<notin> key ` set (sl_elems l)"
  by (force simp: indexed_def map_of_eq_None_iff sl_elems_def image_iff)

lemma indexed_size:
  assumes "indexed key l m"
  shows "length m = length (sl_elems l)"
proof -
  have "dom (map_of m) = dom (map_of (map (\<lambda>(it, x). (key x, it)) (sl_nodes l)))"
    using assms by (simp add: indexed_def)
  then have "fst ` set m = key ` set (sl_elems l)"
    by (simp add: dom_map_of_conv_image_fst sl_elems_def image_image case_prod_beta)
  moreover have "length m = card (fst ` set m)"
    using assms distinct_card[of "map fst m"] by (simp add: indexed_def)
  moreover have "length (sl_elems l) = card (key ` set (sl_elems l))"
    using assms distinct_card[of "map key (sl_elems l)"] by (simp add: indexed_def)
  ultimately show ?thesis by simp
qed

text \<open>A key of the index splits the list at its node.\<close>

lemma indexed_split:
  assumes "indexed key l m" "map_of m k = Some it"
  obtains pre x post where "sl_nodes l = pre @ (it, x) # post" "key x = k"
    "it \<notin> fst ` set pre" "it \<notin> fst ` set post" "k \<notin> key ` snd ` set pre" "k \<notin> key ` snd ` set post"
    "sl_deref l it = Some x"
proof -
  have "(k, it) \<in> set (map (\<lambda>(it, x). (key x, it)) (sl_nodes l))"
    using assms by (intro map_of_SomeD) (simp add: indexed_def)
  then obtain x where x: "(it, x) \<in> set (sl_nodes l)" "key x = k" by auto
  then obtain pre post where s: "sl_nodes l = pre @ (it, x) # post" by (meson split_list)
  have "distinct (map fst (sl_nodes l))" "distinct (map key (map snd (sl_nodes l)))"
    using assms(1) by (simp_all add: indexed_def sl_ok_def sl_elems_def)
  moreover have "sl_deref l it = Some x"
    unfolding sl_deref_def using calculation(1) x(1) by (rule map_of_is_SomeI)
  ultimately show ?thesis using that[OF s x(2)] x(2) unfolding s by (auto simp: image_iff)
qed

lemma filter_split_node:
  "it \<notin> fst ` set pre \<Longrightarrow> it \<notin> fst ` set post \<Longrightarrow> filter (\<lambda>(i, y). i \<noteq> it) (pre @ (it, x) # post) = pre @ post"
proof -
  assume "it \<notin> fst ` set pre" "it \<notin> fst ` set post"
  then have "filter (\<lambda>(i, y). i \<noteq> it) pre = pre" "filter (\<lambda>(i, y). i \<noteq> it) post = post"
    by (force simp: filter_id_conv)+
  then show ?thesis by simp
qed

lemma map_of_distinct_perm:
  assumes "distinct (map fst xs)" "mset xs = mset ys"
  shows "map_of xs = map_of ys"
proof -
  have "distinct (map fst ys)" using assms by (metis distinct_map mset_eq_imp_distinct_iff mset_eq_setD)
  then show ?thesis using assms map_of_inject_set mset_eq_setD by blast
qed

text \<open>The operations on the node of an indexed key.\<close>

lemma indexed_splice:
  assumes "indexed key l m" "map_of m k = Some it"
  obtains l' pre x post where "sl_splice_front l it = Some l'" "indexed key l' m" "sl_deref l it = Some x" "key x = k"
    "sl_elems l = pre @ x # post" "sl_elems l' = x # pre @ post" "sl_deref l' it = Some x"
    "k \<notin> key ` set pre" "k \<notin> key ` set post"
proof -
  obtain pre x post where s: "sl_nodes l = pre @ (it, x) # post" "key x = k"
    "it \<notin> fst ` set pre" "it \<notin> fst ` set post" "k \<notin> key ` snd ` set pre" "k \<notin> key ` snd ` set post"
    and d: "sl_deref l it = Some x"
    using indexed_split[OF assms] by metis
  let ?l' = "l\<lparr>sl_nodes := (it, x) # pre @ post\<rparr>"
  have sp: "sl_splice_front l it = Some ?l'"
    using filter_split_node[OF s(3,4), of x] s(1) d by (simp add: sl_splice_front_def)
  have "map_of (map (\<lambda>(it, x). (key x, it)) (sl_nodes l)) = map_of (map (\<lambda>(it, x). (key x, it)) (sl_nodes ?l'))"
    using assms(1) by (intro map_of_distinct_perm) (auto simp: indexed_def sl_elems_def s(1) comp_def case_prod_beta)
  then have "indexed key ?l' m"
    using assms(1) by (auto simp: indexed_def sl_ok_def sl_elems_def s(1))
  then show ?thesis using that[OF sp _ d s(2), of "map snd pre" "map snd post"] s
    by (simp add: sl_elems_def sl_deref_def)
qed

lemma indexed_assign:
  assumes "indexed key l m" "map_of m k = Some it" "key y = k"
  obtains l' pre x post where "sl_assign l it y = Some l'" "indexed key l' m" "key x = k"
    "sl_elems l = pre @ x # post" "sl_elems l' = pre @ y # post" "k \<notin> key ` set pre" "k \<notin> key ` set post"
proof -
  obtain pre x post where s: "sl_nodes l = pre @ (it, x) # post" "key x = k"
    "it \<notin> fst ` set pre" "it \<notin> fst ` set post" "k \<notin> key ` snd ` set pre" "k \<notin> key ` snd ` set post"
    and d: "sl_deref l it = Some x"
    using indexed_split[OF assms(1,2)] by metis
  let ?l' = "l\<lparr>sl_nodes := pre @ (it, y) # post\<rparr>"
  have "map (\<lambda>(i, z). if i = it then (i, y) else (i, z)) xs = xs" if "it \<notin> fst ` set xs" for xs :: "(nat \<times> 'a) list"
    using that by (intro map_idI) force
  then have as: "sl_assign l it y = Some ?l'" using s by (simp add: sl_assign_def)
  have "indexed key ?l' m" using assms(1,3) s by (auto simp: indexed_def sl_ok_def sl_elems_def)
  then show ?thesis using that[OF as _ s(2), of "map snd pre" "map snd post"] s by (simp add: sl_elems_def)
qed

lemma indexed_remove:
  assumes "indexed key l m" "sl_nodes l = pre @ (it, x) # post"
  shows "indexed key (l\<lparr>sl_nodes := pre @ post\<rparr>) (AList.delete (key x) m)"
proof -
  let ?l' = "l\<lparr>sl_nodes := pre @ post\<rparr>"
  have nk: "key x \<notin> key ` snd ` set pre" "key x \<notin> key ` snd ` set post"
    using assms(1) unfolding indexed_def sl_elems_def assms(2) by (auto simp: image_iff)
  have "map_of (AList.delete (key x) m) = (map_of (map (\<lambda>(it, x). (key x, it)) (sl_nodes l)))(key x := None)"
    using assms(1) by (simp add: AList.delete_conv' indexed_def)
  also have "\<dots> = map_of (map (\<lambda>(it, x). (key x, it)) (sl_nodes ?l'))"
  proof
    fix k
    have "map_of (map (\<lambda>(it, x). (key x, it)) ns) (key x) = None" if "key x \<notin> key ` snd ` set ns" for ns
      using that by (force simp: map_of_eq_None_iff image_iff)
    from this[OF nk(1)] this[OF nk(2)]
    show "((map_of (map (\<lambda>(it, x). (key x, it)) (sl_nodes l)))(key x := None)) k = map_of (map (\<lambda>(it, x). (key x, it)) (sl_nodes ?l')) k"
      by (auto simp: assms(2) map_add_def split: option.splits)
  qed
  finally show ?thesis
    using assms(1) unfolding indexed_def sl_ok_def sl_elems_def by (auto simp: assms(2) AList.distinct_delete)
qed

lemma indexed_erase:
  assumes "indexed key l m" "map_of m k = Some it"
  obtains l' pre x post where "sl_erase l it = Some l'" "indexed key l' (AList.delete k m)" "sl_deref l it = Some x" "key x = k"
    "sl_elems l = pre @ x # post" "sl_elems l' = pre @ post" "k \<notin> key ` set pre" "k \<notin> key ` set post"
proof -
  obtain pre x post where s: "sl_nodes l = pre @ (it, x) # post" "key x = k"
    "it \<notin> fst ` set pre" "it \<notin> fst ` set post" "k \<notin> key ` snd ` set pre" "k \<notin> key ` snd ` set post"
    and d: "sl_deref l it = Some x"
    using indexed_split[OF assms] by metis
  have er: "sl_erase l it = Some (l\<lparr>sl_nodes := pre @ post\<rparr>)"
    using filter_split_node[OF s(3,4), of x] s(1) by (simp add: sl_erase_def)
  show ?thesis using that[OF er _ d s(2), of "map snd pre" "map snd post"] indexed_remove[OF assms(1) s(1)] s
    by (simp add: sl_elems_def)
qed

lemma indexed_push:
  assumes "indexed key l m" "key x \<notin> key ` set (sl_elems l)" "sl_push_front x l = (it, l')"
  shows "indexed key l' (AList.update (key x) it m)" "sl_elems l' = x # sl_elems l"
proof -
  have l': "l' = \<lparr>sl_nodes = (it, x) # sl_nodes l, sl_fresh = it + 1\<rparr>" "it = sl_fresh l"
    using assms(3) by (auto simp: sl_push_front_def)
  then show "sl_elems l' = x # sl_elems l" by (simp add: sl_elems_def)
  have "it \<notin> fst ` set (sl_nodes l)" "\<forall>i \<in> fst ` set (sl_nodes l). i < Suc it"
    using assms(1) l'(2) by (force simp: indexed_def sl_ok_def)+
  then show "indexed key l' (AList.update (key x) it m)"
    using assms(1,2) by (auto simp: l'(1) indexed_def sl_ok_def sl_elems_def AList.distinct_update AList.update_conv')
qed

lemma indexed_pop_back:
  assumes "indexed key l m" "sl_elems l \<noteq> []"
  obtains l' x where "sl_back l = Some x" "sl_pop_back l = Some l'" "indexed key l' (AList.delete (key x) m)"
    "sl_elems l = sl_elems l' @ [x]"
proof -
  have ne: "sl_nodes l \<noteq> []" using assms(2) by (simp add: sl_elems_def)
  then obtain pre it x where n: "sl_nodes l = pre @ (it, x) # []" by (metis append_butlast_last_id surj_pair)
  show ?thesis using that[of x "l\<lparr>sl_nodes := pre\<rparr>"] indexed_remove[OF assms(1) n] n
    by (simp add: sl_back_def sl_pop_back_def sl_elems_def)
qed

end
