(* ===== verification/Lru_Caches.thy ===== *)
theory Lru_Caches
  imports Stl_List
begin

text \<open>
  The two least-recently-used caches: \<^verbatim>\<open>LRUCache\<close> of \<^verbatim>\<open>src/cc/algo/src/algo/algo_cache.cc\<close> and
  \<^verbatim>\<open>xlab::lru\<close> of \<^verbatim>\<open>src/cc/cclab/src/utils/lru.hpp\<close>.  Both keep a list of pairs with an index of
  iterators.  The locale \<open>lru_cache\<close> is the contract of such a cache over the abstract recency
  list; its client lemma is the hit guarantee, and both classes interpret it.
\<close>

section \<open>The contract\<close>

definition lru_spec_put :: "nat \<Rightarrow> 'k \<Rightarrow> 'v \<Rightarrow> ('k \<times> 'v) list \<Rightarrow> ('k \<times> 'v) list" where
  "lru_spec_put cap k v xs = take cap ((k, v) # filter (\<lambda>p. fst p \<noteq> k) xs)"

definition lru_spec_get :: "'k \<Rightarrow> ('k \<times> 'v) list \<Rightarrow> ('k \<times> 'v) list" where
  "lru_spec_get k xs = (case map_of xs k of None \<Rightarrow> xs | Some v \<Rightarrow> (k, v) # filter (\<lambda>p. fst p \<noteq> k) xs)"

datatype ('k, 'v) cache_op = Put 'k 'v | Get 'k

primrec op_key :: "('k, 'v) cache_op \<Rightarrow> 'k" where
  "op_key (Put k v) = k"
| "op_key (Get k) = k"

primrec cache_run :: "('s \<Rightarrow> 'k \<Rightarrow> 'v \<Rightarrow> 's option) \<Rightarrow> ('s \<Rightarrow> 'k \<Rightarrow> ('v option \<times> 's) option) \<Rightarrow>
    ('k, 'v) cache_op list \<Rightarrow> 's \<Rightarrow> 's option" where
  "cache_run put get [] s = Some s"
| "cache_run put get (c # cs) s = do {
     s \<leftarrow> (case c of Put k v \<Rightarrow> put s k v | Get k \<Rightarrow> do { (_, s) \<leftarrow> get s k; Some s });
     cache_run put get cs s}"

locale lru_cache =
  fixes cap :: nat
    and ok :: "'s \<Rightarrow> bool"
    and recency :: "'s \<Rightarrow> ('k \<times> 'v) list"
    and put :: "'s \<Rightarrow> 'k \<Rightarrow> 'v \<Rightarrow> 's option"
    and get :: "'s \<Rightarrow> 'k \<Rightarrow> ('v option \<times> 's) option"
  assumes cap_pos: "0 < cap"
    and ok_distinct: "ok s \<Longrightarrow> distinct (map fst (recency s))"
    and ok_bound: "ok s \<Longrightarrow> length (recency s) \<le> cap"
    and put_spec: "ok s \<Longrightarrow> \<exists>s'. put s k v = Some s' \<and> ok s' \<and> recency s' = lru_spec_put cap k v (recency s)"
    and get_spec: "ok s \<Longrightarrow> \<exists>s'. get s k = Some (map_of (recency s) k, s') \<and> ok s' \<and> recency s' = lru_spec_get k (recency s)"
begin

lemma step_keeps:
  assumes "ok s" "recency s = xs @ (k, v) # ys" "fst ` set xs \<subseteq> T" "op_key c \<in> T" "k \<notin> T" "finite T" "card T < cap"
  shows "\<exists>s' xs' ys'. (case c of Put k v \<Rightarrow> put s k v | Get k \<Rightarrow> do { (_, s) \<leftarrow> get s k; Some s }) = Some s' \<and> ok s' \<and>
    recency s' = xs' @ (k, v) # ys' \<and> fst ` set xs' \<subseteq> T"
proof (cases c)
  case (Put k' v')
  obtain s' where s': "put s k' v' = Some s'" "ok s'" "recency s' = lru_spec_put cap k' v' (recency s)"
    using put_spec[OF assms(1)] by metis
  let ?p = "(k', v') # filter (\<lambda>p. fst p \<noteq> k') xs"
  have ne: "k' \<noteq> k" "k' \<in> T" using assms(4,5) Put by auto
  have dist: "distinct (map fst ?p)" using ok_distinct[OF assms(1)] assms(2)
    by (auto simp: distinct_map_filter)
  have sub: "fst ` set ?p \<subseteq> T" using assms(3) ne by auto
  have "length ?p = card (fst ` set ?p)" using distinct_card[OF dist] by (metis length_map list.set_map)
  also have "\<dots> \<le> card T" by (rule card_mono[OF assms(6) sub])
  finally have "length ?p < cap" using assms(7) by simp
  then obtain n where "cap = Suc (length ?p + n)" using less_imp_Suc_add by blast
  then have "recency s' = ?p @ (k, v) # take n (filter (\<lambda>p. fst p \<noteq> k') ys)"
    using s'(3) ne unfolding assms(2) lru_spec_put_def by simp
  then show ?thesis using s'(1,2) sub Put
    by (intro exI[of _ s'] exI[of _ ?p] exI[of _ "take n (filter (\<lambda>p. fst p \<noteq> k') ys)"]) simp
next
  case (Get k')
  obtain s' where s': "get s k' = Some (map_of (recency s) k', s')" "ok s'" "recency s' = lru_spec_get k' (recency s)"
    using get_spec[OF assms(1)] by metis
  have ne: "k' \<noteq> k" "k' \<in> T" using assms(4,5) Get by auto
  show ?thesis
  proof (cases "map_of (recency s) k'")
    case None
    then have "recency s' = xs @ (k, v) # ys" using s'(3) assms(2) by (simp only: lru_spec_get_def option.case)
    then show ?thesis using s'(1,2) assms(3) Get by auto
  next
    case (Some v')
    then have "recency s' = ((k', v') # filter (\<lambda>p. fst p \<noteq> k') xs) @ (k, v) # filter (\<lambda>p. fst p \<noteq> k') ys"
      using s'(3) ne by (simp add: assms(2) lru_spec_get_def)
    moreover have "fst ` set ((k', v') # filter (\<lambda>p. fst p \<noteq> k') xs) \<subseteq> T" using assms(3) ne by auto
    ultimately show ?thesis using s'(1,2) Get
      by (intro exI[of _ s'] exI[of _ "(k', v') # filter (\<lambda>p. fst p \<noteq> k') xs"] exI[of _ "filter (\<lambda>p. fst p \<noteq> k') ys"]) simp
  qed
qed

lemma run_keeps:
  assumes "ok s" "recency s = xs @ (k, v) # ys" "fst ` set xs \<subseteq> T" "op_key ` set cs \<subseteq> T" "k \<notin> T" "finite T" "card T < cap"
  shows "\<exists>s' xs' ys'. cache_run put get cs s = Some s' \<and> ok s' \<and> recency s' = xs' @ (k, v) # ys'"
  using assms(1-4)
proof (induction cs arbitrary: s xs ys)
  case (Cons c cs)
  then obtain s1 xs1 ys1 where s1: "(case c of Put k v \<Rightarrow> put s k v | Get k \<Rightarrow> do { (_, s) \<leftarrow> get s k; Some s }) = Some s1" "ok s1"
    "recency s1 = xs1 @ (k, v) # ys1" "fst ` set xs1 \<subseteq> T"
    using step_keeps[OF Cons.prems(1-3) _ assms(5-7), of c] by auto
  then show ?case using Cons.IH[OF s1(2-4)] Cons.prems(4) by simp
qed auto

text \<open>The hit guarantee: fewer than \<open>cap\<close> other keys used since the last write of a key do not evict it.\<close>

lemma hit_guarantee:
  assumes "ok s" "k \<notin> op_key ` set cs" "card (op_key ` set cs) < cap"
  shows "\<exists>s1 s2 s3. put s k v = Some s1 \<and> cache_run put get cs s1 = Some s2 \<and> get s2 k = Some (Some v, s3)"
proof -
  obtain s1 where s1: "put s k v = Some s1" "ok s1" "recency s1 = lru_spec_put cap k v (recency s)"
    using put_spec[OF assms(1)] by metis
  have "\<exists>ys. recency s1 = [] @ (k, v) # ys" using s1(3) cap_pos by (cases cap) (auto simp: lru_spec_put_def)
  then obtain ys where ys: "recency s1 = [] @ (k, v) # ys" by blast
  obtain s2 xs' ys' where s2: "cache_run put get cs s1 = Some s2" "ok s2" "recency s2 = xs' @ (k, v) # ys'"
    using run_keeps[OF s1(2) ys _ subset_refl assms(2) _ assms(3)] by auto
  have "map_of (recency s2) k = Some v"
    using ok_distinct[OF s2(2)] s2(3) by (intro map_of_is_SomeI) auto
  then show ?thesis using s1(1) s2(1) get_spec[OF s2(2), of k] by auto
qed

end

lemma filter_key_split:
  "k \<notin> fst ` set pre \<Longrightarrow> k \<notin> fst ` set post \<Longrightarrow> filter (\<lambda>p. fst p \<noteq> k) (pre @ (k, v) # post) = pre @ post"
proof -
  assume "k \<notin> fst ` set pre" "k \<notin> fst ` set post"
  then have "filter (\<lambda>p. fst p \<noteq> k) pre = pre" "filter (\<lambda>p. fst p \<noteq> k) post = post" by (force simp: filter_id_conv)+
  then show ?thesis by simp
qed

lemma map_of_split: "k \<notin> fst ` set pre \<Longrightarrow> map_of (pre @ (k, v) # post) k = Some v"
proof -
  assume "k \<notin> fst ` set pre"
  then have "map_of pre k = None" by (simp add: map_of_eq_None_iff)
  then show ?thesis by (simp add: map_add_def)
qed

section \<open>LRUCache\<close>

record ('k, 'v) lru_state =
  lru_capacity :: nat
  lru_map :: "('k \<times> nat) list"
  lru_list :: "('k \<times> 'v) stl_list"

definition LRUCache :: "nat \<Rightarrow> ('k, 'v) lru_state" where
  "LRUCache capacity = \<lparr>lru_capacity = capacity, lru_map = [], lru_list = sl_new\<rparr>"

definition lru_put :: "('k, 'v) lru_state \<Rightarrow> 'k \<Rightarrow> 'v \<Rightarrow> ('k, 'v) lru_state option" where
  "lru_put s key value =
     (case map_of (lru_map s) key of
        Some it \<Rightarrow> do {
          l \<leftarrow> sl_assign (lru_list s) it (key, value);
          l \<leftarrow> sl_splice_front l it;
          Some (s\<lparr>lru_list := l\<rparr>)}
      | None \<Rightarrow> do {
          s \<leftarrow> (if length (lru_map s) \<ge> lru_capacity s then do {
                  p \<leftarrow> sl_back (lru_list s);
                  l \<leftarrow> sl_pop_back (lru_list s);
                  Some (s\<lparr>lru_map := AList.delete (fst p) (lru_map s), lru_list := l\<rparr>)}
                else Some s);
          let (it, l) = sl_push_front (key, value) (lru_list s);
          Some (s\<lparr>lru_map := AList.update key it (lru_map s), lru_list := l\<rparr>)})"

definition lru_get :: "('k, 'v) lru_state \<Rightarrow> 'k \<Rightarrow> ('v option \<times> ('k, 'v) lru_state) option" where
  "lru_get s key =
     (case map_of (lru_map s) key of
        Some it \<Rightarrow> do {
          l \<leftarrow> sl_splice_front (lru_list s) it;
          p \<leftarrow> sl_deref l it;
          Some (Some (snd p), s\<lparr>lru_list := l\<rparr>)}
      | None \<Rightarrow> Some (None, s))"

definition lru_contains :: "('k, 'v) lru_state \<Rightarrow> 'k \<Rightarrow> bool" where
  "lru_contains s key \<longleftrightarrow> map_of (lru_map s) key \<noteq> None"

definition lru_size :: "('k, 'v) lru_state \<Rightarrow> nat" where
  "lru_size s = length (lru_map s)"

definition lru_ok :: "nat \<Rightarrow> ('k, 'v) lru_state \<Rightarrow> bool" where
  "lru_ok cap s \<longleftrightarrow> lru_capacity s = cap \<and> indexed fst (lru_list s) (lru_map s) \<and> length (sl_elems (lru_list s)) \<le> cap"

abbreviation lru_recency :: "('k, 'v) lru_state \<Rightarrow> ('k \<times> 'v) list" where
  "lru_recency s \<equiv> sl_elems (lru_list s)"

lemma lru_ok_new: "lru_ok cap (LRUCache cap)"
  by (simp add: lru_ok_def LRUCache_def indexed_new) (simp add: sl_new_def sl_elems_def)

lemma lru_put_spec:
  assumes "lru_ok cap s" "0 < cap"
  shows "\<exists>s'. lru_put s k v = Some s' \<and> lru_ok cap s' \<and> lru_recency s' = lru_spec_put cap k v (lru_recency s)"
proof (cases "map_of (lru_map s) k")
  case None
  have ix: "indexed fst (lru_list s) (lru_map s)" and cap: "lru_capacity s = cap" "length (lru_recency s) \<le> cap"
    using assms(1) by (auto simp: lru_ok_def)
  have notin: "k \<notin> fst ` set (lru_recency s)" using None indexed_None_iff[OF ix] by blast
  then have flt: "filter (\<lambda>p. fst p \<noteq> k) (lru_recency s) = lru_recency s" by (force simp: filter_id_conv)
  obtain l1 and m1 :: "('a \<times> nat) list" where s1: "(if length (lru_map s) \<ge> lru_capacity s then do {
                  p \<leftarrow> sl_back (lru_list s);
                  l \<leftarrow> sl_pop_back (lru_list s);
                  Some (s\<lparr>lru_map := AList.delete (fst p) (lru_map s), lru_list := l\<rparr>)}
                else Some s) = Some (s\<lparr>lru_map := m1, lru_list := l1\<rparr>)"
    "indexed fst l1 m1" "sl_elems l1 = take (cap - 1) (lru_recency s)"
  proof (cases "cap \<le> length (lru_map s)")
    case True
    then have len: "length (lru_recency s) = cap" using indexed_size[OF ix] cap by simp
    then have "lru_recency s \<noteq> []" using assms(2) by auto
    from indexed_pop_back[OF ix this] obtain l' x where "sl_back (lru_list s) = Some x" "sl_pop_back (lru_list s) = Some l'"
      "indexed fst l' (AList.delete (fst x) (lru_map s))" "lru_recency s = sl_elems l' @ [x]" by metis
    then show ?thesis using that[of l' "AList.delete (fst x) (lru_map s)"] True cap len by simp
  next
    case False
    then show ?thesis using that[of "lru_list s" "lru_map s"] indexed_size[OF ix] ix cap by simp
  qed
  obtain it l2 where p: "sl_push_front (k, v) l1 = (it, l2)" by fastforce
  have "fst (k, v) \<notin> fst ` set (sl_elems l1)" using notin s1(3) by (auto dest: in_set_takeD)
  note push = indexed_push[OF s1(2) this p]
  have "lru_put s k v = Some (s\<lparr>lru_map := AList.update k it m1, lru_list := l2\<rparr>)"
    using None s1(1) p by (simp add: lru_put_def)
  moreover have "lru_spec_put cap k v (lru_recency s) = (k, v) # take (cap - 1) (lru_recency s)"
    using assms(2) by (cases cap) (simp_all add: lru_spec_put_def flt)
  ultimately show ?thesis using push s1(3) cap assms(2) by (auto simp: lru_ok_def)
next
  case (Some it)
  have ix: "indexed fst (lru_list s) (lru_map s)" and cap: "lru_capacity s = cap" "length (lru_recency s) \<le> cap"
    using assms(1) by (auto simp: lru_ok_def)
  obtain l1 pre x post where l1: "sl_assign (lru_list s) it (k, v) = Some l1" "indexed fst l1 (lru_map s)" "fst x = k"
    "lru_recency s = pre @ x # post" "sl_elems l1 = pre @ (k, v) # post" "k \<notin> fst ` set pre" "k \<notin> fst ` set post"
    using indexed_assign[OF ix Some, of "(k, v)"] by (metis fst_conv)
  obtain l2 pre2 x2 post2 where l2: "sl_splice_front l1 it = Some l2" "indexed fst l2 (lru_map s)" "fst x2 = k"
    "sl_elems l1 = pre2 @ x2 # post2" "sl_elems l2 = x2 # pre2 @ post2" "k \<notin> fst ` set pre2" "k \<notin> fst ` set post2"
    using indexed_splice[OF l1(2) Some] by metis
  obtain v2 where x2: "x2 = (k, v2)" using l2(3) by (cases x2) auto
  have fl: "pre @ post = pre2 @ post2"
    using filter_key_split[OF l1(6,7), of v] filter_key_split[OF l2(6,7), of v2] l1(5) l2(4) unfolding x2 by metis
  have "v2 = v" using map_of_split[OF l1(6), of v post] map_of_split[OF l2(6), of v2 post2] l1(5) l2(4) unfolding x2 by (metis option.inject)
  then have el: "sl_elems l2 = (k, v) # pre @ post" using l2(5) x2 fl by simp
  obtain w where "x = (k, w)" using l1(3) by (cases x) auto
  then have "filter (\<lambda>p. fst p \<noteq> k) (lru_recency s) = pre @ post" using filter_key_split[OF l1(6,7)] l1(4) by simp
  then have "sl_elems l2 = lru_spec_put cap k v (lru_recency s)"
    using el cap(2) l1(4) assms(2) by (cases cap) (simp_all add: lru_spec_put_def)
  moreover have "lru_put s k v = Some (s\<lparr>lru_list := l2\<rparr>)" using Some l1(1) l2(1) by (simp add: lru_put_def)
  moreover have "length (sl_elems l2) \<le> cap" using el l1(4) cap(2) by simp
  ultimately show ?thesis using l2(2) cap by (auto simp: lru_ok_def)
qed

lemma lru_get_spec:
  assumes "lru_ok cap s"
  shows "\<exists>s'. lru_get s k = Some (map_of (lru_recency s) k, s') \<and> lru_ok cap s' \<and> lru_recency s' = lru_spec_get k (lru_recency s)"
proof (cases "map_of (lru_map s) k")
  case None
  then have "map_of (lru_recency s) k = None"
    using assms indexed_None_iff[of fst "lru_list s"] by (simp add: lru_ok_def map_of_eq_None_iff)
  then show ?thesis using None assms by (simp add: lru_get_def lru_spec_get_def)
next
  case (Some it)
  have ix: "indexed fst (lru_list s) (lru_map s)" using assms by (simp add: lru_ok_def)
  obtain l pre x post where l: "sl_splice_front (lru_list s) it = Some l" "indexed fst l (lru_map s)" "fst x = k"
    "lru_recency s = pre @ x # post" "sl_elems l = x # pre @ post" "sl_deref l it = Some x" "k \<notin> fst ` set pre" "k \<notin> fst ` set post"
    using indexed_splice[OF ix Some] by metis
  obtain v where x: "x = (k, v)" using l(3) by (cases x) auto
  have "map_of (lru_recency s) k = Some v" unfolding l(4) x using l(7) by (rule map_of_split)
  moreover have "filter (\<lambda>p. fst p \<noteq> k) (lru_recency s) = pre @ post" unfolding l(4) x using l(7,8) by (rule filter_key_split)
  ultimately show ?thesis using Some l x assms by (simp add: lru_get_def lru_spec_get_def lru_ok_def)
qed

text \<open>Capacity 0: the first \<^verbatim>\<open>put\<close> takes the last element of an empty list.\<close>

lemma lru_put_capacity_0: "lru_put (LRUCache 0) k v = None"
  by (simp add: lru_put_def LRUCache_def sl_back_def sl_new_def)

interpretation lc: lru_cache "Suc n" "lru_ok (Suc n)" lru_recency lru_put lru_get for n
proof
  show "\<exists>s'. lru_put s k v = Some s' \<and> lru_ok (Suc n) s' \<and> lru_recency s' = lru_spec_put (Suc n) k v (lru_recency s)"
    if "lru_ok (Suc n) s" for s :: "('k, 'v) lru_state" and k v using lru_put_spec[OF that] by simp
  show "\<exists>s'. lru_get s k = Some (map_of (lru_recency s) k, s') \<and> lru_ok (Suc n) s' \<and> lru_recency s' = lru_spec_get k (lru_recency s)"
    if "lru_ok (Suc n) s" for s :: "('k, 'v) lru_state" and k using lru_get_spec[OF that] .
qed (auto simp: lru_ok_def indexed_def)

section \<open>xlab::lru\<close>

record ('k, 'v) xlru =
  xl_capacity :: nat
  xl_list :: "('k \<times> 'v) stl_list"
  xl_map :: "('k \<times> nat) list"

definition lru :: "nat \<Rightarrow> ('k, 'v) xlru" where
  "lru cap = \<lparr>xl_capacity = cap, xl_list = sl_new, xl_map = []\<rparr>"

definition xl_put :: "('k, 'v) xlru \<Rightarrow> 'k \<Rightarrow> 'v \<Rightarrow> (bool \<times> ('k, 'v) xlru) option" where
  "xl_put s k v = do {
     (not_exist, list, m) \<leftarrow>
       (case map_of (xl_map s) k of
          Some it \<Rightarrow> do { l \<leftarrow> sl_erase (xl_list s) it; Some (False, l, AList.delete k (xl_map s)) }
        | None \<Rightarrow> Some (True, xl_list s, xl_map s));
     let (it, list) = sl_push_front (k, v) list;
     let m = AList.update k it m;
     if sl_size list > xl_capacity s then do {
       old \<leftarrow> sl_back list;
       list \<leftarrow> sl_pop_back list;
       Some (not_exist, s\<lparr>xl_list := list, xl_map := AList.delete (fst old) m\<rparr>)}
     else Some (not_exist, s\<lparr>xl_list := list, xl_map := m\<rparr>)}"

definition xl_get :: "('k, 'v) xlru \<Rightarrow> 'k \<Rightarrow> ('v option \<times> ('k, 'v) xlru) option" where
  "xl_get s k =
     (case map_of (xl_map s) k of
        None \<Rightarrow> Some (None, s)
      | Some it \<Rightarrow> do {
          kvp \<leftarrow> sl_deref (xl_list s) it;
          l \<leftarrow> sl_erase (xl_list s) it;
          let (it, l) = sl_push_front kvp l;
          Some (Some (snd kvp), s\<lparr>xl_list := l, xl_map := AList.update k it (xl_map s)\<rparr>)})"

definition xl_size :: "('k, 'v) xlru \<Rightarrow> nat" where
  "xl_size s = sl_size (xl_list s)"

definition xl_get_list :: "('k, 'v) xlru \<Rightarrow> ('k \<times> 'v) list" where
  "xl_get_list s = sl_elems (xl_list s)"

definition xl_ok :: "nat \<Rightarrow> ('k, 'v) xlru \<Rightarrow> bool" where
  "xl_ok cap s \<longleftrightarrow> xl_capacity s = cap \<and> indexed fst (xl_list s) (xl_map s) \<and> length (xl_get_list s) \<le> cap"

lemma xl_ok_new: "xl_ok cap (lru cap)"
  by (simp add: xl_ok_def lru_def indexed_new) (simp add: sl_new_def xl_get_list_def sl_elems_def)

lemma xl_remove:
  assumes "indexed fst l m"
  shows "\<exists>l'. (case map_of m k of Some it \<Rightarrow> do { l \<leftarrow> sl_erase l it; Some (False, l, AList.delete k m) } | None \<Rightarrow> Some (True, l, m)) =
      Some (k \<notin> fst ` set (sl_elems l), l', AList.delete k m) \<and> indexed fst l' (AList.delete k m) \<and>
    sl_elems l' = filter (\<lambda>p. fst p \<noteq> k) (sl_elems l)"
proof (cases "map_of m k")
  case None
  then have "k \<notin> fst ` set (sl_elems l)" "k \<notin> fst ` set m"
    using indexed_None_iff[OF assms] by (auto simp: map_of_eq_None_iff)
  moreover have "AList.delete k m = m" using calculation(2) by (force simp: AList.delete_eq filter_id_conv)
  moreover have "filter (\<lambda>p. fst p \<noteq> k) (sl_elems l) = sl_elems l" using calculation(1) by (force simp: filter_id_conv)
  ultimately show ?thesis using None assms by simp
next
  case (Some it)
  obtain l' pre x post where l': "sl_erase l it = Some l'" "indexed fst l' (AList.delete k m)" "fst x = k"
    "sl_elems l = pre @ x # post" "sl_elems l' = pre @ post" "k \<notin> fst ` set pre" "k \<notin> fst ` set post"
    using indexed_erase[OF assms Some] by metis
  obtain v where "x = (k, v)" using l'(3) by (cases x) auto
  then have "filter (\<lambda>p. fst p \<noteq> k) (sl_elems l) = pre @ post" using filter_key_split[OF l'(6,7)] l'(4) by simp
  then show ?thesis using Some l' by force
qed

lemma update_delete: "map_of (AList.update k v (AList.delete k m)) = map_of (AList.update k v m)"
  by (rule ext) (simp add: AList.update_conv' AList.delete_conv')

lemma xl_put_spec:
  assumes "xl_ok cap s"
  shows "\<exists>s'. xl_put s k v = Some (k \<notin> fst ` set (xl_get_list s), s') \<and> xl_ok cap s' \<and>
    xl_get_list s' = lru_spec_put cap k v (xl_get_list s)"
proof -
  let ?xs = "filter (\<lambda>p. fst p \<noteq> k) (xl_get_list s)"
  have ix: "indexed fst (xl_list s) (xl_map s)" and cap: "xl_capacity s = cap" "length (xl_get_list s) \<le> cap"
    using assms by (auto simp: xl_ok_def)
  obtain l1 where l1: "(case map_of (xl_map s) k of
        Some it \<Rightarrow> do { l \<leftarrow> sl_erase (xl_list s) it; Some (False, l, AList.delete k (xl_map s)) } | None \<Rightarrow> Some (True, xl_list s, xl_map s)) =
      Some (k \<notin> fst ` set (xl_get_list s), l1, AList.delete k (xl_map s))" "indexed fst l1 (AList.delete k (xl_map s))" "sl_elems l1 = ?xs"
    using xl_remove[OF ix, of k] by (auto simp: xl_get_list_def)
  obtain it l2 where p: "sl_push_front (k, v) l1 = (it, l2)" by fastforce
  have "fst (k, v) \<notin> fst ` set (sl_elems l1)" using l1(3) by auto
  note push = indexed_push[OF l1(2) this p]
  have sz: "sl_size l2 = Suc (length ?xs)" using push(2) l1(3) by (metis length_Cons length_map sl_elems_def sl_size_def)
  show ?thesis
  proof (cases "sl_size l2 > cap")
    case False
    then show ?thesis using l1 p push cap sz
      by (auto simp: xl_put_def xl_ok_def xl_get_list_def lru_spec_put_def)
  next
    case True
    have "sl_elems l2 \<noteq> []" using push(2) by simp
    from indexed_pop_back[OF push(1) this] obtain l3 x where l3: "sl_back l2 = Some x" "sl_pop_back l2 = Some l3"
      "indexed fst l3 (AList.delete (fst x) (AList.update (fst (k, v)) it (AList.delete k (xl_map s))))" "sl_elems l2 = sl_elems l3 @ [x]" by metis
    have "length ?xs \<le> cap" using cap(2) length_filter_le[of _ "xl_get_list s"] by (meson order_trans)
    then have len: "length (sl_elems l3) = cap" using l3(4) sz True by (simp add: sl_size_def sl_elems_def) (metis length_append_singleton length_map Suc_inject le_antisym less_Suc_eq_le)
    then have "sl_elems l3 = take cap ((k, v) # ?xs)" using l3(4) push(2) l1(3) by (metis append_eq_conv_conj)
    then show ?thesis using l1 p l3 cap True len by (auto simp: xl_put_def xl_ok_def xl_get_list_def lru_spec_put_def)
  qed
qed

lemma xl_get_spec:
  assumes "xl_ok cap s"
  shows "\<exists>s'. xl_get s k = Some (map_of (xl_get_list s) k, s') \<and> xl_ok cap s' \<and> xl_get_list s' = lru_spec_get k (xl_get_list s)"
proof (cases "map_of (xl_map s) k")
  case None
  then have "map_of (xl_get_list s) k = None"
    using assms indexed_None_iff[of fst "xl_list s"] by (simp add: xl_ok_def map_of_eq_None_iff xl_get_list_def)
  then show ?thesis using None assms by (simp add: xl_get_def lru_spec_get_def)
next
  case (Some it)
  have ix: "indexed fst (xl_list s) (xl_map s)" using assms by (simp add: xl_ok_def)
  obtain l pre x post where l: "sl_erase (xl_list s) it = Some l" "indexed fst l (AList.delete k (xl_map s))" "sl_deref (xl_list s) it = Some x" "fst x = k"
    "xl_get_list s = pre @ x # post" "sl_elems l = pre @ post" "k \<notin> fst ` set pre" "k \<notin> fst ` set post"
    using indexed_erase[OF ix Some] unfolding xl_get_list_def by metis
  obtain v where x: "x = (k, v)" using l(4) by (cases x) auto
  obtain it' l' where p: "sl_push_front x l = (it', l')" by fastforce
  have "fst x \<notin> fst ` set (sl_elems l)" using l(4,6,7,8) by auto
  note push = indexed_push[OF l(2) this p]
  have "indexed fst l' (AList.update k it' (xl_map s))"
    using push(1) ix unfolding l(4) indexed_def update_delete by (simp add: AList.distinct_update)
  moreover have "map_of (xl_get_list s) k = Some v" unfolding l(5) x using l(7) by (rule map_of_split)
  moreover have "filter (\<lambda>p. fst p \<noteq> k) (xl_get_list s) = pre @ post" unfolding l(5) x using l(7,8) by (rule filter_key_split)
  moreover have "length (sl_elems l') \<le> cap" using push(2) l(5,6) assms by (simp add: xl_ok_def)
  ultimately show ?thesis using Some l(1,3,6) x p push(2) assms
    by (auto simp: xl_get_def lru_spec_get_def xl_ok_def xl_get_list_def)
qed

definition xl_put_state :: "('k, 'v) xlru \<Rightarrow> 'k \<Rightarrow> 'v \<Rightarrow> ('k, 'v) xlru option" where
  "xl_put_state s k v = map_option snd (xl_put s k v)"

interpretation xl: lru_cache "Suc n" "xl_ok (Suc n)" xl_get_list xl_put_state xl_get for n
proof
  show "\<exists>s'. xl_put_state s k v = Some s' \<and> xl_ok (Suc n) s' \<and> xl_get_list s' = lru_spec_put (Suc n) k v (xl_get_list s)"
    if "xl_ok (Suc n) s" for s :: "('k, 'v) xlru" and k v using xl_put_spec[OF that, of k v] by (auto simp: xl_put_state_def)
  show "\<exists>s'. xl_get s k = Some (map_of (xl_get_list s) k, s') \<and> xl_ok (Suc n) s' \<and> xl_get_list s' = lru_spec_get k (xl_get_list s)"
    if "xl_ok (Suc n) s" for s :: "('k, 'v) xlru" and k using xl_get_spec[OF that] .
qed (auto simp: xl_ok_def xl_get_list_def indexed_def)

section \<open>Properties\<close>

text \<open>
  C21: in an \<^verbatim>\<open>LRUCache\<close> of positive capacity, a key that was written is still read back with its value
  after any operations on fewer than \<open>capacity\<close> other keys; nothing on the way is undefined.
\<close>

theorem lru_hit_guarantee:
  assumes "lru_ok (Suc n) s" "k \<notin> op_key ` set cs" "card (op_key ` set cs) < Suc n"
  shows "\<exists>s1 s2 s3. lru_put s k v = Some s1 \<and> cache_run lru_put lru_get cs s1 = Some s2 \<and> lru_get s2 k = Some (Some v, s3)"
  using assms by (rule lc.hit_guarantee)

theorem lru_hit_guarantee_witness:
  "\<exists>s1 s2 s3. lru_put (LRUCache 2) ''a'' (1 :: int) = Some s1 \<and>
    cache_run lru_put lru_get [Put ''b'' 2, Get ''b'', Put ''b'' 3] s1 = Some s2 \<and> lru_get s2 ''a'' = Some (Some 1, s3)"
  using lru_hit_guarantee[of 1 "LRUCache 2" "''a''" "[Put ''b'' 2, Get ''b'', Put ''b'' 3]" 1] lru_ok_new[of 2]
  by (simp add: numeral_2_eq_2)

text \<open>
  C22: \<^verbatim>\<open>xlab::lru\<close> implements the recency list, at every capacity: \<^verbatim>\<open>put\<close> reports whether the key is new and leaves the
  \<open>capacity\<close> most recent pairs, and \<^verbatim>\<open>get\<close> moves its key to the front and changes nothing on a miss.
\<close>

theorem xl_refines_lru:
  assumes "xl_ok cap s"
  shows "(\<exists>s'. xl_put s k v = Some (k \<notin> fst ` set (xl_get_list s), s') \<and> xl_ok cap s' \<and>
      xl_get_list s' = take cap ((k, v) # filter (\<lambda>p. fst p \<noteq> k) (xl_get_list s))) \<and>
    (\<exists>s'. xl_get s k = Some (map_of (xl_get_list s) k, s') \<and> xl_ok cap s' \<and>
      xl_get_list s' = (case map_of (xl_get_list s) k of None \<Rightarrow> xl_get_list s
        | Some v \<Rightarrow> (k, v) # filter (\<lambda>p. fst p \<noteq> k) (xl_get_list s)))"
  using xl_put_spec[OF assms] xl_get_spec[OF assms] unfolding lru_spec_put_def lru_spec_get_def by blast

theorem xl_refines_lru_witness:
  "xl_ok 3 (lru 3) \<and> (\<exists>s'. xl_put (lru 3) ''xlab'' (1 :: int) = Some (True, s') \<and> xl_get_list s' = [(''xlab'', 1)])"
proof -
  have "xl_get_list (lru 3) = ([] :: (string \<times> int) list)" by (simp add: xl_get_list_def lru_def sl_elems_def sl_new_def)
  then show ?thesis
    using xl_refines_lru[OF xl_ok_new, of 3 "''xlab''" "1 :: int"] xl_ok_new[of 3] by auto
qed

end
