(* ===== verification/Frequency_Caches.thy ===== *)
theory Frequency_Caches
  imports Lru_Caches
begin

text \<open>
  \<^verbatim>\<open>LRUKCache\<close> and \<^verbatim>\<open>LFUCache\<close> of \<^verbatim>\<open>src/cc/algo/src/algo/algo_cache.cc\<close>.  Iterators are node identities;
  a splice of a node that is not in the source list, and a step before the first node of a list, are undefined
  and give \<^const>\<open>None\<close>.  The LRU-K cache is a recency list until a promotion, which splices from the
  wrong list; the LFU cache evicts a key of least frequency, and its \<^verbatim>\<open>get\<close> steps before a list's first node.
\<close>

section \<open>LRUKCache\<close>

datatype NodeType = HISTORY | CACHE

record ('k, 'v) lruk_node =
  nd_key :: 'k
  nd_value :: 'v
  nd_count :: nat
  nd_timestamp :: nat

record ('k, 'v) lruk =
  lk_capacity :: nat
  lk_k :: nat
  lk_access_count :: nat
  lk_history :: "('k, 'v) lruk_node stl_list"
  lk_cache :: "('k, 'v) lruk_node stl_list"
  lk_map :: "('k \<times> NodeType \<times> nat) list"

definition LRUKCache :: "nat \<Rightarrow> nat \<Rightarrow> ('k, 'v) lruk" where
  "LRUKCache capacity k = \<lparr>lk_capacity = capacity, lk_k = k, lk_access_count = 0, lk_history = sl_new,
     lk_cache = sl_new, lk_map = []\<rparr>"

definition lk_total_size :: "('k, 'v) lruk \<Rightarrow> nat" where
  "lk_total_size s = sl_size (lk_history s) + sl_size (lk_cache s)"

definition lk_deref :: "('k, 'v) lruk \<Rightarrow> NodeType \<Rightarrow> nat \<Rightarrow> ('k, 'v) lruk_node option" where
  "lk_deref s type it = (case type of HISTORY \<Rightarrow> sl_deref (lk_history s) it | CACHE \<Rightarrow> sl_deref (lk_cache s) it)"

definition lk_assign :: "('k, 'v) lruk \<Rightarrow> NodeType \<Rightarrow> nat \<Rightarrow> ('k, 'v) lruk_node \<Rightarrow> ('k, 'v) lruk option" where
  "lk_assign s type it n = (case type of
      HISTORY \<Rightarrow> do { l \<leftarrow> sl_assign (lk_history s) it n; Some (s\<lparr>lk_history := l\<rparr>) }
    | CACHE \<Rightarrow> do { l \<leftarrow> sl_assign (lk_cache s) it n; Some (s\<lparr>lk_cache := l\<rparr>) })"

text \<open>The promotion passes the iterator of the history list to a splice within the cache list.\<close>

definition handle_access :: "('k, 'v) lruk \<Rightarrow> NodeType \<Rightarrow> nat \<Rightarrow> 'k \<Rightarrow> 'v \<Rightarrow> ('k, 'v) lruk option" where
  "handle_access s type it key value = do {
     node \<leftarrow> lk_deref s type it;
     let node = node\<lparr>nd_value := value, nd_count := nd_count node + 1, nd_timestamp := lk_access_count s\<rparr>;
     s \<leftarrow> lk_assign s type it node;
     let s = s\<lparr>lk_access_count := lk_access_count s + 1\<rparr>;
     if type = HISTORY \<and> nd_count node \<ge> lk_k s then do {
       l \<leftarrow> sl_splice_front (lk_cache s) it;
       Some (s\<lparr>lk_cache := l, lk_map := AList.update key (CACHE, it) (lk_map s)\<rparr>)}
     else if type = HISTORY then do {
       l \<leftarrow> sl_splice_front (lk_history s) it;
       Some (s\<lparr>lk_history := l\<rparr>)}
     else do {
       l \<leftarrow> sl_splice_front (lk_cache s) it;
       Some (s\<lparr>lk_cache := l\<rparr>)}}"

definition lk_evict :: "('k, 'v) lruk \<Rightarrow> ('k, 'v) lruk option" where
  "lk_evict s =
     (if sl_nodes (lk_history s) \<noteq> [] then do {
        oldest \<leftarrow> sl_back (lk_history s);
        l \<leftarrow> sl_pop_back (lk_history s);
        Some (s\<lparr>lk_map := AList.delete (nd_key oldest) (lk_map s), lk_history := l\<rparr>)}
      else if sl_nodes (lk_cache s) \<noteq> [] then do {
        oldest \<leftarrow> sl_back (lk_cache s);
        l \<leftarrow> sl_pop_back (lk_cache s);
        Some (s\<lparr>lk_map := AList.delete (nd_key oldest) (lk_map s), lk_cache := l\<rparr>)}
      else Some s)"

definition lk_put :: "('k, 'v) lruk \<Rightarrow> 'k \<Rightarrow> 'v \<Rightarrow> ('k, 'v) lruk option" where
  "lk_put s key value =
     (case map_of (lk_map s) key of
        Some (type, it) \<Rightarrow> handle_access s type it key value
      | None \<Rightarrow> do {
          s \<leftarrow> (if lk_total_size s \<ge> lk_capacity s then lk_evict s else Some s);
          let (it, l) = sl_push_front \<lparr>nd_key = key, nd_value = value, nd_count = 1, nd_timestamp = lk_access_count s\<rparr> (lk_history s);
          Some (s\<lparr>lk_history := l, lk_access_count := lk_access_count s + 1, lk_map := AList.update key (HISTORY, it) (lk_map s)\<rparr>)})"

definition lk_get :: "('k, 'v) lruk \<Rightarrow> 'k \<Rightarrow> ('v option \<times> ('k, 'v) lruk) option" where
  "lk_get s key =
     (case map_of (lk_map s) key of
        None \<Rightarrow> Some (None, s)
      | Some (type, it) \<Rightarrow> do {
          node \<leftarrow> lk_deref s type it;
          s \<leftarrow> handle_access s type it key (nd_value node);
          Some (Some (nd_value node), s)})"

definition lk_contains :: "('k, 'v) lruk \<Rightarrow> 'k \<Rightarrow> bool" where
  "lk_contains s key \<longleftrightarrow> map_of (lk_map s) key \<noteq> None"

text \<open>The reachable states: the cache list is empty, and the map is an index of the history list.\<close>

definition lk_ok :: "('k, 'v) lruk \<Rightarrow> bool" where
  "lk_ok s \<longleftrightarrow> sl_nodes (lk_cache s) = [] \<and>
     (\<exists>ix. lk_map s = map (\<lambda>(k, it). (k, HISTORY, it)) ix \<and> indexed nd_key (lk_history s) ix)"

definition lk_entries :: "('k, 'v) lruk \<Rightarrow> ('k \<times> 'v \<times> nat) list" where
  "lk_entries s = map (\<lambda>n. (nd_key n, nd_value n, nd_count n)) (sl_elems (lk_history s))"

lemma lk_ok_new: "lk_ok (LRUKCache c k)"
  by (auto simp: lk_ok_def LRUKCache_def sl_new_def indexed_new[unfolded sl_new_def])

lemma update_HISTORY: "AList.update k (HISTORY, it) (map (\<lambda>(k, it). (k, HISTORY, it)) ix) = map (\<lambda>(k, it). (k, HISTORY, it)) (AList.update k it ix)"
  by (induction ix) auto

lemma delete_HISTORY: "AList.delete k (map (\<lambda>(k, it). (k, HISTORY, it)) ix) = map (\<lambda>(k, it). (k, HISTORY, it)) (AList.delete k ix)"
  by (induction ix) (auto simp: AList.delete_eq)

lemma map_of_HISTORY: "map_of (map (\<lambda>(k, it). (k, HISTORY, it)) ix) k = map_option (Pair HISTORY) (map_of ix k)"
  by (induction ix) auto

lemma handle_access_spec:
  assumes "sl_nodes (lk_cache s) = []" "lk_map s = map (\<lambda>(k, it). (k, HISTORY, it)) ix" "indexed nd_key (lk_history s) ix"
    "map_of ix key = Some it"
  obtains node pre post where "sl_deref (lk_history s) it = Some node" "nd_key node = key" "sl_elems (lk_history s) = pre @ node # post"
    "key \<notin> nd_key ` set pre" "key \<notin> nd_key ` set post"
    "if nd_count node + 1 < lk_k s then \<exists>s'. handle_access s HISTORY it key v = Some s' \<and> lk_ok s' \<and>
        lk_k s' = lk_k s \<and> lk_entries s' = (key, v, nd_count node + 1) # map (\<lambda>n. (nd_key n, nd_value n, nd_count n)) (pre @ post)
        else handle_access s HISTORY it key v = None"
proof -
  obtain l0 pre node post where n: "sl_deref (lk_history s) it = Some node" "nd_key node = key"
    "sl_elems (lk_history s) = pre @ node # post" "key \<notin> nd_key ` set pre" "key \<notin> nd_key ` set post"
    using indexed_splice[OF assms(3,4)] by metis
  let ?node = "node\<lparr>nd_value := v, nd_count := nd_count node + 1, nd_timestamp := lk_access_count s\<rparr>"
  have "nd_key ?node = key" using n(2) by simp
  then obtain l1 pre1 x1 post1 where l1: "sl_assign (lk_history s) it ?node = Some l1" "indexed nd_key l1 ix" "nd_key x1 = key"
    "sl_elems (lk_history s) = pre1 @ x1 # post1" "sl_elems l1 = pre1 @ ?node # post1" "key \<notin> nd_key ` set pre1" "key \<notin> nd_key ` set post1"
    using indexed_assign[OF assms(3,4)] by metis
  obtain l2 pre2 x2 post2 where l2: "sl_splice_front l1 it = Some l2" "indexed nd_key l2 ix" "nd_key x2 = key"
    "sl_elems l1 = pre2 @ x2 # post2" "sl_elems l2 = x2 # pre2 @ post2" "key \<notin> nd_key ` set pre2" "key \<notin> nd_key ` set post2"
    using indexed_splice[OF l1(2) assms(4)] by metis
  have uniq: "a = a' \<and> x = x' \<and> b = b'" if "a @ x # b = a' @ x' # b'" "nd_key x = key" "nd_key x' = key" "key \<notin> nd_key ` set a" "key \<notin> nd_key ` set a'"
    for a b a' b' and x x' :: "('a, 'b) lruk_node"
    using that by (induction a arbitrary: a') (auto simp: Cons_eq_append_conv)
  have e1: "pre1 = pre" "post1 = post" using uniq[of pre node post pre1 x1 post1] n l1 by auto
  have e2: "pre2 = pre" "x2 = ?node" "post2 = post" using uniq[of pre2 x2 post2 pre1 ?node post1] l1 l2 e1 n(2) by auto
  have "handle_access s HISTORY it key v = None" if "lk_k s \<le> nd_count node + 1"
    using that n(1) l1(1) assms(1) by (simp add: handle_access_def lk_deref_def lk_assign_def sl_splice_front_def sl_deref_def)
  moreover have "\<exists>s'. handle_access s HISTORY it key v = Some s' \<and> lk_ok s' \<and> lk_k s' = lk_k s \<and>
      lk_entries s' = (key, v, nd_count node + 1) # map (\<lambda>n. (nd_key n, nd_value n, nd_count n)) (pre @ post)"
    if "nd_count node + 1 < lk_k s"
    using that n(1,2) l1(1) l2(1,2,5) assms(1,2) unfolding e2
    by (auto simp: handle_access_def lk_deref_def lk_assign_def lk_ok_def lk_entries_def)
  ultimately have "if nd_count node + 1 < lk_k s then \<exists>s'. handle_access s HISTORY it key v = Some s' \<and> lk_ok s' \<and>
        lk_k s' = lk_k s \<and> lk_entries s' = (key, v, nd_count node + 1) # map (\<lambda>n. (nd_key n, nd_value n, nd_count n)) (pre @ post)
      else handle_access s HISTORY it key v = None" by (simp add: not_less)
  then show ?thesis using that[OF n] by blast
qed

text \<open>
  In every state the operations reach, a \<^verbatim>\<open>get\<close> of an absent key changes nothing; of a key accessed
  fewer than \<open>k - 1\<close> times it returns the value, counts the access and makes the key most recent; and the access
  that completes \<open>k\<close> accesses, the promotion, is undefined.
\<close>

lemma lk_get_law:
  assumes "lk_ok s"
  shows "case map_of (lk_entries s) key of
      None \<Rightarrow> lk_get s key = Some (None, s)
    | Some (v, c) \<Rightarrow> if c + 1 < lk_k s
        then \<exists>s'. lk_get s key = Some (Some v, s') \<and> lk_ok s' \<and>
          lk_entries s' = (key, v, c + 1) # filter (\<lambda>e. fst e \<noteq> key) (lk_entries s)
        else lk_get s key = None"
proof -
  obtain ix where ix: "lk_map s = map (\<lambda>(k, it). (k, HISTORY, it)) ix" "indexed nd_key (lk_history s) ix" "sl_nodes (lk_cache s) = []"
    using assms by (auto simp: lk_ok_def)
  show ?thesis
  proof (cases "map_of ix key")
    case None
    then have "key \<notin> nd_key ` set (sl_elems (lk_history s))" using indexed_None_iff[OF ix(2)] by blast
    then have "map_of (lk_entries s) key = None" by (force simp: lk_entries_def map_of_eq_None_iff)
    then show ?thesis using None by (simp add: lk_get_def ix(1) map_of_HISTORY)
  next
    case (Some it)
    obtain node where d: "sl_deref (lk_history s) it = Some node" using indexed_splice[OF ix(2) Some] by metis
    obtain node2 pre post where n2: "sl_deref (lk_history s) it = Some node2" "nd_key node2 = key" "sl_elems (lk_history s) = pre @ node2 # post"
      "key \<notin> nd_key ` set pre" "key \<notin> nd_key ` set post"
      "if nd_count node2 + 1 < lk_k s then \<exists>s'. handle_access s HISTORY it key (nd_value node) = Some s' \<and> lk_ok s' \<and>
          lk_k s' = lk_k s \<and> lk_entries s' = (key, nd_value node, nd_count node2 + 1) # map (\<lambda>n. (nd_key n, nd_value n, nd_count n)) (pre @ post)
        else handle_access s HISTORY it key (nd_value node) = None"
      by (rule handle_access_spec[OF ix(3,1,2) Some, of "nd_value node"]) (rule that; assumption)
    have "node2 = node" using d n2(1) by simp
    note n = n2[unfolded this]
    let ?e = "map (\<lambda>n. (nd_key n, nd_value n, nd_count n))"
    have k: "key \<notin> fst ` set (?e pre)" "key \<notin> fst ` set (?e post)" using n(4,5) by force+
    have ent: "lk_entries s = ?e pre @ (key, nd_value node, nd_count node) # ?e post" using n(2,3) by (simp add: lk_entries_def)
    have "map_of (lk_entries s) key = Some (nd_value node, nd_count node)" unfolding ent by (rule map_of_split[OF k(1)])
    moreover have "filter (\<lambda>e. fst e \<noteq> key) (lk_entries s) = ?e (pre @ post)" unfolding ent using filter_key_split[OF k] by simp
    ultimately show ?thesis using n Some by (auto simp: lk_get_def ix(1) map_of_HISTORY lk_deref_def split: if_splits)
  qed
qed

lemma lk_put_new:
  assumes "lk_ok s" "map_of (lk_entries s) key = None" "0 < lk_capacity s" "length (lk_entries s) \<le> lk_capacity s"
  shows "\<exists>s'. lk_put s key v = Some s' \<and> lk_ok s' \<and> lk_k s' = lk_k s \<and> lk_capacity s' = lk_capacity s \<and>
    lk_entries s' = (key, v, 1) # take (lk_capacity s - 1) (lk_entries s)"
proof -
  obtain ix where ix: "lk_map s = map (\<lambda>(k, it). (k, HISTORY, it)) ix" "indexed nd_key (lk_history s) ix" "sl_nodes (lk_cache s) = []"
    using assms(1) by (auto simp: lk_ok_def)
  have notin: "key \<notin> nd_key ` set (sl_elems (lk_history s))"
    using assms(2) by (force simp: lk_entries_def map_of_eq_None_iff)
  have len: "length (lk_entries s) = length (sl_elems (lk_history s))" "lk_total_size s = length (lk_entries s)"
    using ix(3) by (simp_all add: lk_entries_def lk_total_size_def sl_size_def sl_elems_def)
  obtain l1 ix1 where s1: "(if lk_total_size s \<ge> lk_capacity s then lk_evict s else Some s) =
      Some (s\<lparr>lk_map := map (\<lambda>(k, it). (k, HISTORY, it)) ix1, lk_history := l1\<rparr>)"
    "indexed nd_key l1 ix1" "sl_elems l1 = take (lk_capacity s - 1) (sl_elems (lk_history s))"
  proof (cases "lk_total_size s \<ge> lk_capacity s")
    case True
    then have ne: "sl_elems (lk_history s) \<noteq> []" using assms(3) len by auto
    then have ne': "sl_nodes (lk_history s) \<noteq> []" by (auto simp: sl_elems_def)
    from indexed_pop_back[OF ix(2) ne] obtain l' x where x: "sl_back (lk_history s) = Some x" "sl_pop_back (lk_history s) = Some l'"
      "indexed nd_key l' (AList.delete (nd_key x) ix)" "sl_elems (lk_history s) = sl_elems l' @ [x]" by metis
    moreover have "lk_capacity s - 1 = length (sl_elems l')" using True assms(4) len x(4) by simp
    ultimately show ?thesis using that[of l' "AList.delete (nd_key x) ix"] True ne' ix(1)
      by (simp add: lk_evict_def delete_HISTORY)
  next
    case False
    have "s\<lparr>lk_map := map (\<lambda>(k, it). (k, HISTORY, it)) ix, lk_history := lk_history s\<rparr> = s" using ix(1) by simp
    then show ?thesis using that[of "lk_history s" ix] False ix(2) len by simp
  qed
  let ?n = "\<lparr>nd_key = key, nd_value = v, nd_count = 1, nd_timestamp = lk_access_count s\<rparr>"
  obtain it l2 where p: "sl_push_front ?n l1 = (it, l2)" by fastforce
  have "nd_key ?n \<notin> nd_key ` set (sl_elems l1)" using notin s1(3) by (auto dest: in_set_takeD)
  note push = indexed_push[OF s1(2) this p]
  have "map_of ix key = None" using notin indexed_None_iff[OF ix(2)] by blast
  then have "map_of (lk_map s) key = None" by (simp add: ix(1) map_of_HISTORY)
  then have "lk_put s key v = Some (s\<lparr>lk_map := map (\<lambda>(k, it). (k, HISTORY, it)) (AList.update key it ix1), lk_history := l2,
      lk_access_count := lk_access_count s + 1\<rparr>)"
    using s1(1) p by (simp add: lk_put_def update_HISTORY)
  moreover have "(\<lambda>(k, it). (k, HISTORY, it)) = (\<lambda>p. (fst p, HISTORY, snd p))" by auto
  ultimately show ?thesis using push s1(3) ix(3) by (auto simp: lk_ok_def lk_entries_def take_map)
qed

section \<open>LFUCache\<close>

text \<open>Lists per frequency, created empty on first access (\<^verbatim>\<open>operator[]\<close>); nodes carry the pair pushed at insertion.\<close>

record ('k, 'v) lfu =
  lf_capacity :: nat
  lf_min_freq :: nat
  lf_nodes :: "('k \<times> 'v \<times> nat \<times> nat) list"
  lf_lists :: "(nat \<times> (nat \<times> 'k \<times> 'v) list) list"
  lf_fresh :: nat

definition LFUCache :: "nat \<Rightarrow> ('k, 'v) lfu" where
  "LFUCache capacity = \<lparr>lf_capacity = capacity, lf_min_freq = 0, lf_nodes = [], lf_lists = [], lf_fresh = 0\<rparr>"

definition lf_list :: "(nat \<times> (nat \<times> 'k \<times> 'v) list) list \<Rightarrow> nat \<Rightarrow> (nat \<times> 'k \<times> 'v) list" where
  "lf_list ls f = (case map_of ls f of None \<Rightarrow> [] | Some l \<Rightarrow> l)"

text \<open>The node of iterator \<open>it\<close> moves from list \<open>f\<close> to the front of list \<open>f + 1\<close>.\<close>

definition lf_promote :: "(nat \<times> (nat \<times> 'k \<times> 'v) list) list \<Rightarrow> nat \<Rightarrow> nat \<Rightarrow> (nat \<times> (nat \<times> 'k \<times> 'v) list) list option" where
  "lf_promote ls f it = do {
     p \<leftarrow> map_of (lf_list ls f) it;
     Some (AList.update f (filter (\<lambda>n. fst n \<noteq> it) (lf_list ls f)) (AList.update (f + 1) ((it, p) # lf_list ls (f + 1)) ls))}"

definition lf_cleanup :: "('k, 'v) lfu \<Rightarrow> nat \<Rightarrow> ('k, 'v) lfu" where
  "lf_cleanup s old_freq =
     (if lf_list (lf_lists s) old_freq = [] then
        s\<lparr>lf_lists := AList.delete old_freq (lf_lists s),
          lf_min_freq := (if lf_min_freq s = old_freq then old_freq + 1 else lf_min_freq s)\<rparr>
      else s)"

definition lf_evict :: "('k, 'v) lfu \<Rightarrow> ('k, 'v) lfu option" where
  "lf_evict s =
     (let evict_list = lf_list (lf_lists s) (lf_min_freq s) in
      if evict_list = [] then None
      else (let (_, key, _) = last evict_list; rest = butlast evict_list;
                lists = AList.update (lf_min_freq s) rest (lf_lists s)
            in Some (s\<lparr>lf_nodes := AList.delete key (lf_nodes s),
                 lf_lists := (if rest = [] then AList.delete (lf_min_freq s) lists else lists)\<rparr>)))"

definition lf_put :: "('k, 'v) lfu \<Rightarrow> 'k \<Rightarrow> 'v \<Rightarrow> ('k, 'v) lfu option" where
  "lf_put s key value =
     (if lf_capacity s = 0 then Some s
      else case map_of (lf_nodes s) key of
        Some (_, freq, it) \<Rightarrow> do {
          lists \<leftarrow> lf_promote (lf_lists s) freq it;
          Some (lf_cleanup (s\<lparr>lf_nodes := AList.update key (value, freq + 1, it) (lf_nodes s), lf_lists := lists\<rparr>) freq)}
      | None \<Rightarrow> do {
          s \<leftarrow> (if length (lf_nodes s) \<ge> lf_capacity s then lf_evict s else Some s);
          let it = lf_fresh s;
          Some (s\<lparr>lf_lists := AList.update 1 ((it, key, value) # lf_list (lf_lists s) 1) (lf_lists s),
            lf_nodes := AList.update key (value, 1, it) (lf_nodes s), lf_fresh := it + 1, lf_min_freq := 1\<rparr>)})"

text \<open>\<^verbatim>\<open>get\<close> stores \<^verbatim>\<open>std::prev(begin())\<close> of the list that just received the node: the iterator before the first node.\<close>

definition lf_prev_begin :: "(nat \<times> 'k \<times> 'v) list \<Rightarrow> nat option" where
  "lf_prev_begin l = None"

definition lf_get :: "('k, 'v) lfu \<Rightarrow> 'k \<Rightarrow> ('v option \<times> ('k, 'v) lfu) option" where
  "lf_get s key =
     (case map_of (lf_nodes s) key of
        None \<Rightarrow> Some (None, s)
      | Some (value, old_freq, it) \<Rightarrow> do {
          lists \<leftarrow> lf_promote (lf_lists s) old_freq it;
          it \<leftarrow> lf_prev_begin (lf_list lists (old_freq + 1));
          let s = s\<lparr>lf_nodes := AList.update key (value, old_freq + 1, it) (lf_nodes s), lf_lists := lists\<rparr>;
          Some (Some value, lf_cleanup s old_freq)})"

definition lf_contains :: "('k, 'v) lfu \<Rightarrow> 'k \<Rightarrow> bool" where
  "lf_contains s key \<longleftrightarrow> map_of (lf_nodes s) key \<noteq> None"

definition lf_inv :: "('k \<rightharpoonup> 'v \<times> nat \<times> nat) \<Rightarrow> (nat \<Rightarrow> (nat \<times> 'k \<times> 'v) list) \<Rightarrow> nat \<Rightarrow> bool" where
  "lf_inv nm ls fresh \<longleftrightarrow>
     (\<forall>k v f it. nm k = Some (v, f, it) \<longrightarrow> 1 \<le> f \<and> (\<exists>w. (it, k, w) \<in> set (ls f))) \<and>
     (\<forall>f it k w. (it, k, w) \<in> set (ls f) \<longrightarrow> it < fresh \<and> (\<exists>v. nm k = Some (v, f, it))) \<and>
     (\<forall>f f' it k k' w w'. (it, k, w) \<in> set (ls f) \<longrightarrow> (it, k', w') \<in> set (ls f') \<longrightarrow> k = k') \<and>
     (\<forall>f. distinct (map fst (ls f)))"

definition lf_ok :: "('k, 'v) lfu \<Rightarrow> bool" where
  "lf_ok s \<longleftrightarrow> distinct (map fst (lf_nodes s)) \<and> length (lf_nodes s) \<le> lf_capacity s \<and>
     lf_inv (map_of (lf_nodes s)) (lf_list (lf_lists s)) (lf_fresh s) \<and>
     (lf_nodes s \<noteq> [] \<longrightarrow> lf_list (lf_lists s) (lf_min_freq s) \<noteq> [] \<and> (\<forall>f. lf_list (lf_lists s) f \<noteq> [] \<longrightarrow> lf_min_freq s \<le> f))"

lemma lf_list_update [simp]: "lf_list (AList.update f l ls) = (lf_list ls)(f := l)"
  by (rule ext) (simp add: lf_list_def AList.update_conv')

lemma lf_list_delete [simp]: "lf_list (AList.delete f ls) = (lf_list ls)(f := [])"
  by (rule ext) (simp add: lf_list_def AList.delete_conv')

lemma lf_ok_new: "lf_ok (LFUCache c)"
  by (simp add: lf_ok_def LFUCache_def lf_inv_def lf_list_def)

lemma lf_invD:
  assumes "lf_inv nm ls fresh"
  shows "nm k = Some (v, f, it) \<Longrightarrow> 1 \<le> f" "nm k = Some (v, f, it) \<Longrightarrow> \<exists>w. (it, k, w) \<in> set (ls f)"
    "(it, k, w) \<in> set (ls f) \<Longrightarrow> it < fresh" "(it, k, w) \<in> set (ls f) \<Longrightarrow> \<exists>v. nm k = Some (v, f, it)"
    "(it, k, w) \<in> set (ls f) \<Longrightarrow> (it, k', w') \<in> set (ls f') \<Longrightarrow> k = k'" "distinct (map fst (ls f))"
  using assms unfolding lf_inv_def by meson+

lemma lf_invI:
  assumes "\<And>k v f it. nm k = Some (v, f, it) \<Longrightarrow> 1 \<le> f \<and> (\<exists>w. (it, k, w) \<in> set (ls f))"
    "\<And>it k w f. (it, k, w) \<in> set (ls f) \<Longrightarrow> it < fresh" "\<And>it k w f. (it, k, w) \<in> set (ls f) \<Longrightarrow> \<exists>v. nm k = Some (v, f, it)"
    "\<And>it k w f k' w' f'. (it, k, w) \<in> set (ls f) \<Longrightarrow> (it, k', w') \<in> set (ls f') \<Longrightarrow> k = k'" "\<And>f. distinct (map fst (ls f))"
  shows "lf_inv nm ls fresh"
  using assms unfolding lf_inv_def by blast

lemma lf_node_unique:
  assumes "lf_inv nm ls fresh" "(it, k, w) \<in> set (ls f)" "(it', k, w') \<in> set (ls f')"
  shows "it = it' \<and> f = f' \<and> w = w'"
proof -
  from assms obtain v v' where "nm k = Some (v, f, it)" "nm k = Some (v', f', it')" using lf_invD(4) by metis
  then have eq: "it = it'" "f = f'" by simp_all
  then show ?thesis using assms(2,3) eq_key_imp_eq_value[OF lf_invD(6)[OF assms(1), of f]] by blast
qed

lemma lf_inv_insert:
  assumes "lf_inv nm ls fresh" "nm k = None"
  shows "lf_inv (nm(k \<mapsto> (v, 1, fresh))) (ls(1 := (fresh, k, v) # ls 1)) (fresh + 1)" (is "lf_inv ?nm ?ls _")
proof (rule lf_invI)
  have nk: "k' \<noteq> k" if "(it, k', w) \<in> set (ls f)" for f it k' w
    using lf_invD(4)[OF assms(1) that] assms(2) by auto
  have nf: "it \<noteq> fresh" if "(it, k', w) \<in> set (ls f)" for f it k' w
    using lf_invD(3)[OF assms(1) that] by simp
  have cases: "(it, k', w) \<in> set (ls f) \<or> (it, k', w, f) = (fresh, k, v, 1)" if "(it, k', w) \<in> set (?ls f)" for it k' w f
    using that by (auto split: if_splits)
  show "1 \<le> f \<and> (\<exists>w. (it, k', w) \<in> set (?ls f))" if "?nm k' = Some (v', f, it)" for k' v' f it
    using that lf_invD(1,2)[OF assms(1), of k' v' f it] by (auto split: if_splits)
  show "it < fresh + 1" if "(it, k', w) \<in> set (?ls f)" for it k' w f
    using cases[OF that] lf_invD(3)[OF assms(1), of it k' w f] by auto
  show "\<exists>v. ?nm k' = Some (v, f, it)" if "(it, k', w) \<in> set (?ls f)" for it k' w f
    using cases[OF that] nk lf_invD(4)[OF assms(1), of it k' w f] by auto
  show "k1 = k2" if "(it, k1, w1) \<in> set (?ls f1)" "(it, k2, w2) \<in> set (?ls f2)" for it k1 w1 f1 k2 w2 f2
    using cases[OF that(1)] cases[OF that(2)] nf lf_invD(5)[OF assms(1)] by (auto dest: nf)
  show "distinct (map fst (?ls f))" for f
    using lf_invD(6)[OF assms(1)] nf by force
qed

lemma lf_inv_remove:
  assumes "lf_inv nm ls fresh" "ls f = l @ [(it, k, w)]"
  shows "lf_inv (nm(k := None)) (ls(f := l)) fresh" (is "lf_inv ?nm ?ls _")
proof (rule lf_invI)
  have mem: "(it, k, w) \<in> set (ls f)" using assms(2) by simp
  have sub: "(it', k', w') \<in> set (ls f')" if "(it', k', w') \<in> set (?ls f')" for it' k' w' f'
    using that assms(2) by (auto split: if_splits)
  have nl: "it \<notin> fst ` set l" using lf_invD(6)[OF assms(1), of f] assms(2) by auto
  have uk: "k' \<noteq> k" if m: "(it', k', w') \<in> set (?ls f')" for it' k' w' f'
    using lf_node_unique[OF assms(1) mem, of it' w' f'] sub[OF m] nl m by force
  show "1 \<le> f' \<and> (\<exists>w. (it', k', w) \<in> set (?ls f'))" if "?nm k' = Some (v', f', it')" for k' v' f' it'
    using that lf_invD(1,2)[OF assms(1), of k' v' f' it'] assms(2) by (auto split: if_splits)
  show "it' < fresh" if "(it', k', w') \<in> set (?ls f')" for it' k' w' f'
    using sub[OF that] lf_invD(3)[OF assms(1)] by blast
  show "\<exists>v. ?nm k' = Some (v, f', it')" if "(it', k', w') \<in> set (?ls f')" for it' k' w' f'
    using sub[OF that] uk[OF that] lf_invD(4)[OF assms(1)] by auto
  show "k1 = k2" if "(i, k1, w1) \<in> set (?ls f1)" "(i, k2, w2) \<in> set (?ls f2)" for i k1 w1 f1 k2 w2 f2
    using sub that lf_invD(5)[OF assms(1)] by blast
  show "distinct (map fst (?ls f'))" for f'
    using lf_invD(6)[OF assms(1), of f'] lf_invD(6)[OF assms(1), of f] assms(2) by auto
qed

lemma lf_inv_promote:
  assumes "lf_inv nm ls fresh" "nm k = Some (v0, f, it)"
  obtains w where "map_of (ls f) it = Some (k, w)"
    "lf_inv (nm(k \<mapsto> (v, f + 1, it))) (ls(f + 1 := (it, k, w) # ls (f + 1), f := filter (\<lambda>n. fst n \<noteq> it) (ls f))) fresh"
proof -
  obtain w where w: "(it, k, w) \<in> set (ls f)" using lf_invD(2)[OF assms] by blast
  have m: "map_of (ls f) it = Some (k, w)" using w lf_invD(6)[OF assms(1)] by (intro map_of_is_SomeI) auto
  let ?nm = "nm(k \<mapsto> (v, f + 1, it))"
  let ?ls = "ls(f + 1 := (it, k, w) # ls (f + 1), f := filter (\<lambda>n. fst n \<noteq> it) (ls f))"
  have cases: "(it', k', w') \<in> set (ls f') \<and> k' \<noteq> k \<and> it' \<noteq> it \<or> (it', k', w', f') = (it, k, w, f + 1)" if "(it', k', w') \<in> set (?ls f')" for it' k' w' f'
    using that lf_node_unique[OF assms(1) w, of it' w' f'] lf_invD(5)[OF assms(1) w, of k' w' f'] by (auto split: if_splits)
  have fresh1: "it \<notin> fst ` set (ls (f + 1))"
  proof
    assume "it \<in> fst ` set (ls (f + 1))"
    then obtain k' w' where a: "(it, k', w') \<in> set (ls (f + 1))" by auto
    then have "k' = k" using lf_invD(5)[OF assms(1) w] by blast
    then show False using lf_node_unique[OF assms(1) w, of it w' "f + 1"] a by simp
  qed
  have "lf_inv ?nm ?ls fresh"
  proof (rule lf_invI)
    show "1 \<le> f' \<and> (\<exists>w. (it', k', w) \<in> set (?ls f'))" if "?nm k' = Some (v', f', it')" for k' v' f' it'
    proof (cases "k' = k")
      case False
      then have n: "nm k' = Some (v', f', it')" using that by simp
      obtain w' where w': "(it', k', w') \<in> set (ls f')" using lf_invD(2)[OF assms(1) n] by blast
      then have "it' \<noteq> it" using lf_invD(5)[OF assms(1) w] False by blast
      then have "(it', k', w') \<in> set (?ls f')" using w' by auto
      then show ?thesis using lf_invD(1)[OF assms(1) n] by blast
    qed (use that in auto)
    show "it' < fresh" if "(it', k', w') \<in> set (?ls f')" for it' k' w' f'
      using cases[OF that] lf_invD(3)[OF assms(1)] w by blast
    show "\<exists>v. ?nm k' = Some (v, f', it')" if "(it', k', w') \<in> set (?ls f')" for it' k' w' f'
      using cases[OF that] lf_invD(4)[OF assms(1), of it' k' w' f'] by auto
    show "k1 = k2" if "(i, k1, w1) \<in> set (?ls f1)" "(i, k2, w2) \<in> set (?ls f2)" for i k1 w1 f1 k2 w2 f2
      using cases[OF that(1)] cases[OF that(2)] lf_invD(5)[OF assms(1)] by blast
    show "distinct (map fst (?ls f'))" for f'
      using lf_invD(6)[OF assms(1)] fresh1 by (auto simp: distinct_map_filter)
  qed
  then show ?thesis using that m by blast
qed

definition lf_view :: "('k, 'v) lfu \<Rightarrow> 'k \<rightharpoonup> 'v \<times> nat" where
  "lf_view s k = map_option (\<lambda>(v, f, it). (v, f)) (map_of (lf_nodes s) k)"

lemma lf_cleanup_ok:
  assumes "distinct (map fst (lf_nodes s))" "length (lf_nodes s) \<le> lf_capacity s"
    "lf_inv (map_of (lf_nodes s)) (lf_list (lf_lists s)) (lf_fresh s)" "lf_list (lf_lists s) (f + 1) \<noteq> []"
    "\<And>g. lf_list (lf_lists s) g \<noteq> [] \<Longrightarrow> lf_min_freq s \<le> g" "lf_min_freq s \<noteq> f \<Longrightarrow> lf_list (lf_lists s) (lf_min_freq s) \<noteq> []"
  shows "lf_ok (lf_cleanup s f)"
proof (cases "lf_list (lf_lists s) f = []")
  case True
  have same: "(lf_list (lf_lists s))(f := []) = lf_list (lf_lists s)" using True by (intro ext) simp
  have "f + 1 \<le> g" if "lf_min_freq s = f" "lf_list (lf_lists s) g \<noteq> []" for g
    using assms(5)[OF that(2)] that True by (cases "g = f") auto
  then show ?thesis using assms True by (auto simp: lf_cleanup_def lf_ok_def same)
next
  case False
  then have "lf_list (lf_lists s) (lf_min_freq s) \<noteq> []" using assms(6) by (cases "lf_min_freq s = f") auto
  then show ?thesis using assms False by (auto simp: lf_cleanup_def lf_ok_def)
qed

lemma lf_cleanup_nodes [simp]: "lf_nodes (lf_cleanup s f) = lf_nodes s" "lf_capacity (lf_cleanup s f) = lf_capacity s"
  by (simp_all add: lf_cleanup_def)

lemma length_update: "map_of xs k \<noteq> None \<Longrightarrow> length (AList.update k v xs) = length xs"
  by (induction xs) auto

lemma length_update_new: "map_of xs k = None \<Longrightarrow> length (AList.update k v xs) = Suc (length xs)"
  by (induction xs) (auto split: if_splits)

lemma length_delete: "distinct (map fst xs) \<Longrightarrow> map_of xs k \<noteq> None \<Longrightarrow> length (AList.delete k xs) = length xs - 1"
proof (induction xs)
  case (Cons p xs)
  show ?case
  proof (cases "fst p = k")
    case True
    then have "AList.delete k xs = xs" using Cons.prems(1) by simp
    then show ?thesis using True by (cases p) simp
  next
    case False
    then have "xs \<noteq> []" "length (AList.delete k xs) = length xs - 1" using Cons by auto
    then show ?thesis using False by (cases p; cases xs) simp_all
  qed
qed simp

lemma lf_put_existing:
  assumes "lf_ok s" "0 < lf_capacity s" "map_of (lf_nodes s) k = Some (v0, f, it)"
  shows "\<exists>s'. lf_put s k v = Some s' \<and> lf_ok s' \<and> lf_capacity s' = lf_capacity s \<and> lf_view s' = (lf_view s)(k \<mapsto> (v, f + 1))"
proof -
  let ?ls = "lf_list (lf_lists s)"
  have inv: "lf_inv (map_of (lf_nodes s)) ?ls (lf_fresh s)" using assms(1) by (simp add: lf_ok_def)
  obtain w where w: "map_of (?ls f) it = Some (k, w)"
    "lf_inv ((map_of (lf_nodes s))(k \<mapsto> (v, f + 1, it))) (?ls(f + 1 := (it, k, w) # ?ls (f + 1), f := filter (\<lambda>n. fst n \<noteq> it) (?ls f))) (lf_fresh s)"
    by (rule lf_inv_promote[OF inv assms(3), of v]) (rule that; assumption)
  define ls' where "ls' = AList.update f (filter (\<lambda>n. fst n \<noteq> it) (?ls f)) (AList.update (f + 1) ((it, k, w) # ?ls (f + 1)) (lf_lists s))"
  let ?s = "s\<lparr>lf_nodes := AList.update k (v, f + 1, it) (lf_nodes s), lf_lists := ls'\<rparr>"
  have ls': "lf_list ls' = ?ls(f + 1 := (it, k, w) # ?ls (f + 1), f := filter (\<lambda>n. fst n \<noteq> it) (?ls f))" by (simp add: ls'_def)
  have min: "?ls (lf_min_freq s) \<noteq> []" "\<And>g. ?ls g \<noteq> [] \<Longrightarrow> lf_min_freq s \<le> g"
    using assms(1,3) by (auto simp: lf_ok_def)
  have "?ls f \<noteq> []" using w(1) by auto
  then have f: "lf_min_freq s \<le> f" by (rule min(2))
  have ge: "lf_min_freq s \<le> g" if "lf_list ls' g \<noteq> []" for g
    using that f min(2)[of g] by (cases "g = f + 1"; cases "g = f") (auto simp: ls')
  have "lf_ok (lf_cleanup ?s f)"
    using assms w(2) ge min(1) f
    by (intro lf_cleanup_ok) (auto simp: lf_ok_def AList.distinct_update length_update AList.update_conv' ls' fun_upd_def)
  moreover have "lf_put s k v = Some (lf_cleanup ?s f)"
    using assms(2,3) w(1) by (simp add: lf_put_def lf_promote_def ls'_def)
  moreover have "lf_view (lf_cleanup ?s f) = (lf_view s)(k \<mapsto> (v, f + 1))"
    by (rule ext) (simp add: lf_view_def AList.update_conv')
  ultimately show ?thesis by simp
qed

lemma lf_evict_spec:
  assumes "lf_ok s" "lf_nodes s \<noteq> []"
  obtains s' e v f it where "lf_evict s = Some s'" "map_of (lf_nodes s) e = Some (v, f, it)"
    "\<And>k' v' f' it'. map_of (lf_nodes s) k' = Some (v', f', it') \<Longrightarrow> f \<le> f'"
    "lf_nodes s' = AList.delete e (lf_nodes s)" "lf_capacity s' = lf_capacity s"
    "lf_inv (map_of (lf_nodes s')) (lf_list (lf_lists s')) (lf_fresh s')" "distinct (map fst (lf_nodes s'))"
    "length (lf_nodes s') < lf_capacity s"
proof -
  let ?ls = "lf_list (lf_lists s)" and ?m = "lf_min_freq s"
  have inv: "lf_inv (map_of (lf_nodes s)) ?ls (lf_fresh s)" and d: "distinct (map fst (lf_nodes s))"
    and c: "length (lf_nodes s) \<le> lf_capacity s" using assms(1) by (simp_all add: lf_ok_def)
  have min: "?ls ?m \<noteq> []" "\<And>g. ?ls g \<noteq> [] \<Longrightarrow> ?m \<le> g" using assms by (auto simp: lf_ok_def)
  then obtain l it e w where l: "?ls ?m = l @ [(it, e, w)]" by (metis append_butlast_last_id surj_pair)
  then obtain v where v: "map_of (lf_nodes s) e = Some (v, ?m, it)" using lf_invD(4)[OF inv, of it e w ?m] by auto
  define lists where "lists = (if l = [] then AList.delete ?m (AList.update ?m l (lf_lists s)) else AList.update ?m l (lf_lists s))"
  have ll: "lf_list lists = ?ls(?m := l)" by (auto simp: lists_def)
  let ?s' = "s\<lparr>lf_nodes := AList.delete e (lf_nodes s), lf_lists := lists\<rparr>"
  have ev: "lf_evict s = Some ?s'" using l by (simp add: lf_evict_def lists_def Let_def)
  have le: "?m \<le> f'" if "map_of (lf_nodes s) k' = Some (v', f', it')" for k' v' f' it'
    using lf_invD(2)[OF inv that] min(2)[of f'] by force
  have inv': "lf_inv (map_of (lf_nodes ?s')) (lf_list (lf_lists ?s')) (lf_fresh ?s')"
    using lf_inv_remove[OF inv l] by (simp add: ll AList.delete_conv')
  have "length (lf_nodes ?s') < lf_capacity s" using length_delete[OF d, of e] v c assms(2) by (cases "lf_nodes s") auto
  then show ?thesis using that[OF ev v le _ _ inv'] d by (simp add: AList.distinct_delete)
qed

lemma lf_insert_new:
  assumes "lf_inv (map_of (lf_nodes s)) (lf_list (lf_lists s)) (lf_fresh s)" "distinct (map fst (lf_nodes s))"
    "length (lf_nodes s) < lf_capacity s" "map_of (lf_nodes s) k = None"
  shows "lf_ok (s\<lparr>lf_lists := AList.update 1 ((lf_fresh s, k, v) # lf_list (lf_lists s) 1) (lf_lists s),
            lf_nodes := AList.update k (v, 1, lf_fresh s) (lf_nodes s), lf_fresh := lf_fresh s + 1, lf_min_freq := 1\<rparr>)"
proof -
  have "1 \<le> f" if ne: "lf_list (lf_lists s) f \<noteq> []" for f
  proof -
    obtain it k' w where "(it, k', w) \<in> set (lf_list (lf_lists s) f)" using hd_in_set[OF ne] by (metis surj_pair)
    then obtain v' where "map_of (lf_nodes s) k' = Some (v', f, it)" using lf_invD(4)[OF assms(1)] by blast
    then show ?thesis by (rule lf_invD(1)[OF assms(1)])
  qed
  then show ?thesis using lf_inv_insert[OF assms(1,4), of v] assms(2-4)
    by (auto simp: lf_ok_def AList.distinct_update length_update_new AList.update_conv' fun_upd_def)
qed

text \<open>
  C23: \<^verbatim>\<open>put\<close> of the \<^verbatim>\<open>LFUCache\<close> is always defined and keeps its invariant; a present key gets the value and one more
  use; a new key enters with one use, in place of a key with the fewest uses when the cache is full; every other
  key keeps its value and its count.
\<close>

theorem lf_put_law:
  assumes "lf_ok s" "0 < lf_capacity s"
  shows "\<exists>s'. lf_put s k v = Some s' \<and> lf_ok s' \<and> lf_capacity s' = lf_capacity s \<and>
    (case lf_view s k of
       Some (w, f) \<Rightarrow> lf_view s' = (lf_view s)(k \<mapsto> (v, f + 1))
     | None \<Rightarrow> if length (lf_nodes s) < lf_capacity s then lf_view s' = (lf_view s)(k \<mapsto> (v, 1))
         else \<exists>e w f. lf_view s e = Some (w, f) \<and> (\<forall>k' w' f'. lf_view s k' = Some (w', f') \<longrightarrow> f \<le> f') \<and>
           lf_view s' = (lf_view s)(e := None, k \<mapsto> (v, 1)))"
proof (cases "map_of (lf_nodes s) k")
  case (Some p)
  obtain v0 f it where p: "p = (v0, f, it)" by (cases p)
  from lf_put_existing[OF assms Some[unfolded p], of v] show ?thesis using Some p by (auto simp: lf_view_def)
next
  case None
  then have vk: "lf_view s k = None" by (simp add: lf_view_def)
  have inv: "lf_inv (map_of (lf_nodes s)) (lf_list (lf_lists s)) (lf_fresh s)" and d: "distinct (map fst (lf_nodes s))"
    using assms(1) by (simp_all add: lf_ok_def)
  have view: "lf_view (t\<lparr>lf_lists := a, lf_nodes := AList.update k (v, 1, b) (lf_nodes t), lf_fresh := c, lf_min_freq := m\<rparr>) =
    (lf_view t)(k \<mapsto> (v, 1))" for t :: "('a, 'b) lfu" and a b c m
    by (rule ext) (simp add: lf_view_def AList.update_conv')
  show ?thesis
  proof (cases "length (lf_nodes s) < lf_capacity s")
    case True
    show ?thesis using lf_insert_new[OF inv d True None, of v] True None assms(2) vk view by (simp add: lf_put_def Let_def)
  next
    case False
    then have "lf_nodes s \<noteq> []" using assms(2) by auto
    from lf_evict_spec[OF assms(1) this] obtain s1 e w f it where s1: "lf_evict s = Some s1" "map_of (lf_nodes s) e = Some (w, f, it)"
      "\<And>k' v' f' it'. map_of (lf_nodes s) k' = Some (v', f', it') \<Longrightarrow> f \<le> f'"
      "lf_nodes s1 = AList.delete e (lf_nodes s)" "lf_capacity s1 = lf_capacity s"
      "lf_inv (map_of (lf_nodes s1)) (lf_list (lf_lists s1)) (lf_fresh s1)" "distinct (map fst (lf_nodes s1))"
      "length (lf_nodes s1) < lf_capacity s" by metis
    have n1: "map_of (lf_nodes s1) k = None" using None by (simp add: s1(4) AList.delete_conv')
    have v1: "lf_view s1 = (lf_view s)(e := None)" by (rule ext) (simp add: lf_view_def s1(4) AList.delete_conv')
    have ve: "lf_view s e = Some (w, f)" "\<forall>k' w' f'. lf_view s k' = Some (w', f') \<longrightarrow> f \<le> f'"
      using s1(2,3) by (auto simp: lf_view_def)
    note ins = lf_insert_new[OF s1(6,7) _ n1, of v]
    show ?thesis using ins s1(1,5,8) False None assms(2) vk view[where t = s1] v1 ve by (auto simp: lf_put_def Let_def)
  qed
qed

theorem lf_put_law_witness:
  "lf_ok (LFUCache 2 :: (string, int) lfu) \<and>
   (\<exists>s'. lf_put (LFUCache 2) ''a'' (5 :: int) = Some s' \<and> lf_ok s' \<and> lf_view s' = (\<lambda>_. None)(''a'' \<mapsto> (5, 1)))"
proof -
  have v: "lf_view (LFUCache 2 :: (string, int) lfu) = (\<lambda>_. None)" "0 < lf_capacity (LFUCache 2 :: (string, int) lfu)"
    "length (lf_nodes (LFUCache 2 :: (string, int) lfu)) < lf_capacity (LFUCache 2 :: (string, int) lfu)"
    by (auto simp: lf_view_def LFUCache_def)
  show ?thesis using lf_put_law[OF lf_ok_new v(2), of "''a''" 5] v lf_ok_new by auto
qed

text \<open>A \<^verbatim>\<open>get\<close> of a present key steps before the first node of a list.\<close>

lemma lf_get_present: "map_of (lf_nodes s) key = Some n \<Longrightarrow> lf_get s key = None"
  by (cases n) (simp add: lf_get_def lf_prev_begin_def split: Option.bind_splits)

end
