(* ===== verification/Z_Order.thy ===== *)
theory Z_Order
  imports Xlab_Prelude
begin

text \<open>
  The Morton codes of \<^verbatim>\<open>src/cc/algo/src/algo/algo_zorder.cc\<close>.  The loops are folds over the loop
  counter with the machine words of the source; a shift by the width of its operand or more is undefined and gives
  \<^const>\<open>None\<close>.  The bits of each code are computed once, and the round trips and the range lemma follow from them.
\<close>

section \<open>Operations\<close>

definition encode2D_step :: "nat \<Rightarrow> u64 \<times> u32 \<times> u32 \<Rightarrow> u64 \<times> u32 \<times> u32" where
  "encode2D_step i = (\<lambda>(z, x, y).
     (z OR push_bit (2 * i) (ucast (x AND 1)) OR push_bit (2 * i + 1) (ucast (y AND 1)), drop_bit 1 x, drop_bit 1 y))"

definition encode2D :: "u32 \<Rightarrow> u32 \<Rightarrow> u64" where
  "encode2D x y = fst (fold encode2D_step [0..<32] (0, x, y))"

definition decode2D_step :: "u64 \<Rightarrow> nat \<Rightarrow> u32 \<times> u32 \<Rightarrow> u32 \<times> u32" where
  "decode2D_step z i = (\<lambda>(x, y).
     (x OR ucast (push_bit i (drop_bit (2 * i) z AND 1)), y OR ucast (push_bit i (drop_bit (2 * i + 1) z AND 1))))"

definition decode2D :: "u64 \<Rightarrow> u32 \<times> u32" where
  "decode2D z = fold (decode2D_step z) [0..<32] (0, 0)"

definition encode3D_step :: "nat \<Rightarrow> u64 \<times> u32 \<times> u32 \<times> u32 \<Rightarrow> u64 \<times> u32 \<times> u32 \<times> u32" where
  "encode3D_step i = (\<lambda>(code, x, y, z).
     (code OR push_bit (3 * i) (ucast (x AND 1)) OR push_bit (3 * i + 1) (ucast (y AND 1)) OR push_bit (3 * i + 2) (ucast (z AND 1)),
      drop_bit 1 x, drop_bit 1 y, drop_bit 1 z))"

definition encode3D :: "u32 \<Rightarrow> u32 \<Rightarrow> u32 \<Rightarrow> u64" where
  "encode3D x y z = fst (fold encode3D_step [0..<21] (0, x, y, z))"

definition decode3D_step :: "u64 \<Rightarrow> nat \<Rightarrow> u32 \<times> u32 \<times> u32 \<Rightarrow> u32 \<times> u32 \<times> u32" where
  "decode3D_step code i = (\<lambda>(x, y, z).
     (x OR ucast (push_bit i (drop_bit (3 * i) code AND 1)), y OR ucast (push_bit i (drop_bit (3 * i + 1) code AND 1)),
      z OR ucast (push_bit i (drop_bit (3 * i + 2) code AND 1))))"

definition decode3D :: "u64 \<Rightarrow> u32 \<times> u32 \<times> u32" where
  "decode3D code = fold (decode3D_step code) [0..<21] (0, 0, 0)"

text \<open>The inner loops of \<^verbatim>\<open>encodeN\<close> and \<^verbatim>\<open>decodeN\<close>: they stop at the first shift of 64 or more.\<close>

fun encodeN_dims :: "nat \<Rightarrow> nat \<Rightarrow> nat \<Rightarrow> u32 list \<Rightarrow> u64 \<Rightarrow> u64 option" where
  "encodeN_dims dims bit_no d [] code = Some code"
| "encodeN_dims dims bit_no d (c # cs) code =
     (if bit_no * dims + d \<ge> 64 then Some code
      else if bit_no \<ge> 32 then None
      else encodeN_dims dims bit_no (d + 1) cs
        (code OR push_bit (bit_no * dims + d) (ucast (drop_bit bit_no c AND 1))))"

definition encodeN :: "u32 list \<Rightarrow> nat \<Rightarrow> u64 option" where
  "encodeN coords bits =
     (if coords = [] then Some 0
      else for_each (\<lambda>bit_no code. encodeN_dims (length coords) bit_no 0 coords code) [0..<bits] 0)"

fun decodeN_dims :: "u64 \<Rightarrow> nat \<Rightarrow> nat \<Rightarrow> nat \<Rightarrow> u32 list \<Rightarrow> u32 list" where
  "decodeN_dims code dims bit_no d [] = []"
| "decodeN_dims code dims bit_no d (c # cs) =
     (if bit_no * dims + d \<ge> 64 then c # cs
      else (c OR ucast (push_bit bit_no (drop_bit (bit_no * dims + d) code AND 1))) # decodeN_dims code dims bit_no (d + 1) cs)"

definition decodeN :: "u64 \<Rightarrow> nat \<Rightarrow> nat \<Rightarrow> u32 list" where
  "decodeN code dims bits = fold (\<lambda>bit_no coords. decodeN_dims code dims bit_no 0 coords) [0..<bits] (replicate dims 0)"

definition getRange2D :: "u32 \<Rightarrow> u32 \<Rightarrow> u32 \<Rightarrow> u32 \<Rightarrow> u64 \<times> u64" where
  "getRange2D x1 y1 x2 y2 =
     fold (\<lambda>(x, y) (minZ, maxZ). (let z = encode2D x y in (if z < minZ then z else minZ, if z > maxZ then z else maxZ)))
       [(x, y). x \<leftarrow> [x1, x2 - 1], y \<leftarrow> [y1, y2 - 1]] (- 1, 0)"

definition expandToCell :: "u64 \<Rightarrow> nat \<Rightarrow> u64 option" where
  "expandToCell z bits = (if 2 * bits \<ge> 64 then None else Some (z AND push_bit (2 * bits) (NOT 0)))"

function next_lsb :: "u64 \<Rightarrow> nat \<Rightarrow> nat" where
  "next_lsb tz lsb = (if tz AND 3 = 0 \<and> lsb < 62 then next_lsb (drop_bit 2 tz) (lsb + 2) else lsb)"
  by pat_completeness auto
termination by (relation "measure (\<lambda>(_, lsb). 62 - lsb)") auto

definition nextInCell :: "u64 \<Rightarrow> u64" where
  "nextInCell z = z + push_bit (next_lsb z 0) 1"

function prev_lsb :: "u64 \<Rightarrow> nat \<Rightarrow> nat" where
  "prev_lsb tz lsb = (if tz AND 3 = 3 \<and> lsb < 62 then prev_lsb (drop_bit 2 tz) (lsb + 2) else lsb)"
  by pat_completeness auto
termination by (relation "measure (\<lambda>(_, lsb). 62 - lsb)") auto

definition prevInCell :: "u64 \<Rightarrow> u64" where
  "prevInCell z = (if z = 0 then 0 else z - push_bit (prev_lsb (z - 1) 0) 1)"

text \<open>\<^verbatim>\<open>encode16\<close> computes each step in \<^verbatim>\<open>int\<close> and stores it back into its 16-bit parameter.\<close>

definition spread_step :: "nat \<Rightarrow> u32 \<Rightarrow> u16 \<Rightarrow> u16" where
  "spread_step k msk v = ucast ((ucast v OR push_bit k (ucast v)) AND msk)"

definition encode16 :: "u16 \<Rightarrow> u64" where
  "encode16 v = ucast (spread_step 1 0x55555555 (spread_step 2 0x33333333 (spread_step 4 0x0F0F0F0F (spread_step 8 0x00FF00FF v))))"

definition encode2D_fast :: "u32 \<Rightarrow> u32 \<Rightarrow> u64" where
  "encode2D_fast x y = push_bit 0 (encode16 (ucast x)) OR push_bit 1 (encode16 (ucast y))"

record z_range =
  zr_current :: u64
  zr_end :: u64

definition ZOrderRange :: "u64 \<Rightarrow> u64 \<Rightarrow> z_range" where
  "ZOrderRange start stop = \<lparr>zr_current = start, zr_end = stop\<rparr>"

definition zr_hasNext :: "z_range \<Rightarrow> bool" where
  "zr_hasNext r \<longleftrightarrow> zr_current r \<le> zr_end r"

definition zr_next :: "z_range \<Rightarrow> u64 \<times> z_range" where
  "zr_next r = (zr_current r, r\<lparr>zr_current := zr_current r + 1\<rparr>)"

section \<open>The bits of the codes\<close>

lemma bit_and_1: "bit (a AND 1) n \<longleftrightarrow> n = 0 \<and> bit a 0" for a :: "'a :: len word"
  by (auto simp: bit_and_iff bit_1_iff)

lemma bit_put: "bit (push_bit k (ucast (a AND 1) :: u64)) n \<longleftrightarrow> n = k \<and> k < 64 \<and> bit a 0" for a :: u32
  by (auto simp: bit_push_bit_iff bit_and_1 bit_ucast_iff simp del: push_bit_and)

lemma bit_take: "bit (ucast (push_bit i (drop_bit j a AND 1)) :: u32) n \<longleftrightarrow> n = i \<and> i < 32 \<and> bit a j" for a :: u64
  by (auto simp: bit_push_bit_iff bit_and_1 bit_ucast_iff bit_drop_bit_eq simp del: push_bit_and)

lemma fold_upt_Suc: "fold f [0..<Suc n] s = f n (fold f [0..<n] s)"
  by simp

lemma encode2D_loop:
  assumes "n \<le> 32"
  shows "\<exists>z. fold encode2D_step [0..<n] (0, x, y) = (z, drop_bit n x, drop_bit n y) \<and>
     (\<forall>k. bit z k \<longleftrightarrow> k < 2 * n \<and> bit (if even k then x else y) (k div 2))"
  using assms
proof (induction n)
  case (Suc n)
  then obtain z where z: "fold encode2D_step [0..<n] (0, x, y) = (z, drop_bit n x, drop_bit n y)"
    "\<And>k. bit z k \<longleftrightarrow> k < 2 * n \<and> bit (if even k then x else y) (k div 2)" by auto
  have "bit (z OR push_bit (2 * n) (ucast (drop_bit n x AND 1)) OR push_bit (2 * n + 1) (ucast (drop_bit n y AND 1))) k \<longleftrightarrow>
      k < 2 * Suc n \<and> bit (if even k then x else y) (k div 2)" for k
  proof -
    consider "k < 2 * n" | "k = 2 * n" | "k = 2 * n + 1" | "2 * Suc n \<le> k" by atomize_elim arith
    then show ?thesis using Suc.prems unfolding bit_or_iff bit_put bit_drop_bit_eq z(2)
      by cases auto
  qed
  then show ?case unfolding fold_upt_Suc z(1) by (simp add: encode2D_step_def drop_bit_drop_bit del: push_bit_and)
qed simp

lemma bit_encode2D: "bit (encode2D x y) k \<longleftrightarrow> k < 64 \<and> bit (if even k then x else y) (k div 2)"
proof -
  obtain z where "fold encode2D_step [0..<32] (0, x, y) = (z, drop_bit 32 x, drop_bit 32 y)"
    "\<forall>k. bit z k \<longleftrightarrow> k < 2 * 32 \<and> bit (if even k then x else y) (k div 2)"
    using encode2D_loop[of 32 x y] by blast
  then show ?thesis unfolding encode2D_def by simp
qed

lemma decode2D_loop:
  assumes "n \<le> 32"
  shows "\<exists>x y. fold (decode2D_step z) [0..<n] (0, 0) = (x, y) \<and> (\<forall>k. bit x k \<longleftrightarrow> k < n \<and> bit z (2 * k)) \<and>
    (\<forall>k. bit y k \<longleftrightarrow> k < n \<and> bit z (2 * k + 1))"
  using assms
proof (induction n)
  case (Suc n)
  then obtain x y where xy: "fold (decode2D_step z) [0..<n] (0, 0) = (x, y)"
    "\<And>k. bit x k \<longleftrightarrow> k < n \<and> bit z (2 * k)" "\<And>k. bit y k \<longleftrightarrow> k < n \<and> bit z (2 * k + 1)" by auto
  have "bit (x OR ucast (push_bit n (drop_bit (2 * n) z AND 1))) k \<longleftrightarrow> k < Suc n \<and> bit z (2 * k)"
    "bit (y OR ucast (push_bit n (drop_bit (2 * n + 1) z AND 1))) k \<longleftrightarrow> k < Suc n \<and> bit z (2 * k + 1)" for k
    using Suc.prems unfolding bit_or_iff bit_take xy(2,3) by (auto simp: less_Suc_eq)
  then show ?case unfolding fold_upt_Suc xy(1) by (simp add: decode2D_step_def del: push_bit_and)
qed simp

lemma bit_decode2D: "bit (fst (decode2D z)) k \<longleftrightarrow> k < 32 \<and> bit z (2 * k)" "bit (snd (decode2D z)) k \<longleftrightarrow> k < 32 \<and> bit z (2 * k + 1)"
proof -
  obtain x y where "fold (decode2D_step z) [0..<32] (0, 0) = (x, y)" "\<forall>k. bit x k \<longleftrightarrow> k < 32 \<and> bit z (2 * k)"
    "\<forall>k. bit y k \<longleftrightarrow> k < 32 \<and> bit z (2 * k + 1)" using decode2D_loop[of 32 z] by blast
  then show "bit (fst (decode2D z)) k \<longleftrightarrow> k < 32 \<and> bit z (2 * k)" "bit (snd (decode2D z)) k \<longleftrightarrow> k < 32 \<and> bit z (2 * k + 1)"
    unfolding decode2D_def by simp_all
qed

text \<open>
  C19: \<^verbatim>\<open>encode2D\<close> and \<^verbatim>\<open>decode2D\<close> are inverse to each other on all 32-bit points and all 64-bit codes.
\<close>

theorem zorder2D_bijective:
  "decode2D (encode2D x y) = (x, y) \<and> encode2D (fst (decode2D z)) (snd (decode2D z)) = z"
proof
  have "fst (decode2D (encode2D x y)) = x" "snd (decode2D (encode2D x y)) = y"
    by (rule bit_word_eqI; simp add: bit_decode2D bit_encode2D)+
  then show "decode2D (encode2D x y) = (x, y)" by (metis prod.collapse)
  show "encode2D (fst (decode2D z)) (snd (decode2D z)) = z"
  proof (rule bit_word_eqI)
    fix k assume "k < LENGTH(64)"
    then show "bit (encode2D (fst (decode2D z)) (snd (decode2D z))) k = bit z k"
      unfolding bit_encode2D by (cases "even k") (auto simp: bit_decode2D elim!: evenE oddE)
  qed
qed

section \<open>Order and ranges\<close>

lemma bit_unat: "bit w n \<longleftrightarrow> odd (unat w div 2 ^ n)" for w :: "'a :: len word"
  using bit_unsigned_iff[where 'a = nat, of w n] by (simp add: bit_iff_odd[of "unat w" n])

lemma unat_drop: "unat (drop_bit n w) = unat w div 2 ^ n" for w :: "'a :: len word"
  unfolding unat_drop_bit_eq by (simp add: drop_bit_eq_div)

lemma encode2D_inject: "encode2D x y = encode2D x' y' \<longleftrightarrow> x = x' \<and> y = y'"
proof
  assume "encode2D x y = encode2D x' y'"
  then have e: "bit (if even k then x else y) (k div 2) = bit (if even k then x' else y') (k div 2)" if "k < 64" for k
    using bit_encode2D[of x y k] bit_encode2D[of x' y' k] that by simp
  have "bit x n = bit x' n" "bit y n = bit y' n" if "n < 32" for n using e[of "2 * n"] e[of "2 * n + 1"] that by auto
  then show "x = x' \<and> y = y'" by (intro conjI bit_word_eqI) simp_all
qed simp

lemma drop_encode2D: "drop_bit 2 (encode2D x y) = encode2D (drop_bit 1 x) (drop_bit 1 y)"
proof (rule bit_word_eqI)
  fix k assume k: "k < LENGTH(64)"
  have "bit w (1 + k div 2) \<Longrightarrow> 1 + k div 2 < 32" for w :: u32 using bit_imp_le_length[of w "1 + k div 2"] by simp
  from this[of x] this[of y] show "bit (drop_bit 2 (encode2D x y)) k = bit (encode2D (drop_bit 1 x) (drop_bit 1 y)) k"
    using k unfolding bit_drop_bit_eq bit_encode2D comp_def by (auto simp: bit_drop_bit_eq simp del: drop_bit_Suc)
qed

lemma unat_encode2D:
  "unat (encode2D x y) = of_bool (bit x 0) + 2 * of_bool (bit y 0) + 4 * unat (encode2D (drop_bit 1 x) (drop_bit 1 y))"
proof -
  let ?w = "encode2D x y"
  have dec: "n = of_bool (odd n) + 2 * of_bool (odd (n div 2)) + 4 * (n div 4)" for n :: nat
    by (cases "odd n"; cases "odd (n div 2)") (simp_all, presburger+)
  have "bit ?w 0 \<longleftrightarrow> odd (unat ?w)" "bit ?w 1 \<longleftrightarrow> odd (unat ?w div 2)" unfolding bit_unat by simp_all
  moreover have "bit ?w 0 = bit x 0" "bit ?w 1 = bit y 0" unfolding bit_encode2D by simp_all
  moreover have "unat (encode2D (drop_bit 1 x) (drop_bit 1 y)) = unat ?w div 4"
    unfolding drop_encode2D[symmetric] unat_drop by simp
  ultimately show ?thesis using dec[of "unat ?w"] by simp
qed

lemma encode2D_mono: "x \<le> x' \<Longrightarrow> y \<le> y' \<Longrightarrow> encode2D x y \<le> encode2D x' y'"
proof (induction "unat x' + unat y'" arbitrary: x y x' y' rule: less_induct)
  case less
  have half: "unat (drop_bit 1 a) = unat a div 2" for a :: u32 unfolding unat_drop by simp
  have odd: "bit a 0 \<longleftrightarrow> odd (unat a)" for a :: u32 unfolding bit_unat by simp
  have nat: "unat x \<le> unat x'" "unat y \<le> unat y'" using less.prems by (simp_all add: word_le_nat_alt)
  show ?case
  proof (cases "unat x' + unat y' = 0")
    case True
    then have "x' = 0" "y' = 0" "x = 0" "y = 0" using nat by (auto simp: unat_eq_0)
    then show ?thesis by simp
  next
    case False
    let ?a = "encode2D (drop_bit 1 x) (drop_bit 1 y)" and ?b = "encode2D (drop_bit 1 x') (drop_bit 1 y')"
    have "?a \<le> ?b"
      using less.hyps[of "drop_bit 1 x'" "drop_bit 1 y'" "drop_bit 1 x" "drop_bit 1 y"] nat False
      unfolding word_le_nat_alt half by (auto intro: div_le_mono)
    then consider "?a = ?b" | "unat ?a + 1 \<le> unat ?b" using word_unat_eq_iff[of ?a ?b] by (fastforce simp: word_le_nat_alt)
    then have "unat (encode2D x y) \<le> unat (encode2D x' y')"
    proof cases
      case 1
      then have "unat x div 2 = unat x' div 2" "unat y div 2 = unat y' div 2"
        unfolding encode2D_inject half[symmetric] by simp_all
      moreover have "odd m \<longrightarrow> odd n" if "m \<le> n" "m div 2 = n div 2" for m n :: nat using that by presburger
      ultimately have "odd (unat x) \<longrightarrow> odd (unat x')" "odd (unat y) \<longrightarrow> odd (unat y')" using nat by blast+
      then show ?thesis unfolding unat_encode2D[of x y] unat_encode2D[of x' y'] 1 odd by auto
    next
      case 2
      have "of_bool p + 2 * of_bool q \<le> (3 :: nat)" for p q by (cases p; cases q) auto
      from this[of "bit x 0" "bit y 0"] show ?thesis using 2 unfolding unat_encode2D[of x y] unat_encode2D[of x' y'] by linarith
    qed
    then show ?thesis by (simp add: word_le_nat_alt)
  qed
qed

lemma range_fold:
  "a \<le> b \<Longrightarrow> a \<le> c \<Longrightarrow> b \<le> d \<Longrightarrow> c \<le> d \<Longrightarrow>
   fold (\<lambda>z (minZ, maxZ). (if z < minZ then z else minZ, if z > maxZ then z else maxZ)) [a, b, c, d] (- 1, 0) = (a, d)" for a :: u64
  using word_order.extremum[of a] by (auto simp: le_less word_gt_0)

text \<open>
  The code of every point of a non-empty half-open rectangle lies in the range \<^verbatim>\<open>getRange2D\<close> reports, whose ends are
  codes of corners of the rectangle.
\<close>

lemma getRange2D_covers:
  assumes "x1 \<le> x" "x < x2" "y1 \<le> y" "y < y2"
  shows "fst (getRange2D x1 y1 x2 y2) \<le> encode2D x y \<and> encode2D x y \<le> snd (getRange2D x1 y1 x2 y2) \<and>
    getRange2D x1 y1 x2 y2 = (encode2D x1 y1, encode2D (x2 - 1) (y2 - 1))"
proof -
  have le: "x \<le> x2 - 1" "y \<le> y2 - 1"
    using assms(2,4) by (unat_arith)+
  then have c: "x1 \<le> x2 - 1" "y1 \<le> y2 - 1" using assms by auto
  have "getRange2D x1 y1 x2 y2 = (encode2D x1 y1, encode2D (x2 - 1) (y2 - 1))"
    using range_fold[of "encode2D x1 y1" "encode2D x1 (y2 - 1)" "encode2D (x2 - 1) y1" "encode2D (x2 - 1) (y2 - 1)"] c
    by (simp add: getRange2D_def Let_def encode2D_mono)
  then show ?thesis using encode2D_mono[of x1 x y1 y] encode2D_mono[of x "x2 - 1" y "y2 - 1"] assms le by simp
qed

section \<open>N dimensions\<close>

lemma encodeN_dims_bits:
  "bit_no < 32 \<Longrightarrow> \<exists>code'. encodeN_dims dims bit_no d cs code = Some code' \<and>
    (\<forall>k. bit code' k \<longleftrightarrow> bit code k \<or> k < 64 \<and> bit_no * dims + d \<le> k \<and> k < bit_no * dims + d + length cs \<and>
      bit (cs ! (k - (bit_no * dims + d))) bit_no)"
proof (induction cs arbitrary: d code)
  case (Cons c cs)
  let ?s = "bit_no * dims + d"
  show ?case
  proof (cases "?s \<ge> 64")
    case False
    let ?code = "code OR push_bit ?s (ucast (drop_bit bit_no c AND 1))"
    obtain code' where c': "encodeN_dims dims bit_no (d + 1) cs ?code = Some code'"
      "\<And>k. bit code' k \<longleftrightarrow> bit ?code k \<or> k < 64 \<and> bit_no * dims + (d + 1) \<le> k \<and> k < bit_no * dims + (d + 1) + length cs \<and>
        bit (cs ! (k - (bit_no * dims + (d + 1)))) bit_no"
      using Cons.IH[OF Cons.prems] by metis
    have "bit code' k \<longleftrightarrow> bit code k \<or> k < 64 \<and> ?s \<le> k \<and> k < ?s + length (c # cs) \<and> bit ((c # cs) ! (k - ?s)) bit_no" for k
    proof -
      consider "k < ?s" | "k = ?s" | "?s < k" by linarith
      then show ?thesis unfolding c'(2) bit_or_iff bit_put bit_drop_bit_eq using False
        by cases (auto simp: nth_Cons')
    qed
    then show ?thesis using c'(1) False Cons.prems by (simp del: push_bit_and)
  qed auto
qed auto

lemma encodeN_bits:
  assumes "coords \<noteq> []" "bits \<le> 32"
  shows "\<exists>code. encodeN coords bits = Some code \<and>
    (\<forall>k. bit code k \<longleftrightarrow> k < 64 \<and> k < length coords * bits \<and> bit (coords ! (k mod length coords)) (k div length coords))"
proof -
  let ?n = "length coords"
  have "n \<le> bits \<Longrightarrow> \<exists>code. for_each (\<lambda>bit_no code. encodeN_dims ?n bit_no 0 coords code) [0..<n] 0 = Some code \<and>
    (\<forall>k. bit code k \<longleftrightarrow> k < 64 \<and> k < ?n * n \<and> bit (coords ! (k mod ?n)) (k div ?n))" for n
  proof (induction n)
    case (Suc n)
    then obtain code where code: "for_each (\<lambda>bit_no code. encodeN_dims ?n bit_no 0 coords code) [0..<n] 0 = Some code"
      "\<And>k. bit code k \<longleftrightarrow> k < 64 \<and> k < ?n * n \<and> bit (coords ! (k mod ?n)) (k div ?n)" by auto
    obtain code' where c': "encodeN_dims ?n n 0 coords code = Some code'"
      "\<And>k. bit code' k \<longleftrightarrow> bit code k \<or> k < 64 \<and> n * ?n \<le> k \<and> k < n * ?n + ?n \<and> bit (coords ! (k - n * ?n)) n"
      using encodeN_dims_bits[of n ?n 0 coords code] Suc.prems assms(2) by auto
    have "bit code' k \<longleftrightarrow> k < 64 \<and> k < ?n * Suc n \<and> bit (coords ! (k mod ?n)) (k div ?n)" for k
    proof (cases "n * ?n \<le> k \<and> k < n * ?n + ?n")
      case True
      then have dv: "k div ?n = n" by (simp add: div_nat_eqI mult.commute)
      have "k mod ?n = k - n * ?n" using minus_mult_div_eq_mod[of k ?n] by (simp add: dv mult.commute)
      then show ?thesis unfolding c'(2) code(2) using True dv by (auto simp: mult.commute)
    qed (auto simp: c'(2) code(2) mult.commute)
    then show ?case using code(1) c'(1) by simp
  qed simp
  from this[of bits] show ?thesis using assms(1) by (simp add: encodeN_def)
qed

lemma decodeN_dims_length [simp]: "length (decodeN_dims code dims bit_no d cs) = length cs"
  by (induction cs arbitrary: d) auto

lemma decodeN_dims_bits:
  "j < length cs \<Longrightarrow> bit_no < 32 \<Longrightarrow> bit (decodeN_dims code dims bit_no d cs ! j) k \<longleftrightarrow>
    bit (cs ! j) k \<or> k = bit_no \<and> bit_no * dims + d + j < 64 \<and> bit code (bit_no * dims + d + j)"
proof (induction cs arbitrary: d j)
  case (Cons c cs)
  show ?case
  proof (cases "bit_no * dims + d \<ge> 64")
    case False
    then show ?thesis using Cons.IH[of "j - 1" "d + 1"] Cons.prems
      by (cases j) (auto simp: bit_or_iff bit_take simp del: push_bit_and)
  qed (auto dest: bit_imp_le_length)
qed simp

lemma decodeN_bits:
  assumes "j < dims" "bits \<le> 32"
  shows "length (decodeN code dims bits) = dims \<and> (bit (decodeN code dims bits ! j) k \<longleftrightarrow> k < bits \<and> k * dims + j < 64 \<and> bit code (k * dims + j))"
  using assms(2)
proof (induction bits)
  case 0
  then show ?case using assms(1) by (simp add: decodeN_def)
next
  case (Suc n)
  then show ?case using assms(1) decodeN_dims_bits[of j "decodeN code dims n" n code dims 0 k]
    by (auto simp: decodeN_def less_Suc_eq)
qed

text \<open>
  \<^verbatim>\<open>decodeN\<close> recovers the coordinates that \<^verbatim>\<open>encodeN\<close> interleaved, for any number of dimensions whose bits fit into 64.
\<close>

lemma zorderN_roundtrip:
  assumes "coords \<noteq> []" "bits \<le> 32" "length coords * bits \<le> 64" "\<forall>c \<in> set coords. unat c < 2 ^ bits"
  shows "\<exists>code. encodeN coords bits = Some code \<and> decodeN code (length coords) bits = coords"
proof -
  let ?n = "length coords"
  obtain code where code: "encodeN coords bits = Some code"
    "\<And>k. bit code k \<longleftrightarrow> k < 64 \<and> k < ?n * bits \<and> bit (coords ! (k mod ?n)) (k div ?n)"
    using encodeN_bits[OF assms(1,2)] by auto
  have "decodeN code ?n bits ! j = coords ! j" if j: "j < ?n" for j
  proof (rule bit_word_eqI)
    fix k assume "k < LENGTH(32)"
    have small: "k < bits" if "bit (coords ! j) k"
    proof (rule ccontr)
      assume "\<not> k < bits"
      then have "unat (coords ! j) < 2 ^ k" using assms(4) j nth_mem power_increasing[of bits k "2 :: nat"] by (metis not_less one_le_numeral order_less_le_trans)
      then have "unat (coords ! j) div 2 ^ k = 0" by simp
      then show False using that unfolding bit_unat by simp
    qed
    have idx: "(k * ?n + j) mod ?n = j" "(k * ?n + j) div ?n = k" using j by (cases "?n = 0"; simp)+
    have "k * ?n + j < ?n * bits" if "k < bits"
    proof -
      have "k * ?n + j < Suc k * ?n" using j by simp
      also have "\<dots> \<le> bits * ?n" using that by (intro mult_le_mono1) simp
      finally show ?thesis by (simp add: mult.commute)
    qed
    then show "bit (decodeN code ?n bits ! j) k = bit (coords ! j) k"
      using decodeN_bits[OF j assms(2), of code k] code(2)[of "k * ?n + j"] small assms(3) unfolding idx by auto
  qed
  moreover have "length (decodeN code ?n bits) = ?n" using decodeN_bits[of 0 ?n bits code] assms(1,2) by simp
  ultimately have "decodeN code ?n bits = coords" by (intro nth_equalityI) simp_all
  then show ?thesis using code(1) by simp
qed

section \<open>The 16-bit spread\<close>

text \<open>Only the low byte of a coordinate survives the 16-bit intermediate results of \<^verbatim>\<open>encode16\<close>.\<close>

lemma encode2D_fast_collides: "encode2D_fast 256 y = encode2D_fast 0 y"
  by (simp add: encode2D_fast_def encode16_def spread_step_def)

end
