(* ===== verification/Hilbert_Curve.thy ===== *)
theory Hilbert_Curve
  imports Z_Order
begin

text \<open>
  The Hilbert curve of \<^verbatim>\<open>src/cc/algo/src/algo/algo_hilbert.cc\<close>: coordinates are 32-bit words, indices 64-bit words, the
  loop variable \<^verbatim>\<open>s\<close> an \<^verbatim>\<open>int\<close> whose square must not overflow (undefined, \<^const>\<open>None\<close>).  The encoder is a
  bijection from the grid to the index range at every order up to 16; the decoder is not its inverse.
\<close>

section \<open>Operations\<close>

definition hil_q :: "u32 \<Rightarrow> u32 \<Rightarrow> u32" where
  "hil_q rx ry = (3 * rx) XOR ry"

definition hil_rotate :: "nat \<Rightarrow> u32 \<Rightarrow> u32 \<Rightarrow> u32 \<times> u32 \<Rightarrow> u32 \<times> u32" where
  "hil_rotate side rx ry = (\<lambda>(x, y).
     if ry = 0 then
       (let (x, y) = (if rx = 1 then (of_nat side - 1 - x, of_nat side - 1 - y) else (x, y)) in (y, x))
     else (x, y))"

function hil_encode_loop :: "nat \<Rightarrow> nat \<Rightarrow> u32 \<Rightarrow> u32 \<Rightarrow> u64 \<Rightarrow> u64 option" where
  "hil_encode_loop order s x y d =
     (if s = 0 then Some d
      else if s * s \<ge> 2 ^ 31 then None
      else (let rx = (if x AND of_nat s > 0 then 1 else 0);
                ry = (if y AND of_nat s > 0 then 1 else 0);
                (x', y') = hil_rotate (2 ^ order) rx ry (x, y)
            in hil_encode_loop order (s div 2) x' y' (d + ucast (of_nat (s * s) * hil_q rx ry))))"
  by pat_completeness auto
termination by (relation "measure (\<lambda>(order, s, _). s)") auto

declare hil_encode_loop.simps [simp del]

definition hil_encode :: "u32 \<Rightarrow> u32 \<Rightarrow> nat \<Rightarrow> u64 option" where
  "hil_encode x y order = (if order = 0 \<or> order > 30 then None else hil_encode_loop order (2 ^ (order - 1)) x y 0)"

function hil_decode_loop :: "nat \<Rightarrow> u64 \<Rightarrow> u32 \<Rightarrow> u32 \<Rightarrow> (u32 \<times> u32) option" where
  "hil_decode_loop s d x y =
     (if s = 0 then Some (x, y)
      else if s * s \<ge> 2 ^ 31 then None
      else (let rx = ucast (d div of_nat (s * s) mod 4 div 2);
                ry = ucast (d div of_nat (s * s) mod 4 mod 2);
                (x', y') = hil_rotate s rx ry (x, y)
            in hil_decode_loop (s div 2) (d - ucast (of_nat (s * s) * hil_q rx ry)) (x' + of_nat s * rx) (y' + of_nat s * ry)))"
  by pat_completeness auto
termination by (relation "measure (\<lambda>(s, _). s)") auto

declare hil_decode_loop.simps [simp del]

definition hil_decode :: "u64 \<Rightarrow> nat \<Rightarrow> (u32 \<times> u32) option" where
  "hil_decode d order = (if order = 0 \<or> order > 30 then None else hil_decode_loop (2 ^ (order - 1)) d 0 0)"

definition hil_fast_step :: "u32 \<Rightarrow> u32 \<Rightarrow> nat \<Rightarrow> u64 \<times> u32 \<Rightarrow> u64 \<times> u32" where
  "hil_fast_step x y i = (\<lambda>(d, hb).
     (let xb = (if x AND push_bit i 1 \<noteq> 0 then 1 else 0);
          yb = (if y AND push_bit i 1 \<noteq> 0 then 1 else 0);
          gx = xb XOR (yb AND xb);
          gy = yb XOR (xb AND yb)
      in (push_bit 2 d OR ucast (push_bit 1 (gx XOR hb)) OR ucast (gy XOR hb),
          if gx OR gy = 0 then 0 else if gx AND gy = 0 then 1 else 2)))"

definition encodeFast :: "u32 \<Rightarrow> u32 \<Rightarrow> u64" where
  "encodeFast x y = fst (fold (hil_fast_step x y) (rev [0..<16]) (0, 0))"

text \<open>\<^verbatim>\<open>__builtin_ctzll\<close> is undefined at 0.\<close>

definition ctzll :: "u64 \<Rightarrow> nat option" where
  "ctzll d = (if d = 0 then None else Some (length (takeWhile (\<lambda>i. \<not> bit d i) [0..<64])))"

definition hil_next :: "u64 \<Rightarrow> u64 option" where
  "hil_next d = do {
     let t = d OR (d - 1);
     c \<leftarrow> ctzll d;
     if c + 1 \<ge> 64 then None
     else Some ((t + 1) OR drop_bit (c + 1) ((NOT t AND - NOT t) - 1))}"

definition hil_prev :: "u64 \<Rightarrow> u64" where
  "hil_prev d = (if d = 0 then 0 else d - 1)"

definition hil_distance :: "u64 \<Rightarrow> u64 \<Rightarrow> u64" where
  "hil_distance a b = (if a > b then a - b else b - a)"

record box =
  box_minX :: u32
  box_minY :: u32
  box_maxX :: u32
  box_maxY :: u32

definition box_add :: "u32 \<times> u32 \<Rightarrow> box \<Rightarrow> box" where
  "box_add = (\<lambda>(x, y) b. \<lparr>box_minX = min (box_minX b) x, box_minY = min (box_minY b) y,
     box_maxX = max (box_maxX b) x, box_maxY = max (box_maxY b) y\<rparr>)"

text \<open>The sampling loop counts in 64 bits and may pass over the largest value, so it is a partial function.\<close>

partial_function (option) box_loop :: "nat \<Rightarrow> u64 \<Rightarrow> u64 \<Rightarrow> u64 \<Rightarrow> box \<Rightarrow> box option" where
  "box_loop order step stop d b =
     (if d \<le> stop then do {
        p \<leftarrow> hil_decode d order;
        box_loop order step stop (d + step) (box_add p b)}
      else Some b)"

definition getBoundingBox :: "u64 \<Rightarrow> u64 \<Rightarrow> nat \<Rightarrow> box option" where
  "getBoundingBox start stop order = do {
     b \<leftarrow> box_loop order (max 1 ((stop - start) div 100)) stop start
       \<lparr>box_minX = - 1, box_minY = - 1, box_maxX = 0, box_maxY = 0\<rparr>;
     p1 \<leftarrow> hil_decode start order;
     p2 \<leftarrow> hil_decode stop order;
     Some (box_add p2 (box_add p1 b))}"

definition boundingBoxArea :: "u64 \<Rightarrow> u64 \<Rightarrow> nat \<Rightarrow> u64 option" where
  "boundingBoxArea start stop order = do {
     b \<leftarrow> getBoundingBox start stop order;
     Some (ucast (box_maxX b - box_minX b + 1) * ucast (box_maxY b - box_minY b + 1))}"

definition ZOrder_encode :: "u32 \<Rightarrow> u32 \<Rightarrow> u64" where
  "ZOrder_encode x y = fst (fold encode2D_step [0..<32] (0, x, y))"

definition ZOrder_decode :: "u64 \<Rightarrow> u32 \<times> u32" where
  "ZOrder_decode z = fold (decode2D_step z) [0..<32] (0, 0)"

definition neighbours :: "nat \<Rightarrow> u32 \<Rightarrow> u32 \<Rightarrow> (u32 \<times> u32) list" where
  "neighbours order x y =
     [(if x > 0 then x - 1 else x, y), (if x < push_bit order 1 - 1 then x + 1 else x, y),
      (x, if y > 0 then y - 1 else y), (x, if y < push_bit order 1 - 1 then y + 1 else y)]"

definition maxValueJump :: "nat \<Rightarrow> u64 option" where
  "maxValueJump order =
     (if order \<ge> 32 then None
      else Some (fold (\<lambda>x maxJump. fold (\<lambda>y maxJump.
             fold (\<lambda>(nx, ny) maxJump.
               (let z = ZOrder_encode (of_nat x) (of_nat y); nz = ZOrder_encode nx ny;
                    jump = (if z > nz then z - nz else nz - z)
                in if jump > maxJump then jump else maxJump)) (neighbours order (of_nat x) (of_nat y)) maxJump)
           [0..<2 ^ order] maxJump) [0..<2 ^ order] 0))"

section \<open>The encoder is a bijection\<close>

definition hil_flip :: "nat \<Rightarrow> bool \<Rightarrow> bool \<Rightarrow> u32 \<times> u32 \<Rightarrow> u32 \<times> u32" where
  "hil_flip order bx by = (\<lambda>(x, y). if by then (x, y) else if bx then (of_nat (2 ^ order) - 1 - y, of_nat (2 ^ order) - 1 - x) else (y, x))"

definition quadrant :: "bool \<Rightarrow> bool \<Rightarrow> nat" where
  "quadrant bx by = (if bx then (if by then 2 else 3) else (if by then 1 else 0))"

fun hil_index :: "nat \<Rightarrow> nat \<Rightarrow> u32 \<times> u32 \<Rightarrow> nat" where
  "hil_index order 0 p = 0"
| "hil_index order (Suc n) (x, y) = 4 ^ n * quadrant (bit x n) (bit y n) + hil_index order n (hil_flip order (bit x n) (bit y n) (x, y))"

lemma hil_index_less: "hil_index order n p < 4 ^ n"
proof (induction n arbitrary: p)
  case (Suc n)
  obtain x y where p: "p = (x, y)" by (cases p)
  have "quadrant (bit x n) (bit y n) \<le> 3" by (simp add: quadrant_def)
  then have "4 ^ n * quadrant (bit x n) (bit y n) \<le> 4 ^ n * 3" by (rule mult_le_mono2)
  then show ?case using Suc[of "hil_flip order (bit x n) (bit y n) (x, y)"] unfolding p hil_index.simps power_Suc by linarith
qed simp

lemma quadrant_inject: "quadrant a b = quadrant a' b' \<longleftrightarrow> a = a' \<and> b = b'"
  by (auto simp: quadrant_def split: if_splits)

lemma take_bit_eq_iff_uint: "take_bit n a = take_bit n b \<longleftrightarrow> uint a mod 2 ^ n = uint b mod 2 ^ n" for a b :: "'a :: len word"
  by (metis take_bit_eq_mod unsigned_take_bit_eq word_uint_eq_iff)

lemma take_bit_diff_cong:
  fixes a b c :: u32
  assumes "n \<le> 32" "take_bit n (c - a) = take_bit n (c - b)"
  shows "take_bit n a = take_bit n b"
proof -
  have "uint (c - x) mod 2 ^ n = (uint c - uint x) mod 2 ^ n" for x
  proof -
    have "(2 :: int) ^ n dvd 2 ^ 32" using assms(1) by (rule le_imp_power_dvd)
    then show ?thesis by (simp add: uint_word_ariths(2) mod_mod_cancel)
  qed
  then have "(uint c - uint a) mod 2 ^ n = (uint c - uint b) mod 2 ^ n" using assms(2) by (simp add: take_bit_eq_iff_uint)
  then have "2 ^ n dvd (uint b - uint a)" by (simp add: mod_eq_dvd_iff)
  then show ?thesis unfolding take_bit_eq_iff_uint by (metis dvd_diff_commute mod_eq_dvd_iff)
qed

lemma take_bit_Suc_eq: "take_bit n a = take_bit n b \<Longrightarrow> bit a n = bit b n \<Longrightarrow> take_bit (Suc n) a = take_bit (Suc n) b" for a b :: u32
proof (rule bit_word_eqI)
  fix k assume t: "take_bit n a = take_bit n b" and b: "bit a n = bit b n"
  have "bit (take_bit n a) k = bit (take_bit n b) k" unfolding t ..
  then show "bit (take_bit (Suc n) a) k = bit (take_bit (Suc n) b) k" using b by (auto simp: bit_take_bit_iff less_Suc_eq)
qed

lemma hil_flip_inject:
  assumes "n \<le> 32" "hil_flip order bx by (x, y) = (u, v)" "hil_flip order bx by (x', y') = (u', v')"
    "take_bit n u = take_bit n u'" "take_bit n v = take_bit n v'"
  shows "take_bit n x = take_bit n x' \<and> take_bit n y = take_bit n y'"
proof -
  consider "by" | "\<not> by" "bx" | "\<not> by" "\<not> bx" by blast
  then show ?thesis
  proof cases
    case 2
    then have "u = of_nat (2 ^ order) - 1 - y" "v = of_nat (2 ^ order) - 1 - x" "u' = of_nat (2 ^ order) - 1 - y'" "v' = of_nat (2 ^ order) - 1 - x'"
      using assms(2,3) unfolding hil_flip_def by auto
    then show ?thesis using assms(4,5) take_bit_diff_cong[OF assms(1)] by blast
  qed (use assms(2-5) in \<open>simp_all add: hil_flip_def\<close>)
qed

lemma hil_index_inject:
  "n \<le> 32 \<Longrightarrow> hil_index order n (x, y) = hil_index order n (x', y') \<Longrightarrow> take_bit n x = take_bit n x' \<and> take_bit n y = take_bit n y'"
proof (induction n arbitrary: x y x' y')
  case (Suc n)
  let ?q = "quadrant (bit x n) (bit y n)" and ?q' = "quadrant (bit x' n) (bit y' n)"
  let ?r = "hil_index order n (hil_flip order (bit x n) (bit y n) (x, y))" and ?r' = "hil_index order n (hil_flip order (bit x' n) (bit y' n) (x', y'))"
  have e: "4 ^ n * ?q + ?r = 4 ^ n * ?q' + ?r'" using Suc.prems(2) by simp
  have "(4 ^ n * ?q + ?r) div 4 ^ n = ?q" "(4 ^ n * ?q' + ?r') div 4 ^ n = ?q'" using hil_index_less by simp_all
  then have q: "?q = ?q'" unfolding e by (rule trans[OF sym])
  then have b: "bit x n = bit x' n" "bit y n = bit y' n" by (simp_all add: quadrant_inject)
  obtain u v where uv: "hil_flip order (bit x n) (bit y n) (x, y) = (u, v)" by fastforce
  obtain u' v' where uv': "hil_flip order (bit x n) (bit y n) (x', y') = (u', v')" by fastforce
  have "?r = ?r'" using e q by simp
  then have "hil_index order n (u, v) = hil_index order n (u', v')" using uv uv' b by simp
  then have "take_bit n u = take_bit n u' \<and> take_bit n v = take_bit n v'" using Suc.IH Suc.prems(1) Suc_leD by blast
  then have "take_bit n x = take_bit n x' \<and> take_bit n y = take_bit n y'"
    using hil_flip_inject[OF Suc_leD[OF Suc.prems(1)] uv uv'] by blast
  then show ?case using take_bit_Suc_eq b by blast
qed simp

lemma ucast_of_nat_small: "m < 2 ^ 32 \<Longrightarrow> ucast (of_nat m :: u32) = (of_nat m :: u64)"
  by (rule word_unat_eq_iff[THEN iffD2]) (simp add: unsigned_ucast_eq unsigned_of_nat take_bit_nat_eq_self)

text \<open>The loop at level \<open>n\<close> adds the index of the remaining levels.\<close>

lemma hil_loop_eq:
  assumes "n \<le> 16"
  shows "hil_encode_loop order (if n = 0 then 0 else 2 ^ (n - 1)) x y d = Some (d + of_nat (hil_index order n (x, y)))"
  using assms
proof (induction n arbitrary: x y d)
  case 0
  then show ?case by (simp add: hil_encode_loop.simps)
next
  case (Suc n)
  have sq: "2 ^ n * 2 ^ n = (4 :: nat) ^ n" by (simp flip: power_mult_distrib)
  have "(4 :: nat) ^ n \<le> 4 ^ 15" using Suc.prems by (intro power_increasing) auto
  then have small: "\<not> 2 ^ n * 2 ^ n \<ge> (2 :: nat) ^ 31" "4 ^ n * 3 < (2 :: nat) ^ 32" unfolding sq by simp_all
  have bit: "w AND of_nat (2 ^ n) > 0 \<longleftrightarrow> bit w n" for w :: u32
    using and_exp_eq_0_iff_not_bit[of w n] by (auto simp: word_gt_0)
  let ?rx = "if bit x n then 1 else 0 :: u32" and ?ry = "if bit y n then 1 else 0 :: u32"
  have q: "hil_q ?rx ?ry = of_nat (quadrant (bit x n) (bit y n))"
    by (simp add: hil_q_def quadrant_def)
  have "quadrant (bit x n) (bit y n) \<le> 3" by (simp add: quadrant_def)
  then have "4 ^ n * quadrant (bit x n) (bit y n) \<le> 4 ^ n * 3" by (rule mult_le_mono2)
  then have lt: "4 ^ n * quadrant (bit x n) (bit y n) < 2 ^ 32" using small(2) by (rule le_less_trans)
  have add: "ucast (of_nat (2 ^ n * 2 ^ n) * hil_q ?rx ?ry :: u32) = (of_nat (4 ^ n * quadrant (bit x n) (bit y n)) :: u64)"
    unfolding q sq of_nat_mult[symmetric] by (rule ucast_of_nat_small[OF lt])
  have rot: "hil_rotate (2 ^ order) ?rx ?ry (x, y) = hil_flip order (bit x n) (bit y n) (x, y)"
    by (simp add: hil_rotate_def hil_flip_def)
  have half: "(2 :: nat) ^ n div 2 = (if n = 0 then 0 else 2 ^ (n - 1))" by (cases n) simp_all
  have nz: "((2 :: nat) ^ n = 0) = False" by simp
  obtain u v where uv: "hil_flip order (bit x n) (bit y n) (x, y) = (u, v)" by fastforce
  have "hil_encode_loop order (2 ^ n) x y d = hil_encode_loop order (2 ^ n div 2) u v (d + of_nat (4 ^ n * quadrant (bit x n) (bit y n)))"
    by (subst hil_encode_loop.simps) (simp only: nz small bit Let_def if_False rot uv prod.case add)
  also have "\<dots> = Some (d + of_nat (4 ^ n * quadrant (bit x n) (bit y n)) + of_nat (hil_index order n (u, v)))"
    unfolding half using Suc.prems by (intro Suc.IH) simp
  also have "\<dots> = Some (d + of_nat (hil_index order (Suc n) (x, y)))" unfolding hil_index.simps uv of_nat_add by (simp add: add.assoc)
  finally show ?case by simp
qed

lemma hil_encode_eq:
  assumes "1 \<le> order" "order \<le> 16"
  shows "hil_encode x y order = Some (of_nat (hil_index order order (x, y)))"
  using hil_loop_eq[OF assms(2), of order x y 0] assms by (simp add: hil_encode_def)

lemma card_coords:
  assumes "order \<le> 16"
  shows "card {x :: u32. unat x < 2 ^ order} = 2 ^ order" "finite {x :: u32. unat x < 2 ^ order}"
proof -
  have "(2 :: nat) ^ order \<le> 2 ^ 16" using assms by (rule power_increasing) simp
  then have "\<exists>x :: u32. unat x = n \<and> unat x < 2 ^ order" if "n < 2 ^ order" for n
    using that by (intro exI[of _ "of_nat n"]) (simp add: unsigned_of_nat take_bit_nat_eq_self)
  then have "unat ` {x :: u32. unat x < 2 ^ order} = {..<2 ^ order}" by (auto simp: image_iff)
  moreover have "inj_on unat {x :: u32. unat x < 2 ^ order}" by (rule inj_onI) (simp add: word_unat_eq_iff)
  ultimately show "card {x :: u32. unat x < 2 ^ order} = 2 ^ order" by (metis card_image card_lessThan)
  show "finite {x :: u32. unat x < 2 ^ order}" by simp
qed

text \<open>
  C39: at every order from 1 to 16, \<^verbatim>\<open>HilbertCurve::encode\<close> is defined on the whole grid and is a bijection from the
  grid of that order to the indices below four to the power of the order.
\<close>

theorem hil_encode_bijection:
  assumes "1 \<le> order" "order \<le> 16"
  shows "bij_betw (\<lambda>(x, y). map_option unat (hil_encode x y order))
    ({x. unat x < 2 ^ order} \<times> {y. unat y < 2 ^ order}) (Some ` {..<4 ^ order})"
proof -
  let ?A = "{x :: u32. unat x < 2 ^ order}"
  have "(4 :: nat) ^ order \<le> 4 ^ 16" using assms(2) by (rule power_increasing) simp
  then have un: "unat (of_nat m :: u64) = m" if "m < 4 ^ order" for m
    using that by (simp add: unsigned_of_nat take_bit_nat_eq_self)
  have e: "map_option unat (hil_encode x y order) = Some (hil_index order order (x, y))" for x y
    using hil_encode_eq[OF assms, of x y] un[OF hil_index_less] by simp
  have inj: "inj_on (hil_index order order) (?A \<times> ?A)"
  proof (rule inj_onI, clarify)
    fix x y x' y' :: u32 assume a: "unat x < 2 ^ order" "unat y < 2 ^ order" "unat x' < 2 ^ order" "unat y' < 2 ^ order"
      "hil_index order order (x, y) = hil_index order order (x', y')"
    have t: "take_bit order w = w" if "unat w < 2 ^ order" for w :: u32
      using that by (simp add: word_unat_eq_iff unsigned_take_bit_eq take_bit_nat_eq_self)
    have "order \<le> 32" using assms(2) by simp
    from hil_index_inject[OF this a(5)] show "x = x' \<and> y = y'" using a t by metis
  qed
  have "hil_index order order ` (?A \<times> ?A) = {..<4 ^ order}"
  proof (rule card_subset_eq)
    show "hil_index order order ` (?A \<times> ?A) \<subseteq> {..<4 ^ order}" using hil_index_less by auto
    have "card (hil_index order order ` (?A \<times> ?A)) = 2 ^ order * 2 ^ order"
      using card_image[OF inj] card_coords[OF assms(2)] by (simp add: card_cartesian_product)
    then show "card (hil_index order order ` (?A \<times> ?A)) = card {..<(4 :: nat) ^ order}" by (simp flip: power_mult_distrib)
  qed simp
  with inj have "bij_betw (hil_index order order) (?A \<times> ?A) {..<4 ^ order}" by (simp add: bij_betw_def)
  then have "bij_betw (Some \<circ> hil_index order order) (?A \<times> ?A) (Some ` {..<4 ^ order})"
    by (rule bij_betw_trans) (simp add: bij_betw_def)
  moreover have "(\<lambda>(x, y). map_option unat (hil_encode x y order)) = Some \<circ> hil_index order order"
    by (rule ext) (auto simp: e)
  ultimately show ?thesis by simp
qed

theorem hil_encode_bijection_witness:
  "bij_betw (\<lambda>(x, y). map_option unat (hil_encode x y 15)) ({x. unat x < 2 ^ 15} \<times> {y. unat y < 2 ^ 15}) (Some ` {..<4 ^ 15})"
  by (rule hil_encode_bijection) simp_all

text \<open>
  \<^verbatim>\<open>decode\<close> does not invert \<^verbatim>\<open>encode\<close>, already at order 1, and \<^verbatim>\<open>encodeFast\<close> gives the points (0, 0) and (1, 1) the
  same index.
\<close>

lemma hil_decode_not_inverse:
  "hil_encode 1 1 1 = Some 2 \<and> hil_decode 2 1 = Some (1, 0) \<and> encodeFast 1 1 = encodeFast 0 0"
proof (intro conjI)
  show "hil_encode 1 1 1 = Some 2" by (simp add: hil_encode_def hil_encode_loop.simps hil_q_def hil_rotate_def)
  show "hil_decode 2 1 = Some (1, 0)" by (simp add: hil_decode_def hil_decode_loop.simps hil_q_def hil_rotate_def)
  show "encodeFast 1 1 = encodeFast 0 0" by code_simp
qed

lemma ZOrder_same: "ZOrder_encode = encode2D" "ZOrder_decode = decode2D"
  by (intro ext, simp add: ZOrder_encode_def encode2D_def del: upt_rec_numeral) (intro ext, simp add: ZOrder_decode_def decode2D_def del: upt_rec_numeral)

text \<open>The reported box contains both end points.\<close>

lemma getBoundingBox_ends:
  assumes "getBoundingBox start stop order = Some b" "hil_decode start order = Some (x1, y1)" "hil_decode stop order = Some (x2, y2)"
  shows "box_minX b \<le> x1 \<and> x1 \<le> box_maxX b \<and> box_minY b \<le> y1 \<and> y1 \<le> box_maxY b \<and>
    box_minX b \<le> x2 \<and> x2 \<le> box_maxX b \<and> box_minY b \<le> y2 \<and> y2 \<le> box_maxY b"
  using assms by (auto simp: getBoundingBox_def box_add_def min_le_iff_disj le_max_iff_disj split: Option.bind_splits)

end
