(* ===== verification/Page_Table.thy ===== *)
theory Page_Table
  imports Xlab_Prelude "HOL-Library.AList"
begin

text \<open>
  The page table walk and the translation buffer of \<^verbatim>\<open>src/cc/algo/src/linux/l_pagetable.cc\<close>.  A pointer to a table is the
  key under which \<^verbatim>\<open>tables_\<close> holds it, a table a function from its nine-bit index to entries, and the bit fields of an
  entry are words of their width.  A walk creates the tables it visits, so it returns the table as well.
\<close>

section \<open>Page table\<close>

definition PTE_PRESENT :: "12 word" where "PTE_PRESENT = 1"
definition PTE_HUGE :: "12 word" where "PTE_HUGE = 128"
definition PAGE_SIZE_4KB :: u64 where "PAGE_SIZE_4KB = 4096"
definition PAGE_SIZE_2MB :: u64 where "PAGE_SIZE_2MB = 2 * 1024 * 1024"
definition PAGE_SIZE_1GB :: u64 where "PAGE_SIZE_1GB = 1024 * 1024 * 1024"
definition ENTRIES_PER_PAGE :: u64 where "ENTRIES_PER_PAGE = 512"

record PageTableEntry =
  pte_pfn :: "40 word"
  pte_flags :: "12 word"
  pte_reserved :: "12 word"

definition empty_pte :: PageTableEntry where
  "empty_pte = \<lparr>pte_pfn = 0, pte_flags = 0, pte_reserved = 0\<rparr>"

definition is_present :: "PageTableEntry \<Rightarrow> bool" where
  "is_present pte \<longleftrightarrow> pte_flags pte AND PTE_PRESENT \<noteq> 0"

definition is_huge :: "PageTableEntry \<Rightarrow> bool" where
  "is_huge pte \<longleftrightarrow> pte_flags pte AND PTE_HUGE \<noteq> 0"

definition set_present :: "PageTableEntry \<Rightarrow> PageTableEntry" where
  "set_present pte = pte\<lparr>pte_flags := pte_flags pte OR PTE_PRESENT\<rparr>"

definition set_huge :: "PageTableEntry \<Rightarrow> PageTableEntry" where
  "set_huge pte = pte\<lparr>pte_flags := pte_flags pte OR PTE_HUGE\<rparr>"

text \<open>The levels \<^verbatim>\<open>P4\<close> to \<^verbatim>\<open>P0\<close> are the numbers 0 to 4 of the enumeration.\<close>

definition P4 :: nat where "P4 = 0"
definition P3 :: nat where "P3 = 1"
definition P2 :: nat where "P2 = 2"
definition P1 :: nat where "P1 = 3"

type_synonym page = "nat \<Rightarrow> PageTableEntry"

record page_table =
  pt_levels :: nat
  pt_page_size :: u64
  pt_tables :: "u64 \<rightharpoonup> page"

text \<open>The constructor ends the program for any other number of levels.\<close>

definition PageTable :: "nat \<Rightarrow> u64 \<Rightarrow> page_table option" where
  "PageTable levels page_size =
     (if levels \<noteq> 4 \<and> levels \<noteq> 5 then None
      else Some \<lparr>pt_levels = levels, pt_page_size = page_size, pt_tables = Map.empty\<rparr>)"

definition get_or_create_table :: "page_table \<Rightarrow> u64 \<Rightarrow> nat \<Rightarrow> nat \<Rightarrow> u64 \<times> page_table" where
  "get_or_create_table t base_addr level index =
     (let table_addr = base_addr + push_bit 40 (of_nat level) + of_nat index in
      case pt_tables t table_addr of
        Some _ \<Rightarrow> (table_addr, t)
      | None \<Rightarrow> (table_addr, t\<lparr>pt_tables := (pt_tables t)(table_addr \<mapsto> (\<lambda>_. empty_pte))\<rparr>))"

definition entry_at :: "page_table \<Rightarrow> u64 \<Rightarrow> nat \<Rightarrow> PageTableEntry" where
  "entry_at t table index = (case pt_tables t table of Some p \<Rightarrow> p index | None \<Rightarrow> empty_pte)"

definition put_entry :: "page_table \<Rightarrow> u64 \<Rightarrow> nat \<Rightarrow> PageTableEntry \<Rightarrow> page_table" where
  "put_entry t table index pte =
     (case pt_tables t table of
        Some p \<Rightarrow> t\<lparr>pt_tables := (pt_tables t)(table \<mapsto> p(index := pte))\<rparr>
      | None \<Rightarrow> t)"

definition extract_index :: "page_table \<Rightarrow> u64 \<Rightarrow> nat \<Rightarrow> nat" where
  "extract_index t va level =
     (let shift = (if pt_levels t = 5 then 48 - level * 9 else 39 - level * 9) in
      unat (drop_bit shift va AND 0x1FF))"

definition start_level :: "page_table \<Rightarrow> nat" where
  "start_level t = (if pt_levels t = 5 then P4 else P3)"

definition next_table_addr :: "PageTableEntry \<Rightarrow> u64" where
  "next_table_addr pte = ucast (pte_pfn pte) * ENTRIES_PER_PAGE"

record WalkResult =
  wr_success :: bool
  wr_pfn :: u64
  wr_indices :: "nat list"
  wr_walk_cost :: nat
  wr_is_huge_page :: bool
  wr_huge_page_size :: u64

lemma get_or_create_same [simp]:
  "pt_levels (snd (get_or_create_table t b l i)) = pt_levels t" "pt_page_size (snd (get_or_create_table t b l i)) = pt_page_size t"
  by (auto simp: get_or_create_table_def Let_def split: option.splits)

text \<open>The loop of \<^verbatim>\<open>walk\<close>, with the bound, the counter and the current table.\<close>

function walk_loop :: "nat \<Rightarrow> u64 \<Rightarrow> nat \<Rightarrow> u64 \<Rightarrow> WalkResult \<Rightarrow> page_table \<Rightarrow> WalkResult \<times> page_table" where
  "walk_loop levels va i table result t =
     (if i < levels then
        (let level = start_level t + i;
             index = extract_index t va level;
             result = result\<lparr>wr_indices := wr_indices result @ [index], wr_walk_cost := wr_walk_cost result + 1\<rparr>;
             pte = entry_at t table index
         in if \<not> is_present pte then (result, t)
            else if is_huge pte then
              (result\<lparr>wr_is_huge_page := True,
                 wr_huge_page_size := (if level = P2 then PAGE_SIZE_2MB else if level = P3 then PAGE_SIZE_1GB else wr_huge_page_size result),
                 wr_pfn := ucast (pte_pfn pte), wr_success := True\<rparr>, t)
            else if i < levels - 1 then
              (let (table', t') = get_or_create_table t (next_table_addr pte) (level + 1) 0 in
               walk_loop levels va (i + 1) table' (result\<lparr>wr_walk_cost := wr_walk_cost result + 1\<rparr>) t')
            else walk_loop levels va (i + 1) table (result\<lparr>wr_pfn := ucast (pte_pfn pte), wr_success := True\<rparr>) t)
      else (result, t))"
  by pat_completeness auto

termination by (relation "measure (\<lambda>(levels, _, i, _). levels - i)") auto

declare walk_loop.simps [simp del]

definition walk :: "page_table \<Rightarrow> u64 \<Rightarrow> WalkResult \<times> page_table" where
  "walk t va =
     (let (table, t') = get_or_create_table t 0 (start_level t) 0 in
      walk_loop (pt_levels t) va 0 table
        \<lparr>wr_success = False, wr_pfn = 0, wr_indices = [], wr_walk_cost = 1, wr_is_huge_page = False, wr_huge_page_size = pt_page_size t\<rparr> t')"

lemma put_entry_same [simp]:
  "pt_levels (put_entry t a i p) = pt_levels t" "pt_page_size (put_entry t a i p) = pt_page_size t"
  by (auto simp: put_entry_def split: option.splits)

text \<open>The loop of \<^verbatim>\<open>create_mapping\<close>.\<close>

function map_loop :: "nat \<Rightarrow> u64 \<Rightarrow> u64 \<Rightarrow> bool \<Rightarrow> nat \<Rightarrow> nat \<Rightarrow> u64 \<Rightarrow> u64 \<Rightarrow> page_table \<Rightarrow> page_table" where
  "map_loop levels va pfn huge huge_level i table next_pfn t =
     (if i < levels then
        (let level = start_level t + i;
             index = extract_index t va level;
             pte = entry_at t table index
         in if huge \<and> level = huge_level then put_entry t table index (set_huge (set_present (pte\<lparr>pte_pfn := ucast pfn\<rparr>)))
            else if i < levels - 1 then
              (let (pte, next_pfn') =
                     (if is_present pte then (pte, next_pfn) else (set_present (pte\<lparr>pte_pfn := ucast next_pfn\<rparr>), next_pfn + 1));
                   t1 = put_entry t table index pte;
                   (table', t2) = get_or_create_table t1 (next_table_addr pte) (level + 1) 0
               in map_loop levels va pfn huge huge_level (i + 1) table' next_pfn' t2)
            else map_loop levels va pfn huge huge_level (i + 1) table next_pfn
                   (put_entry t table index (set_present (pte\<lparr>pte_pfn := ucast pfn\<rparr>))))
      else t)"
  by pat_completeness auto

termination by (relation "measure (\<lambda>(levels, _, _, _, _, i, _). levels - i)") auto

declare map_loop.simps [simp del]

definition create_mapping :: "page_table \<Rightarrow> u64 \<Rightarrow> u64 \<Rightarrow> bool \<Rightarrow> nat \<Rightarrow> page_table" where
  "create_mapping t va pfn huge huge_level =
     (let (table, t') = get_or_create_table t 0 (start_level t) 0 in map_loop (pt_levels t) va pfn huge huge_level 0 table 1 t')"

section \<open>Entries and addresses\<close>

lemma is_present_set [simp]: "is_present (set_present p)"
proof -
  have "bit ((pte_flags p OR 1) AND 1) 0" by (simp add: bit_or_iff bit_and_iff bit_1_iff)
  then have "(pte_flags p OR 1) AND 1 \<noteq> 0" by (metis bit_0_eq bot_apply bot_bool_def)
  then show ?thesis by (simp add: is_present_def set_present_def PTE_PRESENT_def)
qed

lemma is_huge_set_present [simp]: "is_huge (set_present p) = is_huge p"
proof -
  have "(f OR 1) AND 128 = f AND 128" for f :: "12 word"
    unfolding bit.conj_disj_distrib2 by simp
  then show ?thesis by (simp add: is_huge_def set_present_def PTE_PRESENT_def PTE_HUGE_def)
qed

lemma pte_update_simps [simp]:
  "is_huge (p\<lparr>pte_pfn := x\<rparr>) = is_huge p" "is_present (p\<lparr>pte_pfn := x\<rparr>) = is_present p" "pte_pfn (set_present p) = pte_pfn p"
  "\<not> is_present empty_pte" "\<not> is_huge empty_pte"
  by (simp_all add: is_huge_def is_present_def set_present_def empty_pte_def)

definition table_at :: "nat \<Rightarrow> nat \<Rightarrow> u64" where
  "table_at level p = of_nat (512 * p + level * 2 ^ 40)"

lemma unat_table_at: "level \<le> 4 \<Longrightarrow> p \<le> 4 \<Longrightarrow> unat (table_at level p) = 512 * p + level * 2 ^ 40"
proof -
  assume "level \<le> 4" "p \<le> 4"
  then have "512 * p + level * 2 ^ 40 < 2 ^ 64" by simp
  then show ?thesis unfolding table_at_def by (simp only: unsigned_of_nat) (simp add: take_bit_nat_eq_self)
qed

lemma get_or_create_addr: "fst (get_or_create_table t (of_nat (512 * p)) level 0) = table_at level p"
  by (auto simp: get_or_create_table_def Let_def table_at_def push_bit_eq_mult mult.commute split: option.splits)

lemma get_or_create_entry [simp]: "entry_at (snd (get_or_create_table t b l i)) = entry_at t"
  by (intro ext) (auto simp: get_or_create_table_def Let_def entry_at_def split: option.splits)

lemma get_or_create_dom: "fst (get_or_create_table t b l i) \<in> dom (pt_tables (snd (get_or_create_table t b l i)))"
  "dom (pt_tables t) \<subseteq> dom (pt_tables (snd (get_or_create_table t b l i)))"
  by (auto simp: get_or_create_table_def Let_def split: option.splits)

lemma get_or_create_known: "table_at level p \<in> dom (pt_tables t) \<Longrightarrow> get_or_create_table t (of_nat (512 * p)) level 0 = (table_at level p, t)"
  using get_or_create_addr[of t p level] by (auto simp: get_or_create_table_def Let_def split: option.splits)

lemma put_entry_entry:
  "a \<in> dom (pt_tables t) \<Longrightarrow> entry_at (put_entry t a i p) a' i' = (if a' = a \<and> i' = i then p else entry_at t a' i')"
  by (auto simp: put_entry_def entry_at_def)

lemma put_entry_dom [simp]: "dom (pt_tables (put_entry t a i p)) = dom (pt_tables t)"
  by (auto simp: put_entry_def split: option.splits)

lemma level_simps [simp]:
  "start_level (put_entry t a i p) = start_level t" "start_level (snd (get_or_create_table t b l k)) = start_level t"
  "extract_index (put_entry t a i p) = extract_index t" "extract_index (snd (get_or_create_table t b l k)) = extract_index t"
  by (auto simp: start_level_def extract_index_def Let_def intro!: ext)

text \<open>The states reached by mappings of plain pages: no entry is huge, and entries above the last level point to one of the first tables.\<close>

definition pt_ok :: "page_table \<Rightarrow> bool" where
  "pt_ok t \<longleftrightarrow> (pt_levels t = 4 \<or> pt_levels t = 5) \<and> (\<forall>a i. \<not> is_huge (entry_at t a i)) \<and>
     (\<forall>a i. unat a < 4 * 2 ^ 40 \<longrightarrow> is_present (entry_at t a i) \<longrightarrow> unat (pte_pfn (entry_at t a i)) \<le> 4)"

lemma pt_ok_last: "pt_ok t \<Longrightarrow> start_level t + (pt_levels t - 1) = 4"
  by (auto simp: pt_ok_def start_level_def P4_def P3_def)

lemma next_table_of: "unat (pte_pfn p) \<le> 4 \<Longrightarrow> next_table_addr p = of_nat (512 * unat (pte_pfn p))"
proof -
  have "(ucast (pte_pfn p) :: u64) = of_nat (unat (pte_pfn p))" by simp
  then show ?thesis by (simp add: next_table_addr_def ENTRIES_PER_PAGE_def)
qed

section \<open>A mapped address is found\<close>

lemma map_then_walk_loop:
  assumes "pt_ok t" "pt_levels t = levels" "i < levels" "p \<le> 4" "table = table_at (start_level t + i) p" "table \<in> dom (pt_tables t)"
    "1 \<le> unat next_pfn" "unat next_pfn \<le> i + 1"
    "t' = map_loop levels va pfn False hl i table next_pfn t"
  shows "pt_ok t' \<and> pt_levels t' = levels \<and> pt_page_size t' = pt_page_size t \<and> dom (pt_tables t) \<subseteq> dom (pt_tables t') \<and>
    (\<forall>a j. unat a < (start_level t + i) * 2 ^ 40 \<longrightarrow> entry_at t' a j = entry_at t a j) \<and>
    (\<forall>r. walk_loop levels va i table r t' =
      (r\<lparr>wr_success := True, wr_pfn := ucast (ucast pfn :: 40 word), wr_indices := wr_indices r @ map (\<lambda>k. extract_index t va (start_level t + k)) [i..<levels],
         wr_walk_cost := wr_walk_cost r + 2 * (levels - i) - 1\<rparr>, t'))"
  using assms
proof (induction "levels - i" arbitrary: i t table next_pfn p)
  case (Suc n)
  let ?level = "start_level t + i"
  let ?index = "extract_index t va ?level"
  let ?pte = "entry_at t table ?index"
  have lv: "?level \<le> 4" using pt_ok_last[OF Suc.prems(1)] Suc.prems(2,3) by simp
  note ua = unat_table_at[OF lv Suc.prems(4)]
  show ?case
  proof (cases "i < levels - 1")
    case False
    then have i: "Suc i = levels" using Suc.prems(3) by simp
    have ll: "?level = 4" using pt_ok_last[OF Suc.prems(1)] Suc.prems(2) i by auto
    let ?new = "set_present (?pte\<lparr>pte_pfn := ucast pfn\<rparr>)"
    have t': "t' = put_entry t table ?index ?new"
      using Suc.prems(3,9) False i by (subst (asm) map_loop.simps) (simp add: Let_def map_loop.simps)
    have e: "entry_at t' a j = (if a = table \<and> j = ?index then ?new else entry_at t a j)" for a j
      unfolding t' using put_entry_entry[OF Suc.prems(6)] by simp
    have tb: "unat table = 512 * p + 4 * 2 ^ 40" using ua ll Suc.prems(5) by simp
    have "pt_ok t'" using Suc.prems(1) e tb by (auto simp: pt_ok_def t')
    moreover have "walk_loop levels va i table r t' = (r\<lparr>wr_success := True, wr_pfn := ucast (ucast pfn :: 40 word),
        wr_indices := wr_indices r @ [?index], wr_walk_cost := wr_walk_cost r + 1\<rparr>, t')" for r
      using Suc.prems(1,3) False i e[of table ?index]
      by (subst walk_loop.simps) (simp add: Let_def t' walk_loop.simps pt_ok_def)
    moreover have "[i..<levels] = [i]" using i by auto
    ultimately show ?thesis using Suc.prems(2) i tb e by (auto simp: t' ll)
  next
    case True
    then have l3: "?level \<le> 3" using pt_ok_last[OF Suc.prems(1)] Suc.prems(2) by simp
    have small: "unat table < 4 * 2 ^ 40" using ua l3 Suc.prems(4,5) by simp
    obtain pte' next' where pn: "(if is_present ?pte then (?pte, next_pfn) else (set_present (?pte\<lparr>pte_pfn := ucast next_pfn\<rparr>), next_pfn + 1)) = (pte', next')"
      by fastforce
    have i3: "i \<le> 3" using True Suc.prems(1,2) by (auto simp: pt_ok_def)
    have "unat (ucast next_pfn :: 40 word) = unat next_pfn"
      using Suc.prems(8) i3 by (simp add: unsigned_ucast_eq take_bit_nat_eq_self)
    then have pte': "is_present pte'" "\<not> is_huge pte'" "unat (pte_pfn pte') \<le> 4"
      using pn Suc.prems(1,8) small i3 by (auto simp: pt_ok_def split: if_splits)
    have "unat (next_pfn + 1) = unat next_pfn + 1" using Suc.prems(8) i3 by (simp add: unat_word_ariths)
    then have next': "1 \<le> unat next'" "unat next' \<le> Suc i + 1" using pn Suc.prems(7,8) by (auto split: if_splits)
    define t1 where "t1 = put_entry t table ?index pte'"
    define t2 where "t2 = snd (get_or_create_table t1 (next_table_addr pte') (?level + 1) 0)"
    define table' where "table' = table_at (?level + 1) (unat (pte_pfn pte'))"
    have goc: "get_or_create_table t1 (next_table_addr pte') (?level + 1) 0 = (table', t2)"
      unfolding t2_def table'_def next_table_of[OF pte'(3)] using get_or_create_addr by (metis prod.collapse)
    have e: "entry_at t2 a j = (if a = table \<and> j = ?index then pte' else entry_at t a j)" for a j
      unfolding t2_def t1_def get_or_create_entry using put_entry_entry[OF Suc.prems(6)] by simp
    have ok2: "pt_ok t2" using Suc.prems(1) pte' e unfolding pt_ok_def t2_def t1_def by auto
    have same: "pt_levels t2 = levels" "start_level t2 = start_level t" "extract_index t2 = extract_index t" "pt_page_size t2 = pt_page_size t"
      using Suc.prems(2) by (simp_all add: t2_def t1_def)
    have dom: "table' \<in> dom (pt_tables t2)" "dom (pt_tables t) \<subseteq> dom (pt_tables t2)"
      using get_or_create_dom[of t1 "next_table_addr pte'" "?level + 1" 0] unfolding goc by (simp_all add: t1_def)
    have step: "t' = map_loop levels va pfn False hl (Suc i) table' next' t2"
      using Suc.prems(3,9) True pn goc[unfolded t1_def] by (subst (asm) map_loop.simps) (simp add: Let_def)
    have "Suc i < levels" "n = levels - Suc i" using True Suc.hyps(2) by auto
    from Suc.hyps(1)[OF this(2) ok2 same(1) this(1) pte'(3) _ dom(1) next' step] 
    have IH: "pt_ok t'" "pt_levels t' = levels" "pt_page_size t' = pt_page_size t" "dom (pt_tables t2) \<subseteq> dom (pt_tables t')"
      "\<And>a j. unat a < (?level + 1) * 2 ^ 40 \<Longrightarrow> entry_at t' a j = entry_at t2 a j"
      "\<And>r. walk_loop levels va (Suc i) table' r t' =
      (r\<lparr>wr_success := True, wr_pfn := ucast (ucast pfn :: 40 word), wr_indices := wr_indices r @ map (\<lambda>k. extract_index t va (start_level t + k)) [Suc i..<levels],
         wr_walk_cost := wr_walk_cost r + 2 * (levels - Suc i) - 1\<rparr>, t')"
      by (simp_all add: same table'_def)
    have "unat table < (?level + 1) * 2 ^ 40" using ua Suc.prems(4,5) by simp
    then have et: "entry_at t' table ?index = pte'" using IH(5) e by simp
    have st: "start_level t' = start_level t" "extract_index t' = extract_index t"
      using IH(2) Suc.prems(2) by (auto simp: start_level_def extract_index_def Let_def intro!: ext)
    have known: "get_or_create_table t' (next_table_addr pte') (Suc ?level) 0 = (table', t')"
      using get_or_create_known[of "?level + 1" "unat (pte_pfn pte')" t'] dom(1) IH(4) unfolding table'_def next_table_of[OF pte'(3)] by auto
    have "walk_loop levels va i table r t' = (r\<lparr>wr_success := True, wr_pfn := ucast (ucast pfn :: 40 word),
        wr_indices := wr_indices r @ map (\<lambda>k. extract_index t va (start_level t + k)) [i..<levels],
        wr_walk_cost := wr_walk_cost r + 2 * (levels - i) - 1\<rparr>, t')" for r
    proof -
      have "walk_loop levels va i table r t' =
          walk_loop levels va (Suc i) table' (r\<lparr>wr_indices := wr_indices r @ [?index], wr_walk_cost := wr_walk_cost r + 2\<rparr>) t'"
        using Suc.prems(3) True pte' et known by (subst walk_loop.simps) (simp add: Let_def st)
      moreover have "[i..<levels] = i # [Suc i..<levels]" using Suc.prems(3) by (rule upt_conv_Cons)
      moreover have "2 + 2 * (levels - Suc i) = 2 * (levels - i)" using Suc.prems(3) by simp
      ultimately show ?thesis unfolding IH(6) by simp
    qed
    moreover have "entry_at t' a j = entry_at t a j" if "unat a < ?level * 2 ^ 40" for a j
      using IH(5)[of a j] e[of a j] that ua Suc.prems(5) by auto
    ultimately show ?thesis using IH(1-4) dom(2) by blast
  qed
qed simp

lemma get_or_create_root: "get_or_create_table t 0 level 0 = (table_at level 0, snd (get_or_create_table t 0 level 0))"
  using get_or_create_addr[of t 0 level] by (simp add: prod_eq_iff)

lemma pt_ok_get_or_create: "pt_ok (snd (get_or_create_table t b l i)) = pt_ok t"
  by (simp add: pt_ok_def)

lemma map_then_walk_plain:
  assumes "pt_ok t" "t' = create_mapping t va pfn False hl"
  shows "pt_ok t' \<and> walk t' va =
    (\<lparr>wr_success = True, wr_pfn = ucast (ucast pfn :: 40 word), wr_indices = map (\<lambda>i. extract_index t va (start_level t + i)) [0..<pt_levels t],
       wr_walk_cost = 2 * pt_levels t, wr_is_huge_page = False, wr_huge_page_size = pt_page_size t\<rparr>, t')"
proof -
  let ?r = "table_at (start_level t) 0"
  define t0 where "t0 = snd (get_or_create_table t 0 (start_level t) 0)"
  have goc: "get_or_create_table t 0 (start_level t) 0 = (?r, t0)" unfolding t0_def by (rule get_or_create_root)
  have ok0: "pt_ok t0" using assms(1) by (simp add: t0_def pt_ok_get_or_create)
  have same: "pt_levels t0 = pt_levels t" "start_level t0 = start_level t" "extract_index t0 = extract_index t" "pt_page_size t0 = pt_page_size t"
    by (simp_all add: t0_def)
  have pos: "0 < pt_levels t" using assms(1) by (auto simp: pt_ok_def)
  have root: "?r \<in> dom (pt_tables t0)" using get_or_create_dom(1)[of t 0 "start_level t" 0] unfolding goc by simp
  have t': "t' = map_loop (pt_levels t) va pfn False hl 0 ?r 1 t0" using assms(2) by (simp add: create_mapping_def goc)
  have main: "pt_ok t'" "pt_levels t' = pt_levels t" "pt_page_size t' = pt_page_size t" "dom (pt_tables t0) \<subseteq> dom (pt_tables t')"
    "\<And>r. walk_loop (pt_levels t) va 0 ?r r t' =
      (r\<lparr>wr_success := True, wr_pfn := ucast (ucast pfn :: 40 word), wr_indices := wr_indices r @ map (\<lambda>k. extract_index t va (start_level t + k)) [0..<pt_levels t],
         wr_walk_cost := wr_walk_cost r + 2 * pt_levels t - 1\<rparr>, t')"
    using map_then_walk_loop[OF ok0 same(1) pos, of 0 ?r 1 t' va pfn hl] root t' by (simp_all add: same)
  have st: "start_level t' = start_level t" using main(2) by (simp add: start_level_def)
  have "get_or_create_table t' 0 (start_level t) 0 = (?r, t')"
    using get_or_create_known[of "start_level t" 0 t'] root main(4) by auto
  then have "walk t' va = walk_loop (pt_levels t) va 0 ?r
      \<lparr>wr_success = False, wr_pfn = 0, wr_indices = [], wr_walk_cost = 1, wr_is_huge_page = False, wr_huge_page_size = pt_page_size t\<rparr> t'"
    using main(2,3) by (simp add: walk_def st)
  also have "\<dots> = (\<lparr>wr_success = True, wr_pfn = ucast (ucast pfn :: 40 word), wr_indices = map (\<lambda>i. extract_index t va (start_level t + i)) [0..<pt_levels t],
       wr_walk_cost = 2 * pt_levels t, wr_is_huge_page = False, wr_huge_page_size = pt_page_size t\<rparr>, t')"
    unfolding main(5) by simp
  finally show ?thesis using main(1) by blast
qed

text \<open>
  In every state reached by mappings of plain pages, mapping an address makes the walk of this address
  succeed with the mapped frame (cut to its 40 bits), at a cost of two accesses per level, without a huge page, and the walk
  leaves the tables as they are.
\<close>

lemma map_then_walk:
  assumes "pt_ok t" "t' = create_mapping t va pfn False hl"
  shows "pt_ok t' \<and> walk t' va =
    (\<lparr>wr_success = True, wr_pfn = ucast (ucast pfn :: 40 word), wr_indices = map (\<lambda>i. extract_index t va (start_level t + i)) [0..<pt_levels t],
       wr_walk_cost = 2 * pt_levels t, wr_is_huge_page = False, wr_huge_page_size = pt_page_size t\<rparr>, t')"
  using assms by (rule map_then_walk_plain)

lemma pt_ok_new: "PageTable levels page_size = Some t \<Longrightarrow> pt_ok t"
  by (auto simp: PageTable_def pt_ok_def entry_at_def split: if_splits)

definition new_table :: "nat \<Rightarrow> page_table" where
  "new_table levels = \<lparr>pt_levels = levels, pt_page_size = 4096, pt_tables = Map.empty\<rparr>"

lemma pt_ok_new_table: "levels = 4 \<or> levels = 5 \<Longrightarrow> pt_ok (new_table levels)"
  by (auto simp: new_table_def pt_ok_def entry_at_def)

text \<open>The index of the last level.  With four levels the enumeration starts at \<^verbatim>\<open>P3\<close>, so every shift is 9 bits too small.\<close>

lemma extract_index_last:
  "pt_levels t = 5 \<Longrightarrow> extract_index t va 4 = unat (drop_bit 12 va AND 0x1FF)"
  "pt_levels t = 4 \<Longrightarrow> extract_index t va 4 = unat (drop_bit 3 va AND 0x1FF)"
  by (simp_all add: extract_index_def)

section \<open>The translation buffer\<close>

record TLBEntry =
  te_vpn :: u64
  te_pfn :: u64
  te_is_huge :: bool
  te_huge_page_size :: u64
  te_access_time :: u64

record tlb =
  tlb_size :: nat
  tlb_entries :: "(u64 \<times> TLBEntry) list"
  tlb_access_counter :: u64

definition TLB :: "nat \<Rightarrow> tlb" where
  "TLB n = \<lparr>tlb_size = n, tlb_entries = [], tlb_access_counter = 0\<rparr>"

definition find_lru_vpn :: "tlb \<Rightarrow> u64" where
  "find_lru_vpn b = fst (fold (\<lambda>(vpn, e) (lru_vpn, min_time).
     if te_access_time e < min_time then (vpn, te_access_time e) else (lru_vpn, min_time)) (tlb_entries b) (0, - 1))"

record LookupResult =
  lr_hit :: bool
  lr_pfn :: u64
  lr_cost :: nat

definition tlb_lookup :: "tlb \<Rightarrow> u64 \<Rightarrow> WalkResult \<Rightarrow> LookupResult \<times> tlb" where
  "tlb_lookup b vpn walk_result =
     (case map_of (tlb_entries b) vpn of
        Some e \<Rightarrow>
          (let counter = tlb_access_counter b + 1 in
           (\<lparr>lr_hit = True, lr_pfn = te_pfn e, lr_cost = 1\<rparr>,
            b\<lparr>tlb_access_counter := counter, tlb_entries := AList.update vpn (e\<lparr>te_access_time := counter\<rparr>) (tlb_entries b)\<rparr>))
      | None \<Rightarrow>
          if wr_success walk_result then
            (let entries = (if length (tlb_entries b) \<ge> tlb_size b then AList.delete (find_lru_vpn b) (tlb_entries b) else tlb_entries b);
                 counter = tlb_access_counter b + 1;
                 entry = \<lparr>te_vpn = vpn, te_pfn = wr_pfn walk_result, te_is_huge = wr_is_huge_page walk_result,
                   te_huge_page_size = wr_huge_page_size walk_result, te_access_time = counter\<rparr>
             in (\<lparr>lr_hit = False, lr_pfn = wr_pfn walk_result, lr_cost = wr_walk_cost walk_result\<rparr>,
                 b\<lparr>tlb_access_counter := counter, tlb_entries := AList.update vpn entry entries\<rparr>))
          else (\<lparr>lr_hit = False, lr_pfn = 0, lr_cost = wr_walk_cost walk_result\<rparr>, b))"

definition tlb_clear :: "tlb \<Rightarrow> tlb" where
  "tlb_clear b = b\<lparr>tlb_entries := [], tlb_access_counter := 0\<rparr>"

section \<open>The translator\<close>

record translator =
  tr_page_table :: page_table
  tr_tlb :: tlb
  tr_page_size :: u64

definition AddressTranslator :: "nat \<Rightarrow> u64 \<Rightarrow> nat \<Rightarrow> translator option" where
  "AddressTranslator levels page_size n = do {
     t \<leftarrow> PageTable levels page_size;
     Some \<lparr>tr_page_table = t, tr_tlb = TLB n, tr_page_size = page_size\<rparr>}"

record TranslationResult =
  ar_va :: u64
  ar_pa :: u64
  ar_tlb_hit :: bool
  ar_total_cost :: nat
  ar_page_table_indices :: "nat list"
  ar_is_huge_page :: bool
  ar_huge_page_size :: u64

text \<open>The page size is an argument of the constructor; translating with page size zero divides by zero, which is \<^verbatim>\<open>None\<close>.\<close>

definition translate :: "translator \<Rightarrow> u64 \<Rightarrow> (TranslationResult \<times> translator) option" where
  "translate s va =
     (let (walk_result, t) = walk (tr_page_table s) va;
          page_size = wr_huge_page_size walk_result
      in if page_size = 0 then None
         else
           (let vpn = va div page_size;
                offset = va mod page_size;
                (tlb_result, b) = tlb_lookup (tr_tlb s) vpn walk_result
            in Some (\<lparr>ar_va = va, ar_pa = (if wr_success walk_result then lr_pfn tlb_result * page_size + offset else 0),
                 ar_tlb_hit = lr_hit tlb_result, ar_total_cost = lr_cost tlb_result, ar_page_table_indices = wr_indices walk_result,
                 ar_is_huge_page = wr_is_huge_page walk_result, ar_huge_page_size = wr_huge_page_size walk_result\<rparr>,
               s\<lparr>tr_page_table := t, tr_tlb := b\<rparr>)))"

definition tr_create_mapping :: "translator \<Rightarrow> u64 \<Rightarrow> u64 \<Rightarrow> bool \<Rightarrow> bool \<Rightarrow> translator" where
  "tr_create_mapping s va pfn huge huge_1gb =
     s\<lparr>tr_page_table :=
        (if huge then create_mapping (tr_page_table s) va pfn True (if huge_1gb then P3 else P2)
         else create_mapping (tr_page_table s) va pfn False P1)\<rparr>"

definition tr_clear_tlb :: "translator \<Rightarrow> translator" where
  "tr_clear_tlb s = s\<lparr>tr_tlb := tlb_clear (tr_tlb s)\<rparr>"

section \<open>Least recently used replacement\<close>

definition tlb_ok :: "tlb \<Rightarrow> bool" where
  "tlb_ok b \<longleftrightarrow> 0 < tlb_size b \<and> length (tlb_entries b) \<le> tlb_size b \<and> distinct (map fst (tlb_entries b)) \<and>
     (\<forall>(vpn, e) \<in> set (tlb_entries b). te_vpn e = vpn \<and> te_access_time e \<le> tlb_access_counter b)"

lemma tlb_ok_new: "0 < n \<Longrightarrow> tlb_ok (TLB n)"
  by (simp add: tlb_ok_def TLB_def)

lemma lru_fold:
  assumes "(v, m) = fold (\<lambda>(vpn, e) (lru_vpn, min_time).
     if te_access_time e < min_time then (vpn, te_access_time e) else (lru_vpn, min_time)) es (v0, m0)"
  shows "(v, m) = (v0, m0) \<and> (\<forall>(v', e') \<in> set es. m0 \<le> te_access_time e') \<or>
    (\<exists>e. (v, e) \<in> set es \<and> m = te_access_time e \<and> m < m0 \<and> (\<forall>(v', e') \<in> set es. m \<le> te_access_time e'))"
  using assms
proof (induction es arbitrary: v0 m0)
  case (Cons p es)
  obtain v1 e1 where p: "p = (v1, e1)" by (cases p)
  show ?case
  proof (cases "te_access_time e1 < m0")
    case True
    have "(v, m) = fold (\<lambda>(vpn, e) (lru_vpn, min_time).
        if te_access_time e < min_time then (vpn, te_access_time e) else (lru_vpn, min_time)) es (v1, te_access_time e1)"
      using Cons.prems True by (simp add: p)
    from Cons.IH[OF this] show ?thesis
    proof (elim disjE exE conjE)
      assume "(v, m) = (v1, te_access_time e1)" "\<forall>(v', e') \<in> set es. te_access_time e1 \<le> te_access_time e'"
      then show ?thesis using True by (intro disjI2 exI[of _ e1]) (auto simp: p)
    next
      fix e assume "(v, e) \<in> set es" "m = te_access_time e" "m < te_access_time e1" "\<forall>(v', e') \<in> set es. m \<le> te_access_time e'"
      then show ?thesis using True by (intro disjI2 exI[of _ e]) (auto simp: p)
    qed
  next
    case False
    have "(v, m) = fold (\<lambda>(vpn, e) (lru_vpn, min_time).
        if te_access_time e < min_time then (vpn, te_access_time e) else (lru_vpn, min_time)) es (v0, m0)"
      using Cons.prems False by (simp add: p)
    from Cons.IH[OF this] show ?thesis
    proof (elim disjE exE conjE)
      assume "(v, m) = (v0, m0)" "\<forall>(v', e') \<in> set es. m0 \<le> te_access_time e'"
      then show ?thesis using False by (intro disjI1) (auto simp: p)
    next
      fix e assume "(v, e) \<in> set es" "m = te_access_time e" "m < m0" "\<forall>(v', e') \<in> set es. m \<le> te_access_time e'"
      then show ?thesis using False by (intro disjI2 exI[of _ e]) (auto simp: p)
    qed
  qed
qed simp

lemma find_lru_vpn_least:
  assumes "tlb_ok b" "tlb_entries b \<noteq> []" "tlb_access_counter b < - 1"
  shows "\<exists>e. map_of (tlb_entries b) (find_lru_vpn b) = Some e \<and>
    (\<forall>v' e'. map_of (tlb_entries b) v' = Some e' \<longrightarrow> te_access_time e \<le> te_access_time e')"
proof -
  have lt: "te_access_time e < - 1" if "(v, e) \<in> set (tlb_entries b)" for v e
    using assms(1,3) that by (auto simp: tlb_ok_def dest: order.strict_trans1)
  obtain v m where vm: "(v, m) = fold (\<lambda>(vpn, e) (lru_vpn, min_time).
     if te_access_time e < min_time then (vpn, te_access_time e) else (lru_vpn, min_time)) (tlb_entries b) (0, - 1)" by (metis (no_types, lifting) surj_pair)
  obtain v0 e0 where m0: "(v0, e0) \<in> set (tlb_entries b)" using hd_in_set[OF assms(2)] by (metis surj_pair)
  then have "\<not> - 1 \<le> te_access_time e0" using lt[OF m0] by (simp only: not_le)
  then have "\<not> (\<forall>(v', e') \<in> set (tlb_entries b). - 1 \<le> te_access_time e')" using m0 by blast
  then have "\<exists>e. (v, e) \<in> set (tlb_entries b) \<and> m = te_access_time e \<and> m < - 1 \<and> (\<forall>(v', e') \<in> set (tlb_entries b). m \<le> te_access_time e')"
    using lru_fold[OF vm] by (simp only: simp_thms)
  then obtain e where e: "(v, e) \<in> set (tlb_entries b)" "\<forall>(v', e') \<in> set (tlb_entries b). te_access_time e \<le> te_access_time e'"
    by metis
  have "find_lru_vpn b = v" unfolding find_lru_vpn_def vm[symmetric] by simp
  moreover have "map_of (tlb_entries b) v = Some e" using e(1) assms(1) by (simp add: tlb_ok_def)
  ultimately show ?thesis using e(2) by (fastforce dest: map_of_SomeD)
qed

lemma word_increases: "c < - 1 \<Longrightarrow> c \<le> c + 1" for c :: u64
proof -
  assume "c < - 1"
  then have "1 + c \<noteq> 0" by (metis add.commute eq_neg_iff_add_eq_0 less_irrefl)
  from unatSuc[OF this] show ?thesis by (simp add: word_le_nat_alt add.commute)
qed

lemma length_update_le: "length (AList.update k v xs) \<le> Suc (length xs)"
  by (induction xs) (auto split: if_splits)

lemma length_update_known: "map_of xs k \<noteq> None \<Longrightarrow> length (AList.update k v xs) = length xs"
  by (induction xs) auto

lemma length_delete_known: "map_of xs k \<noteq> None \<Longrightarrow> length (AList.delete k xs) < length xs"
proof (induction xs)
  case (Cons p xs)
  have le: "length (AList.delete k xs) \<le> length xs" by (simp add: AList.delete_eq)
  obtain k' v where p: "p = (k', v)" by (cases p)
  show ?case
  proof (cases "k' = k")
    case True
    then show ?thesis using le by (simp add: p)
  next
    case False
    then show ?thesis using Cons by (simp add: p)
  qed
qed simp

lemma set_update_sub: "p \<in> set (AList.update k v xs) \<Longrightarrow> p = (k, v) \<or> p \<in> set xs"
  by (induction xs) (auto split: if_splits)

lemma tlb_lookup_spec:
  assumes "tlb_ok b" "tlb_access_counter b < - 1" "tlb_lookup b vpn w = (r, b')"
  shows "tlb_ok b' \<and> (case map_of (tlb_entries b) vpn of
      Some e \<Rightarrow> r = \<lparr>lr_hit = True, lr_pfn = te_pfn e, lr_cost = 1\<rparr> \<and>
        map_of (tlb_entries b') = (map_of (tlb_entries b))(vpn \<mapsto> e\<lparr>te_access_time := tlb_access_counter b + 1\<rparr>)
    | None \<Rightarrow> \<not> lr_hit r \<and> lr_cost r = wr_walk_cost w \<and>
        (if wr_success w then lr_pfn r = wr_pfn w \<and> (\<exists>e rest. te_pfn e = wr_pfn w \<and> map_of (tlb_entries b') = rest(vpn \<mapsto> e) \<and>
           (if length (tlb_entries b) < tlb_size b then rest = map_of (tlb_entries b)
            else \<exists>v old. map_of (tlb_entries b) v = Some old \<and> rest = (map_of (tlb_entries b))(v := None) \<and>
              (\<forall>v' e'. map_of (tlb_entries b) v' = Some e' \<longrightarrow> te_access_time old \<le> te_access_time e')))
         else b' = b))"
proof -
  let ?c = "tlb_access_counter b + 1"
  have inc: "x \<le> ?c" if "x \<le> tlb_access_counter b" for x
    using that word_increases[OF assms(2)] by (rule order_trans)
  have okD: "0 < tlb_size b" "length (tlb_entries b) \<le> tlb_size b" "distinct (map fst (tlb_entries b))"
    "\<And>v e. (v, e) \<in> set (tlb_entries b) \<Longrightarrow> te_vpn e = v \<and> te_access_time e \<le> tlb_access_counter b"
    using assms(1) by (auto simp: tlb_ok_def)
  show ?thesis
  proof (cases "map_of (tlb_entries b) vpn")
    case (Some e)
    then have b': "b' = b\<lparr>tlb_access_counter := ?c, tlb_entries := AList.update vpn (e\<lparr>te_access_time := ?c\<rparr>) (tlb_entries b)\<rparr>"
      "r = \<lparr>lr_hit = True, lr_pfn = te_pfn e, lr_cost = 1\<rparr>" using assms(3) by (auto simp: tlb_lookup_def Let_def)
    have "te_vpn e = vpn" using okD(4) map_of_SomeD[OF Some] by blast
    then have "tlb_ok b'" using okD Some inc
      by (auto simp: tlb_ok_def b' length_update_known AList.distinct_update dest!: set_update_sub)
    then show ?thesis using Some by (simp add: b' AList.update_conv')
  next
    case None
    show ?thesis
    proof (cases "wr_success w")
      case False
      then show ?thesis using None assms(1,3) by (auto simp: tlb_lookup_def)
    next
      case True
      define es where "es = (if length (tlb_entries b) \<ge> tlb_size b then AList.delete (find_lru_vpn b) (tlb_entries b) else tlb_entries b)"
      let ?e = "\<lparr>te_vpn = vpn, te_pfn = wr_pfn w, te_is_huge = wr_is_huge_page w, te_huge_page_size = wr_huge_page_size w, te_access_time = ?c\<rparr>"
      have b': "b' = b\<lparr>tlb_access_counter := ?c, tlb_entries := AList.update vpn ?e es\<rparr>"
        "r = \<lparr>lr_hit = False, lr_pfn = wr_pfn w, lr_cost = wr_walk_cost w\<rparr>"
        using assms(3) None True by (auto simp: tlb_lookup_def Let_def es_def)
      have rest: "if length (tlb_entries b) < tlb_size b then map_of es = map_of (tlb_entries b)
          else \<exists>v old. map_of (tlb_entries b) v = Some old \<and> map_of es = (map_of (tlb_entries b))(v := None) \<and>
              (\<forall>v' e'. map_of (tlb_entries b) v' = Some e' \<longrightarrow> te_access_time old \<le> te_access_time e')"
      proof (cases "length (tlb_entries b) < tlb_size b")
        case False
        then have "tlb_entries b \<noteq> []" using okD(1) by auto
        from find_lru_vpn_least[OF assms(1) this assms(2)] show ?thesis using False by (auto simp: es_def AList.delete_conv')
      qed (simp add: es_def)
      have "length es < tlb_size b"
      proof (cases "length (tlb_entries b) < tlb_size b")
        case False
        then have "tlb_entries b \<noteq> []" using okD(1) by auto
        from find_lru_vpn_least[OF assms(1) this assms(2)] have "map_of (tlb_entries b) (find_lru_vpn b) \<noteq> None" by auto
        from length_delete_known[OF this] show ?thesis using False okD(2) by (simp add: es_def)
      qed (simp add: es_def)
      moreover have "set es \<subseteq> set (tlb_entries b)" by (auto simp: es_def AList.delete_eq)
      moreover have "distinct (map fst es)" using okD(3) by (simp add: es_def AList.distinct_delete)
      ultimately have "tlb_ok b'" using okD inc length_update_le[of vpn ?e es]
        by (fastforce simp: tlb_ok_def b' AList.distinct_update dest!: set_update_sub)
      moreover have "map_of (tlb_entries b') = (map_of es)(vpn \<mapsto> ?e)" by (simp add: b' AList.update_conv')
      moreover have "te_pfn ?e = wr_pfn w" by simp
      ultimately have "tlb_ok b'" "\<exists>e rest. te_pfn e = wr_pfn w \<and> map_of (tlb_entries b') = rest(vpn \<mapsto> e) \<and>
           (if length (tlb_entries b) < tlb_size b then rest = map_of (tlb_entries b)
            else \<exists>v old. map_of (tlb_entries b) v = Some old \<and> rest = (map_of (tlb_entries b))(v := None) \<and>
              (\<forall>v' e'. map_of (tlb_entries b) v' = Some e' \<longrightarrow> te_access_time old \<le> te_access_time e'))"
        using rest by (blast, metis)
      then show ?thesis using None True by (simp add: b'(2))
    qed
  qed
qed

text \<open>
  As long as the access counter does not wrap, a lookup keeps the invariant of the buffer; it answers a hit from the stored entry and
  refreshes it; on a miss it stores the translation of a successful walk, after removing an entry of least access time when
  the buffer is full; every other entry stays.
\<close>

theorem tlb_lookup_law:
  assumes "tlb_ok b" "tlb_access_counter b < - 1" "tlb_lookup b vpn w = (r, b')"
  shows "tlb_ok b' \<and> (case map_of (tlb_entries b) vpn of
      Some e \<Rightarrow> r = \<lparr>lr_hit = True, lr_pfn = te_pfn e, lr_cost = 1\<rparr> \<and>
        map_of (tlb_entries b') = (map_of (tlb_entries b))(vpn \<mapsto> e\<lparr>te_access_time := tlb_access_counter b + 1\<rparr>)
    | None \<Rightarrow> \<not> lr_hit r \<and> lr_cost r = wr_walk_cost w \<and>
        (if wr_success w then lr_pfn r = wr_pfn w \<and> (\<exists>e rest. te_pfn e = wr_pfn w \<and> map_of (tlb_entries b') = rest(vpn \<mapsto> e) \<and>
           (if length (tlb_entries b) < tlb_size b then rest = map_of (tlb_entries b)
            else \<exists>v old. map_of (tlb_entries b) v = Some old \<and> rest = (map_of (tlb_entries b))(v := None) \<and>
              (\<forall>v' e'. map_of (tlb_entries b) v' = Some e' \<longrightarrow> te_access_time old \<le> te_access_time e')))
         else b' = b))"
  using assms by (rule tlb_lookup_spec)

section \<open>The composition\<close>

text \<open>A walk only adds empty tables, and its result depends on the entries only.\<close>

definition same_entries :: "page_table \<Rightarrow> page_table \<Rightarrow> bool" where
  "same_entries t t' \<longleftrightarrow> entry_at t' = entry_at t \<and> pt_levels t' = pt_levels t \<and> pt_page_size t' = pt_page_size t"

lemma same_entries_trans: "same_entries t t' \<Longrightarrow> same_entries t' t'' \<Longrightarrow> same_entries t t''"
  by (simp add: same_entries_def)

lemma same_entries_get_or_create:
  "same_entries t t' \<Longrightarrow> same_entries t (snd (get_or_create_table t' b l k))"
  "fst (get_or_create_table t' b l k) = b + push_bit 40 (of_nat l) + of_nat k"
  by (simp_all add: same_entries_def) (simp add: get_or_create_table_def Let_def split: option.split)

lemma same_entries_index:
  "same_entries t t' \<Longrightarrow> start_level t' = start_level t \<and> extract_index t' = extract_index t \<and> entry_at t' = entry_at t"
  by (auto simp: same_entries_def start_level_def extract_index_def intro!: ext)

lemma walk_loop_end: "\<not> i < levels \<Longrightarrow> walk_loop levels va i table r t = (r, t)"
  by (subst walk_loop.simps) simp

lemma walk_loop_same_entries:
  assumes "same_entries t t'"
  shows "same_entries t (snd (walk_loop levels va i table r t')) \<and> fst (walk_loop levels va i table r t') = fst (walk_loop levels va i table r t)"
  using assms
proof (induction "levels - i" arbitrary: i table r t t')
  case 0
  then show ?case by (simp add: walk_loop_end)
next
  case (Suc n)
  then have i: "i < levels" "n = levels - Suc i" by auto
  define pte where "pte = entry_at t table (extract_index t va (start_level t + i))"
  note same = same_entries_index[OF Suc.prems]
  note IH = Suc.hyps(1)[OF i(2)]
  consider "\<not> is_present pte" | "is_present pte" "is_huge pte" | "is_present pte" "\<not> is_huge pte" "i < levels - 1"
    | "is_present pte" "\<not> is_huge pte" "\<not> i < levels - 1" by blast
  then show ?case
  proof cases
    case 1
    then show ?thesis using i(1) Suc.prems by (simp add: walk_loop.simps[of levels va i] Let_def same pte_def)
  next
    case 2
    then show ?thesis using i(1) Suc.prems by (simp add: walk_loop.simps[of levels va i] Let_def same pte_def)
  next
    case 3
    let ?g = "\<lambda>t. get_or_create_table t (next_table_addr pte) (Suc (start_level t + i)) 0"
    let ?r = "r\<lparr>wr_indices := wr_indices r @ [extract_index t va (start_level t + i)], wr_walk_cost := wr_walk_cost r + 2\<rparr>"
    have step: "walk_loop levels va i table r u = walk_loop levels va (Suc i) (fst (?g u)) ?r (snd (?g u))" if "same_entries t u" for u
      using 3 i(1) same_entries_index[OF that] by (simp add: walk_loop.simps[of levels va i] Let_def case_prod_beta pte_def)
    have refl: "same_entries t t" by (simp add: same_entries_def)
    have "fst (?g t') = fst (?g t)" by (simp add: same_entries_get_or_create(2) same)
    moreover have "same_entries t (snd (?g t'))" "same_entries t (snd (?g t))"
      using Suc.prems refl same_entries_get_or_create(1) by blast+
    ultimately show ?thesis unfolding step[OF Suc.prems] step[OF refl] using IH by simp
  next
    case 4
    then have "\<not> Suc i < levels" by simp
    then show ?thesis using 4 i(1) Suc.prems by (simp add: walk_loop.simps[of levels va i] Let_def same pte_def walk_loop_end)
  qed
qed

lemma walk_same_entries:
  assumes "same_entries t t'"
  shows "same_entries t (snd (walk t' va)) \<and> fst (walk t' va) = fst (walk t va)"
proof -
  let ?g = "\<lambda>t. get_or_create_table t 0 (start_level t) 0"
  let ?r = "\<lparr>wr_success = False, wr_pfn = 0, wr_indices = [], wr_walk_cost = 1, wr_is_huge_page = False, wr_huge_page_size = pt_page_size t\<rparr>"
  have g: "same_entries t (snd (?g u))" "fst (?g u) = fst (?g t)" if "same_entries t u" for u
    using same_entries_get_or_create(1)[OF that] same_entries_index[OF that] by (simp_all add: same_entries_get_or_create(2))
  have step: "walk u va = walk_loop (pt_levels t) va 0 (fst (?g t)) ?r (snd (?g u))" if "same_entries t u" for u
    using that g[OF that] by (simp add: walk_def case_prod_beta same_entries_def)
  have refl: "same_entries t t" by (simp add: same_entries_def)
  show ?thesis unfolding step[OF assms] step[OF refl] using walk_loop_same_entries[OF g(1)] assms refl by simp
qed

lemma walks_same_entries: "same_entries t (fold (\<lambda>va t. snd (walk t va)) vas t)"
proof -
  have "same_entries t u \<Longrightarrow> same_entries t (fold (\<lambda>va t. snd (walk t va)) vas u)" for u
    by (induction vas arbitrary: u) (simp_all add: walk_same_entries)
  then show ?thesis by (simp add: same_entries_def)
qed

text \<open>
  C20: take a table built by mappings of plain pages, with a page size other than zero, and map \<^verbatim>\<open>va\<close> in it; walks of
  any addresses may follow, but no other mapping (a later mapping may overwrite the tables of an earlier one, since every call numbers its new
  tables from 1).  Then translating \<^verbatim>\<open>va\<close>, when the buffer does not hold its page, has no undefined step, walks the table and returns the
  frame's address (the frame number cut to its 40 bits) plus the offset at two accesses per level; translating it again hits the
  buffer at cost one with the same result.
\<close>

theorem translate_mapped:
  assumes "pt_ok t" "0 < pt_page_size t"
    "tr_page_table s = fold (\<lambda>va' t. snd (walk t va')) vas (create_mapping t va pfn False P1)"
    "tlb_ok (tr_tlb s)" "tlb_access_counter (tr_tlb s) < - 1" "map_of (tlb_entries (tr_tlb s)) (va div pt_page_size t) = None"
  shows "\<exists>r1 s1 r2 s2. translate s va = Some (r1, s1) \<and> translate s1 va = Some (r2, s2) \<and>
    ar_pa r1 = ucast (ucast pfn :: 40 word) * pt_page_size t + va mod pt_page_size t \<and>
    \<not> ar_tlb_hit r1 \<and> ar_total_cost r1 = 2 * pt_levels t \<and> ar_tlb_hit r2 \<and> ar_total_cost r2 = 1 \<and> ar_pa r2 = ar_pa r1"
proof -
  let ?t = "create_mapping t va pfn False P1"
  let ?ps = "pt_page_size t"
  let ?w = "\<lparr>wr_success = True, wr_pfn = ucast (ucast pfn :: 40 word), wr_indices = map (\<lambda>i. extract_index t va (start_level t + i)) [0..<pt_levels t],
       wr_walk_cost = 2 * pt_levels t, wr_is_huge_page = False, wr_huge_page_size = ?ps\<rparr>"
  have same: "same_entries ?t (tr_page_table s)" unfolding assms(3) by (rule walks_same_entries)
  have w0: "fst (walk ?t va) = ?w" using map_then_walk_plain[OF assms(1) refl] by simp
  obtain t1 where w: "walk (tr_page_table s) va = (?w, t1)" "same_entries ?t t1"
    using walk_same_entries[OF same, of va] w0 by (metis prod.collapse)
  obtain t2 where w2: "walk t1 va = (?w, t2)" using walk_same_entries[OF w(2), of va] w0 by (metis prod.collapse)
  have ps: "?ps \<noteq> 0" using assms(2) by simp
  obtain q b where q: "tlb_lookup (tr_tlb s) (va div ?ps) ?w = (q, b)" by fastforce
  note law = tlb_lookup_spec[OF assms(4,5) q]
  have hit: "\<not> lr_hit q" "lr_cost q = 2 * pt_levels t" "lr_pfn q = wr_pfn ?w" using law assms(6) by simp_all
  obtain e where e: "map_of (tlb_entries b) (va div ?ps) = Some e" "te_pfn e = wr_pfn ?w" using law assms(6) by auto
  obtain b2 where b2: "tlb_lookup b (va div ?ps) ?w = (\<lparr>lr_hit = True, lr_pfn = te_pfn e, lr_cost = 1\<rparr>, b2)"
    using e(1) by (auto simp: tlb_lookup_def Let_def)
  show ?thesis using w(1) w2 ps q b2 hit e(2) by (auto simp: translate_def Let_def)
qed

definition demo_translator :: "nat \<Rightarrow> translator" where
  "demo_translator levels =
     \<lparr>tr_page_table = snd (walk (create_mapping (new_table levels) 0x12345678 42 False P1) 0x1000), tr_tlb = TLB 4, tr_page_size = 4096\<rparr>"

theorem translate_mapped_witness:
  "\<exists>r1 s1 r2 s2. translate (demo_translator 5) 0x12345678 = Some (r1, s1) \<and> translate s1 0x12345678 = Some (r2, s2) \<and>
   ar_pa r1 = 42 * 4096 + 0x678 \<and> ar_tlb_hit r2"
proof -
  have "pt_ok (new_table 5)" "tlb_ok (tr_tlb (demo_translator 5))" "tlb_access_counter (tr_tlb (demo_translator 5)) < - 1"
    "tlb_entries (tr_tlb (demo_translator 5)) = []"
    using pt_ok_new_table[of 5] tlb_ok_new[of 4] by (simp_all add: demo_translator_def TLB_def word_gt_0)
  moreover have "pt_page_size (new_table 5) = 4096" by (simp add: new_table_def)
  moreover have "tr_page_table (demo_translator 5) = fold (\<lambda>va' t. snd (walk t va')) [0x1000] (create_mapping (new_table 5) 0x12345678 42 False P1)"
    by (simp add: demo_translator_def)
  ultimately show ?thesis using translate_mapped[of "new_table 5" "demo_translator 5" "[0x1000]" "0x12345678" 42]
    by (auto simp: word_gt_0)
qed

section \<open>Undefined and wrong translations\<close>

text \<open>With page size zero, which the constructor and the command line accept, translating an address without a huge page is undefined.\<close>

lemma translate_page_size_zero:
  "AddressTranslator 5 0 n = Some s \<Longrightarrow> translate s va = None"
  by (auto simp: AddressTranslator_def PageTable_def translate_def walk_def get_or_create_table_def Let_def walk_loop.simps[of 5] entry_at_def split: prod.splits)

text \<open>A later mapping overwrites an earlier one: after mapping \<^verbatim>\<open>2 ^ 48\<close> the address 0 has the frame of \<^verbatim>\<open>2 ^ 48\<close>.\<close>

lemma later_mapping_overwrites:
  "wr_pfn (fst (walk (create_mapping (create_mapping (new_table 5) 0 7 False P1) (2 ^ 48) 8 False P1) 0)) = 8"
  by code_simp

text \<open>Two addresses of one page: with four levels the last index is taken from the page offset.\<close>

lemma four_levels_split_page: "\<not> wr_success (fst (walk (create_mapping (new_table 4) 0 7 False P1) 8))"
  by code_simp

end
