(* ===== verification/Bounded_Queues.thy ===== *)
theory Bounded_Queues
  imports Xlab_Prelude
begin

text \<open>
  The bounded queues of \<^verbatim>\<open>src/cc/algo/src/algo/algo_lock_free_queue.cc\<close>, called by one thread at a time: \<^verbatim>\<open>ThreadSafeQueue\<close>, whose
  operations hold a mutex, and \<^verbatim>\<open>LockFreeSPSCQueue\<close>.  The locale \<open>fifo_queue\<close> is the contract of the base class
  \<^verbatim>\<open>Queue\<close>; its client lemma is first-in first-out delivery.  The interleaved executions of the lock-free queues are in
  the theory \<^verbatim>\<open>Mpmc_Queue\<close>.
\<close>

section \<open>The contract\<close>

locale fifo_queue =
  fixes room :: "'a list \<Rightarrow> bool"
    and ok :: "'s \<Rightarrow> bool"
    and items :: "'s \<Rightarrow> 'a list"
    and push :: "'s \<Rightarrow> 'a \<Rightarrow> (bool \<times> 's) option"
    and pop :: "'s \<Rightarrow> ('a option \<times> 's) option"
  assumes push_spec: "ok s \<Longrightarrow> \<exists>s'. push s x = Some (room (items s), s') \<and> ok s' \<and>
      items s' = (if room (items s) then items s @ [x] else items s)"
    and pop_spec: "ok s \<Longrightarrow> \<exists>s'. pop s = Some (case items s of [] \<Rightarrow> None | x # _ \<Rightarrow> Some x, s') \<and> ok s' \<and> items s' = tl (items s)"

text \<open>A sequence of calls with their results, on an implementation and on the abstract queue that accepts a value when it has room.\<close>

datatype 'a queue_op = CallPush 'a | CallPop

datatype 'a queue_res = PushRes bool | PopRes "'a option"

fun run_calls :: "('s \<Rightarrow> 'a \<Rightarrow> (bool \<times> 's) option) \<Rightarrow> ('s \<Rightarrow> ('a option \<times> 's) option) \<Rightarrow> 'a queue_op list \<Rightarrow> 's \<Rightarrow> ('a queue_res list \<times> 's) option" where
  "run_calls push pop [] s = Some ([], s)"
| "run_calls push pop (CallPush x # ops) s = do { (b, s) \<leftarrow> push s x; (rs, s) \<leftarrow> run_calls push pop ops s; Some (PushRes b # rs, s) }"
| "run_calls push pop (CallPop # ops) s = do { (r, s) \<leftarrow> pop s; (rs, s) \<leftarrow> run_calls push pop ops s; Some (PopRes r # rs, s) }"

fun spec_calls :: "('a list \<Rightarrow> bool) \<Rightarrow> 'a queue_op list \<Rightarrow> 'a list \<Rightarrow> 'a queue_res list \<times> 'a list" where
  "spec_calls room [] xs = ([], xs)"
| "spec_calls room (CallPush x # ops) xs =
    (let (rs, ys) = spec_calls room ops (if room xs then xs @ [x] else xs) in (PushRes (room xs) # rs, ys))"
| "spec_calls room (CallPop # ops) [] = (let (rs, ys) = spec_calls room ops [] in (PopRes None # rs, ys))"
| "spec_calls room (CallPop # ops) (x # xs) = (let (rs, ys) = spec_calls room ops xs in (PopRes (Some x) # rs, ys))"

context fifo_queue
begin

lemma run_calls_refines:
  "ok s \<Longrightarrow> \<exists>s'. run_calls push pop ops s = Some (fst (spec_calls room ops (items s)), s') \<and> ok s' \<and>
    items s' = snd (spec_calls room ops (items s))"
proof (induction ops arbitrary: s)
  case (Cons c ops)
  show ?case
  proof (cases c)
    case (CallPush x)
    obtain s1 where s1: "push s x = Some (room (items s), s1)" "ok s1"
      "items s1 = (if room (items s) then items s @ [x] else items s)" using push_spec[OF Cons.prems] by metis
    then show ?thesis using CallPush Cons.IH[OF s1(2)] by (auto simp: case_prod_beta)
  next
    case CallPop
    obtain s1 where s1: "pop s = Some (case items s of [] \<Rightarrow> None | x # _ \<Rightarrow> Some x, s1)" "ok s1" "items s1 = tl (items s)"
      using pop_spec[OF Cons.prems] by metis
    then show ?thesis using CallPop Cons.IH[OF s1(2)] by (cases "items s") (auto simp: case_prod_beta)
  qed
qed simp

end

definition within :: "nat \<Rightarrow> 'a list \<Rightarrow> bool" where
  [simp]: "within C xs \<longleftrightarrow> length xs < C"

section \<open>Ring indices\<close>

text \<open>Both queues use \<open>n = Capacity + 1\<close> slots, written at \<^verbatim>\<open>head_\<close> and read at \<^verbatim>\<open>tail_\<close>.\<close>

definition ring_count :: "nat \<Rightarrow> nat \<Rightarrow> nat \<Rightarrow> nat" where
  "ring_count n head tail = (head + n - tail) mod n"

definition ring_items :: "'a list \<Rightarrow> nat \<Rightarrow> nat \<Rightarrow> 'a list" where
  "ring_items data head tail = map (\<lambda>i. data ! ((tail + i) mod length data)) [0..<ring_count (length data) head tail]"

lemma ring_count_less: "0 < n \<Longrightarrow> ring_count n head tail < n"
  by (simp add: ring_count_def)

lemma ring_count_cases:
  "head < n \<Longrightarrow> tail < n \<Longrightarrow> ring_count n head tail = (if tail \<le> head then head - tail else head + n - tail)"
  by (auto simp: ring_count_def mod_if)

lemma ring_count_0: "head < n \<Longrightarrow> ring_count n head 0 = head" "tail < n \<Longrightarrow> ring_count n 0 tail = (if tail = 0 then 0 else n - tail)"
  by (auto simp: ring_count_def mod_if)

lemma ring_full_iff: "head < n \<Longrightarrow> tail < n \<Longrightarrow> (head + 1) mod n = tail \<longleftrightarrow> ring_count n head tail = n - 1"
  by (auto simp: ring_count_cases mod_if)

lemma ring_empty_iff: "head < n \<Longrightarrow> tail < n \<Longrightarrow> head = tail \<longleftrightarrow> ring_count n head tail = 0"
  by (auto simp: ring_count_cases)

lemma ring_next: "i < n \<Longrightarrow> (i + 1) mod n = (if i + 1 = n then 0 else i + 1)" for i n :: nat
  by auto

lemma ring_count_push:
  assumes "head < n" "tail < n" "(head + 1) mod n \<noteq> tail"
  shows "ring_count n ((head + 1) mod n) tail = Suc (ring_count n head tail)"
proof (cases "head + 1 = n")
  case True
  then show ?thesis using assms by (simp add: ring_count_0 ring_count_cases)
next
  case False
  then have h: "head + 1 < n" using assms(1) by simp
  then show ?thesis using assms ring_count_cases[OF h assms(2)] ring_count_cases[OF assms(1,2)] by (simp split: if_splits)
qed

lemma ring_count_pop:
  assumes "head < n" "tail < n" "head \<noteq> tail"
  shows "ring_count n head tail = Suc (ring_count n head ((tail + 1) mod n))"
proof (cases "tail + 1 = n")
  case True
  then show ?thesis using assms by (simp add: ring_count_0 ring_count_cases)
next
  case False
  then have t: "tail + 1 < n" using assms(2) by simp
  then show ?thesis using assms ring_count_cases[OF assms(1) t] ring_count_cases[OF assms(1,2)] by (simp split: if_splits)
qed

lemma ring_last: "head < n \<Longrightarrow> tail < n \<Longrightarrow> (tail + ring_count n head tail) mod n = head"
  by (cases "tail \<le> head") (simp_all add: ring_count_cases)

lemma ring_not_last:
  assumes "head < n" "tail < n" "i < ring_count n head tail"
  shows "(tail + i) mod n \<noteq> head"
proof (cases "tail + i < n")
  case True
  then show ?thesis using assms by (simp add: ring_count_cases split: if_splits)
next
  case False
  then have "(tail + i) mod n = tail + i - n"
    using assms ring_count_less[of n head tail] by (simp add: mod_if)
  then show ?thesis using False assms by (simp add: ring_count_cases split: if_splits)
qed

lemma ring_push:
  assumes "head < length data" "tail < length data" "(head + 1) mod length data \<noteq> tail"
  shows "ring_items (data[head := x]) ((head + 1) mod length data) tail = ring_items data head tail @ [x]"
proof -
  have "ring_count (length data) ((head + 1) mod length data) tail = Suc (ring_count (length data) head tail)"
    using assms by (rule ring_count_push)
  moreover have "data[head := x] ! ((tail + i) mod length data) = data ! ((tail + i) mod length data)"
    if "i < ring_count (length data) head tail" for i
    using ring_not_last[OF assms(1,2) that] by simp
  ultimately show ?thesis using assms(1) ring_last[OF assms(1,2)] by (simp add: ring_items_def)
qed

lemma ring_pop:
  assumes "head < length data" "tail < length data" "head \<noteq> tail"
  shows "ring_items data head tail = data ! tail # ring_items data head ((tail + 1) mod length data)"
proof -
  have "(tail + Suc i) mod length data = ((tail + 1) mod length data + i) mod length data" for i
    by (simp add: mod_add_left_eq)
  then show ?thesis
    unfolding ring_items_def ring_count_pop[OF assms] using assms(2) by (simp add: map_upt_Suc del: upt_Suc)
qed

section \<open>ThreadSafeQueue\<close>

record 'a tsq =
  tsq_head :: nat
  tsq_tail :: nat
  tsq_size :: nat
  tsq_data :: "'a list"

text \<open>The slots hold default values of the element type at first.\<close>

definition ThreadSafeQueue :: "nat \<Rightarrow> 'a \<Rightarrow> 'a tsq" where
  "ThreadSafeQueue Capacity dflt = \<lparr>tsq_head = 0, tsq_tail = 0, tsq_size = 0, tsq_data = replicate (Capacity + 1) dflt\<rparr>"

definition tsq_Push :: "nat \<Rightarrow> 'a tsq \<Rightarrow> 'a \<Rightarrow> (bool \<times> 'a tsq) option" where
  "tsq_Push Capacity q value =
     (let next_head = (tsq_head q + 1) mod (Capacity + 1) in
      if next_head = tsq_tail q then Some (False, q)
      else do {
        data \<leftarrow> vec_set (tsq_data q) (tsq_head q) value;
        Some (True, q\<lparr>tsq_data := data, tsq_head := next_head, tsq_size := tsq_size q + 1\<rparr>)})"

definition tsq_Pop :: "nat \<Rightarrow> 'a tsq \<Rightarrow> ('a option \<times> 'a tsq) option" where
  "tsq_Pop Capacity q =
     (if tsq_head q = tsq_tail q then Some (None, q)
      else do {
        value \<leftarrow> vec_at (tsq_data q) (tsq_tail q);
        Some (Some value, q\<lparr>tsq_tail := (tsq_tail q + 1) mod (Capacity + 1), tsq_size := tsq_size q - 1\<rparr>)})"

definition tsq_Size :: "'a tsq \<Rightarrow> nat" where
  "tsq_Size q = tsq_size q"

definition tsq_Empty :: "'a tsq \<Rightarrow> bool" where
  "tsq_Empty q \<longleftrightarrow> tsq_size q = 0"

definition tsq_Full :: "nat \<Rightarrow> 'a tsq \<Rightarrow> bool" where
  "tsq_Full Capacity q \<longleftrightarrow> tsq_size q = Capacity"

definition TryPop :: "('s \<Rightarrow> ('a option \<times> 's) option) \<Rightarrow> 's \<Rightarrow> ('a option \<times> 's) option" where
  "TryPop Pop q = Pop q"

definition TryPush :: "('s \<Rightarrow> 'a \<Rightarrow> (bool \<times> 's) option) \<Rightarrow> 's \<Rightarrow> 'a \<Rightarrow> (bool \<times> 's) option" where
  "TryPush Push q value = Push q value"

definition tsq_items :: "'a tsq \<Rightarrow> 'a list" where
  "tsq_items q = ring_items (tsq_data q) (tsq_head q) (tsq_tail q)"

definition tsq_ok :: "nat \<Rightarrow> 'a tsq \<Rightarrow> bool" where
  "tsq_ok C q \<longleftrightarrow> length (tsq_data q) = C + 1 \<and> tsq_head q < C + 1 \<and> tsq_tail q < C + 1 \<and>
     tsq_size q = ring_count (C + 1) (tsq_head q) (tsq_tail q)"

lemma tsq_ok_new: "tsq_ok C (ThreadSafeQueue C d)" "tsq_items (ThreadSafeQueue C d) = []"
  by (simp_all add: tsq_ok_def ThreadSafeQueue_def ring_count_def tsq_items_def ring_items_def)

lemma tsq_items_length: "tsq_ok C q \<Longrightarrow> length (tsq_items q) = tsq_size q"
  by (simp add: tsq_ok_def tsq_items_def ring_items_def)

interpretation tsq: fifo_queue "within C" "tsq_ok C" tsq_items "tsq_Push C" "tsq_Pop C" for C
proof
  show "\<exists>q'. tsq_Push C q x = Some (within C (tsq_items q), q') \<and> tsq_ok C q' \<and>
      tsq_items q' = (if within C (tsq_items q) then tsq_items q @ [x] else tsq_items q)"
    if ok: "tsq_ok C q" for q :: "'a tsq" and x
  proof -
    have d: "length (tsq_data q) = C + 1" "tsq_head q < length (tsq_data q)" "tsq_tail q < length (tsq_data q)"
      using ok by (auto simp: tsq_ok_def)
    have full: "(tsq_head q + 1) mod (C + 1) = tsq_tail q \<longleftrightarrow> \<not> length (tsq_items q) < C"
      using ring_full_iff[of "tsq_head q" "C + 1" "tsq_tail q"] ring_count_less[of "C + 1" "tsq_head q" "tsq_tail q"] d ok
      by (auto simp: tsq_items_length tsq_ok_def)
    show ?thesis
    proof (cases "(tsq_head q + 1) mod (C + 1) = tsq_tail q")
      case True
      then show ?thesis using ok full by (simp add: tsq_Push_def)
    next
      case False
      then show ?thesis using ok full d ring_push[OF d(2,3), where x = x] ring_count_push[of "tsq_head q" "C + 1" "tsq_tail q"] by (auto simp: tsq_Push_def tsq_ok_def tsq_items_def Let_def)
    qed
  qed
  show "\<exists>q'. tsq_Pop C q = Some (case tsq_items q of [] \<Rightarrow> None | x # _ \<Rightarrow> Some x, q') \<and> tsq_ok C q' \<and> tsq_items q' = tl (tsq_items q)"
    if ok: "tsq_ok C q" for q :: "'a tsq"
  proof -
    have d: "length (tsq_data q) = C + 1" "tsq_head q < length (tsq_data q)" "tsq_tail q < length (tsq_data q)"
      using ok by (auto simp: tsq_ok_def)
    show ?thesis
    proof (cases "tsq_head q = tsq_tail q")
      case True
      then have "tsq_items q = []" by (simp add: tsq_items_def ring_items_def ring_count_def)
      then show ?thesis using True ok by (simp add: tsq_Pop_def)
    next
      case False
      then show ?thesis using ok d ring_pop[OF d(2,3)] ring_count_pop[of "tsq_head q" "C + 1" "tsq_tail q"] by (auto simp: tsq_Pop_def tsq_ok_def tsq_items_def)
    qed
  qed
qed

section \<open>LockFreeSPSCQueue\<close>

text \<open>
  One step of \<open>spsc_step\<close> is one access to the shared fields.  The outcome of a weak compare-and-swap whose comparison
  holds is the argument \<open>ok\<close>: it may fail spuriously.
\<close>

record 'a spsc =
  sp_head :: nat
  sp_tail :: nat
  sp_data :: "'a list"

datatype 'a spsc_pc =
  SpPushHead 'a
| SpPushTail 'a nat
| SpPushCas 'a nat
| SpPushWrite 'a nat
| SpPopTail
| SpPopHead nat
| SpPopCas nat
| SpPopRead nat
| SpPushed bool
| SpPopped "'a option"

definition LockFreeSPSCQueue :: "nat \<Rightarrow> 'a \<Rightarrow> 'a spsc" where
  "LockFreeSPSCQueue Capacity dflt = \<lparr>sp_head = 0, sp_tail = 0, sp_data = replicate (Capacity + 1) dflt\<rparr>"

definition spsc_push_step :: "nat \<Rightarrow> bool \<Rightarrow> 'a spsc \<Rightarrow> 'a spsc_pc \<Rightarrow> ('a spsc \<times> 'a spsc_pc) option" where
  "spsc_push_step Capacity ok q pc = (case pc of
     SpPushHead value \<Rightarrow> Some (q, SpPushTail value (sp_head q))
   | SpPushTail value head \<Rightarrow>
       (let next_head = (head + 1) mod (Capacity + 1) in
        Some (q, if next_head = sp_tail q then SpPushed False else SpPushCas value head))
   | SpPushCas value head \<Rightarrow>
       (let next_head = (head + 1) mod (Capacity + 1) in
        if ok \<and> sp_head q = head then Some (q\<lparr>sp_head := next_head\<rparr>, SpPushWrite value head)
        else Some (q, SpPushHead value))
   | SpPushWrite value head \<Rightarrow> do {
       data \<leftarrow> vec_set (sp_data q) head value;
       Some (q\<lparr>sp_data := data\<rparr>, SpPushed True)}
   | _ \<Rightarrow> Some (q, pc))"

definition spsc_pop_step :: "nat \<Rightarrow> bool \<Rightarrow> 'a spsc \<Rightarrow> 'a spsc_pc \<Rightarrow> ('a spsc \<times> 'a spsc_pc) option" where
  "spsc_pop_step Capacity ok q pc = (case pc of
     SpPopTail \<Rightarrow> Some (q, SpPopHead (sp_tail q))
   | SpPopHead tail \<Rightarrow> Some (q, if sp_head q = tail then SpPopped None else SpPopCas tail)
   | SpPopCas tail \<Rightarrow>
       (let next_tail = (tail + 1) mod (Capacity + 1) in
        if ok \<and> sp_tail q = tail then Some (q\<lparr>sp_tail := next_tail\<rparr>, SpPopRead tail)
        else Some (q, SpPopTail))
   | SpPopRead tail \<Rightarrow> do {
       value \<leftarrow> vec_at (sp_data q) tail;
       Some (q, SpPopped (Some value))}
   | _ \<Rightarrow> Some (q, pc))"

definition spsc_Size :: "nat \<Rightarrow> 'a spsc \<Rightarrow> nat" where
  "spsc_Size Capacity q = (if sp_head q \<ge> sp_tail q then sp_head q - sp_tail q else sp_head q + Capacity + 1 - sp_tail q)"

definition spsc_Empty :: "'a spsc \<Rightarrow> bool" where
  "spsc_Empty q \<longleftrightarrow> sp_head q = sp_tail q"

definition spsc_Full :: "nat \<Rightarrow> 'a spsc \<Rightarrow> bool" where
  "spsc_Full Capacity q \<longleftrightarrow> (sp_head q + 1) mod (Capacity + 1) = sp_tail q"

text \<open>A call that no other call overlaps, in which the compare-and-swap fails \<open>fails\<close> times before it succeeds.\<close>

primrec call_steps :: "(bool \<Rightarrow> 's \<Rightarrow> 'p \<Rightarrow> ('s \<times> 'p) option) \<Rightarrow> bool list \<Rightarrow> 's \<times> 'p \<Rightarrow> ('s \<times> 'p) option" where
  "call_steps step [] c = Some c"
| "call_steps step (ok # oks) c = do { c \<leftarrow> step ok (fst c) (snd c); call_steps step oks c }"

definition cas_outcomes :: "nat \<Rightarrow> bool list" where
  "cas_outcomes fails = concat (replicate fails [True, True, False]) @ [True, True, True, True]"

definition spsc_Push :: "nat \<Rightarrow> nat \<Rightarrow> 'a spsc \<Rightarrow> 'a \<Rightarrow> (bool \<times> 'a spsc) option" where
  "spsc_Push fails Capacity q value = do {
     (q, pc) \<leftarrow> call_steps (spsc_push_step Capacity) (cas_outcomes fails) (q, SpPushHead value);
     (case pc of SpPushed b \<Rightarrow> Some (b, q) | _ \<Rightarrow> None)}"

definition spsc_Pop :: "nat \<Rightarrow> nat \<Rightarrow> 'a spsc \<Rightarrow> ('a option \<times> 'a spsc) option" where
  "spsc_Pop fails Capacity q = do {
     (q, pc) \<leftarrow> call_steps (spsc_pop_step Capacity) (cas_outcomes fails) (q, SpPopTail);
     (case pc of SpPopped r \<Rightarrow> Some (r, q) | _ \<Rightarrow> None)}"

definition spsc_items :: "'a spsc \<Rightarrow> 'a list" where
  "spsc_items q = ring_items (sp_data q) (sp_head q) (sp_tail q)"

definition spsc_ok :: "nat \<Rightarrow> 'a spsc \<Rightarrow> bool" where
  "spsc_ok C q \<longleftrightarrow> length (sp_data q) = C + 1 \<and> sp_head q < C + 1 \<and> sp_tail q < C + 1"

lemma call_steps_append: "call_steps step (xs @ ys) c = Option.bind (call_steps step xs c) (call_steps step ys)"
  by (induction xs arbitrary: c) (auto split: Option.bind_splits)

lemma call_steps_returned:
  "call_steps (spsc_push_step C) oks (q, SpPushed b) = Some (q, SpPushed b)"
  "call_steps (spsc_pop_step C) oks (q, SpPopped r) = Some (q, SpPopped r)"
  by (induction oks) (simp_all add: spsc_push_step_def spsc_pop_step_def)

lemma spsc_Push_alone:
  assumes "spsc_ok C q"
  shows "spsc_Push fails C q x =
    Some (if spsc_Full C q then (False, q)
          else (True, q\<lparr>sp_head := (sp_head q + 1) mod (C + 1), sp_data := (sp_data q)[sp_head q := x]\<rparr>))"
proof (cases "spsc_Full C q")
  case True
  have "call_steps (spsc_push_step C) (True # True # oks) (q, SpPushHead x) = Some (q, SpPushed False)" for oks
    using True by (simp add: spsc_push_step_def spsc_Full_def Let_def call_steps_returned)
  moreover obtain oks where "cas_outcomes fails = True # True # oks" by (cases fails) (simp_all add: cas_outcomes_def)
  ultimately show ?thesis using True by (simp add: spsc_Push_def)
next
  case False
  have "call_steps (spsc_push_step C) (concat (replicate fails [True, True, False])) (q, SpPushHead x) = Some (q, SpPushHead x)"
    using False by (induction fails) (simp_all add: spsc_push_step_def spsc_Full_def Let_def)
  then show ?thesis using False assms
    by (simp add: spsc_Push_def cas_outcomes_def call_steps_append spsc_push_step_def spsc_Full_def spsc_ok_def Let_def)
qed

lemma spsc_Pop_alone:
  assumes "spsc_ok C q"
  shows "spsc_Pop fails C q =
    Some (if spsc_Empty q then (None, q) else (Some (sp_data q ! sp_tail q), q\<lparr>sp_tail := (sp_tail q + 1) mod (C + 1)\<rparr>))"
proof (cases "spsc_Empty q")
  case True
  have "call_steps (spsc_pop_step C) (True # True # oks) (q, SpPopTail) = Some (q, SpPopped None)" for oks
    using True by (simp add: spsc_pop_step_def spsc_Empty_def call_steps_returned)
  moreover obtain oks where "cas_outcomes fails = True # True # oks" by (cases fails) (simp_all add: cas_outcomes_def)
  ultimately show ?thesis using True by (simp add: spsc_Pop_def)
next
  case False
  have "call_steps (spsc_pop_step C) (concat (replicate fails [True, True, False])) (q, SpPopTail) = Some (q, SpPopTail)"
    using False by (induction fails) (simp_all add: spsc_pop_step_def spsc_Empty_def Let_def)
  then show ?thesis using False assms
    by (simp add: spsc_Pop_def cas_outcomes_def call_steps_append spsc_pop_step_def spsc_Empty_def spsc_ok_def Let_def)
qed

interpretation spsc: fifo_queue "within C" "spsc_ok C" spsc_items "spsc_Push fails C" "spsc_Pop fails C" for C fails
proof
  show "\<exists>q'. spsc_Push fails C q x = Some (within C (spsc_items q), q') \<and> spsc_ok C q' \<and>
      spsc_items q' = (if within C (spsc_items q) then spsc_items q @ [x] else spsc_items q)"
    if ok: "spsc_ok C q" for q :: "'a spsc" and x
  proof -
    have d: "sp_head q < length (sp_data q)" "sp_tail q < length (sp_data q)" using ok by (auto simp: spsc_ok_def)
    have "spsc_Full C q \<longleftrightarrow> \<not> length (spsc_items q) < C"
      using ring_full_iff[of "sp_head q" "C + 1" "sp_tail q"] ring_count_less[of "C + 1" "sp_head q" "sp_tail q"] ok
      by (auto simp: spsc_Full_def spsc_ok_def spsc_items_def ring_items_def)
    then show ?thesis using ok ring_push[OF d, where x = x]
      by (auto simp: spsc_Push_alone spsc_ok_def spsc_items_def spsc_Full_def)
  qed
  show "\<exists>q'. spsc_Pop fails C q = Some (case spsc_items q of [] \<Rightarrow> None | x # _ \<Rightarrow> Some x, q') \<and> spsc_ok C q' \<and>
      spsc_items q' = tl (spsc_items q)"
    if ok: "spsc_ok C q" for q :: "'a spsc"
  proof (cases "spsc_Empty q")
    case True
    then have "spsc_items q = []" by (simp add: spsc_Empty_def spsc_items_def ring_items_def ring_count_def)
    then show ?thesis using True ok by (simp add: spsc_Pop_alone)
  next
    case False
    then show ?thesis using ok ring_pop[of "sp_head q" "sp_data q" "sp_tail q"]
      by (auto simp: spsc_Pop_alone spsc_ok_def spsc_items_def spsc_Empty_def)
  qed
qed

lemma spsc_ok_new: "spsc_ok C (LockFreeSPSCQueue C d)" "spsc_items (LockFreeSPSCQueue C d) = []"
  by (simp_all add: spsc_ok_def LockFreeSPSCQueue_def spsc_items_def ring_items_def ring_count_def)

lemma spsc_observers:
  assumes "spsc_ok C q"
  shows "spsc_Size C q = length (spsc_items q) \<and> spsc_Empty q = (spsc_items q = []) \<and>
    spsc_Full C q = (length (spsc_items q) = C)"
proof -
  have ht: "sp_head q < C + 1" "sp_tail q < C + 1" and len: "length (spsc_items q) = ring_count (C + 1) (sp_head q) (sp_tail q)"
    using assms by (auto simp: spsc_ok_def spsc_items_def ring_items_def)
  have "spsc_Size C q = length (spsc_items q)" unfolding len spsc_Size_def ring_count_cases[OF ht] by simp
  moreover have "spsc_Empty q = (spsc_items q = [])"
    unfolding spsc_Empty_def ring_empty_iff[OF ht] length_0_conv[symmetric] len ..
  moreover have "spsc_Full C q = (length (spsc_items q) = C)" unfolding spsc_Full_def ring_full_iff[OF ht] len by simp
  ultimately show ?thesis by simp
qed

lemma tsq_observers:
  "tsq_ok C q \<Longrightarrow> tsq_Size q = length (tsq_items q) \<and> tsq_Empty q = (tsq_items q = []) \<and> tsq_Full C q = (length (tsq_items q) = C)"
  by (metis length_0_conv tsq_Empty_def tsq_Full_def tsq_Size_def tsq_items_length)

section \<open>A push and a pop that overlap\<close>

text \<open>One producer and one consumer; \<open>True\<close> schedules a step of the producer.\<close>

primrec spsc_run :: "nat \<Rightarrow> bool list \<Rightarrow> 'a spsc \<times> 'a spsc_pc \<times> 'a spsc_pc \<Rightarrow> ('a spsc \<times> 'a spsc_pc \<times> 'a spsc_pc) option" where
  "spsc_run C [] c = Some c"
| "spsc_run C (p # sched) c = (case c of (q, ppc, cpc) \<Rightarrow>
    if p then do { (q, ppc) \<leftarrow> spsc_push_step C True q ppc; spsc_run C sched (q, ppc, cpc) }
    else do { (q, cpc) \<leftarrow> spsc_pop_step C True q cpc; spsc_run C sched (q, ppc, cpc) })"

section \<open>Properties\<close>

text \<open>
  Every sequence of \<^verbatim>\<open>Push\<close> and \<^verbatim>\<open>Pop\<close> calls on a new \<^verbatim>\<open>ThreadSafeQueue\<close> returns what a first-in
  first-out queue of at most \<^verbatim>\<open>Capacity\<close> elements returns, no call accesses an array out of bounds, and \<^verbatim>\<open>Size\<close>,
  \<^verbatim>\<open>Empty\<close> and \<^verbatim>\<open>Full\<close> then describe the queue's content.
\<close>
lemma tsq_refines_queue:
  "\<exists>q. run_calls (tsq_Push C) (tsq_Pop C) ops (ThreadSafeQueue C d) = Some (fst (spec_calls (within C) ops []), q) \<and>
    tsq_Size q = length (snd (spec_calls (within C) ops [])) \<and>
    tsq_Empty q = (snd (spec_calls (within C) ops []) = []) \<and> tsq_Full C q = (length (snd (spec_calls (within C) ops [])) = C)"
proof -
  obtain q where "run_calls (tsq_Push C) (tsq_Pop C) ops (ThreadSafeQueue C d) = Some (fst (spec_calls (within C) ops []), q)"
    "tsq_ok C q" "tsq_items q = snd (spec_calls (within C) ops [])"
    using tsq.run_calls_refines[OF tsq_ok_new(1)[of C d], of ops] unfolding tsq_ok_new(2) by blast
  then show ?thesis using tsq_observers[of C q] by simp
qed

text \<open>
  When the calls of a \<^verbatim>\<open>LockFreeSPSCQueue\<close> do not overlap, every sequence of them returns what a
  first-in first-out queue of at most \<^verbatim>\<open>Capacity\<close> elements returns, whatever the number of spurious failures of the weak
  compare-and-swap: the retry loop then ends, and the observers describe the content.
\<close>
lemma spsc_refines_queue:
  "\<exists>q. run_calls (spsc_Push fails C) (spsc_Pop fails C) ops (LockFreeSPSCQueue C d) = Some (fst (spec_calls (within C) ops []), q) \<and>
    spsc_Size C q = length (snd (spec_calls (within C) ops [])) \<and>
    spsc_Empty q = (snd (spec_calls (within C) ops []) = []) \<and> spsc_Full C q = (length (snd (spec_calls (within C) ops [])) = C)"
proof -
  obtain q where "run_calls (spsc_Push fails C) (spsc_Pop fails C) ops (LockFreeSPSCQueue C d) = Some (fst (spec_calls (within C) ops []), q)"
    "spsc_ok C q" "spsc_items q = snd (spec_calls (within C) ops [])"
    using spsc.run_calls_refines[OF spsc_ok_new(1)[of C d], of fails ops] unfolding spsc_ok_new(2) by blast
  then show ?thesis using spsc_observers[of C q] by simp
qed

text \<open>
  A \<^verbatim>\<open>Push\<close> of \<^verbatim>\<open>LockFreeSPSCQueue\<close> advances \<^verbatim>\<open>head_\<close> before it writes the slot, so one producer
  and one consumer have an execution in which \<^verbatim>\<open>Pop\<close> reports success with the slot's old content: from a new queue of any
  positive capacity the popped value is the default value, although only \<open>v\<close> is ever pushed, and the \<open>v\<close> written afterwards
  stays behind in a queue that is empty again.
\<close>
lemma spsc_pop_before_write:
  assumes "0 < C"
  shows "\<exists>sched q. spsc_run C sched (LockFreeSPSCQueue C d, SpPushHead v, SpPopTail) = Some (q, SpPushed True, SpPopped (Some d)) \<and>
    spsc_Empty q"
proof -
  let ?sched = "[True, True, True, False, False, False, False, True]"
  have "\<exists>q. spsc_run C ?sched (LockFreeSPSCQueue C d, SpPushHead v, SpPopTail) = Some (q, SpPushed True, SpPopped (Some d)) \<and> spsc_Empty q"
    using assms by (simp add: spsc_push_step_def spsc_pop_step_def LockFreeSPSCQueue_def spsc_Empty_def)
  then show ?thesis by blast
qed

end
