(* ===== verification/Mpmc_Queue.thy ===== *)
theory Mpmc_Queue
  imports Bounded_Queues "HOL-Library.Multiset"
begin

text \<open>
  \<^verbatim>\<open>LockFreeMPMCQueue\<close> of \<^verbatim>\<open>src/cc/algo/src/algo/algo_lock_free_queue.cc\<close> under any interleaving of any number of threads.
  A step of a thread is one access to the shared fields; the accesses are sequentially consistent.  Positions are natural
  numbers: the 64-bit counters do not wrap before \<open>2\<^sup>6\<^sup>3\<close> calls, and below that the signed difference of the source is
  the integer difference.
\<close>

section \<open>The code\<close>

text \<open>The object in a cell's storage is \<open>None\<close> while no object is constructed there.\<close>

record 'a mpmc =
  mp_head :: nat
  mp_tail :: nat
  mp_seq :: "nat list"
  mp_storage :: "'a option list"

definition LockFreeMPMCQueue :: "nat \<Rightarrow> 'a mpmc" where
  "LockFreeMPMCQueue Capacity =
     \<lparr>mp_head = 0, mp_tail = 0, mp_seq = [0..<Capacity], mp_storage = replicate Capacity None\<rparr>"

datatype 'a mp_pc =
  EmplaceLoad 'a
| EmplaceSeq 'a nat
| EmplaceCas 'a nat
| EmplaceNew 'a nat
| EmplacePublish 'a nat
| Emplaced bool
| PopLoad
| PopSeq nat
| PopCas nat
| PopMove nat
| PopRelease nat 'a
| Popped "'a option"

text \<open>\<open>ok\<close> is the outcome of a weak compare-and-swap whose comparison holds; a failed one loads the current position.\<close>

definition emplace_impl_step :: "nat \<Rightarrow> bool \<Rightarrow> 'a mpmc \<Rightarrow> 'a mp_pc \<Rightarrow> ('a mpmc \<times> 'a mp_pc) option" where
  "emplace_impl_step Capacity ok q pc = (case pc of
     EmplaceLoad v \<Rightarrow> Some (q, EmplaceSeq v (mp_head q))
   | EmplaceSeq v pos \<Rightarrow> do {
       seq \<leftarrow> vec_at (mp_seq q) (pos mod Capacity);
       let diff = int seq - int pos;
       Some (q, if diff = 0 then EmplaceCas v pos
                else if diff < 0 then Emplaced False
                else EmplaceLoad v)}
   | EmplaceCas v pos \<Rightarrow>
       Some (if ok \<and> mp_head q = pos then (q\<lparr>mp_head := pos + 1\<rparr>, EmplaceNew v pos)
             else (q, EmplaceSeq v (mp_head q)))
   | EmplaceNew v pos \<Rightarrow> do {
       st \<leftarrow> vec_set (mp_storage q) (pos mod Capacity) (Some v);
       Some (q\<lparr>mp_storage := st\<rparr>, EmplacePublish v pos)}
   | EmplacePublish v pos \<Rightarrow> do {
       sq \<leftarrow> vec_set (mp_seq q) (pos mod Capacity) (pos + 1);
       Some (q\<lparr>mp_seq := sq\<rparr>, Emplaced True)}
   | _ \<Rightarrow> Some (q, pc))"

definition mp_Pop_step :: "nat \<Rightarrow> bool \<Rightarrow> 'a mpmc \<Rightarrow> 'a mp_pc \<Rightarrow> ('a mpmc \<times> 'a mp_pc) option" where
  "mp_Pop_step Capacity ok q pc = (case pc of
     PopLoad \<Rightarrow> Some (q, PopSeq (mp_tail q))
   | PopSeq pos \<Rightarrow> do {
       seq \<leftarrow> vec_at (mp_seq q) (pos mod Capacity);
       let diff = int seq - int (pos + 1);
       Some (q, if diff = 0 then PopCas pos
                else if diff < 0 then Popped None
                else PopLoad)}
   | PopCas pos \<Rightarrow>
       Some (if ok \<and> mp_tail q = pos then (q\<lparr>mp_tail := pos + 1\<rparr>, PopMove pos)
             else (q, PopSeq (mp_tail q)))
   | PopMove pos \<Rightarrow> do {
       obj \<leftarrow> vec_at (mp_storage q) (pos mod Capacity);
       out \<leftarrow> obj;
       st \<leftarrow> vec_set (mp_storage q) (pos mod Capacity) None;
       Some (q\<lparr>mp_storage := st\<rparr>, PopRelease pos out)}
   | PopRelease pos out \<Rightarrow> do {
       sq \<leftarrow> vec_set (mp_seq q) (pos mod Capacity) (pos + Capacity);
       Some (q\<lparr>mp_seq := sq\<rparr>, Popped (Some out))}
   | _ \<Rightarrow> Some (q, pc))"

definition mp_Size :: "'a mpmc \<Rightarrow> nat" where
  "mp_Size q = mp_head q - mp_tail q"

definition mp_Empty :: "'a mpmc \<Rightarrow> bool" where
  "mp_Empty q \<longleftrightarrow> mp_Size q = 0"

definition mp_Full :: "nat \<Rightarrow> 'a mpmc \<Rightarrow> bool" where
  "mp_Full Capacity q \<longleftrightarrow> mp_Size q = Capacity"

definition mp_step :: "nat \<Rightarrow> bool \<Rightarrow> 'a mpmc \<Rightarrow> 'a mp_pc \<Rightarrow> ('a mpmc \<times> 'a mp_pc) option" where
  "mp_step C ok q pc = (case pc of
     EmplaceLoad _ \<Rightarrow> emplace_impl_step C ok q pc
   | EmplaceSeq _ _ \<Rightarrow> emplace_impl_step C ok q pc
   | EmplaceCas _ _ \<Rightarrow> emplace_impl_step C ok q pc
   | EmplaceNew _ _ \<Rightarrow> emplace_impl_step C ok q pc
   | EmplacePublish _ _ \<Rightarrow> emplace_impl_step C ok q pc
   | _ \<Rightarrow> mp_Pop_step C ok q pc)"

section \<open>Executions\<close>

text \<open>
  The system: the queue, the call each thread is in, and two histories, the values in the order of the successful
  exchanges of \<^verbatim>\<open>head_\<close> and the positions and values of the finished pops.
\<close>

record 'a mp_sys =
  sys_q :: "'a mpmc"
  sys_thr :: "nat \<Rightarrow> 'a mp_pc"
  sys_pushed :: "'a list"
  sys_popped :: "(nat \<times> 'a) list"

fun returned :: "'a mp_pc \<Rightarrow> bool" where
  "returned (Emplaced _) = True"
| "returned (Popped _) = True"
| "returned _ = False"

fun claims :: "'a mp_pc \<Rightarrow> 'a mp_pc \<Rightarrow> 'a list" where
  "claims (EmplaceCas v _) (EmplaceNew _ _) = [v]"
| "claims _ _ = []"

fun delivers :: "'a mp_pc \<Rightarrow> 'a mp_pc \<Rightarrow> (nat \<times> 'a) list" where
  "delivers (PopRelease pos out) _ = [(pos, out)]"
| "delivers _ _ = []"

definition mp_init :: "nat \<Rightarrow> 'a mp_sys" where
  "mp_init C = \<lparr>sys_q = LockFreeMPMCQueue C, sys_thr = (\<lambda>_. Popped None), sys_pushed = [], sys_popped = []\<rparr>"

inductive sys_step :: "nat \<Rightarrow> 'a mp_sys \<Rightarrow> 'a mp_sys \<Rightarrow> bool" for C where
  call_Push: "returned (sys_thr s t) \<Longrightarrow> sys_step C s (s\<lparr>sys_thr := (sys_thr s)(t := EmplaceLoad v)\<rparr>)"
| call_Pop: "returned (sys_thr s t) \<Longrightarrow> sys_step C s (s\<lparr>sys_thr := (sys_thr s)(t := PopLoad)\<rparr>)"
| access: "mp_step C ok (sys_q s) (sys_thr s t) = Some (q', pc') \<Longrightarrow>
    sys_step C s \<lparr>sys_q = q', sys_thr = (sys_thr s)(t := pc'),
      sys_pushed = sys_pushed s @ claims (sys_thr s t) pc', sys_popped = sys_popped s @ delivers (sys_thr s t) pc'\<rparr>"

inductive sys_reach :: "nat \<Rightarrow> 'a mp_sys \<Rightarrow> bool" for C where
  init: "sys_reach C (mp_init C)"
| step: "sys_reach C s \<Longrightarrow> sys_step C s s' \<Longrightarrow> sys_reach C s'"

section \<open>The invariant\<close>

abbreviation cell_seq :: "nat \<Rightarrow> 'a mpmc \<Rightarrow> nat \<Rightarrow> nat" where
  "cell_seq C q p \<equiv> mp_seq q ! (p mod C)"

abbreviation cell_obj :: "nat \<Rightarrow> 'a mpmc \<Rightarrow> nat \<Rightarrow> 'a option" where
  "cell_obj C q p \<equiv> mp_storage q ! (p mod C)"

text \<open>The position a thread has claimed and not yet published or released.\<close>

fun producing :: "'a mp_pc \<Rightarrow> nat option" where
  "producing (EmplaceNew _ p) = Some p"
| "producing (EmplacePublish _ p) = Some p"
| "producing _ = None"

fun consuming :: "'a mp_pc \<Rightarrow> nat option" where
  "consuming (PopMove p) = Some p"
| "consuming (PopRelease p _) = Some p"
| "consuming _ = None"

fun pc_ok :: "nat \<Rightarrow> 'a mpmc \<Rightarrow> 'a list \<Rightarrow> 'a mp_pc \<Rightarrow> bool" where
  "pc_ok C q log (EmplaceSeq v p) \<longleftrightarrow> p \<le> mp_head q"
| "pc_ok C q log (EmplaceCas v p) \<longleftrightarrow> p \<le> mp_head q \<and> (p = mp_head q \<longrightarrow> cell_seq C q p = p)"
| "pc_ok C q log (EmplaceNew v p) \<longleftrightarrow>
    mp_tail q \<le> p \<and> p < mp_head q \<and> cell_seq C q p = p \<and> log ! p = v \<and> cell_obj C q p = None"
| "pc_ok C q log (EmplacePublish v p) \<longleftrightarrow>
    mp_tail q \<le> p \<and> p < mp_head q \<and> cell_seq C q p = p \<and> log ! p = v \<and> cell_obj C q p = Some v"
| "pc_ok C q log (PopSeq p) \<longleftrightarrow> p \<le> mp_tail q"
| "pc_ok C q log (PopCas p) \<longleftrightarrow> p \<le> mp_tail q \<and> (p = mp_tail q \<longrightarrow> p < mp_head q \<and> cell_seq C q p = p + 1)"
| "pc_ok C q log (PopMove p) \<longleftrightarrow>
    p < mp_tail q \<and> mp_head q \<le> p + C \<and> cell_seq C q p = p + 1 \<and> cell_obj C q p = Some (log ! p)"
| "pc_ok C q log (PopRelease p x) \<longleftrightarrow>
    p < mp_tail q \<and> mp_head q \<le> p + C \<and> cell_seq C q p = p + 1 \<and> cell_obj C q p = None \<and> x = log ! p"
| "pc_ok C q log _ \<longleftrightarrow> True"

text \<open>The cells of the positions between tail and head hold or receive their value, those up to a full round are free or being released.\<close>

definition shape_ok :: "nat \<Rightarrow> 'a mpmc \<Rightarrow> 'a list \<Rightarrow> bool" where
  "shape_ok C q log \<longleftrightarrow> 2 \<le> C \<and> length (mp_seq q) = C \<and> length (mp_storage q) = C \<and>
     mp_tail q \<le> mp_head q \<and> mp_head q \<le> mp_tail q + C \<and> length log = mp_head q"

definition held :: "('a mp_pc \<Rightarrow> nat option) \<Rightarrow> (nat \<Rightarrow> 'a mp_pc) \<Rightarrow> nat set" where
  "held role thr = {p. \<exists>t. role (thr t) = Some p}"

definition sole :: "('a mp_pc \<Rightarrow> nat option) \<Rightarrow> (nat \<Rightarrow> 'a mp_pc) \<Rightarrow> bool" where
  "sole role thr \<longleftrightarrow> (\<forall>t u p. role (thr t) = Some p \<and> role (thr u) = Some p \<longrightarrow> t = u)"

definition full_cell :: "nat \<Rightarrow> 'a mpmc \<Rightarrow> nat set \<Rightarrow> 'a list \<Rightarrow> nat \<Rightarrow> bool" where
  "full_cell C q P log p \<longleftrightarrow>
     cell_seq C q p = p \<and> p \<in> P \<or> cell_seq C q p = p + 1 \<and> cell_obj C q p = Some (log ! p)"

definition free_cell :: "nat \<Rightarrow> 'a mpmc \<Rightarrow> nat set \<Rightarrow> nat \<Rightarrow> bool" where
  "free_cell C q R p \<longleftrightarrow>
     cell_seq C q p = p \<and> cell_obj C q p = None \<or> C \<le> p \<and> cell_seq C q p + C = p + 1 \<and> p - C \<in> R"

definition cells_ok :: "nat \<Rightarrow> 'a mpmc \<Rightarrow> nat set \<Rightarrow> nat set \<Rightarrow> 'a list \<Rightarrow> bool" where
  "cells_ok C q P R log \<longleftrightarrow> (\<forall>p. mp_tail q \<le> p \<and> p < mp_head q \<longrightarrow> full_cell C q P log p) \<and>
     (\<forall>p. mp_head q \<le> p \<and> p < mp_tail q + C \<longrightarrow> free_cell C q R p)"

definition history_ok :: "nat \<Rightarrow> nat set \<Rightarrow> 'a list \<Rightarrow> (nat \<times> 'a) list \<Rightarrow> bool" where
  "history_ok tail R log out \<longleftrightarrow> distinct (map fst out) \<and> (\<forall>(p, x) \<in> set out. x = log ! p) \<and>
     fst ` set out \<union> R = {..<tail} \<and> fst ` set out \<inter> R = {}"

definition mp_inv :: "nat \<Rightarrow> 'a mpmc \<Rightarrow> (nat \<Rightarrow> 'a mp_pc) \<Rightarrow> 'a list \<Rightarrow> (nat \<times> 'a) list \<Rightarrow> bool" where
  "mp_inv C q thr log out \<longleftrightarrow> shape_ok C q log \<and> (\<forall>t. pc_ok C q log (thr t)) \<and>
     cells_ok C q (held producing thr) (held consuming thr) log \<and> sole producing thr \<and> sole consuming thr \<and>
     history_ok (mp_tail q) (held consuming thr) log out"

lemma mp_invD:
  assumes "mp_inv C q thr log out"
  shows "shape_ok C q log" "pc_ok C q log (thr t)"
    "mp_tail q \<le> p \<Longrightarrow> p < mp_head q \<Longrightarrow> full_cell C q (held producing thr) log p"
    "mp_head q \<le> p \<Longrightarrow> p < mp_tail q + C \<Longrightarrow> free_cell C q (held consuming thr) p"
    "sole producing thr" "sole consuming thr" "history_ok (mp_tail q) (held consuming thr) log out"
  using assms by (simp_all add: mp_inv_def cells_ok_def)

lemma held_upd:
  "role pc' = role (thr t) \<Longrightarrow> held role (thr(t := pc')) = held role thr"
  "role (thr t) = None \<Longrightarrow> role pc' = Some p \<Longrightarrow> held role (thr(t := pc')) = insert p (held role thr)"
  "sole role thr \<Longrightarrow> role (thr t) = Some p \<Longrightarrow> role pc' = None \<Longrightarrow> held role (thr(t := pc')) = held role thr - {p}"
  unfolding held_def sole_def by (auto split: if_splits) (metis option.distinct(1) option.inject)+

lemma sole_upd:
  "role pc' = role (thr t) \<Longrightarrow> sole role thr \<Longrightarrow> sole role (thr(t := pc'))"
  "role pc' = None \<Longrightarrow> sole role thr \<Longrightarrow> sole role (thr(t := pc'))"
  "role pc' = Some p \<Longrightarrow> p \<notin> held role thr \<Longrightarrow> sole role thr \<Longrightarrow> sole role (thr(t := pc'))"
  unfolding held_def sole_def by (auto split: if_splits)

lemma cell_inj:
  assumes "a \<le> p" "p < a + C" "a \<le> r" "r < a + C" "p mod C = r mod C"
  shows "p = (r :: nat)"
proof -
  have less: "p = r" if "p \<le> r" "a \<le> p" "r < a + C" "p mod C = r mod C" for p r
  proof -
    have "C dvd r - p" using that mod_eq_dvd_iff_nat[of p r C] by simp
    then show ?thesis using that by (auto dest: dvd_imp_le)
  qed
  show ?thesis using less[of p r] less[of r p] assms by (cases "p \<le> r") auto
qed

lemma inv_local:
  assumes inv: "mp_inv C q thr log out" and role: "producing pc' = producing (thr t)" "consuming pc' = consuming (thr t)"
    and ok: "pc_ok C q log pc'"
  shows "mp_inv C q (thr(t := pc')) log out"
  using inv ok held_upd(1)[of producing pc' thr t] held_upd(1)[of consuming pc' thr t] role
  by (simp add: mp_inv_def sole_upd(1))

lemma consumer_window: "mp_inv C q thr log out \<Longrightarrow> p \<in> held consuming thr \<Longrightarrow>
    p < mp_tail q \<and> mp_head q \<le> p + C \<and> cell_seq C q p = p + 1"
proof -
  assume inv: "mp_inv C q thr log out" and "p \<in> held consuming thr"
  then obtain t where "consuming (thr t) = Some p" by (auto simp: held_def)
  then show ?thesis using mp_invD(2)[OF inv, of t] by (cases "thr t") auto
qed

lemma producer_window: "mp_inv C q thr log out \<Longrightarrow> p \<in> held producing thr \<Longrightarrow>
    mp_tail q \<le> p \<and> p < mp_head q \<and> cell_seq C q p = p"
proof -
  assume inv: "mp_inv C q thr log out" and "p \<in> held producing thr"
  then obtain t where "producing (thr t) = Some p" by (auto simp: held_def)
  then show ?thesis using mp_invD(2)[OF inv, of t] by (cases "thr t") auto
qed

lemma claim_push_room:
  assumes inv: "mp_inv C q thr log out" and "cell_seq C q (mp_head q) = mp_head q"
  shows "mp_head q < mp_tail q + C \<and> cell_obj C q (mp_head q) = None"
proof -
  note sh = mp_invD(1)[OF inv, unfolded shape_ok_def]
  have "mp_head q \<noteq> mp_tail q + C"
  proof
    assume h: "mp_head q = mp_tail q + C"
    then have "cell_seq C q (mp_tail q) = mp_tail q + C" using assms(2) by simp
    then show False using mp_invD(3)[OF inv, of "mp_tail q"] h sh by (auto simp: full_cell_def)
  qed
  then have "mp_head q < mp_tail q + C" using sh by simp
  then show ?thesis using mp_invD(4)[OF inv, of "mp_head q"] assms(2) sh by (auto simp: free_cell_def)
qed

lemma history_popped:
  assumes "history_ok tail R log out" "(p, x) \<in> set out"
  shows "p < tail" "x = log ! p"
proof -
  have "p \<in> fst ` set out" using assms(2) by force
  then show "p < tail" "x = log ! p" using assms by (auto simp: history_ok_def)
qed

lemma history_append:
  assumes "history_ok tail R log out" "tail \<le> length log"
  shows "history_ok tail R (log @ ys) out"
proof -
  have "x = (log @ ys) ! p" if "(p, x) \<in> set out" for p x
    using history_popped[OF assms(1) that] assms(2) by (simp add: nth_append)
  then show ?thesis using assms(1) by (auto simp: history_ok_def)
qed

lemma inv_claim_push:
  assumes inv: "mp_inv C q thr log out" and t: "thr t = EmplaceCas v (mp_head q)"
  shows "mp_inv C (q\<lparr>mp_head := mp_head q + 1\<rparr>) (thr(t := EmplaceNew v (mp_head q))) (log @ [v]) out"
    (is "mp_inv C ?q ?thr ?log out")
proof -
  let ?h = "mp_head q"
  note sh = mp_invD(1)[OF inv, unfolded shape_ok_def]
  have seq: "cell_seq C q ?h = ?h" using mp_invD(2)[OF inv, of t] t by simp
  have room: "?h < mp_tail q + C" "cell_obj C q ?h = None" using claim_push_room[OF inv seq] by auto
  have consumer: "?h < r + C" if "cell_seq C q r = r + 1" "?h \<le> r + C" for r
  proof (rule ccontr)
    assume "\<not> ?h < r + C"
    then have "?h = r + C" using that by simp
    then show False using seq that sh by simp
  qed
  have held: "held producing ?thr = insert ?h (held producing thr)" "held consuming ?thr = held consuming thr"
    using t by (simp_all add: held_upd)
  have "pc_ok C ?q ?log (?thr u)" for u
  proof (cases "u = t")
    case True
    then show ?thesis using seq room sh by (simp add: nth_append)
  next
    case False
    then show ?thesis using mp_invD(2)[OF inv, of u] sh consumer
      by (cases "thr u") (auto simp: nth_append Suc_le_eq)
  qed
  moreover have "cells_ok C ?q (held producing ?thr) (held consuming ?thr) ?log"
    using mp_invD(3,4)[OF inv] seq sh
    by (auto simp: cells_ok_def held full_cell_def free_cell_def nth_append less_Suc_eq)
  moreover have "sole producing ?thr" using mp_invD(5)[OF inv] producer_window[OF inv, of ?h] by (auto intro: sole_upd(3))
  moreover have "sole consuming ?thr" using mp_invD(6)[OF inv] by (simp add: sole_upd(2))
  moreover have "history_ok (mp_tail ?q) (held consuming ?thr) ?log out"
    using history_append[OF mp_invD(7)[OF inv]] sh unfolding held by simp
  ultimately show ?thesis using sh room by (simp add: mp_inv_def shape_ok_def)
qed

lemma inv_claim_pop:
  assumes inv: "mp_inv C q thr log out" and t: "thr t = PopCas (mp_tail q)"
  shows "mp_inv C (q\<lparr>mp_tail := mp_tail q + 1\<rparr>) (thr(t := PopMove (mp_tail q))) log out" (is "mp_inv C ?q ?thr log out")
proof -
  let ?p = "mp_tail q"
  note sh = mp_invD(1)[OF inv, unfolded shape_ok_def]
  have p: "?p < mp_head q" "cell_seq C q ?p = ?p + 1" using mp_invD(2)[OF inv, of t] t by simp_all
  have obj: "cell_obj C q ?p = Some (log ! ?p)" using mp_invD(3)[OF inv, of ?p] p by (auto simp: full_cell_def)
  have held: "held consuming ?thr = insert ?p (held consuming thr)" "held producing ?thr = held producing thr"
    using t by (simp_all add: held_upd)
  have later: "?p < r" if "?p \<le> r" "cell_seq C q r = r" for r using that p(2) by (cases "r = ?p") auto
  have "pc_ok C ?q log (?thr u)" for u
  proof (cases "u = t")
    case True
    then show ?thesis using p obj sh by simp
  next
    case False
    then show ?thesis using mp_invD(2)[OF inv, of u] later by (cases "thr u") (auto simp: Suc_le_eq)
  qed
  moreover have "cells_ok C ?q (held producing ?thr) (held consuming ?thr) log"
    unfolding cells_ok_def held
  proof (intro conjI allI impI)
    fix r
    assume "mp_tail ?q \<le> r \<and> r < mp_head ?q"
    then show "full_cell C ?q (held producing thr) log r" using mp_invD(3)[OF inv, of r] by (simp add: full_cell_def)
  next
    fix r
    assume r: "mp_head ?q \<le> r \<and> r < mp_tail ?q + C"
    show "free_cell C ?q (insert ?p (held consuming thr)) r"
    proof (cases "r = ?p + C")
      case True
      then show ?thesis using p by (simp add: free_cell_def)
    next
      case False
      then show ?thesis using mp_invD(4)[OF inv, of r] r by (auto simp: free_cell_def)
    qed
  qed
  moreover have "?p \<notin> held consuming thr" using consumer_window[OF inv, of ?p] by auto
  then have "sole consuming ?thr" using mp_invD(6)[OF inv] by (auto intro: sole_upd(3))
  moreover have "sole producing ?thr" using mp_invD(5)[OF inv] by (simp add: sole_upd(2))
  moreover have "history_ok (mp_tail ?q) (held consuming ?thr) log out"
    using mp_invD(7)[OF inv] unfolding held history_ok_def by auto
  ultimately show ?thesis using sh p by (simp add: mp_inv_def shape_ok_def)
qed

text \<open>The cell of a claimed position is no cell of another position in use.\<close>

lemma producer_apart:
  assumes inv: "mp_inv C q thr log out" and t: "producing (thr t) = Some p"
  shows "mp_tail q \<le> r \<Longrightarrow> r < mp_tail q + C \<Longrightarrow> r \<noteq> p \<Longrightarrow> r mod C \<noteq> p mod C"
    and "u \<noteq> t \<Longrightarrow> producing (thr u) = Some r \<Longrightarrow> r mod C \<noteq> p mod C"
    and "consuming (thr u) = Some r \<Longrightarrow> r mod C \<noteq> p mod C"
proof -
  have p: "mp_tail q \<le> p" "p < mp_head q" using producer_window[OF inv, of p] t by (auto simp: held_def)
  have hC: "mp_head q \<le> mp_tail q + C" using mp_invD(1)[OF inv] by (simp add: shape_ok_def)
  show main: "r mod C \<noteq> p mod C" if "mp_tail q \<le> r" "r < mp_tail q + C" "r \<noteq> p" for r
    using cell_inj[of "mp_tail q" r C p] that p hC by auto
  show "r mod C \<noteq> p mod C" if "u \<noteq> t" "producing (thr u) = Some r"
  proof -
    have "r \<noteq> p" using that t mp_invD(5)[OF inv] by (auto simp: sole_def)
    moreover have "mp_tail q \<le> r" "r < mp_head q" using producer_window[OF inv, of r] that by (auto simp: held_def)
    ultimately show ?thesis using main hC by simp
  qed
  show "r mod C \<noteq> p mod C" if "consuming (thr u) = Some r"
  proof -
    have "r < mp_tail q" "mp_head q \<le> r + C" using consumer_window[OF inv, of r] that by (auto simp: held_def)
    then show ?thesis using main[of "r + C"] p hC by simp
  qed
qed

lemma consumer_apart:
  assumes inv: "mp_inv C q thr log out" and t: "consuming (thr t) = Some p"
  shows "mp_tail q \<le> r \<Longrightarrow> r < mp_tail q + C \<Longrightarrow> r \<noteq> p + C \<Longrightarrow> r mod C \<noteq> p mod C"
    and "producing (thr u) = Some r \<Longrightarrow> r mod C \<noteq> p mod C"
    and "u \<noteq> t \<Longrightarrow> consuming (thr u) = Some r \<Longrightarrow> r mod C \<noteq> p mod C"
proof -
  have p: "p < mp_tail q" "mp_head q \<le> p + C" using consumer_window[OF inv, of p] t by (auto simp: held_def)
  have hC: "mp_head q \<le> mp_tail q + C" "mp_tail q \<le> mp_head q" using mp_invD(1)[OF inv] by (simp_all add: shape_ok_def)
  show main: "r mod C \<noteq> p mod C" if "mp_tail q \<le> r" "r < mp_tail q + C" "r \<noteq> p + C" for r
    using cell_inj[of "mp_tail q" r C "p + C"] that p hC by auto
  show "r mod C \<noteq> p mod C" if "producing (thr u) = Some r"
  proof -
    have "mp_tail q \<le> r" "r < mp_head q" using producer_window[OF inv, of r] that by (auto simp: held_def)
    then show ?thesis using main p hC by simp
  qed
  show "r mod C \<noteq> p mod C" if "u \<noteq> t" "consuming (thr u) = Some r"
  proof -
    have "r \<noteq> p" using that t mp_invD(6)[OF inv] by (auto simp: sole_def)
    moreover have "r < mp_tail q" "mp_head q \<le> r + C" using consumer_window[OF inv, of r] that by (auto simp: held_def)
    ultimately show ?thesis using main[of "r + C"] hC by simp
  qed
qed

text \<open>A write to the storage or the sequence number of a cell keeps what the other threads know.\<close>

lemma pc_ok_storage:
  assumes "pc_ok C q log pc" "\<And>r. producing pc = Some r \<Longrightarrow> r mod C \<noteq> p mod C" "\<And>r. consuming pc = Some r \<Longrightarrow> r mod C \<noteq> p mod C"
  shows "pc_ok C (q\<lparr>mp_storage := (mp_storage q)[p mod C := x]\<rparr>) log pc"
  using assms by (cases pc) auto

lemma pc_ok_seq:
  assumes "pc_ok C q log pc" "\<And>r. producing pc = Some r \<Longrightarrow> r mod C \<noteq> p mod C" "\<And>r. consuming pc = Some r \<Longrightarrow> r mod C \<noteq> p mod C"
    and "cell_seq C q (mp_head q) = mp_head q \<Longrightarrow> mp_head q mod C \<noteq> p mod C"
    and "cell_seq C q (mp_tail q) = mp_tail q + 1 \<Longrightarrow> mp_tail q mod C \<noteq> p mod C"
  shows "pc_ok C (q\<lparr>mp_seq := (mp_seq q)[p mod C := n]\<rparr>) log pc"
  using assms by (cases pc) auto

lemma inv_construct:
  assumes inv: "mp_inv C q thr log out" and t: "thr t = EmplaceNew v p"
  shows "mp_inv C (q\<lparr>mp_storage := (mp_storage q)[p mod C := Some v]\<rparr>) (thr(t := EmplacePublish v p)) log out"
    (is "mp_inv C ?q ?thr log out")
proof -
  note sh = mp_invD(1)[OF inv, unfolded shape_ok_def]
  have prod: "producing (thr t) = Some p" using t by simp
  note apart = producer_apart[OF inv prod]
  have p: "mp_tail q \<le> p" "p < mp_head q" "cell_seq C q p = p" "log ! p = v" using mp_invD(2)[OF inv, of t] t by simp_all
  have held: "held producing ?thr = held producing thr" "held consuming ?thr = held consuming thr"
    using t by (simp_all add: held_upd)
  have inP: "p \<in> held producing thr" using prod by (auto simp: held_def)
  have "pc_ok C ?q log (?thr u)" for u
  proof (cases "u = t")
    case True
    then show ?thesis using p sh by simp
  next
    case False
    then show ?thesis using pc_ok_storage[OF mp_invD(2)[OF inv, of u], of p "Some v"] apart by simp
  qed
  moreover have "full_cell C ?q (held producing thr) log r" if "mp_tail q \<le> r" "r < mp_head q" for r
    using mp_invD(3)[OF inv that] apart(1)[of r] that sh p inP by (cases "r = p") (auto simp: full_cell_def)
  moreover have "free_cell C ?q (held consuming thr) r" if "mp_head q \<le> r" "r < mp_tail q + C" for r
    using mp_invD(4)[OF inv that] apart(1)[of r] that sh p by (auto simp: free_cell_def)
  ultimately show ?thesis using inv sh t unfolding mp_inv_def held by (simp add: cells_ok_def shape_ok_def sole_upd(1))
qed

lemma inv_publish:
  assumes inv: "mp_inv C q thr log out" and t: "thr t = EmplacePublish v p"
  shows "mp_inv C (q\<lparr>mp_seq := (mp_seq q)[p mod C := p + 1]\<rparr>) (thr(t := Emplaced True)) log out"
    (is "mp_inv C ?q ?thr log out")
proof -
  note sh = mp_invD(1)[OF inv, unfolded shape_ok_def]
  have prod: "producing (thr t) = Some p" using t by simp
  note apart = producer_apart[OF inv prod]
  have p: "mp_tail q \<le> p" "p < mp_head q" "cell_seq C q p = p" "cell_obj C q p = Some (log ! p)"
    using mp_invD(2)[OF inv, of t] t by simp_all
  have held: "held producing ?thr = held producing thr - {p}" "held consuming ?thr = held consuming thr"
    using t mp_invD(5)[OF inv] by (simp_all add: held_upd)
  have head: "mp_head q mod C \<noteq> p mod C" if "cell_seq C q (mp_head q) = mp_head q" using that p by auto
  have tail: "mp_tail q mod C \<noteq> p mod C" if "cell_seq C q (mp_tail q) = mp_tail q + 1"
    using apart(1)[of "mp_tail q"] that p sh by (cases "mp_tail q = p") auto
  have "pc_ok C ?q log (?thr u)" for u
  proof (cases "u = t")
    case False
    then show ?thesis using pc_ok_seq[OF mp_invD(2)[OF inv, of u] _ _ head tail] apart by simp
  qed simp
  moreover have "full_cell C ?q (held producing thr - {p}) log r" if "mp_tail q \<le> r" "r < mp_head q" for r
    using mp_invD(3)[OF inv that] apart(1)[of r] that sh p by (cases "r = p") (auto simp: full_cell_def)
  moreover have "free_cell C ?q (held consuming thr) r" if "mp_head q \<le> r" "r < mp_tail q + C" for r
    using mp_invD(4)[OF inv that] apart(1)[of r] that sh p by (auto simp: free_cell_def)
  ultimately show ?thesis using inv sh unfolding mp_inv_def held by (simp add: cells_ok_def shape_ok_def sole_upd(2))
qed

lemma inv_move:
  assumes inv: "mp_inv C q thr log out" and t: "thr t = PopMove p"
  shows "cell_obj C q p = Some (log ! p)"
    "mp_inv C (q\<lparr>mp_storage := (mp_storage q)[p mod C := None]\<rparr>) (thr(t := PopRelease p (log ! p))) log out"
    (is "mp_inv C ?q ?thr log out")
proof -
  note sh = mp_invD(1)[OF inv, unfolded shape_ok_def]
  have cons: "consuming (thr t) = Some p" using t by simp
  note apart = consumer_apart[OF inv cons]
  have p: "p < mp_tail q" "mp_head q \<le> p + C" "cell_seq C q p = p + 1" using mp_invD(2)[OF inv, of t] t by simp_all
  show "cell_obj C q p = Some (log ! p)" using mp_invD(2)[OF inv, of t] t by simp
  have held: "held producing ?thr = held producing thr" "held consuming ?thr = held consuming thr"
    using t by (simp_all add: held_upd)
  have inR: "p \<in> held consuming thr" using cons by (auto simp: held_def)
  have "pc_ok C ?q log (?thr u)" for u
  proof (cases "u = t")
    case True
    then show ?thesis using p sh by simp
  next
    case False
    then show ?thesis using pc_ok_storage[OF mp_invD(2)[OF inv, of u], of p None] apart by simp
  qed
  moreover have "full_cell C ?q (held producing thr) log r" if "mp_tail q \<le> r" "r < mp_head q" for r
    using mp_invD(3)[OF inv that] apart(1)[of r] that sh p by (auto simp: full_cell_def)
  moreover have "free_cell C ?q (held consuming thr) r" if "mp_head q \<le> r" "r < mp_tail q + C" for r
    using mp_invD(4)[OF inv that] apart(1)[of r] that sh p inR by (cases "r = p + C") (auto simp: free_cell_def)
  ultimately show "mp_inv C ?q ?thr log out"
    using inv sh t unfolding mp_inv_def held by (simp add: cells_ok_def shape_ok_def sole_upd(1))
qed

lemma inv_release:
  assumes inv: "mp_inv C q thr log out" and t: "thr t = PopRelease p x"
  shows "mp_inv C (q\<lparr>mp_seq := (mp_seq q)[p mod C := p + C]\<rparr>) (thr(t := Popped (Some x))) log (out @ [(p, x)])"
    (is "mp_inv C ?q ?thr log ?out")
proof -
  note sh = mp_invD(1)[OF inv, unfolded shape_ok_def]
  have cons: "consuming (thr t) = Some p" using t by simp
  note apart = consumer_apart[OF inv cons]
  have p: "p < mp_tail q" "mp_head q \<le> p + C" "cell_seq C q p = p + 1" "cell_obj C q p = None" "x = log ! p"
    using mp_invD(2)[OF inv, of t] t by simp_all
  have held: "held producing ?thr = held producing thr" "held consuming ?thr = held consuming thr - {p}"
    using t mp_invD(6)[OF inv] by (simp_all add: held_upd)
  have inR: "p \<in> held consuming thr" using cons by (auto simp: held_def)
  have head: "mp_head q mod C \<noteq> p mod C" if "cell_seq C q (mp_head q) = mp_head q"
  proof
    assume same: "mp_head q mod C = p mod C"
    then have "mp_head q = p + 1" using that p(3) by simp
    then show False using cell_inj[of p "p + 1" C p] same sh by simp
  qed
  have tail: "mp_tail q mod C \<noteq> p mod C" if "cell_seq C q (mp_tail q) = mp_tail q + 1" using that p by auto
  have "pc_ok C ?q log (?thr u)" for u
  proof (cases "u = t")
    case False
    then show ?thesis using pc_ok_seq[OF mp_invD(2)[OF inv, of u] _ _ head tail] apart by simp
  qed simp
  moreover have "full_cell C ?q (held producing thr) log r" if "mp_tail q \<le> r" "r < mp_head q" for r
    using mp_invD(3)[OF inv that] apart(1)[of r] that sh p by (auto simp: full_cell_def)
  moreover have "free_cell C ?q (held consuming thr - {p}) r" if "mp_head q \<le> r" "r < mp_tail q + C" for r
    using mp_invD(4)[OF inv that] apart(1)[of r] that sh p by (cases "r = p + C") (auto simp: free_cell_def)
  moreover have "history_ok (mp_tail q) (held consuming thr - {p}) log ?out"
    using mp_invD(7)[OF inv] inR p(5) unfolding history_ok_def by auto
  ultimately show ?thesis using inv sh unfolding mp_inv_def held by (simp add: cells_ok_def shape_ok_def sole_upd(2))
qed

lemma mp_inv_init: "2 \<le> C \<Longrightarrow> mp_inv C (LockFreeMPMCQueue C) (\<lambda>_. Popped None) [] []"
  by (simp add: mp_inv_def shape_ok_def cells_ok_def free_cell_def sole_def held_def history_ok_def LockFreeMPMCQueue_def)

lemma pc_ok_checked_Emplace:
  "mp_inv C q thr log out \<Longrightarrow> thr t = EmplaceSeq v p \<Longrightarrow> cell_seq C q p = p \<Longrightarrow> pc_ok C q log (EmplaceCas v p)"
  using mp_invD(2)[of C q thr log out t] by auto

lemma pc_ok_checked_Pop:
  assumes inv: "mp_inv C q thr log out" and "thr t = PopSeq p" "cell_seq C q p = p + 1"
  shows "pc_ok C q log (PopCas p)"
proof -
  have "p < mp_head q" if "p = mp_tail q"
  proof (rule ccontr)
    assume "\<not> p < mp_head q"
    then have "free_cell C q (held consuming thr) p" using mp_invD(1,4)[OF inv] that by (auto simp: shape_ok_def)
    then show False using assms(3) mp_invD(1)[OF inv] by (auto simp: free_cell_def shape_ok_def)
  qed
  then show ?thesis using mp_invD(2)[OF inv, of t] assms by auto
qed

lemma mp_step_defined:
  assumes inv: "mp_inv C q thr log out"
  shows "\<exists>q' pc'. mp_step C ok q (thr t) = Some (q', pc')"
  using mp_invD(1)[OF inv] mp_invD(2)[OF inv, of t]
  by (cases "thr t") (auto simp: mp_step_def emplace_impl_step_def mp_Pop_step_def shape_ok_def Let_def)

lemma mp_step_inv:
  assumes inv: "mp_inv C q thr log out" and st: "mp_step C ok q (thr t) = Some (q', pc')"
  shows "mp_inv C q' (thr(t := pc')) (log @ claims (thr t) pc') (out @ delivers (thr t) pc')"
proof -
  note sh = mp_invD(1)[OF inv, unfolded shape_ok_def]
  have vec: "r mod C < length (mp_seq q)" "r mod C < length (mp_storage q)" for r using sh by simp_all
  note simps = mp_step_def emplace_impl_step_def mp_Pop_step_def Let_def
  show ?thesis
  proof (cases "thr t")
    case (EmplaceSeq v p)
    then show ?thesis using st vec pc_ok_checked_Emplace[OF inv EmplaceSeq] inv
      by (auto simp: simps intro!: inv_local split: if_splits)
  next
    case (EmplaceCas v p)
    show ?thesis
    proof (cases "ok \<and> mp_head q = p")
      case True
      then show ?thesis using st EmplaceCas inv_claim_push[OF inv, of t v] by (auto simp: simps)
    next
      case False
      then show ?thesis using st EmplaceCas inv by (auto simp: simps intro!: inv_local split: if_splits)
    qed
  next
    case (PopSeq p)
    then show ?thesis using st vec pc_ok_checked_Pop[OF inv PopSeq] inv
      by (auto simp: simps intro!: inv_local split: if_splits)
  next
    case (PopCas p)
    show ?thesis
    proof (cases "ok \<and> mp_tail q = p")
      case True
      then show ?thesis using st PopCas inv_claim_pop[OF inv, of t] by (auto simp: simps)
    next
      case False
      then show ?thesis using st PopCas inv by (auto simp: simps intro!: inv_local split: if_splits)
    qed
  next
    case (PopMove p)
    then show ?thesis using st vec inv_move[OF inv PopMove] by (auto simp: simps)
  next
    case (PopRelease p x)
    then show ?thesis using st vec inv_release[OF inv PopRelease] by (auto simp: simps)
  next
    case (EmplaceNew v p)
    then show ?thesis using st vec inv_construct[OF inv EmplaceNew] by (auto simp: simps)
  next
    case (EmplacePublish v p)
    then show ?thesis using st vec inv_publish[OF inv EmplacePublish] by (auto simp: simps)
  next
    case (Emplaced b)
    then have "q' = q" "pc' = Emplaced b" "thr(t := pc') = thr" using st by (auto simp: simps)
    then show ?thesis using inv Emplaced by simp
  next
    case (Popped r)
    then have "q' = q" "pc' = Popped r" "thr(t := pc') = thr" using st by (auto simp: simps)
    then show ?thesis using inv Popped by simp
  qed (use st inv in \<open>auto simp: simps intro!: inv_local\<close>)
qed

lemma reach_inv: "sys_reach C s \<Longrightarrow> 2 \<le> C \<Longrightarrow> mp_inv C (sys_q s) (sys_thr s) (sys_pushed s) (sys_popped s)"
proof (induction rule: sys_reach.induct)
  case init
  then show ?case by (simp add: mp_init_def mp_inv_init)
next
  case (step s s')
  then have inv: "mp_inv C (sys_q s) (sys_thr s) (sys_pushed s) (sys_popped s)" by simp
  have idle: "producing pc = None \<and> consuming pc = None" if "returned pc" for pc :: "'a mp_pc" using that by (cases pc) auto
  from step.hyps(2) show ?case
  proof cases
    case (call_Push t v)
    have "mp_inv C (sys_q s) ((sys_thr s)(t := EmplaceLoad v)) (sys_pushed s) (sys_popped s)"
      using call_Push idle by (intro inv_local[OF inv]) simp_all
    then show ?thesis unfolding call_Push(1) by (simp del: fun_upd_apply)
  next
    case (call_Pop t)
    have "mp_inv C (sys_q s) ((sys_thr s)(t := PopLoad)) (sys_pushed s) (sys_popped s)"
      using call_Pop idle by (intro inv_local[OF inv]) simp_all
    then show ?thesis unfolding call_Pop(1) by (simp del: fun_upd_apply)
  next
    case access
    show ?thesis unfolding access(1) mp_sys.select_convs by (rule mp_step_inv[OF inv access(2)])
  qed
qed

section \<open>Consequences\<close>

lemma head_seq_le: assumes inv: "mp_inv C q thr log out" shows "cell_seq C q (mp_head q) \<le> mp_head q"
proof (cases "mp_head q < mp_tail q + C")
  case True
  then show ?thesis using mp_invD(4)[OF inv, of "mp_head q"] mp_invD(1)[OF inv] by (auto simp: free_cell_def shape_ok_def)
next
  case False
  then have "mp_head q = mp_tail q + C" using mp_invD(1)[OF inv] by (simp add: shape_ok_def)
  then show ?thesis using mp_invD(3)[OF inv, of "mp_tail q"] mp_invD(1)[OF inv] by (auto simp: full_cell_def shape_ok_def)
qed

lemma tail_seq_le: assumes inv: "mp_inv C q thr log out" shows "cell_seq C q (mp_tail q) \<le> mp_tail q + 1"
proof (cases "mp_tail q < mp_head q")
  case True
  then show ?thesis using mp_invD(3)[OF inv, of "mp_tail q"] by (auto simp: full_cell_def)
next
  case False
  then show ?thesis using mp_invD(4)[OF inv, of "mp_tail q"] mp_invD(1)[OF inv] by (auto simp: free_cell_def shape_ok_def)
qed

text \<open>A cell of a position before the tail has been released at least once since.\<close>

lemma old_seq:
  assumes inv: "mp_inv C q thr log out" and p: "p < mp_tail q"
  shows "p < cell_seq C q p"
proof -
  note sh = mp_invD(1)[OF inv, unfolded shape_ok_def]
  define k where "k = (mp_tail q - p - 1) div C + 1"
  have "k * C \<le> mp_tail q - p - 1 + C" "mp_tail q - p - 1 < k * C"
    using sh dividend_less_div_times[of C "mp_tail q - p - 1"] by (simp_all add: k_def algebra_simps)
  then have r: "mp_tail q \<le> p + k * C" "p + k * C < mp_tail q + C" using p by auto
  have "p + k * C < cell_seq C q (p + k * C) + C"
    using mp_invD(3,4)[OF inv, of "p + k * C"] r sh by (cases "p + k * C < mp_head q") (auto simp: full_cell_def free_cell_def)
  moreover have "C \<le> k * C" by (simp add: k_def)
  ultimately show ?thesis using mod_mult_self1[of p k C] by (metis add_less_cancel_right nat_add_left_cancel_le order_le_less_trans)
qed

fun calls_left :: "'a mpmc \<Rightarrow> 'a mp_pc \<Rightarrow> nat" where
  "calls_left q (EmplaceLoad v) = 5"
| "calls_left q (EmplaceSeq v p) = (if p = mp_head q then 4 else 6)"
| "calls_left q (EmplaceCas v p) = (if p = mp_head q then 3 else 5)"
| "calls_left q (EmplaceNew v p) = 2"
| "calls_left q (EmplacePublish v p) = 1"
| "calls_left q PopLoad = 5"
| "calls_left q (PopSeq p) = (if p = mp_tail q then 4 else 6)"
| "calls_left q (PopCas p) = (if p = mp_tail q then 3 else 5)"
| "calls_left q (PopMove p) = 2"
| "calls_left q (PopRelease p x) = 1"
| "calls_left q _ = 0"

lemma calls_left_decreases:
  assumes inv: "mp_inv C q thr log out" and st: "mp_step C True q (thr t) = Some (q', pc')" and "\<not> returned (thr t)"
  shows "calls_left q' pc' < calls_left q (thr t)"
  using assms(3) st head_seq_le[OF inv] tail_seq_le[OF inv]
  by (cases "thr t") (auto simp: mp_step_def emplace_impl_step_def mp_Pop_step_def Let_def vec_at_Some_iff split: if_splits Option.bind_splits)

lemma solo_returns:
  "mp_inv C q thr log out \<Longrightarrow> calls_left q (thr t) \<le> n \<Longrightarrow>
    \<exists>q' pc' log' out'. call_steps (mp_step C) (replicate n True) (q, thr t) = Some (q', pc') \<and> returned pc' \<and>
      mp_inv C q' (thr(t := pc')) log' out'"
proof (induction n arbitrary: q thr log out)
  case 0
  then have "returned (thr t)" by (cases "thr t") (auto split: if_splits)
  moreover have "thr(t := thr t) = thr" by simp
  ultimately show ?case using 0(1) by (metis call_steps.simps(1) replicate_0)
next
  case (Suc n)
  obtain q' pc' where st: "mp_step C True q (thr t) = Some (q', pc')" using mp_step_defined[OF Suc.prems(1)] by blast
  note inv' = mp_step_inv[OF Suc.prems(1) st]
  have "calls_left q' pc' \<le> n"
  proof (cases "returned (thr t)")
    case True
    then have "pc' = thr t" "calls_left q' (thr t) = 0" using st by (cases "thr t"; auto simp: mp_step_def mp_Pop_step_def)+
    then show ?thesis by simp
  next
    case False
    then show ?thesis using calls_left_decreases[OF Suc.prems(1) st] Suc.prems(2) by simp
  qed
  note ih = Suc.IH[OF inv', unfolded fun_upd_same fun_upd_upd, OF this]
  have "call_steps (mp_step C) (replicate (Suc n) True) (q, thr t) = call_steps (mp_step C) (replicate n True) (q', pc')"
    using st by simp
  then show ?case using ih by (simp only:)
qed

lemma Emplace_refused:
  assumes inv: "mp_inv C q thr log out" and pc: "thr t = EmplaceSeq v p" and seq: "cell_seq C q p < p"
  shows "mp_head q = mp_tail q + C \<or> (\<exists>u. consuming (thr u) = Some (mp_head q - C))"
proof (cases "mp_head q = mp_tail q + C")
  case False
  then have room: "mp_head q < mp_tail q + C" using mp_invD(1)[OF inv] by (simp add: shape_ok_def)
  have "mp_tail q \<le> p" using old_seq[OF inv, of p] seq by (cases "mp_tail q \<le> p") auto
  moreover have "p \<le> mp_head q" using mp_invD(2)[OF inv, of t] pc by simp
  ultimately have "p = mp_head q" using mp_invD(3)[OF inv, of p] seq by (cases "p < mp_head q") (auto simp: full_cell_def)
  then show ?thesis using mp_invD(4)[OF inv, of p] room seq by (auto simp: free_cell_def held_def)
qed simp

lemma Pop_refused:
  assumes inv: "mp_inv C q thr log out" and pc: "thr t = PopSeq p" and seq: "cell_seq C q p < p + 1"
  shows "mp_head q = mp_tail q \<or> (\<exists>u. producing (thr u) = Some (mp_tail q))"
proof (cases "mp_head q = mp_tail q")
  case False
  then have room: "mp_tail q < mp_head q" using mp_invD(1)[OF inv] by (simp add: shape_ok_def)
  have "mp_tail q \<le> p" using old_seq[OF inv, of p] seq by (cases "mp_tail q \<le> p") auto
  moreover have "p \<le> mp_tail q" using mp_invD(2)[OF inv, of t] pc by simp
  ultimately show ?thesis using mp_invD(3)[OF inv, of p] room seq by (auto simp: full_cell_def held_def)
qed simp

lemma take_nth: "n \<le> length xs \<Longrightarrow> take n xs = map ((!) xs) [0..<n]"
  by (rule nth_equalityI) auto

lemma history_delivered:
  assumes h: "history_ok n {} log out" and n: "n \<le> length log"
  shows "mset (map snd out) = mset (take n log)"
proof -
  have "map snd out = map ((!) log) (map fst out)" using h by (auto simp: history_ok_def)
  moreover have "mset (map fst out) = mset [0..<n]"
    using h set_eq_iff_mset_eq_distinct[of "map fst out" "[0..<n]"] by (auto simp: history_ok_def lessThan_atLeast0)
  ultimately show ?thesis using n by (metis mset_map take_nth)
qed

section \<open>Calls that do not overlap\<close>

definition mp_Push :: "nat \<Rightarrow> 'a mpmc \<Rightarrow> 'a \<Rightarrow> (bool \<times> 'a mpmc) option" where
  "mp_Push C q v = do {
     (q, pc) \<leftarrow> call_steps (mp_step C) (replicate 5 True) (q, EmplaceLoad v);
     (case pc of Emplaced b \<Rightarrow> Some (b, q) | _ \<Rightarrow> None)}"

definition mp_Pop :: "nat \<Rightarrow> 'a mpmc \<Rightarrow> ('a option \<times> 'a mpmc) option" where
  "mp_Pop C q = do {
     (q, pc) \<leftarrow> call_steps (mp_step C) (replicate 5 True) (q, PopLoad);
     (case pc of Popped r \<Rightarrow> Some (r, q) | _ \<Rightarrow> None)}"

definition mp_quiet :: "nat \<Rightarrow> 'a mpmc \<Rightarrow> bool" where
  "mp_quiet C q \<longleftrightarrow> (\<exists>log out. mp_inv C q (\<lambda>_. Popped None) log out)"

definition mp_items :: "nat \<Rightarrow> 'a mpmc \<Rightarrow> 'a list" where
  "mp_items C q = map (\<lambda>p. the (cell_obj C q p)) [mp_tail q..<mp_head q]"

lemma mp_quietD:
  assumes "mp_quiet C q"
  shows "2 \<le> C" "length (mp_seq q) = C" "length (mp_storage q) = C" "mp_tail q \<le> mp_head q" "mp_head q \<le> mp_tail q + C"
    and "mp_head q < mp_tail q + C \<Longrightarrow> cell_seq C q (mp_head q) = mp_head q"
    and "mp_head q = mp_tail q + C \<Longrightarrow> cell_seq C q (mp_head q) < mp_head q"
    and "mp_tail q < mp_head q \<Longrightarrow> cell_seq C q (mp_tail q) = mp_tail q + 1 \<and> (\<exists>x. cell_obj C q (mp_tail q) = Some x)"
    and "mp_tail q = mp_head q \<Longrightarrow> cell_seq C q (mp_tail q) = mp_tail q"
proof -
  obtain log out where inv: "mp_inv C q (\<lambda>_. Popped None) log out" using assms by (auto simp: mp_quiet_def)
  show sh: "2 \<le> C" "length (mp_seq q) = C" "length (mp_storage q) = C" "mp_tail q \<le> mp_head q" "mp_head q \<le> mp_tail q + C"
    using mp_invD(1)[OF inv] by (simp_all add: shape_ok_def)
  show free: "cell_seq C q (mp_head q) = mp_head q" if "mp_head q < mp_tail q + C"
    using mp_invD(4)[OF inv _ that] by (simp add: free_cell_def held_def)
  show full: "cell_seq C q (mp_tail q) = mp_tail q + 1 \<and> (\<exists>x. cell_obj C q (mp_tail q) = Some x)" if "mp_tail q < mp_head q"
    using mp_invD(3)[OF inv _ that] by (simp add: full_cell_def held_def)
  show "cell_seq C q (mp_head q) < mp_head q" if "mp_head q = mp_tail q + C" using that full sh by simp
  show "cell_seq C q (mp_tail q) = mp_tail q" if "mp_tail q = mp_head q" using that free sh by simp
qed

lemma mp_quiet_call:
  fixes q :: "'a mpmc"
  assumes "mp_quiet C q" "pc = EmplaceLoad v \<or> pc = PopLoad"
    and st: "call_steps (mp_step C) (replicate 5 True) (q, pc) = Some (q', pc')"
  shows "mp_quiet C q'"
proof -
  let ?thr = "(\<lambda>_. Popped None) :: nat \<Rightarrow> 'a mp_pc"
  obtain log out where inv: "mp_inv C q ?thr log out" using assms by (auto simp: mp_quiet_def)
  have role: "producing pc = None" "consuming pc = None" "pc_ok C q log pc" "calls_left q pc \<le> 5" using assms(2) by auto
  have inv1: "mp_inv C q (?thr(0 := pc)) log out" using role by (intro inv_local[OF inv]) simp_all
  obtain q2 pc2 log2 out2 where fin: "call_steps (mp_step C) (replicate 5 True) (q, (?thr(0 := pc)) 0) = Some (q2, pc2)"
    "returned pc2" "mp_inv C q2 (?thr(0 := pc, 0 := pc2)) log2 out2"
    using solo_returns[OF inv1, of 0 5] role(4) by auto
  have idle: "producing pc2 = None" "consuming pc2 = None" using fin(2) by (cases pc2; simp)+
  have "mp_inv C q2 (?thr(0 := pc, 0 := pc2, 0 := Popped None)) log2 out2"
    using idle by (intro inv_local[OF fin(3)]) simp_all
  moreover have "?thr(0 := pc, 0 := pc2, 0 := Popped None) = ?thr" by auto
  ultimately have "mp_quiet C q2" unfolding mp_quiet_def by (intro exI[of _ log2] exI[of _ out2]) simp
  then show ?thesis using fin(1) st by simp
qed

lemma mp_Push_alone:
  assumes "mp_quiet C q"
  shows "mp_Push C q v = Some (if mp_head q < mp_tail q + C
    then (True, q\<lparr>mp_head := mp_head q + 1, mp_storage := (mp_storage q)[mp_head q mod C := Some v],
      mp_seq := (mp_seq q)[mp_head q mod C := mp_head q + 1]\<rparr>) else (False, q))"
  using mp_quietD[OF assms]
  by (cases "mp_head q < mp_tail q + C")
    (simp_all add: mp_Push_def numeral_eq_Suc mp_step_def emplace_impl_step_def mp_Pop_step_def Let_def)

lemma mp_Pop_alone:
  assumes "mp_quiet C q"
  shows "mp_Pop C q = Some (if mp_tail q < mp_head q
    then (cell_obj C q (mp_tail q), q\<lparr>mp_tail := mp_tail q + 1, mp_storage := (mp_storage q)[mp_tail q mod C := None],
      mp_seq := (mp_seq q)[mp_tail q mod C := mp_tail q + C]\<rparr>) else (None, q))"
  using mp_quietD[OF assms]
  by (cases "mp_tail q < mp_head q")
    (auto simp: mp_Pop_def numeral_eq_Suc mp_step_def emplace_impl_step_def mp_Pop_step_def Let_def)

lemma mp_quiet_Push: "mp_quiet C q \<Longrightarrow> mp_Push C q v = Some (b, q') \<Longrightarrow> mp_quiet C q'"
  using mp_quiet_call[of C q "EmplaceLoad v" v] by (auto simp: mp_Push_def split: Option.bind_splits mp_pc.splits)

lemma mp_quiet_Pop: "mp_quiet C q \<Longrightarrow> mp_Pop C q = Some (r, q') \<Longrightarrow> mp_quiet C q'"
  using mp_quiet_call[of C q PopLoad] by (auto simp: mp_Pop_def split: Option.bind_splits mp_pc.splits)

lemma mp_items_Push:
  assumes q: "mp_quiet C q" and "mp_head q < mp_tail q + C"
  shows "mp_items C (q\<lparr>mp_head := mp_head q + 1, mp_storage := (mp_storage q)[mp_head q mod C := Some v],
    mp_seq := (mp_seq q)[mp_head q mod C := n]\<rparr>) = mp_items C q @ [v]"
proof -
  have "mp_head q mod C \<noteq> p mod C" if "mp_tail q \<le> p" "p < mp_head q" for p
    using cell_inj[of "mp_tail q" "mp_head q" C p] that assms(2) by auto
  then show ?thesis using mp_quietD(1,3,4)[OF q] by (simp add: mp_items_def)
qed

lemma mp_items_Pop:
  assumes q: "mp_quiet C q" and "mp_tail q < mp_head q"
  shows "mp_items C q = the (cell_obj C q (mp_tail q)) # mp_items C (q\<lparr>mp_tail := mp_tail q + 1,
    mp_storage := (mp_storage q)[mp_tail q mod C := None], mp_seq := (mp_seq q)[mp_tail q mod C := n]\<rparr>)"
proof -
  have "mp_tail q mod C \<noteq> p mod C" if "mp_tail q < p" "p < mp_head q" for p
    using cell_inj[of "mp_tail q" "mp_tail q" C p] that mp_quietD(5)[OF q] by auto
  then show ?thesis using assms(2) by (auto simp: mp_items_def upt_conv_Cons)
qed

interpretation mpmc: fifo_queue "within C" "mp_quiet C" "mp_items C" "mp_Push C" "mp_Pop C" for C
proof
  show "\<exists>q'. mp_Push C q x = Some (within C (mp_items C q), q') \<and> mp_quiet C q' \<and>
      mp_items C q' = (if within C (mp_items C q) then mp_items C q @ [x] else mp_items C q)"
    if q: "mp_quiet C q" for q :: "'a mpmc" and x
  proof -
    have len: "within C (mp_items C q) \<longleftrightarrow> mp_head q < mp_tail q + C" using mp_quietD(4)[OF q] by (auto simp: mp_items_def)
    show ?thesis using mp_Push_alone[OF q, of x] mp_quiet_Push[OF q] mp_items_Push[OF q] unfolding len
      by (cases "mp_head q < mp_tail q + C") auto
  qed
  show "\<exists>q'. mp_Pop C q = Some (case mp_items C q of [] \<Rightarrow> None | x # _ \<Rightarrow> Some x, q') \<and> mp_quiet C q' \<and>
      mp_items C q' = tl (mp_items C q)"
    if q: "mp_quiet C q" for q :: "'a mpmc"
  proof (cases "mp_tail q < mp_head q")
    case True
    then show ?thesis using mp_Pop_alone[OF q] mp_quiet_Pop[OF q] mp_items_Pop[OF q, where n = "mp_tail q + C"] mp_quietD(8)[OF q] by auto
  next
    case False
    then have "mp_items C q = []" by (simp add: mp_items_def)
    then show ?thesis using mp_Pop_alone[OF q] False q by simp
  qed
qed

lemma mp_quiet_new: "2 \<le> C \<Longrightarrow> mp_quiet C (LockFreeMPMCQueue C)" "mp_items C (LockFreeMPMCQueue C) = []"
  using mp_inv_init[of C] by (auto simp: mp_quiet_def mp_items_def LockFreeMPMCQueue_def)

lemma mp_observers: "mp_quiet C q \<Longrightarrow>
    mp_Size q = length (mp_items C q) \<and> mp_Empty q = (mp_items C q = []) \<and> mp_Full C q = (length (mp_items C q) = C)"
  by (auto simp: mp_Size_def mp_Empty_def mp_Full_def mp_items_def)

section \<open>Schedules\<close>

datatype 'a action = Start_Push nat 'a | Start_Pop nat | Access nat bool

fun run_schedule :: "nat \<Rightarrow> 'a action list \<Rightarrow> 'a mp_sys \<Rightarrow> 'a mp_sys option" where
  "run_schedule C [] s = Some s"
| "run_schedule C (Start_Push t v # as) s =
    (if returned (sys_thr s t) then run_schedule C as (s\<lparr>sys_thr := (sys_thr s)(t := EmplaceLoad v)\<rparr>) else None)"
| "run_schedule C (Start_Pop t # as) s =
    (if returned (sys_thr s t) then run_schedule C as (s\<lparr>sys_thr := (sys_thr s)(t := PopLoad)\<rparr>) else None)"
| "run_schedule C (Access t ok # as) s = do {
    (q', pc') \<leftarrow> mp_step C ok (sys_q s) (sys_thr s t);
    run_schedule C as \<lparr>sys_q = q', sys_thr = (sys_thr s)(t := pc'),
      sys_pushed = sys_pushed s @ claims (sys_thr s t) pc', sys_popped = sys_popped s @ delivers (sys_thr s t) pc'\<rparr>}"

lemma run_schedule_reach: "run_schedule C as s = Some s' \<Longrightarrow> sys_reach C s \<Longrightarrow> sys_reach C s'"
proof (induction as arbitrary: s)
  case (Cons a as)
  obtain s1 where "sys_step C s s1" "run_schedule C as s1 = Some s'"
    using Cons.prems(1) by (cases a) (auto split: if_splits Option.bind_splits intro: sys_step.intros)
  then show ?case using Cons.IH Cons.prems(2) by (blast intro: sys_reach.step)
qed simp

section \<open>Properties\<close>

text \<open>
  C2: in every execution of any number of threads, no step of a \<^verbatim>\<open>LockFreeMPMCQueue\<close> reads a storage
  without an object or leaves the buffer; at most \<^verbatim>\<open>Capacity\<close> positions are between tail and head; each finished pop has a
  position of its own and returns the value that claimed that position; and when no pop is in progress the values popped are
  exactly the first \<^verbatim>\<open>tail_\<close> values in the order of the claims: nothing is lost, duplicated or invented.
\<close>
theorem mpmc_exactly_once:
  assumes "sys_reach C s" "2 \<le> C"
  shows "(\<forall>ok t. mp_step C ok (sys_q s) (sys_thr s t) \<noteq> None) \<and>
    mp_tail (sys_q s) \<le> mp_head (sys_q s) \<and> mp_head (sys_q s) \<le> mp_tail (sys_q s) + C \<and>
    length (sys_pushed s) = mp_head (sys_q s) \<and> distinct (map fst (sys_popped s)) \<and>
    (\<forall>(p, x) \<in> set (sys_popped s). p < mp_tail (sys_q s) \<and> x = sys_pushed s ! p) \<and>
    ((\<forall>u. consuming (sys_thr s u) = None) \<longrightarrow>
      mset (map snd (sys_popped s)) = mset (take (mp_tail (sys_q s)) (sys_pushed s)))"
proof -
  note inv = reach_inv[OF assms]
  note sh = mp_invD(1)[OF inv, unfolded shape_ok_def] and hist = mp_invD(7)[OF inv]
  have "\<forall>ok t. mp_step C ok (sys_q s) (sys_thr s t) \<noteq> None"
  proof (intro allI)
    show "mp_step C ok (sys_q s) (sys_thr s t) \<noteq> None" for ok t using mp_step_defined[OF inv, of ok t] by auto
  qed
  moreover have "distinct (map fst (sys_popped s))" using hist by (simp add: history_ok_def)
  moreover have "\<forall>(p, x) \<in> set (sys_popped s). p < mp_tail (sys_q s) \<and> x = sys_pushed s ! p"
    using history_popped[OF hist] by blast
  moreover have "mset (map snd (sys_popped s)) = mset (take (mp_tail (sys_q s)) (sys_pushed s))"
    if "\<forall>u. consuming (sys_thr s u) = None"
  proof -
    have "held consuming (sys_thr s) = {}" using that by (simp add: held_def)
    then show ?thesis using history_delivered[of "mp_tail (sys_q s)" "sys_pushed s" "sys_popped s"] hist sh by simp
  qed
  ultimately show ?thesis using sh by blast
qed

theorem mpmc_exactly_once_witness:
  "\<exists>s. run_schedule 2 [Start_Push 0 (10::int), Start_Push 1 20, Access 0 True, Access 1 True, Access 0 True, Access 1 True,
      Access 0 True, Access 1 True, Access 1 True, Access 1 True, Access 1 True, Access 1 True, Access 0 True, Access 0 True,
      Start_Pop 2, Access 2 True, Access 2 True, Access 2 True, Access 2 True, Access 2 True] (mp_init 2) = Some s \<and>
    length (sys_pushed s) = mp_head (sys_q s) \<and> distinct (map fst (sys_popped s)) \<and>
    (\<forall>(p, x) \<in> set (sys_popped s). p < mp_tail (sys_q s) \<and> x = sys_pushed s ! p)" (is "\<exists>s. run_schedule 2 ?as _ = _ \<and> _ s")
proof -
  have "run_schedule 2 ?as (mp_init 2) \<noteq> None"
    by (simp add: mp_init_def LockFreeMPMCQueue_def mp_step_def emplace_impl_step_def mp_Pop_step_def Let_def vec_at_def vec_set_def numeral_2_eq_2)
  then obtain s where s: "run_schedule 2 ?as (mp_init 2) = Some s" by blast
  show ?thesis using s mpmc_exactly_once[OF run_schedule_reach[OF s sys_reach.init] order_refl] by blast
qed

text \<open>
  A \<^verbatim>\<open>Push\<close> of \<^verbatim>\<open>LockFreeMPMCQueue\<close> returns false only when all \<^verbatim>\<open>Capacity\<close> positions are taken or a pop has
  not yet released the cell of the next position, and a \<^verbatim>\<open>Pop\<close> returns false only when no position is taken or the push of
  the oldest position has not yet published its value.
\<close>
lemma mpmc_refusal:
  assumes "sys_reach C s" "2 \<le> C"
  shows "(sys_thr s t = EmplaceSeq v p \<and> mp_step C ok (sys_q s) (sys_thr s t) = Some (q', Emplaced False) \<longrightarrow>
      mp_Full C (sys_q s) \<or> (\<exists>u. consuming (sys_thr s u) = Some (mp_head (sys_q s) - C))) \<and>
    (sys_thr s t = PopSeq p \<and> mp_step C ok (sys_q s) (sys_thr s t) = Some (q', Popped None) \<longrightarrow>
      mp_Empty (sys_q s) \<or> (\<exists>u. producing (sys_thr s u) = Some (mp_tail (sys_q s))))"
proof -
  note inv = reach_inv[OF assms]
  have "mp_Full C (sys_q s) \<or> (\<exists>u. consuming (sys_thr s u) = Some (mp_head (sys_q s) - C))"
    if "sys_thr s t = EmplaceSeq v p" "mp_step C ok (sys_q s) (sys_thr s t) = Some (q', Emplaced False)"
    using Emplace_refused[OF inv that(1)] that
    by (auto simp: mp_step_def emplace_impl_step_def Let_def vec_at_Some_iff mp_Full_def mp_Size_def split: if_splits Option.bind_splits)
  moreover have "mp_Empty (sys_q s) \<or> (\<exists>u. producing (sys_thr s u) = Some (mp_tail (sys_q s)))"
    if "sys_thr s t = PopSeq p" "mp_step C ok (sys_q s) (sys_thr s t) = Some (q', Popped None)"
    using Pop_refused[OF inv that(1)] that
    by (auto simp: mp_step_def mp_Pop_step_def Let_def vec_at_Some_iff mp_Empty_def mp_Size_def split: if_splits Option.bind_splits)
  ultimately show ?thesis by blast
qed

text \<open>
  C36: from every reachable state, whatever the other threads have left unfinished, a call of
  \<^verbatim>\<open>LockFreeMPMCQueue\<close> that runs alone and whose exchanges do not fail spuriously returns within six accesses: the loops of
  \<^verbatim>\<open>emplace_impl\<close> and \<^verbatim>\<open>Pop\<close> do not wait for another thread.
\<close>
theorem mpmc_call_returns:
  assumes "sys_reach C s" "2 \<le> C"
  shows "\<exists>q' pc'. call_steps (mp_step C) (replicate 6 True) (sys_q s, sys_thr s t) = Some (q', pc') \<and> returned pc'"
proof -
  have "calls_left (sys_q s) (sys_thr s t) \<le> 6" by (cases "sys_thr s t") simp_all
  then show ?thesis using solo_returns[OF reach_inv[OF assms]] by blast
qed

theorem mpmc_call_returns_witness:
  "\<exists>s. run_schedule 2 [Start_Push 0 (10::int), Access 0 True, Access 0 True, Access 0 True, Start_Push 1 20] (mp_init 2) = Some s \<and>
    (\<exists>q' pc'. call_steps (mp_step 2) (replicate 6 True) (sys_q s, sys_thr s 1) = Some (q', pc') \<and> returned pc')"
    (is "\<exists>s. run_schedule 2 ?as _ = _ \<and> _ s")
proof -
  have "run_schedule 2 ?as (mp_init 2) \<noteq> None"
    by (simp add: mp_init_def LockFreeMPMCQueue_def mp_step_def emplace_impl_step_def Let_def vec_at_def numeral_2_eq_2)
  then obtain s where s: "run_schedule 2 ?as (mp_init 2) = Some s" by blast
  show ?thesis using s mpmc_call_returns[OF run_schedule_reach[OF s sys_reach.init] order_refl] by blast
qed

text \<open>
  When the calls do not overlap, every sequence of calls on a new \<^verbatim>\<open>LockFreeMPMCQueue\<close> returns what a
  first-in first-out queue of at most \<^verbatim>\<open>Capacity\<close> elements returns, and the observers describe its content.
\<close>
lemma mpmc_refines_queue:
  assumes "2 \<le> C"
  shows "\<exists>q. run_calls (mp_Push C) (mp_Pop C) ops (LockFreeMPMCQueue C) = Some (fst (spec_calls (within C) ops []), q) \<and>
    mp_Size q = length (snd (spec_calls (within C) ops [])) \<and>
    mp_Empty q = (snd (spec_calls (within C) ops []) = []) \<and> mp_Full C q = (length (snd (spec_calls (within C) ops [])) = C)"
proof -
  obtain q where "run_calls (mp_Push C) (mp_Pop C) ops (LockFreeMPMCQueue C) = Some (fst (spec_calls (within C) ops []), q)"
    "mp_quiet C q" "mp_items C q = snd (spec_calls (within C) ops [])"
    using mpmc.run_calls_refines[OF mp_quiet_new(1)[OF assms], of ops] unfolding mp_quiet_new(2) by blast
  then show ?thesis using mp_observers[of C q] by simp
qed

end
