(* ===== verification/Ms_Queue.thy ===== *)
theory Ms_Queue
  imports Bounded_Queues
begin

text \<open>
  \<^verbatim>\<open>MSQueue\<close> of \<^verbatim>\<open>src/cc/algo/src/algo/algo_lock_free_queue.cc\<close>: the linked queue of Michael and Scott with shared hazard
  pointers.  Nodes live on an explicit heap, a deleted node is no longer in it and an access through its address is undefined
  (\<^const>\<open>None\<close>).  A step is one access to a shared field; \<^verbatim>\<open>protect\<close> and \<^verbatim>\<open>clear\<close> are one step each.  Addresses are not
  reused, and allocation succeeds.  Every exchange the code makes with
  \<^verbatim>\<open>compare_exchange_weak\<close> may fail although the comparison holds: the argument \<open>ok\<close> of a step is its outcome.
\<close>

section \<open>The code\<close>

record 'a ms_node =
  nd_next :: "nat option"
  nd_deleted :: bool
  nd_value :: 'a

record 'a ms_queue =
  ms_heap :: "nat \<Rightarrow> 'a ms_node option"
  ms_fresh :: nat
  ms_head :: nat
  ms_tail :: nat
  ms_hazard :: "nat option list"

definition HAZARD_COUNT :: nat where
  "HAZARD_COUNT = 8"

definition ms_new :: "'a ms_queue \<Rightarrow> 'a \<Rightarrow> nat \<times> 'a ms_queue" where
  "ms_new q val = (ms_fresh q,
     q\<lparr>ms_heap := (ms_heap q)(ms_fresh q \<mapsto> \<lparr>nd_next = None, nd_deleted = False, nd_value = val\<rparr>), ms_fresh := ms_fresh q + 1\<rparr>)"

definition reclaim :: "'a ms_queue \<Rightarrow> nat \<Rightarrow> 'a ms_queue option" where
  "reclaim q node = (case ms_heap q node of None \<Rightarrow> None | Some _ \<Rightarrow> Some (q\<lparr>ms_heap := (ms_heap q)(node := None)\<rparr>))"

definition MSQueue :: "'a \<Rightarrow> 'a ms_queue" where
  "MSQueue dflt =
     (let (dummy, q) = ms_new \<lparr>ms_heap = (\<lambda>_. None), ms_fresh = 0, ms_head = 0, ms_tail = 0, ms_hazard = replicate HAZARD_COUNT None\<rparr> dflt
      in q\<lparr>ms_head := dummy, ms_tail := dummy\<rparr>)"

text \<open>\<^verbatim>\<open>protect\<close> takes the first free slot; \<^verbatim>\<open>clear\<close> empties the first slot that holds the pointer.\<close>

fun protect :: "nat option list \<Rightarrow> nat \<Rightarrow> (nat option list) option" where
  "protect [] ptr = None"
| "protect (None # hp) ptr = Some (Some ptr # hp)"
| "protect (Some p # hp) ptr = map_option ((#) (Some p)) (protect hp ptr)"

fun clear :: "nat option list \<Rightarrow> nat option \<Rightarrow> nat option list" where
  "clear [] ptr = []"
| "clear (p # hp) ptr = (if p = ptr then None # hp else p # clear hp ptr)"

definition ms_clear :: "'a ms_queue \<Rightarrow> nat option \<Rightarrow> 'a ms_queue" where
  "ms_clear q ptr = q\<lparr>ms_hazard := clear (ms_hazard q) ptr\<rparr>"

definition set_next :: "'a ms_queue \<Rightarrow> nat \<Rightarrow> 'a ms_node \<Rightarrow> nat option \<Rightarrow> 'a ms_queue" where
  "set_next q a nd p = q\<lparr>ms_heap := (ms_heap q)(a \<mapsto> nd\<lparr>nd_next := p\<rparr>)\<rparr>"

datatype 'a ms_pc =
  MPushNew 'a
| MPushTail nat
| MPushNext nat nat
| MPushCheck nat nat "nat option"
| MPushHelp nat nat nat
| MPushLink nat nat
| MPushSwing nat nat
| MPushed bool
| MPopHead
| MPopProtect nat
| MPopCheck "nat option"
| MPopTail nat
| MPopNext nat nat
| MPopProtectNext nat nat nat
| MPopHelp nat nat
| MPopAfter nat nat
| MPopLink nat nat "nat option"
| MPopSwing nat nat
| MPopValue nat nat
| MPopReclaim nat nat 'a
| MPopped "'a option"

definition ms_push_step :: "bool \<Rightarrow> 'a ms_queue \<Rightarrow> 'a ms_pc \<Rightarrow> ('a ms_queue \<times> 'a ms_pc) option" where
  "ms_push_step ok q pc = (case pc of
     MPushNew value \<Rightarrow> (let (node, q) = ms_new q value in Some (q, MPushTail node))
   | MPushTail node \<Rightarrow> Some (q, MPushNext node (ms_tail q))
   | MPushNext node tail \<Rightarrow> do {
       nd \<leftarrow> ms_heap q tail;
       Some (q, MPushCheck node tail (nd_next nd))}
   | MPushCheck node tail next \<Rightarrow>
       Some (q, if tail \<noteq> ms_tail q then MPushTail node
                else case next of Some n \<Rightarrow> MPushHelp node tail n | None \<Rightarrow> MPushLink node tail)
   | MPushHelp node tail next \<Rightarrow>
       Some (if ok \<and> ms_tail q = tail then q\<lparr>ms_tail := next\<rparr> else q, MPushTail node)
   | MPushLink node tail \<Rightarrow> do {
       nd \<leftarrow> ms_heap q tail;
       (if ok \<and> nd_next nd = None then Some (set_next q tail nd (Some node), MPushSwing node tail)
        else do { q \<leftarrow> reclaim q node; Some (q, MPushed False) })}
   | MPushSwing node tail \<Rightarrow>
       Some (if ok \<and> ms_tail q = tail then q\<lparr>ms_tail := node\<rparr> else q, MPushed True)
   | _ \<Rightarrow> Some (q, pc))"

text \<open>A failed exchange of \<^verbatim>\<open>head->next\<close> or \<^verbatim>\<open>head_\<close> overwrites the local variable with the value found.\<close>

definition ms_pop_step :: "bool \<Rightarrow> 'a ms_queue \<Rightarrow> 'a ms_pc \<Rightarrow> ('a ms_queue \<times> 'a ms_pc) option" where
  "ms_pop_step ok q pc = (case pc of
     MPopHead \<Rightarrow> Some (q, MPopProtect (ms_head q))
   | MPopProtect head \<Rightarrow> Some (case protect (ms_hazard q) head of
       Some hp \<Rightarrow> (q\<lparr>ms_hazard := hp\<rparr>, MPopCheck (Some head))
     | None \<Rightarrow> (q, MPopCheck None))
   | MPopCheck head \<Rightarrow> Some (case head of
       Some h \<Rightarrow> (if h \<noteq> ms_head q then (ms_clear q head, MPopHead) else (q, MPopTail h))
     | None \<Rightarrow> (ms_clear q head, MPopHead))
   | MPopTail head \<Rightarrow> Some (q, MPopNext head (ms_tail q))
   | MPopNext head tail \<Rightarrow> do {
       nd \<leftarrow> ms_heap q head;
       Some (case nd_next nd of
         None \<Rightarrow> (ms_clear q (Some head), MPopped None)
       | Some next \<Rightarrow> (q, MPopProtectNext head tail next))}
   | MPopProtectNext head tail next \<Rightarrow> Some (case protect (ms_hazard q) next of
       None \<Rightarrow> (ms_clear q (Some head), MPopHead)
     | Some hp \<Rightarrow>
         (let q = q\<lparr>ms_hazard := hp\<rparr> in
          if head = tail then (ms_clear (ms_clear q (Some head)) (Some next), MPopHelp tail next)
          else (q, MPopAfter head next)))
   | MPopHelp tail next \<Rightarrow> Some (if ok \<and> ms_tail q = tail then q\<lparr>ms_tail := next\<rparr> else q, MPopHead)
   | MPopAfter head next \<Rightarrow> do {
       nd \<leftarrow> ms_heap q next;
       Some (q, MPopLink head next (nd_next nd))}
   | MPopLink head next after \<Rightarrow> do {
       nd \<leftarrow> ms_heap q head;
       Some (if ok \<and> nd_next nd = Some next then (set_next q head nd after, MPopSwing head next)
             else (ms_clear (ms_clear q (Some head)) (nd_next nd), MPopHead))}
   | MPopSwing head next \<Rightarrow>
       Some (if ok \<and> ms_head q = head then (q\<lparr>ms_head := next\<rparr>, MPopValue head next)
             else (q, MPopValue (ms_head q) next))
   | MPopValue head next \<Rightarrow> do {
       nd \<leftarrow> ms_heap q next;
       Some (ms_clear (ms_clear q (Some head)) (Some next), MPopReclaim head next (nd_value nd))}
   | MPopReclaim head next out \<Rightarrow> do {
       q \<leftarrow> reclaim q head;
       Some (q, MPopped (Some out))}
   | _ \<Rightarrow> Some (q, pc))"

text \<open>The loops over the chain; they do not return on a cycle.\<close>

partial_function (option) ms_count :: "'a ms_queue \<Rightarrow> nat option \<Rightarrow> nat \<Rightarrow> nat option" where
  "ms_count q cur n = (case cur of
     None \<Rightarrow> Some n
   | Some a \<Rightarrow> Option.bind (ms_heap q a) (\<lambda>nd. ms_count q (nd_next nd) (n + 1)))"

definition ms_Size :: "'a ms_queue \<Rightarrow> nat option" where
  "ms_Size q = do { nd \<leftarrow> ms_heap q (ms_head q); ms_count q (nd_next nd) 0 }"

definition ms_Empty :: "'a ms_queue \<Rightarrow> bool option" where
  "ms_Empty q = do { nd \<leftarrow> ms_heap q (ms_head q); Some (nd_next nd = None) }"

definition ms_Full :: "nat \<Rightarrow> 'a ms_queue \<Rightarrow> bool option" where
  "ms_Full Capacity q = do { n \<leftarrow> ms_Size q; Some (n \<ge> Capacity) }"

partial_function (option) ms_drain :: "'a ms_queue \<Rightarrow> nat option \<Rightarrow> 'a ms_queue option" where
  "ms_drain q node = (case node of
     None \<Rightarrow> Some q
   | Some a \<Rightarrow> Option.bind (ms_heap q a) (\<lambda>nd. Option.bind (reclaim q a) (\<lambda>q. ms_drain q (nd_next nd))))"

definition MSQueue_destroy :: "'a ms_queue \<Rightarrow> 'a ms_queue option" where
  "MSQueue_destroy q = ms_drain q (Some (ms_head q))"

section \<open>The chain of nodes\<close>

primrec linked :: "(nat \<Rightarrow> 'a ms_node option) \<Rightarrow> nat option \<Rightarrow> (nat \<times> 'a) list \<Rightarrow> bool" where
  "linked h p [] \<longleftrightarrow> p = None"
| "linked h p (av # ns) \<longleftrightarrow> p = Some (fst av) \<and> (\<exists>nd. h (fst av) = Some nd \<and> nd_value nd = snd av \<and> linked h (nd_next nd) ns)"

text \<open>The nodes from \<^verbatim>\<open>head_\<close> on; \<^verbatim>\<open>tail_\<close> is the last one or, after a failed exchange of \<^verbatim>\<open>tail_\<close>, the one before it.\<close>

definition ms_rep :: "'a ms_queue \<Rightarrow> (nat \<times> 'a) list \<Rightarrow> bool" where
  "ms_rep q N \<longleftrightarrow> N \<noteq> [] \<and> linked (ms_heap q) (Some (ms_head q)) N \<and> distinct (map fst N) \<and>
     (ms_tail q = fst (last N) \<or> butlast N \<noteq> [] \<and> ms_tail q = fst (last (butlast N))) \<and>
     dom (ms_heap q) = fst ` set N \<and> (\<forall>a \<in> fst ` set N. a < ms_fresh q) \<and> ms_hazard q = replicate HAZARD_COUNT None"

lemma linked_frame: "linked h p ns \<Longrightarrow> a \<notin> fst ` set ns \<Longrightarrow> linked (h(a := x)) p ns"
  by (induction ns arbitrary: p) auto

lemma linked_append:
  "linked h p (ns @ [av]) \<Longrightarrow> distinct (map fst (ns @ [av])) \<Longrightarrow> b \<notin> fst ` set (ns @ [av]) \<Longrightarrow>
    \<exists>nd. h (fst av) = Some nd \<and> nd_next nd = None \<and>
      linked (h(b \<mapsto> \<lparr>nd_next = None, nd_deleted = d, nd_value = w\<rparr>, fst av \<mapsto> nd\<lparr>nd_next := Some b\<rparr>)) p (ns @ [av, (b, w)])"
proof (induction ns arbitrary: p)
  case (Cons cv ns)
  then obtain nd where "h (fst cv) = Some nd" "nd_value nd = snd cv" "linked h (nd_next nd) (ns @ [av])" "p = Some (fst cv)" by auto
  then show ?case using Cons.IH[of "nd_next nd"] Cons.prems(2,3) by auto
qed auto

lemma ms_count_linked: "linked (ms_heap q) p ns \<Longrightarrow> ms_count q p n = Some (n + length ns)"
  by (induction ns arbitrary: p n) (auto simp: ms_count.simps[of q])

partial_function (option) ms_values :: "'a ms_queue \<Rightarrow> nat option \<Rightarrow> 'a list option" where
  "ms_values q cur = (case cur of
     None \<Rightarrow> Some []
   | Some a \<Rightarrow> Option.bind (ms_heap q a) (\<lambda>nd. Option.bind (ms_values q (nd_next nd)) (\<lambda>vs. Some (nd_value nd # vs))))"

lemma ms_values_linked: "linked (ms_heap q) p ns \<Longrightarrow> ms_values q p = Some (map snd ns)"
  by (induction ns arbitrary: p) (auto simp: ms_values.simps[of q])

definition ms_items :: "'a ms_queue \<Rightarrow> 'a list" where
  "ms_items q = tl (the (ms_values q (Some (ms_head q))))"

definition ms_ok :: "'a ms_queue \<Rightarrow> bool" where
  "ms_ok q \<longleftrightarrow> (\<exists>N. ms_rep q N)"

lemma ms_rep_items: "ms_rep q N \<Longrightarrow> ms_items q = map snd (tl N)"
  using ms_values_linked[of q "Some (ms_head q)" N] by (simp add: ms_rep_def ms_items_def map_tl)

lemma ms_drain_linked:
  "linked (ms_heap q) p ns \<Longrightarrow> distinct (map fst ns) \<Longrightarrow>
    \<exists>q'. ms_drain q p = Some q' \<and> (\<forall>a. ms_heap q' a = (if a \<in> fst ` set ns then None else ms_heap q a))"
proof (induction ns arbitrary: q p)
  case Nil
  then show ?case by (auto simp: ms_drain.simps[of q])
next
  case (Cons av ns)
  then obtain nd where nd: "p = Some (fst av)" "ms_heap q (fst av) = Some nd" "linked (ms_heap q) (nd_next nd) ns" by auto
  let ?q = "q\<lparr>ms_heap := (ms_heap q)(fst av := None)\<rparr>"
  have "linked (ms_heap ?q) (nd_next nd) ns"
    using linked_frame[OF nd(3), of "fst av" None] Cons.prems(2) by (simp del: fun_upd_apply)
  then obtain q' where "ms_drain ?q (nd_next nd) = Some q'"
    "\<And>a. ms_heap q' a = (if a \<in> fst ` set ns then None else ms_heap ?q a)"
    using Cons.IH[of ?q "nd_next nd"] Cons.prems(2) by fastforce
  then show ?case using nd by (auto simp: ms_drain.simps[of q] reclaim_def)
qed

section \<open>Calls that do not overlap\<close>

text \<open>
  A call runs alone, with one outcome for each of its steps; the steps that make no weak exchange ignore theirs.  The result
  \<^const>\<open>None\<close> is an undefined step, or a call that has not returned when the outcomes are used up.
\<close>

definition ms_Push :: "bool list \<Rightarrow> 'a ms_queue \<Rightarrow> 'a \<Rightarrow> (bool \<times> 'a ms_queue) option" where
  "ms_Push oks q v = do {
     (q, pc) \<leftarrow> call_steps ms_push_step oks (q, MPushNew v);
     (case pc of MPushed b \<Rightarrow> Some (b, q) | _ \<Rightarrow> None)}"

definition ms_Pop :: "bool list \<Rightarrow> 'a ms_queue \<Rightarrow> ('a option \<times> 'a ms_queue) option" where
  "ms_Pop oks q = do {
     (q, pc) \<leftarrow> call_steps ms_pop_step oks (q, MPopHead);
     (case pc of MPopped r \<Rightarrow> Some (r, q) | _ \<Rightarrow> None)}"

text \<open>The exchange of \<^verbatim>\<open>head_\<close>, whose result \<^verbatim>\<open>Pop\<close> ignores, does not fail.\<close>

primrec head_exchange_ok :: "bool list \<Rightarrow> 'a ms_queue \<times> 'a ms_pc \<Rightarrow> bool" where
  "head_exchange_ok [] c = True"
| "head_exchange_ok (ok # oks) c =
     ((case snd c of MPopSwing _ _ \<Rightarrow> ok | _ \<Rightarrow> True) \<and>
      (case ms_pop_step ok (fst c) (snd c) of None \<Rightarrow> True | Some c' \<Rightarrow> head_exchange_ok oks c'))"

abbreviation failures :: "bool list \<Rightarrow> nat" where
  "failures oks \<equiv> length (filter Not oks)"

definition lagging :: "'a ms_queue \<Rightarrow> (nat \<times> 'a) list \<Rightarrow> bool" where
  "lagging q N \<longleftrightarrow> ms_tail q \<noteq> fst (last N)"

lemma ms_rep_new: "ms_rep (MSQueue d) [(0, d)]"
  by (auto simp: ms_rep_def MSQueue_def ms_new_def)

lemma call_steps_returned_ms:
  "call_steps ms_push_step oks (q, MPushed b) = Some (q, MPushed b)"
  "call_steps ms_pop_step oks (q, MPopped x) = Some (q, MPopped x)"
  "head_exchange_ok oks (q, MPopped x)"
  by (induction oks) (simp_all add: ms_push_step_def ms_pop_step_def)

lemma take_outcomes: "n \<le> length oks \<Longrightarrow> \<exists>us rest. oks = us @ rest \<and> length us = n"
  by (metis append_take_drop_id length_take min.absorb2)

lemma length_4: "length us = 4 \<longleftrightarrow> (\<exists>a b c d. us = [a, b, c, d])"
  by (auto simp: numeral_eq_Suc length_Suc_conv)

lemma linked_last:
  "linked h p (ns @ [av]) \<Longrightarrow> \<exists>nd. h (fst av) = Some nd \<and> nd_next nd = None"
  by (induction ns arbitrary: p) auto

lemma linked_before_last:
  "linked h p (ns @ [bv, av]) \<Longrightarrow> \<exists>nd. h (fst bv) = Some nd \<and> nd_next nd = Some (fst av)"
  by (induction ns arbitrary: p) auto

lemma ms_push_loop:
  assumes "ms_rep q0 N" "b = ms_fresh q0"
    "q = q0\<lparr>ms_heap := (ms_heap q0)(b \<mapsto> \<lparr>nd_next = None, nd_deleted = False, nd_value = v\<rparr>), ms_fresh := b + 1\<rparr>"
    "5 + 4 * failures oks + (if lagging q0 N then 4 else 0) \<le> length oks"
  shows "\<exists>q' r. call_steps ms_push_step oks (q, MPushTail b) = Some (q', MPushed r) \<and>
    (if r then ms_rep q' (N @ [(b, v)]) else False \<in> set oks \<and> ms_rep q' N)"
  using assms
proof (induction "length oks" arbitrary: oks q0 q rule: less_induct)
  case less
  obtain o1 o2 o3 o4 rest where oks: "oks = o1 # o2 # o3 # o4 # rest"
    using take_outcomes[of 4 oks] less.prems(4) by (auto simp: length_4)
  have b: "b \<notin> fst ` set N" "b \<notin> dom (ms_heap q0)" using less.prems(1,2) by (auto simp: ms_rep_def)
  show ?case
  proof (cases "lagging q0 N")
    case True
    then have lag: "butlast N \<noteq> []" "ms_tail q0 = fst (last (butlast N))" using less.prems(1) by (auto simp: ms_rep_def lagging_def)
    obtain ns bv av where N: "N = ns @ [bv, av]"
      by (metis append.assoc append_Cons append_Nil append_butlast_last_id butlast.simps(1) lag(1))
    have lk: "linked (ms_heap q0) (Some (ms_head q0)) (ns @ [bv, av])" using less.prems(1) by (simp add: N ms_rep_def)
    obtain nd where nd: "ms_heap q0 (fst bv) = Some nd" "nd_next nd = Some (fst av)"
      using linked_before_last[OF lk] by blast
    have tl: "ms_tail q0 = fst bv" "fst bv \<noteq> b" using lag(2) b(1) by (auto simp: N butlast_append)
    let ?prev = "if o4 then q0\<lparr>ms_tail := fst av\<rparr> else q0"
    let ?q = "if o4 then q\<lparr>ms_tail := fst av\<rparr> else q"
    have step: "call_steps ms_push_step oks (q, MPushTail b) = call_steps ms_push_step rest (?q, MPushTail b)"
      using nd tl unfolding oks less.prems(3) by (simp add: ms_push_step_def)
    have "ms_rep ?prev N" using less.prems(1) by (simp add: ms_rep_def N)
    moreover have "5 + 4 * failures rest + (if lagging ?prev N then 4 else 0) \<le> length rest"
      using less.prems(4) True unfolding oks by (auto simp: lagging_def N split: if_splits)
    moreover have "b = ms_fresh ?prev" "?q = ?prev\<lparr>ms_heap := (ms_heap ?prev)(b \<mapsto> \<lparr>nd_next = None, nd_deleted = False, nd_value = v\<rparr>), ms_fresh := b + 1\<rparr>"
      using less.prems(2,3) by auto
    ultimately obtain q' r where "call_steps ms_push_step rest (?q, MPushTail b) = Some (q', MPushed r)"
      "if r then ms_rep q' (N @ [(b, v)]) else False \<in> set rest \<and> ms_rep q' N"
      using less.hyps[of rest ?prev ?q] oks by auto
    moreover have "False \<in> set rest \<Longrightarrow> False \<in> set oks" by (simp add: oks)
    ultimately show ?thesis unfolding step by metis
  next
    case False
    obtain ns av where N: "N = ns @ [av]" using less.prems(1) by (metis ms_rep_def rev_exhaust)
    have tl: "ms_tail q0 = fst av" "fst av \<noteq> b" using False b(1) by (auto simp: N lagging_def)
    obtain nd where nd: "ms_heap q0 (fst av) = Some nd" "nd_next nd = None"
      "linked ((ms_heap q0)(b \<mapsto> \<lparr>nd_next = None, nd_deleted = False, nd_value = v\<rparr>, fst av \<mapsto> nd\<lparr>nd_next := Some b\<rparr>)) (Some (ms_head q0)) (ns @ [av, (b, v)])"
      using linked_append[of "ms_heap q0" "Some (ms_head q0)" ns av b False v] less.prems(1) b unfolding N ms_rep_def by auto
    show ?thesis
    proof (cases o4)
      case False
      have "(ms_heap q0)(b := None) = ms_heap q0" using b(2) by (auto simp: fun_eq_iff domIff)
      then have "call_steps ms_push_step oks (q, MPushTail b) = Some (q0\<lparr>ms_fresh := b + 1\<rparr>, MPushed False)"
        using nd tl False unfolding oks less.prems(3) by (simp add: ms_push_step_def reclaim_def call_steps_returned_ms)
      moreover have "ms_rep (q0\<lparr>ms_fresh := b + 1\<rparr>) N" using less.prems(1,2) by (auto simp: ms_rep_def less_Suc_eq)
      ultimately show ?thesis using False by (auto simp: oks)
    next
      case True
      obtain o5 rest' where rest: "rest = o5 # rest'" using less.prems(4) by (cases rest) (auto simp: oks)
      let ?h = "(ms_heap q0)(b \<mapsto> \<lparr>nd_next = None, nd_deleted = False, nd_value = v\<rparr>, fst av \<mapsto> nd\<lparr>nd_next := Some b\<rparr>)"
      let ?q = "q0\<lparr>ms_heap := ?h, ms_fresh := b + 1, ms_tail := if o5 then b else fst av\<rparr>"
      have "call_steps ms_push_step oks (q, MPushTail b) = Some (?q, MPushed True)"
        using nd(1,2) tl True unfolding oks rest less.prems(3) by (simp add: ms_push_step_def set_next_def call_steps_returned_ms)
      moreover have "ms_rep ?q (N @ [(b, v)])"
        using less.prems(1,2) nd b unfolding ms_rep_def N by (auto simp: less_Suc_eq butlast_append)
      ultimately show ?thesis by (intro exI[of _ ?q] exI[of _ True]) simp
    qed
  qed
qed

text \<open>Enough steps for every call: a failed exchange repeats at most eight of them.\<close>

definition enough_steps :: "bool list \<Rightarrow> bool" where
  "enough_steps oks \<longleftrightarrow> 18 + 8 * failures oks \<le> length oks"

lemma ms_Push_spec:
  assumes rep: "ms_rep q N" and enough: "enough_steps oks"
  shows "\<exists>q' r. ms_Push oks q v = Some (r, q') \<and> (if r then ms_rep q' (N @ [(ms_fresh q, v)]) else False \<in> set oks \<and> ms_rep q' N)"
proof -
  obtain ok oks' where oks: "oks = ok # oks'" using enough by (cases oks) (auto simp: enough_steps_def)
  have "5 + 4 * failures oks' + (if lagging q N then 4 else 0) \<le> length oks'" using enough by (auto simp: enough_steps_def oks split: if_splits)
  from ms_push_loop[OF rep refl refl this, of v] obtain q' r where
    "call_steps ms_push_step oks (q, MPushNew v) = Some (q', MPushed r)"
    "if r then ms_rep q' (N @ [(ms_fresh q, v)]) else False \<in> set oks' \<and> ms_rep q' N"
    by (auto simp: oks ms_push_step_def ms_new_def simp del: split_paired_Ex)
  moreover have "False \<in> set oks' \<Longrightarrow> False \<in> set oks" by (simp add: oks)
  ultimately have "ms_Push oks q v = Some (r, q')" "if r then ms_rep q' (N @ [(ms_fresh q, v)]) else False \<in> set oks \<and> ms_rep q' N"
    by (simp add: ms_Push_def, metis)
  then show ?thesis by blast
qed

lemma hazard_slots: "replicate HAZARD_COUNT None = None # None # replicate 6 None"
  by (simp add: HAZARD_COUNT_def numeral_eq_Suc)

lemma no_hazards: "ms_rep q N \<Longrightarrow> q\<lparr>ms_hazard := None # None # replicate 6 None\<rparr> = q"
  by (cases q) (simp add: ms_rep_def hazard_slots)

lemmas pop_step_simps = ms_pop_step_def hazard_slots ms_clear_def set_next_def reclaim_def Let_def call_steps_returned_ms

lemma pop_empty_steps:
  assumes "ms_rep q [av]"
  shows "call_steps ms_pop_step (o1 # o2 # o3 # o4 # o5 # oks) (q, MPopHead) = Some (q, MPopped None)"
    "head_exchange_ok (o1 # o2 # o3 # o4 # o5 # oks) (q, MPopHead)"
proof -
  obtain nd where "ms_heap q (ms_head q) = Some nd" "nd_next nd = None" "ms_hazard q = replicate HAZARD_COUNT None"
    using assms by (auto simp: ms_rep_def)
  then show "call_steps ms_pop_step (o1 # o2 # o3 # o4 # o5 # oks) (q, MPopHead) = Some (q, MPopped None)"
    "head_exchange_ok (o1 # o2 # o3 # o4 # o5 # oks) (q, MPopHead)" by (simp_all add: pop_step_simps)
qed

lemma pop_help_steps:
  fixes o7 :: bool
  assumes "ms_rep q [av, bw]" "lagging q [av, bw]"
  defines "q1 \<equiv> (if o7 then q\<lparr>ms_tail := fst bw\<rparr> else q)"
  shows "call_steps ms_pop_step (o1 # o2 # o3 # o4 # o5 # o6 # o7 # oks) (q, MPopHead) = call_steps ms_pop_step oks (q1, MPopHead)"
    "head_exchange_ok (o1 # o2 # o3 # o4 # o5 # o6 # o7 # oks) (q, MPopHead) = head_exchange_ok oks (q1, MPopHead)"
    "ms_rep q1 [av, bw]" "lagging q1 [av, bw] = (\<not> o7)"
proof -
  obtain nd where nd: "ms_heap q (ms_head q) = Some nd" "nd_next nd = Some (fst bw)" "ms_hazard q = replicate HAZARD_COUNT None"
    "ms_tail q = ms_head q" using assms(1,2) by (auto simp: ms_rep_def lagging_def)
  then show "call_steps ms_pop_step (o1 # o2 # o3 # o4 # o5 # o6 # o7 # oks) (q, MPopHead) = call_steps ms_pop_step oks (q1, MPopHead)"
    "head_exchange_ok (o1 # o2 # o3 # o4 # o5 # o6 # o7 # oks) (q, MPopHead) = head_exchange_ok oks (q1, MPopHead)"
    by (simp_all add: pop_step_simps q1_def no_hazards[OF assms(1)])
  show "ms_rep q1 [av, bw]" "lagging q1 [av, bw] = (\<not> o7)" using assms(1,2) by (auto simp: q1_def ms_rep_def lagging_def)
qed

lemma pop_retry_steps:
  assumes "ms_rep q (av # bw # ns)" "ms_tail q \<noteq> fst av"
  shows "call_steps ms_pop_step (o1 # o2 # o3 # o4 # o5 # o6 # o7 # False # oks) (q, MPopHead) = call_steps ms_pop_step oks (q, MPopHead)"
    "head_exchange_ok (o1 # o2 # o3 # o4 # o5 # o6 # o7 # False # oks) (q, MPopHead) = head_exchange_ok oks (q, MPopHead)"
proof -
  obtain nd nd' where "ms_heap q (fst av) = Some nd" "nd_next nd = Some (fst bw)" "ms_hazard q = replicate HAZARD_COUNT None"
    "ms_head q = fst av" "ms_heap q (fst bw) = Some nd'" "fst av \<noteq> fst bw" using assms(1) by (auto simp: ms_rep_def)
  then show "call_steps ms_pop_step (o1 # o2 # o3 # o4 # o5 # o6 # o7 # False # oks) (q, MPopHead) = call_steps ms_pop_step oks (q, MPopHead)"
    "head_exchange_ok (o1 # o2 # o3 # o4 # o5 # o6 # o7 # False # oks) (q, MPopHead) = head_exchange_ok oks (q, MPopHead)"
    using assms(2) by (simp_all add: pop_step_simps no_hazards[OF assms(1)])
qed

lemma pop_take_steps:
  fixes o9 :: bool
  assumes rep: "ms_rep q (av # bw # ns)" and tl: "ms_tail q \<noteq> fst av"
  defines "q1 \<equiv> q\<lparr>ms_heap := (ms_heap q)(fst av := None), ms_head := if o9 then fst bw else fst av\<rparr>"
  shows "call_steps ms_pop_step (o1 # o2 # o3 # o4 # o5 # o6 # o7 # True # o9 # o10 # o11 # oks) (q, MPopHead) = Some (q1, MPopped (Some (snd bw)))"
    "head_exchange_ok (o1 # o2 # o3 # o4 # o5 # o6 # o7 # True # o9 # o10 # o11 # oks) (q, MPopHead) = o9"
    "if o9 then ms_rep q1 (bw # ns) else ms_heap q1 (ms_head q1) = None"
proof -
  obtain nd nd' where nd: "ms_heap q (fst av) = Some nd" "nd_next nd = Some (fst bw)" "ms_hazard q = replicate HAZARD_COUNT None"
    "ms_head q = fst av" "ms_heap q (fst bw) = Some nd'" "fst av \<noteq> fst bw" "nd_value nd' = snd bw" "linked (ms_heap q) (nd_next nd') ns"
    "fst av \<notin> fst ` set ns" using rep by (auto simp: ms_rep_def)
  then show "call_steps ms_pop_step (o1 # o2 # o3 # o4 # o5 # o6 # o7 # True # o9 # o10 # o11 # oks) (q, MPopHead) = Some (q1, MPopped (Some (snd bw)))"
    "head_exchange_ok (o1 # o2 # o3 # o4 # o5 # o6 # o7 # True # o9 # o10 # o11 # oks) (q, MPopHead) = o9"
    using tl by (simp_all add: pop_step_simps q1_def)
  have "linked (ms_heap q1) (nd_next nd') ns" using linked_frame[OF nd(8,9), of None] by (simp add: q1_def del: fun_upd_apply)
  moreover have "ms_tail q = fst (last (bw # ns)) \<or> butlast (bw # ns) \<noteq> [] \<and> ms_tail q = fst (last (butlast (bw # ns)))"
    using rep tl by (auto simp: ms_rep_def split: if_splits)
  ultimately show "if o9 then ms_rep q1 (bw # ns) else ms_heap q1 (ms_head q1) = None"
    using rep nd unfolding ms_rep_def by (auto simp: q1_def)
qed

text \<open>The value at the front of the chain's content, and the chain after it is taken.\<close>

definition front :: "(nat \<times> 'a) list \<Rightarrow> 'a option" where
  "front N = (case tl N of [] \<Rightarrow> None | bw # _ \<Rightarrow> Some (snd bw))"

lemma length_8: "length us = 8 \<longleftrightarrow> (\<exists>a b c d e f g h. us = [a, b, c, d, e, f, g, h])"
  by (auto simp: numeral_eq_Suc length_Suc_conv)

lemma length_3: "length us = 3 \<longleftrightarrow> (\<exists>a b c. us = [a, b, c])"
  by (auto simp: numeral_eq_Suc length_Suc_conv)

lemma ms_pop_loop:
  assumes "ms_rep q N" "11 + 8 * failures oks + (if lagging q N then 7 else 0) \<le> length oks"
  shows "\<exists>q'. call_steps ms_pop_step oks (q, MPopHead) = Some (q', MPopped (front N)) \<and>
    (if head_exchange_ok oks (q, MPopHead) then ms_rep q' (if tl N = [] then N else tl N) else ms_heap q' (ms_head q') = None)"
  using assms
proof (induction "length oks" arbitrary: oks q rule: less_induct)
  case less
  obtain o1 o2 o3 o4 o5 o6 o7 o8 rest where oks: "oks = o1 # o2 # o3 # o4 # o5 # o6 # o7 # o8 # rest"
    using take_outcomes[of 8 oks] less.prems(2) by (auto simp: length_8)
  consider av where "N = [av]" | av bw ns where "N = av # bw # ns" using less.prems(1) unfolding ms_rep_def by (metis list.exhaust)
  then show ?case
  proof cases
    case 1
    then show ?thesis using less.prems(1) by (simp add: oks pop_empty_steps front_def del: call_steps.simps head_exchange_ok.simps)
  next
    case 2
    show ?thesis
    proof (cases "ms_tail q = fst av")
      case True
      have nin: "fst av \<notin> fst ` set (bw # ns)" using less.prems(1) by (simp add: 2 ms_rep_def)
      have "last (bw # ns) \<in> set (bw # ns)" by simp
      then have lag: "ms_tail q \<noteq> fst (last (bw # ns))" using nin unfolding True by (metis image_eqI)
      then have "ms_tail q = fst (last (butlast N))" using less.prems(1) by (simp add: 2 ms_rep_def)
      moreover have "last (butlast (bw # ns)) \<in> set (bw # ns)" if "ns \<noteq> []"
        using that by (metis butlast.simps(2) in_set_butlastD last_in_set list.discI)
      ultimately have "ns = []" using nin unfolding True 2
        by (metis butlast.simps(2) image_eqI last_ConsR list.discI)
      then have ns: "ns = []" "lagging q N" using lag by (simp_all add: 2 lagging_def)
      have hp: "ms_rep q [av, bw]" "lagging q [av, bw]" using less.prems(1) ns by (simp_all add: 2)
      note hs = pop_help_steps[OF hp, where ?o7.0 = o7]
      have "11 + 8 * failures (o8 # rest) + (if lagging (if o7 then q\<lparr>ms_tail := fst bw\<rparr> else q) N then 7 else 0) \<le> length (o8 # rest)"
        using less.prems(2) ns hs(4) unfolding oks 2 by (simp split: if_splits)
      from less.hyps[OF _ _ this] hs(3) ns show ?thesis unfolding oks hs(1,2) by (simp add: 2 del: call_steps.simps head_exchange_ok.simps)
    next
      case False
      have rep: "ms_rep q (av # bw # ns)" using less.prems(1) by (simp add: 2)
      show ?thesis
      proof (cases o8)
        case retry: False
        have "11 + 8 * failures rest + (if lagging q N then 7 else 0) \<le> length rest" using less.prems(2) retry by (auto simp: oks split: if_splits)
        from less.hyps[OF _ less.prems(1) this] retry show ?thesis by (simp add: oks pop_retry_steps[OF rep False] del: call_steps.simps head_exchange_ok.simps)
      next
        case True
        obtain o9 o10 o11 rest' where rest: "rest = o9 # o10 # o11 # rest'"
          using take_outcomes[of 3 rest] less.prems(2) by (auto simp: oks length_3)
        show ?thesis using True pop_take_steps[OF rep False, where ?o9.0 = o9] by (cases o9) (simp_all add: oks rest 2 front_def del: call_steps.simps head_exchange_ok.simps)
      qed
    qed
  qed
qed

lemma ms_Pop_spec:
  assumes "ms_rep q N" "enough_steps oks"
  shows "\<exists>q'. ms_Pop oks q = Some (front N, q') \<and>
    (if head_exchange_ok oks (q, MPopHead) then ms_rep q' (if tl N = [] then N else tl N) else ms_heap q' (ms_head q') = None)"
proof -
  have "11 + 8 * failures oks + (if lagging q N then 7 else 0) \<le> length oks" using assms(2) by (simp add: enough_steps_def)
  from ms_pop_loop[OF assms(1) this] show ?thesis by (fastforce simp: ms_Pop_def)
qed

lemma front_items: "ms_rep q N \<Longrightarrow> front N = (case ms_items q of [] \<Rightarrow> None | x # _ \<Rightarrow> Some x)"
  by (auto simp: ms_rep_items front_def split: list.split)

lemma ms_Push_call:
  assumes "ms_ok q" "enough_steps oks"
  shows "\<exists>q' r. ms_Push oks q v = Some (r, q') \<and> ms_ok q' \<and> ms_items q' = (if r then ms_items q @ [v] else ms_items q) \<and>
    (r \<or> False \<in> set oks)"
proof -
  obtain N where N: "ms_rep q N" using assms(1) by (auto simp: ms_ok_def)
  then have "N \<noteq> []" by (simp add: ms_rep_def)
  moreover obtain q' r where "ms_Push oks q v = Some (r, q')"
    "if r then ms_rep q' (N @ [(ms_fresh q, v)]) else False \<in> set oks \<and> ms_rep q' N"
    using ms_Push_spec[OF N assms(2)] by blast
  ultimately show ?thesis using ms_rep_items[OF N] by (cases r) (auto simp: ms_rep_items ms_ok_def)
qed

lemma ms_Pop_call:
  assumes "ms_ok q" "enough_steps oks"
  shows "\<exists>q'. ms_Pop oks q = Some (case ms_items q of [] \<Rightarrow> None | x # _ \<Rightarrow> Some x, q') \<and>
    (if head_exchange_ok oks (q, MPopHead) then ms_ok q' \<and> ms_items q' = tl (ms_items q) else ms_heap q' (ms_head q') = None)"
proof -
  obtain N where N: "ms_rep q N" using assms(1) by (auto simp: ms_ok_def)
  obtain q' where q': "ms_Pop oks q = Some (front N, q')"
    "if head_exchange_ok oks (q, MPopHead) then ms_rep q' (if tl N = [] then N else tl N) else ms_heap q' (ms_head q') = None"
    using ms_Pop_spec[OF N assms(2)] by blast
  moreover have "ms_ok q' \<and> ms_items q' = tl (ms_items q)" if "ms_rep q' (if tl N = [] then N else tl N)"
    using that ms_rep_items[OF N] ms_rep_items[OF that] by (cases "tl N") (auto simp: ms_ok_def)
  ultimately show ?thesis unfolding front_items[OF N] by auto
qed

text \<open>Without a failing exchange the queue is an unbounded queue that always has room.\<close>

definition all_succeed :: "bool list" where
  "all_succeed = replicate 18 True"

lemma all_succeed: "enough_steps all_succeed" "False \<notin> set all_succeed" "head_exchange_ok all_succeed c"
proof -
  have "head_exchange_ok (replicate n True) c" for n and c :: "'a ms_queue \<times> 'a ms_pc"
    by (induction n arbitrary: c) (auto split: ms_pc.split option.split)
  then show "head_exchange_ok all_succeed c" by (simp add: all_succeed_def)
qed (simp_all add: enough_steps_def all_succeed_def)

interpretation ms: fifo_queue "\<lambda>_. True" ms_ok ms_items "ms_Push all_succeed" "ms_Pop all_succeed"
proof
  show "\<exists>q'. ms_Push all_succeed q x = Some (True, q') \<and> ms_ok q' \<and> ms_items q' = (if True then ms_items q @ [x] else ms_items q)"
    if "ms_ok q" for q :: "'a ms_queue" and x
    using ms_Push_call[OF that all_succeed(1), of x] all_succeed(2) by auto
  show "\<exists>q'. ms_Pop all_succeed q = Some (case ms_items q of [] \<Rightarrow> None | x # _ \<Rightarrow> Some x, q') \<and> ms_ok q' \<and> ms_items q' = tl (ms_items q)"
    if "ms_ok q" for q :: "'a ms_queue"
    using ms_Pop_call[OF that all_succeed(1)] unfolding if_P[OF all_succeed(3)] .
qed

lemma ms_observers:
  assumes "ms_ok q"
  shows "ms_Size q = Some (length (ms_items q)) \<and> ms_Empty q = Some (ms_items q = []) \<and>
    (\<exists>q'. MSQueue_destroy q = Some q' \<and> ms_heap q' = Map.empty)"
proof -
  obtain N where N: "ms_rep q N" using assms by (auto simp: ms_ok_def)
  obtain av ns where ns: "N = av # ns" using N by (metis ms_rep_def list.exhaust)
  obtain nd where nd: "ms_heap q (ms_head q) = Some nd" "linked (ms_heap q) (nd_next nd) ns" using N ns by (auto simp: ms_rep_def)
  have "nd_next nd = None \<longleftrightarrow> ns = []" using nd(2) by (cases ns) auto
  moreover obtain q' where q': "ms_drain q (Some (ms_head q)) = Some q'"
    "\<And>a. ms_heap q' a = (if a \<in> fst ` set N then None else ms_heap q a)"
    using ms_drain_linked[of q "Some (ms_head q)" N] N by (auto simp: ms_rep_def)
  moreover have "ms_heap q' a = None" for a using q'(2)[of a] N by (auto simp: ms_rep_def domIff)
  ultimately show ?thesis using nd ms_count_linked[OF nd(2), of 0] ms_rep_items[OF N] ns
    by (auto simp: ms_Size_def ms_Empty_def MSQueue_destroy_def)
qed

section \<open>Overlapping calls\<close>

text \<open>Two pops; \<open>True\<close> schedules the first one.  No exchange fails spuriously.\<close>

primrec ms_run :: "bool list \<Rightarrow> 'a ms_queue \<times> 'a ms_pc \<times> 'a ms_pc \<Rightarrow> ('a ms_queue \<times> 'a ms_pc \<times> 'a ms_pc) option" where
  "ms_run [] c = Some c"
| "ms_run (b # sched) c = (case c of (q, p1, p2) \<Rightarrow>
    if b then do { (q, p1) \<leftarrow> ms_pop_step True q p1; ms_run sched (q, p1, p2) }
    else do { (q, p2) \<leftarrow> ms_pop_step True q p2; ms_run sched (q, p1, p2) })"

section \<open>Histories of calls\<close>

text \<open>A call comes with the outcomes of its exchanges.\<close>

datatype 'a ms_call = CallMsPush "bool list" 'a | CallMsPop "bool list"

primrec outcomes :: "'a ms_call \<Rightarrow> bool list" where
  "outcomes (CallMsPush oks v) = oks"
| "outcomes (CallMsPop oks) = oks"

primrec do_ms_call :: "'a ms_call \<Rightarrow> 'a ms_queue \<Rightarrow> ('a queue_res \<times> 'a ms_queue) option" where
  "do_ms_call (CallMsPush oks v) q = do { (b, q) \<leftarrow> ms_Push oks q v; Some (PushRes b, q) }"
| "do_ms_call (CallMsPop oks) q = do { (r, q) \<leftarrow> ms_Pop oks q; Some (PopRes r, q) }"

primrec ms_calls :: "'a ms_call list \<Rightarrow> 'a ms_queue \<Rightarrow> ('a queue_res list \<times> 'a ms_queue) option" where
  "ms_calls [] q = Some ([], q)"
| "ms_calls (c # cs) q = do { (r, q) \<leftarrow> do_ms_call c q; (rs, q) \<leftarrow> ms_calls cs q; Some (r # rs, q) }"

text \<open>No \<^verbatim>\<open>Pop\<close> of the history has its exchange of \<^verbatim>\<open>head_\<close> fail.\<close>

primrec head_exchanges_ok :: "'a ms_call list \<Rightarrow> 'a ms_queue \<Rightarrow> bool" where
  "head_exchanges_ok [] q = True"
| "head_exchanges_ok (c # cs) q =
     ((case c of CallMsPush _ _ \<Rightarrow> True | CallMsPop oks \<Rightarrow> head_exchange_ok oks (q, MPopHead)) \<and>
      (case do_ms_call c q of None \<Rightarrow> True | Some (_, q) \<Rightarrow> head_exchanges_ok cs q))"

text \<open>
  The answers of an unbounded queue and its content afterwards, where a push may be refused when one of its exchanges failed.
  \<^const>\<open>None\<close>: these are not answers of such a queue.
\<close>

fun queue_answers :: "'a ms_call list \<Rightarrow> 'a queue_res list \<Rightarrow> 'a list \<Rightarrow> 'a list option" where
  "queue_answers [] [] xs = Some xs"
| "queue_answers (CallMsPush oks v # cs) (PushRes b # rs) xs =
     (if b then queue_answers cs rs (xs @ [v]) else if False \<in> set oks then queue_answers cs rs xs else None)"
| "queue_answers (CallMsPop oks # cs) (PopRes r # rs) xs =
     (if r = (case xs of [] \<Rightarrow> None | x # _ \<Rightarrow> Some x) then queue_answers cs rs (tl xs) else None)"
| "queue_answers _ _ xs = None"

lemma ms_calls_answers:
  "ms_ok q \<Longrightarrow> \<forall>c \<in> set cs. enough_steps (outcomes c) \<Longrightarrow> head_exchanges_ok cs q \<Longrightarrow>
    \<exists>rs q'. ms_calls cs q = Some (rs, q') \<and> ms_ok q' \<and> queue_answers cs rs (ms_items q) = Some (ms_items q')"
proof (induction cs arbitrary: q)
  case (Cons c cs)
  show ?case
  proof (cases c)
    case (CallMsPush oks v)
    obtain q1 r where q1: "ms_Push oks q v = Some (r, q1)" "ms_ok q1" "ms_items q1 = (if r then ms_items q @ [v] else ms_items q)"
      "r \<or> False \<in> set oks" using ms_Push_call[of q oks v] Cons.prems(1,2) CallMsPush by auto
    then obtain rs q' where "ms_calls cs q1 = Some (rs, q')" "ms_ok q'" "queue_answers cs rs (ms_items q1) = Some (ms_items q')"
      using Cons.IH[of q1] Cons.prems(2,3) CallMsPush by auto
    then show ?thesis using q1 CallMsPush by auto
  next
    case (CallMsPop oks)
    obtain q1 where q1: "ms_Pop oks q = Some (case ms_items q of [] \<Rightarrow> None | x # _ \<Rightarrow> Some x, q1)" "ms_ok q1" "ms_items q1 = tl (ms_items q)"
      using ms_Pop_call[of q oks] Cons.prems CallMsPop by auto
    then obtain rs q' where "ms_calls cs q1 = Some (rs, q')" "ms_ok q'" "queue_answers cs rs (ms_items q1) = Some (ms_items q')"
      using Cons.IH[of q1] Cons.prems(2,3) CallMsPop by auto
    then show ?thesis using q1 CallMsPop by auto
  qed
qed simp

text \<open>
  A \<^verbatim>\<open>Pop\<close> whose exchange of \<^verbatim>\<open>head_\<close> fails still returns the right value, but it has deleted the node that \<^verbatim>\<open>head_\<close> goes on
  to point at: every later \<^verbatim>\<open>Pop\<close>, \<^verbatim>\<open>Size\<close> or \<^verbatim>\<open>Empty\<close> and the destructor go through the deleted node.
\<close>

lemma dangling_head:
  assumes "ms_heap q (ms_head q) = None"
  shows "ms_Size q = None \<and> ms_Empty q = None \<and> MSQueue_destroy q = None"
  using assms by (simp add: ms_Size_def ms_Empty_def MSQueue_destroy_def ms_drain.simps[of q])

lemma failed_head_exchange:
  assumes "ms_ok q" "enough_steps oks" "\<not> head_exchange_ok oks (q, MPopHead)"
  shows "\<exists>q'. ms_Pop oks q = Some (case ms_items q of [] \<Rightarrow> None | x # _ \<Rightarrow> Some x, q') \<and>
    ms_Size q' = None \<and> ms_Empty q' = None \<and> MSQueue_destroy q' = None"
  using ms_Pop_call[OF assms(1,2)] assms(3) dangling_head by auto

section \<open>Properties\<close>

text \<open>
  C24: take any history of \<^verbatim>\<open>Push\<close> and \<^verbatim>\<open>Pop\<close> calls on a new \<^verbatim>\<open>MSQueue\<close> that do not overlap, where any
  weak exchange may fail spuriously except the one that advances \<^verbatim>\<open>head_\<close> in \<^verbatim>\<open>Pop\<close> (a failure there is ignored by the code and leaves
  \<^verbatim>\<open>head_\<close> dangling, lemma \<open>failed_head_exchange\<close>).  Every call returns within 18 steps and 8 more for each failure and touches no
  deleted node; the answers are those of an unbounded first-in first-out queue, except that a \<^verbatim>\<open>Push\<close> in which an exchange failed may return
  \<^verbatim>\<open>false\<close> and then leaves the content as it was; \<^verbatim>\<open>Size\<close> and \<^verbatim>\<open>Empty\<close> end and describe the content, and the destructor afterwards ends and
  frees every node.
\<close>

theorem ms_refines_queue:
  assumes "\<forall>c \<in> set cs. enough_steps (outcomes c)" "head_exchanges_ok cs (MSQueue d)"
  shows "\<exists>rs q xs. ms_calls cs (MSQueue d) = Some (rs, q) \<and> queue_answers cs rs [] = Some xs \<and>
    ms_Size q = Some (length xs) \<and> ms_Empty q = Some (xs = []) \<and> (\<exists>q'. MSQueue_destroy q = Some q' \<and> ms_heap q' = Map.empty)"
proof -
  have new: "ms_ok (MSQueue d)" "ms_items (MSQueue d) = []" using ms_rep_new[of d] ms_rep_items[OF ms_rep_new] by (auto simp: ms_ok_def)
  show ?thesis using ms_calls_answers[OF new(1) assms] ms_observers unfolding new(2) by blast
qed

text \<open>The exchange of \<^verbatim>\<open>tail_\<close> fails in the first push and the one of \<^verbatim>\<open>tail->next\<close> in the third.\<close>

definition demo_calls :: "nat ms_call list" where
  "demo_calls = [CallMsPush (replicate 5 True @ [False] @ replicate 30 True) 5, CallMsPush (replicate 30 True) 6,
     CallMsPush (replicate 4 True @ [False] @ replicate 30 True) 7, CallMsPop (replicate 30 True)]"

theorem ms_refines_queue_witness:
  "\<exists>rs q xs. ms_calls demo_calls (MSQueue 0) = Some (rs, q) \<and> queue_answers demo_calls rs [] = Some xs \<and> ms_Size q = Some (length xs)"
proof -
  have "\<forall>c \<in> set demo_calls. enough_steps (outcomes c)" by (simp add: demo_calls_def enough_steps_def)
  moreover have "head_exchanges_ok demo_calls (MSQueue 0)"
    by (simp add: demo_calls_def numeral_eq_Suc ms_Push_def ms_Pop_def ms_push_step_def MSQueue_def ms_new_def pop_step_simps)
  ultimately show ?thesis using ms_refines_queue[of demo_calls 0] by blast
qed

text \<open>
  \<^verbatim>\<open>Pop\<close> deletes the old head node without looking at the hazard pointers.  After one push, two
  overlapping pops have an execution in which the first holds a hazard pointer on the head node, the second deletes that node
  and returns, and the next access of the first pop goes through the deleted node.
\<close>
lemma ms_reclaims_protected:
  "\<exists>q1 sched q h t r. ms_Push all_succeed (MSQueue d) v = Some (True, q1) \<and>
    ms_run sched (q1, MPopHead, MPopHead) = Some (q, MPopNext h t, MPopped r) \<and> r = Some v \<and>
    Some h \<in> set (ms_hazard q) \<and> ms_heap q h = None \<and> ms_pop_step True q (MPopNext h t) = None"
proof -
  have "\<exists>q1. ms_Push all_succeed (MSQueue d) v = Some (True, q1) \<and> ms_head q1 = 0 \<and> ms_tail q1 = 1 \<and>
    ms_hazard q1 = replicate HAZARD_COUNT None \<and> (\<exists>nd. ms_heap q1 0 = Some nd \<and> nd_next nd = Some 1) \<and>
    (\<exists>nd. ms_heap q1 1 = Some nd \<and> nd_value nd = v \<and> nd_next nd = None)"
    by (simp add: all_succeed_def numeral_eq_Suc ms_Push_def ms_push_step_def MSQueue_def ms_new_def set_next_def)
  then obtain q1 nd nd' where q1: "ms_Push all_succeed (MSQueue d) v = Some (True, q1)"
    and nd: "ms_head q1 = 0" "ms_tail q1 = 1" "ms_heap q1 0 = Some nd" "nd_next nd = Some 1" "ms_heap q1 1 = Some nd'"
    "nd_value nd' = v" "nd_next nd' = None" "ms_hazard q1 = None # None # replicate 6 None"
    unfolding hazard_slots by blast
  let ?sched = "replicate 4 True @ replicate 11 False"
  have "\<exists>q h t r. ms_run ?sched (q1, MPopHead, MPopHead) = Some (q, MPopNext h t, MPopped r) \<and> r = Some v \<and>
    Some h \<in> set (ms_hazard q) \<and> ms_heap q h = None \<and> ms_pop_step True q (MPopNext h t) = None"
    using nd by (simp add: numeral_eq_Suc ms_pop_step_def ms_clear_def set_next_def reclaim_def Let_def)
  then show ?thesis using q1(1) by blast
qed

end
