(* ===== verification/Sorting.thy ===== *)
theory Sorting
  imports Xlab_Prelude
begin

text \<open>
  The class \<^verbatim>\<open>Sort\<close> of \<^verbatim>\<open>src/cc/algo/src/algo/algo_sort.cc\<close>: five in-place sorting algorithms on a vector of integers.
  Every access is bounds-checked (\<^const>\<open>None\<close> is undefined behaviour), so that the theorem of each algorithm also states
  that it stays inside the vector and ends.  The functions keep the size, a 64-bit number, in an \<^verbatim>\<open>int\<close>: \<open>int_size\<close> is
  its conversion to 32 signed bits, and an \<^verbatim>\<open>int\<close> that leaves its range is undefined as well.
\<close>

section \<open>The code\<close>

definition vec_swap :: "'a list \<Rightarrow> nat \<Rightarrow> nat \<Rightarrow> 'a list option" where
  "vec_swap xs i j = do {
     a \<leftarrow> vec_at xs i;
     b \<leftarrow> vec_at xs j;
     xs \<leftarrow> vec_set xs i b;
     vec_set xs j a}"

definition INT_MAX :: int where "INT_MAX = 2 ^ 31 - 1"

text \<open>\<^verbatim>\<open>int n = nums.size()\<close>, and the subtraction \<^verbatim>\<open>n - 1\<close> of two such numbers.\<close>

definition int_size :: "'a list \<Rightarrow> int" where
  "int_size nums = sint (of_nat (length nums) :: 32 word)"

definition int_pred :: "int \<Rightarrow> int option" where
  "int_pred n = (if n = - (2 ^ 31) then None else Some (n - 1))"

lemma int_size_small [simp]: "length nums < 2 ^ 31 \<Longrightarrow> int_size nums = int (length nums)"
  by (simp add: int_size_def signed_of_nat signed_take_bit_int_eq_self)

lemma int_size_le: "int_size nums \<le> int (length nums)"
  unfolding int_size_def signed_of_nat using signed_take_bit_int_less_eq_self_iff[of 31 "int (length nums)"]
  by simp

text \<open>A loop from \<^verbatim>\<open>a\<close> below \<^verbatim>\<open>n\<close> runs over \<open>[a..<nat n]\<close>: not at all when \<^verbatim>\<open>n\<close> is negative.\<close>

definition bubbleSort :: "int list \<Rightarrow> int list option" where
  "bubbleSort nums =
     (let n = int_size nums in do {
        m \<leftarrow> int_pred n;
        for_each (\<lambda>i. for_each (\<lambda>j nums. do {
          a \<leftarrow> vec_at nums j;
          b \<leftarrow> vec_at nums (j + 1);
          (if a > b then vec_swap nums j (j + 1) else Some nums)}) [0..<nat (n - int i - 1)]) [0..<nat m] nums})"

definition selectionSort :: "int list \<Rightarrow> int list option" where
  "selectionSort nums =
     (let n = int_size nums in do {
        m \<leftarrow> int_pred n;
        for_each (\<lambda>i nums. do {
          min_index \<leftarrow> for_each (\<lambda>j min_index. do {
              a \<leftarrow> vec_at nums j;
              b \<leftarrow> vec_at nums min_index;
              Some (if a < b then j else min_index)}) [i + 1..<nat n] i;
          vec_swap nums i min_index}) [0..<nat m] nums})"

text \<open>The inner loop of \<^verbatim>\<open>insertionSort\<close>; its first argument is \<^verbatim>\<open>j + 1\<close>, so that \<open>0\<close> is the exit with \<^verbatim>\<open>j < 0\<close>.\<close>

primrec insert_loop :: "nat \<Rightarrow> int \<Rightarrow> int list \<Rightarrow> int list option" where
  "insert_loop 0 key nums = vec_set nums 0 key"
| "insert_loop (Suc j) key nums = do {
     a \<leftarrow> vec_at nums j;
     (if a > key then do { nums \<leftarrow> vec_set nums (j + 1) a; insert_loop j key nums }
      else vec_set nums (j + 1) key)}"

definition insertionSort :: "int list \<Rightarrow> int list option" where
  "insertionSort nums =
     (let n = int_size nums in
      for_each (\<lambda>i nums. do { key \<leftarrow> vec_at nums i; insert_loop i key nums }) [1..<nat n] nums)"

text \<open>
  The three loops of \<^verbatim>\<open>merge\<close>: while both halves have elements the smaller one is taken, then the rest is copied.  The
  indices are of type \<^verbatim>\<open>int\<close>; \<^verbatim>\<open>k\<close> is the largest of them, so the others overflow only after it.
\<close>

definition put_next :: "int list \<Rightarrow> nat \<Rightarrow> int \<Rightarrow> int list option" where
  "put_next nums k x = (if int k = INT_MAX then None else vec_set nums k x)"

function merge_loop :: "int list \<Rightarrow> int list \<Rightarrow> nat \<Rightarrow> nat \<Rightarrow> nat \<Rightarrow> int list \<Rightarrow> int list option" where
  "merge_loop left right i j k nums =
     (if i < length left \<and> j < length right then
        (if left ! i < right ! j then do { nums \<leftarrow> put_next nums k (left ! i); merge_loop left right (i + 1) j (k + 1) nums }
         else do { nums \<leftarrow> put_next nums k (right ! j); merge_loop left right i (j + 1) (k + 1) nums })
      else if i < length left then do { nums \<leftarrow> put_next nums k (left ! i); merge_loop left right (i + 1) j (k + 1) nums }
      else if j < length right then do { nums \<leftarrow> put_next nums k (right ! j); merge_loop left right i (j + 1) (k + 1) nums }
      else Some nums)"
  by pat_completeness auto
termination by (relation "measure (\<lambda>(left, right, i, j, _). (length left - i) + (length right - j))") auto

definition merge :: "int list \<Rightarrow> int list \<Rightarrow> int list \<Rightarrow> int list option" where
  "merge left right nums = merge_loop left right 0 0 0 nums"

function mergeSort :: "int list \<Rightarrow> int list option" where
  "mergeSort nums =
     (let n = int_size nums in
      if n \<le> 1 then Some nums
      else (let mid = nat (n div 2); left = take mid nums; right = drop mid nums in do {
        left \<leftarrow> mergeSort left;
        right \<leftarrow> mergeSort right;
        merge left right nums}))"
  by pat_completeness auto
termination
proof (relation "measure length", goal_cases)
  case (2 nums n mid left right)
  then show ?case using int_size_le[of nums] by simp
next
  case (3 nums n mid left right)
  then show ?case using int_size_le[of nums] by simp
qed simp

text \<open>The indices of \<^verbatim>\<open>quickSort\<close> are signed: the left part of a range that starts at 0 may end at -1.\<close>

definition int_at :: "'a list \<Rightarrow> int \<Rightarrow> 'a option" where
  "int_at xs i = (if 0 \<le> i then vec_at xs (nat i) else None)"

definition int_swap :: "'a list \<Rightarrow> int \<Rightarrow> int \<Rightarrow> 'a list option" where
  "int_swap xs i j = (if 0 \<le> i \<and> 0 \<le> j then vec_swap xs (nat i) (nat j) else None)"

definition qs_partition :: "int list \<Rightarrow> int \<Rightarrow> int \<Rightarrow> int \<Rightarrow> (int \<times> int list) option" where
  "qs_partition nums pivot left right =
     for_each (\<lambda>j (i, nums). do {
       a \<leftarrow> int_at nums j;
       (if a < pivot then do { nums \<leftarrow> int_swap nums i j; Some (i + 1, nums) } else Some (i, nums))}) [left..right - 1] (left, nums)"

lemma qs_partition_index:
  "for_each (\<lambda>j (i, nums). do {
       a \<leftarrow> int_at nums j;
       (if a < pivot then do { nums \<leftarrow> int_swap nums i j; Some (i + 1, nums) } else Some (i, nums))}) js (i, nums) = Some (i', nums') \<Longrightarrow>
    i \<le> i' \<and> i' \<le> i + int (length js)"
  by (induction js arbitrary: i nums) (fastforce split: if_splits Option.bind_splits)+

lemma qs_partition_bounds: "qs_partition nums pivot left right = Some (i, nums') \<Longrightarrow> left \<le> right \<Longrightarrow> left \<le> i \<and> i \<le> right"
  unfolding qs_partition_def by (drule qs_partition_index) simp

function quickSort_range :: "int list \<Rightarrow> int \<Rightarrow> int \<Rightarrow> int list option" where
  "quickSort_range nums left right =
     (if left \<ge> right then Some nums
      else do {
        pivot \<leftarrow> int_at nums right;
        (i, nums) \<leftarrow> qs_partition nums pivot left right;
        nums \<leftarrow> int_swap nums i right;
        nums \<leftarrow> quickSort_range nums left (i - 1);
        (if i = INT_MAX then None else quickSort_range nums (i + 1) right)})"
  by pat_completeness auto
termination
  by (relation "measure (\<lambda>(nums, left, right). nat (right - left))") (auto dest!: qs_partition_bounds)

definition quickSort :: "int list \<Rightarrow> int list option" where
  "quickSort nums =
     (let n = int_size nums in
      if n \<le> 1 then Some nums else quickSort_range nums 0 (n - 1))"

declare merge_loop.simps [simp del] mergeSort.simps [simp del] quickSort_range.simps [simp del]

section \<open>Exchanges\<close>

lemma vec_swap_in: "i < length xs \<Longrightarrow> j < length xs \<Longrightarrow> vec_swap xs i j = Some (xs[i := xs ! j, j := xs ! i])"
  by (simp add: vec_swap_def)

lemma mset_vec_swap: "i < length xs \<Longrightarrow> j < length xs \<Longrightarrow> mset (xs[i := xs ! j, j := xs ! i]) = mset xs"
  by (rule mset_swap)

text \<open>Every element from position \<open>m\<close> on is at least as large as all before it; every element before \<open>m\<close> is at most as large as all after it.\<close>

definition sorted_from :: "nat \<Rightarrow> int list \<Rightarrow> bool" where
  "sorted_from m xs \<longleftrightarrow> (\<forall>p q. q < p \<and> p < length xs \<and> m \<le> p \<longrightarrow> xs ! q \<le> xs ! p)"

definition sorted_upto :: "nat \<Rightarrow> int list \<Rightarrow> bool" where
  "sorted_upto m xs \<longleftrightarrow> (\<forall>p q. p < m \<and> p < q \<and> q < length xs \<longrightarrow> xs ! p \<le> xs ! q)"

lemma sorted_from_swap:
  assumes "sorted_from m xs" "i < m" "j < m" "m \<le> length xs"
  shows "sorted_from m (xs[i := xs ! j, j := xs ! i])"
  using assms unfolding sorted_from_def by (auto simp: nth_list_update)

lemma sorted_upto_swap:
  assumes "sorted_upto m xs" "m \<le> i" "m \<le> j" "i < length xs" "j < length xs"
  shows "sorted_upto m (xs[i := xs ! j, j := xs ! i])"
  using assms unfolding sorted_upto_def by (auto simp: nth_list_update)

lemma sorted_from_1: "sorted_from 1 xs \<Longrightarrow> sorted xs"
  by (auto simp: sorted_from_def sorted_iff_nth_mono_less)

lemma sorted_upto_last: "length xs \<le> m + 1 \<Longrightarrow> sorted_upto m xs \<Longrightarrow> sorted xs"
  by (auto simp: sorted_upto_def sorted_iff_nth_mono_less)

lemma sort_unique: "mset ys = mset xs \<Longrightarrow> sorted ys \<Longrightarrow> ys = sort xs" for xs ys :: "int list"
  by (metis properties_for_sort)

section \<open>Bubble sort\<close>

lemma bubble_pass:
  assumes "m < length xs" "sorted_from (Suc m) xs"
  shows "\<exists>ys. for_each (\<lambda>j nums. do {
          a \<leftarrow> vec_at nums j;
          b \<leftarrow> vec_at nums (j + 1);
          (if a > b then vec_swap nums j (j + 1) else Some nums)}) [0..<m] xs = Some ys \<and>
      (mset ys = mset xs \<and> sorted_from m ys)"
proof -
  let ?I = "\<lambda>j ys. mset ys = mset xs \<and> sorted_from (Suc m) ys \<and> (\<forall>q<j. ys ! q \<le> ys ! j)"
  have "\<exists>ys. for_each (\<lambda>j nums. do {
          a \<leftarrow> vec_at nums j;
          b \<leftarrow> vec_at nums (j + 1);
          (if a > b then vec_swap nums j (j + 1) else Some nums)}) [0..<m] xs = Some ys \<and> ?I m ys"
  proof (rule for_each_upt_inv[where I = ?I])
    fix j ys
    assume j: "j < m" and I: "?I j ys"
    then have len: "length ys = length xs" "Suc j < length ys" using assms(1) by (auto dest: mset_eq_length)
    show "\<exists>zs. do {
          a \<leftarrow> vec_at ys j;
          b \<leftarrow> vec_at ys (j + 1);
          (if a > b then vec_swap ys j (j + 1) else Some ys)} = Some zs \<and> ?I (Suc j) zs"
    proof (cases "ys ! j > ys ! Suc j")
      case True
      have "sorted_from (Suc m) (ys[j := ys ! Suc j, Suc j := ys ! j])" using I j len assms(1) by (intro sorted_from_swap) auto
      then show ?thesis using True len I by (simp add: vec_swap_in mset_vec_swap less_Suc_eq nth_list_update)
    next
      case False
      then show ?thesis using len I by (fastforce simp: less_Suc_eq)
    qed
  qed (use assms in auto)
  then obtain ys where ys: "for_each (\<lambda>j nums. do {
          a \<leftarrow> vec_at nums j;
          b \<leftarrow> vec_at nums (j + 1);
          (if a > b then vec_swap nums j (j + 1) else Some nums)}) [0..<m] xs = Some ys" "?I m ys" by blast
  have "sorted_from m ys"
    using ys(2) unfolding sorted_from_def by (metis Suc_leI le_neq_implies_less)
  then show ?thesis using ys by blast
qed

lemma int_pred_small [simp]: "int_pred (int n) = Some (int n - 1)"
  by (simp add: int_pred_def)

lemma bubbleSort_small:
  assumes "length xs < 2 ^ 31"
  shows "bubbleSort xs = for_each (\<lambda>i. for_each (\<lambda>j nums. do {
          a \<leftarrow> vec_at nums j;
          b \<leftarrow> vec_at nums (j + 1);
          (if a > b then vec_swap nums j (j + 1) else Some nums)}) [0..<length xs - i - 1]) [0..<length xs - 1] xs"
proof -
  have e: "nat (int (length xs) - int i - 1) = length xs - i - 1" "nat (int (length xs) - 1) = length xs - 1" for i by auto
  show ?thesis unfolding bubbleSort_def Let_def int_size_small[OF assms] int_pred_small bind.bind_lunit e ..
qed

lemma bubbleSort_sorts:
  assumes small: "length xs < 2 ^ 31"
  shows "bubbleSort xs = Some (sort xs)"
proof -
  let ?n = "length xs"
  have "\<exists>ys. bubbleSort xs = Some ys \<and> mset ys = mset xs \<and> sorted_from (?n - (?n - 1)) ys"
    unfolding bubbleSort_small[OF small]
  proof (rule for_each_upt_inv)
    fix i ys
    assume i: "i < ?n - 1" and I: "mset ys = mset xs \<and> sorted_from (?n - i) ys"
    then have "length ys = ?n" by (auto dest: mset_eq_length)
    moreover have "Suc (?n - i - 1) = ?n - i" using i by simp
    ultimately show "\<exists>zs. for_each (\<lambda>j nums. do {
          a \<leftarrow> vec_at nums j;
          b \<leftarrow> vec_at nums (j + 1);
          (if a > b then vec_swap nums j (j + 1) else Some nums)}) [0..<?n - i - 1] ys = Some zs \<and>
        mset zs = mset xs \<and> sorted_from (?n - Suc i) zs"
      using bubble_pass[of "?n - i - 1" ys] i I by simp
  qed (auto simp: sorted_from_def)
  then obtain ys where ys: "bubbleSort xs = Some ys" "mset ys = mset xs" "sorted_from (?n - (?n - 1)) ys" by blast
  have "sorted ys" using ys(3) mset_eq_length[OF ys(2)] sorted_from_1[of ys] by (cases ?n) auto
  then show ?thesis using ys sort_unique by blast
qed

section \<open>Selection sort\<close>

lemma select_min:
  fixes xs :: "int list"
  assumes "i < length xs"
  shows "\<exists>m. for_each (\<lambda>j min_index. do {
              a \<leftarrow> vec_at xs j;
              b \<leftarrow> vec_at xs min_index;
              Some (if a < b then j else min_index)}) [i + 1..<length xs] i = Some m \<and>
      i \<le> m \<and> m < length xs \<and> (\<forall>q. i \<le> q \<and> q < length xs \<longrightarrow> xs ! m \<le> xs ! q)"
proof (rule for_each_upt_inv[where I = "\<lambda>j m. i \<le> m \<and> m < j \<and> (\<forall>q. i \<le> q \<and> q < j \<longrightarrow> xs ! m \<le> xs ! q)"])
  fix j m
  assume j: "j < length xs" and m: "i \<le> m \<and> m < j \<and> (\<forall>q. i \<le> q \<and> q < j \<longrightarrow> xs ! m \<le> xs ! q)" and "i + 1 \<le> j"
  have "xs ! j \<le> xs ! q" if "xs ! j < xs ! m" "i \<le> q" "q < j" for q using that m by (meson less_imp_le order.trans)
  then show "\<exists>m'. do { a \<leftarrow> vec_at xs j; b \<leftarrow> vec_at xs m; Some (if a < b then j else m)} = Some m' \<and>
      i \<le> m' \<and> m' < Suc j \<and> (\<forall>q. i \<le> q \<and> q < Suc j \<longrightarrow> xs ! m' \<le> xs ! q)"
    using j m by (auto simp: less_Suc_eq)
qed (use assms in \<open>auto simp: less_Suc_eq\<close>)

lemma selectionSort_small:
  assumes "length xs < 2 ^ 31"
  shows "selectionSort xs = for_each (\<lambda>i nums. do {
          min_index \<leftarrow> for_each (\<lambda>j min_index. do {
              a \<leftarrow> vec_at nums j;
              b \<leftarrow> vec_at nums min_index;
              Some (if a < b then j else min_index)}) [i + 1..<length xs] i;
          vec_swap nums i min_index}) [0..<length xs - 1] xs"
proof -
  have e: "nat (int (length xs) - 1) = length xs - 1" by auto
  show ?thesis unfolding selectionSort_def Let_def int_size_small[OF assms] int_pred_small bind.bind_lunit e nat_int ..
qed

lemma selectionSort_sorts:
  assumes small: "length xs < 2 ^ 31"
  shows "selectionSort xs = Some (sort xs)"
proof -
  let ?n = "length xs"
  have "\<exists>ys. selectionSort xs = Some ys \<and> mset ys = mset xs \<and> sorted_upto (?n - 1) ys"
    unfolding selectionSort_small[OF small]
  proof (rule for_each_upt_inv)
    fix i ys
    assume i: "i < ?n - 1" and I: "mset ys = mset xs \<and> sorted_upto i ys"
    then have len: "length ys = ?n" "i < length ys" by (auto dest: mset_eq_length)
    obtain m where m: "for_each (\<lambda>j min_index. do {
              a \<leftarrow> vec_at ys j;
              b \<leftarrow> vec_at ys min_index;
              Some (if a < b then j else min_index)}) [i + 1..<?n] i = Some m"
      "i \<le> m" "m < length ys" "\<And>q. i \<le> q \<Longrightarrow> q < length ys \<Longrightarrow> ys ! m \<le> ys ! q"
      using select_min[OF len(2)] len(1) by auto
    let ?zs = "ys[i := ys ! m, m := ys ! i]"
    have "sorted_upto i ?zs" using I m len by (intro sorted_upto_swap) auto
    moreover have "?zs ! i \<le> ?zs ! q" if "i < q" "q < length ys" for q
      using that m(2,3) m(4)[of q] m(4)[of i] by (auto simp: nth_list_update)
    ultimately have "sorted_upto (Suc i) ?zs" by (auto simp: sorted_upto_def less_Suc_eq)
    then show "\<exists>zs. do {
          min_index \<leftarrow> for_each (\<lambda>j min_index. do {
              a \<leftarrow> vec_at ys j;
              b \<leftarrow> vec_at ys min_index;
              Some (if a < b then j else min_index)}) [i + 1..<?n] i;
          vec_swap ys i min_index} = Some zs \<and> mset zs = mset xs \<and> sorted_upto (Suc i) zs"
      using m(1,3) len I by (simp add: vec_swap_in mset_vec_swap)
  qed (auto simp: sorted_upto_def)
  then obtain ys where ys: "selectionSort xs = Some ys" "mset ys = mset xs" "sorted_upto (?n - 1) ys" by blast
  have "sorted ys" using ys(3) mset_eq_length[OF ys(2)] by (intro sorted_upto_last) auto
  then show ?thesis using ys sort_unique by blast
qed

section \<open>Insertion sort\<close>

lemma sort_append_max: "(\<And>x. x \<in> set xs \<Longrightarrow> x \<le> a) \<Longrightarrow> sort (xs @ [a]) = sort xs @ [a]" for a :: int
  by (rule properties_for_sort) (auto simp: sorted_append)

lemma insert_loop_sorts:
  "k < length xs \<Longrightarrow> sorted (take k xs) \<Longrightarrow> insert_loop k key xs = Some (sort (key # take k xs) @ drop (Suc k) xs)"
proof (induction k arbitrary: xs)
  case 0
  then show ?case by (cases xs) auto
next
  case (Suc j)
  let ?a = "xs ! j" and ?ys = "take j xs"
  have tk: "take (Suc j) xs = ?ys @ [?a]" using Suc.prems(1) by (simp add: take_Suc_conv_app_nth)
  have srt: "sorted ?ys" "\<And>y. y \<in> set ?ys \<Longrightarrow> y \<le> ?a" using Suc.prems(2) unfolding tk by (auto simp: sorted_append)
  show ?case
  proof (cases "?a > key")
    case True
    have "insert_loop j key (xs[Suc j := ?a]) = Some (sort (key # ?ys) @ drop (Suc j) (xs[Suc j := ?a]))"
      using Suc.IH[of "xs[Suc j := ?a]"] Suc.prems(1) srt(1) by simp
    moreover have "drop (Suc j) (xs[Suc j := ?a]) = ?a # drop (Suc (Suc j)) xs"
      using Suc.prems(1) by (simp add: drop_update_swap upd_conv_take_nth_drop)
    moreover have "sort (key # take (Suc j) xs) = sort (key # ?ys) @ [?a]"
      unfolding tk using sort_append_max[of "key # ?ys" ?a] srt(2) True by fastforce
    ultimately show ?thesis using True Suc.prems(1) by simp
  next
    case False
    then have "y \<le> key" if "y \<in> set (take (Suc j) xs)" for y using that srt(2)[of y] unfolding tk by auto
    then have "sort (key # take (Suc j) xs) = take (Suc j) xs @ [key]"
      using Suc.prems(2) by (intro properties_for_sort) (auto simp: sorted_append)
    moreover have "xs[Suc j := key] = take (Suc j) xs @ key # drop (Suc (Suc j)) xs"
      using Suc.prems(1) by (simp add: upd_conv_take_nth_drop)
    ultimately show ?thesis using False Suc.prems(1) by simp
  qed
qed

lemma insertionSort_sorts:
  assumes small: "length xs < 2 ^ 31"
  shows "insertionSort xs = Some (sort xs)"
proof (cases "xs = []")
  case False
  have "\<exists>ys. insertionSort xs = Some ys \<and> ys = sort (take (length xs) xs) @ drop (length xs) xs"
    unfolding insertionSort_def Let_def int_size_small[OF small] nat_int
  proof (rule for_each_upt_inv)
    fix i ys
    assume i: "i < length xs" and ys: "ys = sort (take i xs) @ drop i xs"
    have tk: "take i ys = sort (take i xs)" "ys ! i = xs ! i" "drop (Suc i) ys = drop (Suc i) xs" "length ys = length xs"
      using i unfolding ys by (auto simp: nth_append)
    have "mset (xs ! i # sort (take i xs)) = mset (take (Suc i) xs)" using i by (simp add: take_Suc_conv_app_nth)
    then have "sort (xs ! i # sort (take i xs)) = sort (take (Suc i) xs)" by (metis sort_unique mset_sort sorted_sort)
    then show "\<exists>zs. do { key \<leftarrow> vec_at ys i; insert_loop i key ys } = Some zs \<and> zs = sort (take (Suc i) xs) @ drop (Suc i) xs"
      using insert_loop_sorts[of i ys "ys ! i"] i tk by simp
  next
    show "xs = sort (take 1 xs) @ drop 1 xs" using False by (cases xs) auto
  qed (use False in \<open>simp add: Suc_le_eq\<close>)
  then show ?thesis by simp
qed (simp add: insertionSort_def)

section \<open>Merge sort\<close>

text \<open>What \<^verbatim>\<open>merge\<close> writes: on equal elements the right one comes first.\<close>

fun merged :: "int list \<Rightarrow> int list \<Rightarrow> int list" where
  "merged (x # xs) (y # ys) = (if x < y then x # merged xs (y # ys) else y # merged (x # xs) ys)"
| "merged xs [] = xs"
| "merged [] ys = ys"

lemma merged_Nil [simp]: "merged [] ys = ys"
  by (cases ys) auto

lemma mset_merged: "mset (merged xs ys) = mset xs + mset ys"
  by (induction xs ys rule: merged.induct) auto

lemma sorted_merged: "sorted xs \<Longrightarrow> sorted ys \<Longrightarrow> sorted (merged xs ys)"
proof (induction xs ys rule: merged.induct)
  case (1 x xs y ys)
  have "set (merged us vs) = set us \<union> set vs" for us vs by (metis mset_merged set_mset_mset set_mset_union)
  then show ?case using 1 by auto
qed auto

lemma merge_loop_merges:
  "k + (length left - i) + (length right - j) = length nums \<Longrightarrow> length nums < 2 ^ 31 \<Longrightarrow>
    merge_loop left right i j k nums = Some (take k nums @ merged (drop i left) (drop j right))"
proof (induction left right i j k nums rule: merge_loop.induct)
  case (1 left right i j k nums)
  have put: "take (Suc k) (nums[k := x]) = take k nums @ [x]" if "k < length nums" for x
    using that by (simp add: take_Suc_conv_app_nth)
  have k: "put_next nums k x = Some (nums[k := x])" if "k < length nums" for x using that "1.prems"(2) by (simp add: put_next_def INT_MAX_def)
  have dl: "drop i left = left ! i # drop (Suc i) left" if "i < length left" using that by (simp add: Cons_nth_drop_Suc)
  have dr: "drop j right = right ! j # drop (Suc j) right" if "j < length right" using that by (simp add: Cons_nth_drop_Suc)
  consider "i < length left" "j < length right" | "i < length left" "length right \<le> j" | "length left \<le> i" "j < length right"
    | "length left \<le> i" "length right \<le> j" by linarith
  then show ?case
  proof cases
    case 1
    then show ?thesis using "1.IH"(1,2) "1.prems" put k by (simp add: merge_loop.simps[of left right i] dl dr)
  next
    case 2
    then show ?thesis using "1.IH"(3) "1.prems" put k by (simp add: merge_loop.simps[of left right i] dl)
  next
    case 3
    then show ?thesis using "1.IH"(4) "1.prems" put k by (simp add: merge_loop.simps[of left right i] dr)
  next
    case 4
    then show ?thesis using "1.prems" by (simp add: merge_loop.simps[of left right i])
  qed
qed

lemma mergeSort_sorts: "length xs < 2 ^ 31 \<Longrightarrow> mergeSort xs = Some (sort xs)"
proof (induction xs rule: mergeSort.induct)
  case (1 xs)
  show ?case
  proof (cases "length xs \<le> 1")
    case True
    then have "xs = [] \<or> (\<exists>x. xs = [x])" by (cases xs) auto
    then show ?thesis by (auto simp: mergeSort.simps[of xs] mergeSort.simps[of "[_]"])
  next
    case False
    let ?l = "sort (take (length xs div 2) xs)" and ?r = "sort (drop (length xs div 2) xs)"
    have m: "merge ?l ?r xs = Some (merged ?l ?r)" unfolding merge_def using "1.prems" by (subst merge_loop_merges) auto
    have "mset (merged ?l ?r) = mset xs"
      unfolding mset_merged mset_sort by (metis append_take_drop_id mset_append)
    then have mm: "merged ?l ?r = sort xs" by (intro sort_unique sorted_merged) auto
    have n: "int_size xs = int (length xs)" using "1.prems" by simp
    have half: "nat (int (length xs) div 2) = length xs div 2" by simp
    have IH: "mergeSort (take (length xs div 2) xs) = Some ?l" "mergeSort (drop (length xs div 2) xs) = Some ?r"
      using "1.IH"[OF refl _ refl refl refl] "1.prems" False unfolding n half by simp_all
    have "mergeSort xs = merge ?l ?r xs"
      using False by (subst mergeSort.simps) (simp add: n half Let_def IH)
    then show ?thesis using m mm by simp
  qed
qed

section \<open>Quick sort\<close>

lemma int_at_in: "0 \<le> i \<Longrightarrow> i < int (length xs) \<Longrightarrow> int_at xs i = Some (xs ! nat i)"
  by (simp add: int_at_def nat_less_iff)

lemma int_swap_in: "0 \<le> i \<Longrightarrow> i < int (length xs) \<Longrightarrow> 0 \<le> j \<Longrightarrow> j < int (length xs) \<Longrightarrow>
    int_swap xs i j = Some (xs[nat i := xs ! nat j, nat j := xs ! nat i])"
  by (simp add: int_swap_def vec_swap_in nat_less_iff)

lemma for_each_map: "for_each body (map g is) s = for_each (\<lambda>i. body (g i)) is s"
  by (induction "is" arbitrary: s) (auto split: Option.bind_splits)

lemma upto_map_int: "[int l..int r - 1] = map int [l..<r]"
proof (induction r)
  case (Suc r)
  then show ?case by (cases "l \<le> r") (auto simp: upto_rec2)
qed simp

text \<open>The elements of the positions \<open>l\<close> to \<open>r\<close> come from those positions, the others are kept.\<close>

definition rearranged :: "nat \<Rightarrow> nat \<Rightarrow> int list \<Rightarrow> int list \<Rightarrow> bool" where
  "rearranged l r xs ys \<longleftrightarrow> mset ys = mset xs \<and> (\<forall>k. k < l \<or> r < k \<longrightarrow> ys ! k = xs ! k) \<and>
     (\<forall>k. l \<le> k \<and> k \<le> r \<longrightarrow> (\<exists>m. l \<le> m \<and> m \<le> r \<and> ys ! k = xs ! m))"

lemma rearrangedD: "rearranged l r xs ys \<Longrightarrow> l \<le> k \<Longrightarrow> k \<le> r \<Longrightarrow> \<exists>m. l \<le> m \<and> m \<le> r \<and> ys ! k = xs ! m"
  by (auto simp: rearranged_def)

lemma rearranged_refl: "rearranged l r xs xs"
  by (auto simp: rearranged_def)

lemma rearranged_trans:
  assumes "rearranged l r xs ys" "rearranged l' r' ys zs" "l \<le> l'" "r' \<le> r"
  shows "rearranged l r xs zs"
  unfolding rearranged_def
proof (intro conjI allI impI)
  show "mset zs = mset xs" using assms by (simp add: rearranged_def)
  show "zs ! k = xs ! k" if "k < l \<or> r < k" for k
  proof -
    have "k < l' \<or> r' < k" using that assms(3,4) by auto
    then show ?thesis using assms(1,2) that by (auto simp: rearranged_def)
  qed
  fix k
  assume k: "l \<le> k \<and> k \<le> r"
  have "\<exists>m. l \<le> m \<and> m \<le> r \<and> zs ! k = ys ! m"
  proof (cases "l' \<le> k \<and> k \<le> r'")
    case True
    then show ?thesis using assms unfolding rearranged_def by (meson le_trans)
  next
    case False
    then show ?thesis using k assms(2) unfolding rearranged_def by (meson not_le)
  qed
  then show "\<exists>m. l \<le> m \<and> m \<le> r \<and> zs ! k = xs ! m" using assms(1) unfolding rearranged_def by metis
qed

lemma rearranged_swap:
  assumes "l \<le> i" "i \<le> r" "l \<le> j" "j \<le> r" "r < length xs"
  shows "rearranged l r xs (xs[i := xs ! j, j := xs ! i])"
  using assms unfolding rearranged_def by (auto simp: mset_vec_swap nth_list_update)

lemma qs_partition_spec:
  assumes "l \<le> r" "r < length xs"
  shows "\<exists>i ys. qs_partition xs pivot (int l) (int r) = Some (int i, ys) \<and> l \<le> i \<and> i \<le> r \<and> rearranged l r xs ys \<and>
    ys ! r = xs ! r \<and> (\<forall>k. l \<le> k \<and> k < i \<longrightarrow> ys ! k < pivot) \<and> (\<forall>k. i \<le> k \<and> k < r \<longrightarrow> pivot \<le> ys ! k)"
proof -
  define I where "I = (\<lambda>j (i', ys). \<exists>i. i' = int i \<and> l \<le> i \<and> i \<le> j \<and> rearranged l r xs ys \<and> ys ! r = xs ! r \<and>
    (\<forall>k. l \<le> k \<and> k < i \<longrightarrow> ys ! k < pivot) \<and> (\<forall>k. i \<le> k \<and> k < j \<longrightarrow> pivot \<le> ys ! k))"
  have "\<exists>s'. for_each (\<lambda>j. (\<lambda>j (i, nums). do {
       a \<leftarrow> int_at nums j;
       (if a < pivot then do { nums \<leftarrow> int_swap nums i j; Some (i + 1, nums) } else Some (i, nums))}) (int j)) [l..<r] (int l, xs) = Some s' \<and> I r s'"
  proof (rule for_each_upt_inv[where I = I])
    fix j s
    assume j: "l \<le> j" "j < r" and I: "I j s"
    obtain i ys where s: "s = (int i, ys)" "l \<le> i" "i \<le> j" "rearranged l r xs ys" "ys ! r = xs ! r"
      "\<And>k. l \<le> k \<Longrightarrow> k < i \<Longrightarrow> ys ! k < pivot" "\<And>k. i \<le> k \<Longrightarrow> k < j \<Longrightarrow> pivot \<le> ys ! k"
      using I unfolding I_def by (cases s) auto
    have len: "length ys = length xs" using s(4) by (auto simp: rearranged_def dest: mset_eq_length)
    show "\<exists>s'. (\<lambda>j (i, nums). do {
       a \<leftarrow> int_at nums j;
       (if a < pivot then do { nums \<leftarrow> int_swap nums i j; Some (i + 1, nums) } else Some (i, nums))}) (int j) s = Some s' \<and> I (Suc j) s'"
    proof (cases "ys ! j < pivot")
      case True
      let ?zs = "ys[i := ys ! j, j := ys ! i]"
      have "rearranged l r xs ?zs"
        using rearranged_trans[OF s(4) rearranged_swap[of l i r j ys]] s(2,3) j assms len by simp
      moreover have "?zs ! k < pivot" if "l \<le> k" "k < Suc i" for k
        using that True s(2,3,6) j assms(2) len by (auto simp: nth_list_update less_Suc_eq)
      moreover have "pivot \<le> ?zs ! k" if "Suc i \<le> k" "k < Suc j" for k
        using that s(3,7) j assms(2) len by (auto simp: nth_list_update less_Suc_eq)
      moreover have "?zs ! r = xs ! r" using s(3,5) j by simp
      ultimately have "I (Suc j) (int i + 1, ?zs)" unfolding I_def using s(2,3) by (auto intro!: exI[of _ "Suc i"])
      then show ?thesis using True s(1,3) j assms(2) len by (simp add: int_at_in int_swap_in)
    next
      case False
      then have "I (Suc j) (int i, ys)" unfolding I_def using s by (auto simp: less_Suc_eq)
      then show ?thesis using False s(1) j assms(2) len by (simp add: int_at_in)
    qed
  qed (use assms in \<open>auto simp: I_def rearranged_refl\<close>)
  then show ?thesis unfolding qs_partition_def upto_map_int for_each_map I_def by auto
qed

text \<open>The positions \<open>l\<close> to \<open>r\<close> are in order.\<close>

definition ordered :: "int \<Rightarrow> int \<Rightarrow> int list \<Rightarrow> bool" where
  "ordered l r xs \<longleftrightarrow> (\<forall>p q. l \<le> int p \<and> p < q \<and> int q \<le> r \<longrightarrow> xs ! p \<le> xs ! q)"

lemma ordered_parts:
  assumes zs: "zs ! i = pivot" "\<And>k. l \<le> k \<Longrightarrow> k < i \<Longrightarrow> zs ! k < pivot" "\<And>k. i < k \<Longrightarrow> k \<le> r \<Longrightarrow> pivot \<le> zs ! k"
    and ws: "ordered (int l) (int i - 1) ws" "i = l \<and> ws = zs \<or> l < i \<and> rearranged l (i - 1) zs ws"
    and vs: "ordered (int i + 1) (int r) vs" "i = r \<and> vs = ws \<or> i < r \<and> rearranged (i + 1) r ws vs"
  shows "ordered (int l) (int r) vs"
  unfolding ordered_def
proof (intro allI impI)
  have vs_ws: "vs ! k = ws ! k" if "k \<le> i" for k using vs(2) that by (auto simp: rearranged_def)
  have ws_zs: "ws ! k = zs ! k" if "i \<le> k" for k using ws(2) that by (auto simp: rearranged_def)
  have low: "vs ! k < pivot" if "l \<le> k" "k < i" for k
  proof -
    have "rearranged l (i - 1) zs ws" "l \<le> k" "k \<le> i - 1" using ws(2) that by auto
    then obtain m where "l \<le> m" "m \<le> i - 1" "ws ! k = zs ! m" using rearrangedD by blast
    then show ?thesis using zs(2)[of m] vs_ws[of k] that by auto
  qed
  have high: "pivot \<le> vs ! k" if "i < k" "k \<le> r" for k
  proof -
    have "rearranged (i + 1) r ws vs" "i + 1 \<le> k" "k \<le> r" using vs(2) that by auto
    then obtain m where "i + 1 \<le> m" "m \<le> r" "vs ! k = ws ! m" using rearrangedD by blast
    then show ?thesis using zs(3)[of m] ws_zs[of m] by simp
  qed
  fix p q
  assume pq: "int l \<le> int p \<and> p < q \<and> int q \<le> int r"
  consider "q < i" | "p < i" "i \<le> q" | "p = i" | "i < p" by linarith
  then show "vs ! p \<le> vs ! q"
  proof cases
    case 1
    then show ?thesis using ws(1) pq vs_ws[of p] vs_ws[of q] by (auto simp: ordered_def)
  next
    case 2
    then have "vs ! p < pivot" using low pq by simp
    moreover have "pivot \<le> vs ! q" using high[of q] vs_ws[of i] ws_zs[of i] zs(1) 2 pq by (cases "q = i") auto
    ultimately show ?thesis by simp
  next
    case 3
    then show ?thesis using high[of q] vs_ws[of i] ws_zs[of i] zs(1) pq by simp
  next
    case 4
    then show ?thesis using vs(1) pq by (auto simp: ordered_def)
  qed
qed

lemma quickSort_range_spec:
  "0 \<le> left \<Longrightarrow> right < int (length xs) \<Longrightarrow> length xs < 2 ^ 31 \<Longrightarrow>
    \<exists>ys. quickSort_range xs left right = Some ys \<and> ordered left right ys \<and>
      (right \<le> left \<and> ys = xs \<or> left < right \<and> rearranged (nat left) (nat right) xs ys)"
proof (induction "nat (right - left)" arbitrary: xs left right rule: less_induct)
  case (less left right xs)
  show ?case
  proof (cases "left < right")
    case False
    then show ?thesis by (auto simp: quickSort_range.simps[of xs] ordered_def)
  next
    case True
    define l r where "l = nat left" and "r = nat right"
    have lr: "left = int l" "right = int r" "l \<le> r" "r < length xs" using True less.prems by (auto simp: l_def r_def)
    obtain i ys where part: "qs_partition xs (xs ! r) (int l) (int r) = Some (int i, ys)" "l \<le> i" "i \<le> r" "rearranged l r xs ys"
      "ys ! r = xs ! r" "\<And>k. l \<le> k \<Longrightarrow> k < i \<Longrightarrow> ys ! k < xs ! r" "\<And>k. i \<le> k \<Longrightarrow> k < r \<Longrightarrow> xs ! r \<le> ys ! k"
      using qs_partition_spec[OF lr(3,4), of "xs ! r"] by auto
    have len: "length ys = length xs" using part(4) by (auto simp: rearranged_def dest: mset_eq_length)
    define zs where "zs = ys[i := ys ! r, r := ys ! i]"
    have zs: "rearranged l r xs zs" unfolding zs_def
      using rearranged_trans[OF part(4) rearranged_swap[of l i r r ys]] part(2,3) lr(4) len by simp
    have zlen: "length zs = length xs" by (simp add: zs_def len)
    have vals: "zs ! i = xs ! r" "\<And>k. l \<le> k \<Longrightarrow> k < i \<Longrightarrow> zs ! k < xs ! r" "\<And>k. i < k \<Longrightarrow> k \<le> r \<Longrightarrow> xs ! r \<le> zs ! k"
      using part(3,5,6,7) lr(4) len by (auto simp: zs_def nth_list_update)
    have step: "int_at xs right = Some (xs ! r)" "int_swap ys (int i) right = Some zs"
      using lr part(3) len by (simp_all add: int_at_in int_swap_in zs_def)
    have "nat (int i - 1 - left) < nat (right - left)" using lr(1,2) part(2,3) True by linarith
    then obtain ws where ws: "quickSort_range zs left (int i - 1) = Some ws" "ordered left (int i - 1) ws"
      "int i - 1 \<le> left \<and> ws = zs \<or> left < int i - 1 \<and> rearranged (nat left) (nat (int i - 1)) zs ws"
      using less.hyps[of "int i - 1" left zs] less.prems lr part(3) zlen by auto
    have ws3: "i = l \<and> ws = zs \<or> l < i \<and> rearranged l (i - 1) zs ws"
      using ws(3) lr(1) part(2) rearranged_refl[of l "i - 1" zs] by (auto simp: nat_diff_distrib')
    have imax: "int i \<noteq> INT_MAX" using part(3) lr(4) less.prems(3) by (simp add: INT_MAX_def)
    have wlen: "length ws = length xs" using ws3 zlen by (auto simp: rearranged_def dest: mset_eq_length)
    have "nat (right - (int i + 1)) < nat (right - left)" using lr(1,2) part(2,3) True by linarith
    then obtain vs where vs: "quickSort_range ws (int i + 1) right = Some vs" "ordered (int i + 1) right vs"
      "right \<le> int i + 1 \<and> vs = ws \<or> int i + 1 < right \<and> rearranged (nat (int i + 1)) (nat right) ws vs"
      using less.hyps[of right "int i + 1" ws] less.prems lr part(3) wlen by auto
    have vs3: "i = r \<and> vs = ws \<or> i < r \<and> rearranged (i + 1) r ws vs"
      using vs(3) lr(2) part(3) rearranged_refl[of "i + 1" r ws] by (auto simp: nat_add_distrib)
    have "rearranged l r xs ws" using ws3 zs rearranged_trans[OF zs, of l "i - 1" ws] part(3) by auto
    then have "rearranged l r xs vs" using vs3 rearranged_trans[of l r xs ws "i + 1" r vs] part(2) by auto
    moreover have "ordered left right vs"
      using ordered_parts[OF vals, where ws = ws and vs = vs] ws(2) ws3 vs(2) vs3 unfolding lr(1,2) by simp
    moreover have "quickSort_range xs left right = Some vs"
      using True step part(1) ws(1) vs(1) lr(1,2) imax by (simp add: quickSort_range.simps[of xs])
    ultimately show ?thesis using True unfolding l_def r_def by blast
  qed
qed

lemma quickSort_sorts:
  assumes small: "length xs < 2 ^ 31"
  shows "quickSort xs = Some (sort xs)"
proof (cases "length xs \<le> 1")
  case True
  then have "xs = [] \<or> (\<exists>x. xs = [x])" by (cases xs) auto
  then show ?thesis by (auto simp: quickSort_def)
next
  case False
  obtain ys where ys: "quickSort_range xs 0 (int (length xs) - 1) = Some ys" "ordered 0 (int (length xs) - 1) ys"
    "rearranged 0 (nat (int (length xs) - 1)) xs ys"
    using quickSort_range_spec[of 0 "int (length xs) - 1" xs] False small by auto
  have ms: "mset ys = mset xs" using ys(3) by (simp add: rearranged_def)
  then have "sorted ys" using ys(2) mset_eq_length[OF ms] by (auto simp: ordered_def sorted_iff_nth_mono_less)
  then show ?thesis using ys(1) ms sort_unique False small by (simp add: quickSort_def)
qed

section \<open>Property\<close>

text \<open>
  C37: on every vector of fewer than \<^verbatim>\<open>2 ^ 31\<close> elements each of \<^verbatim>\<open>bubbleSort\<close>, \<^verbatim>\<open>selectionSort\<close>, \<^verbatim>\<open>insertionSort\<close>,
  \<^verbatim>\<open>mergeSort\<close> and \<^verbatim>\<open>quickSort\<close> ends, accesses no position outside the vector, overflows no \<^verbatim>\<open>int\<close> and leaves the sorted rearrangement
  of its elements.  The bound is needed: a longer vector has a size that is no \<^verbatim>\<open>int\<close>.
\<close>

theorem sorts_agree:
  assumes "length xs < 2 ^ 31"
  shows "bubbleSort xs = Some (sort xs) \<and> selectionSort xs = Some (sort xs) \<and> insertionSort xs = Some (sort xs) \<and>
   mergeSort xs = Some (sort xs) \<and> quickSort xs = Some (sort xs)"
  using assms by (simp add: bubbleSort_sorts selectionSort_sorts insertionSort_sorts mergeSort_sorts quickSort_sorts)

theorem sorts_agree_witness:
  "bubbleSort [3, 2, 1, 5, 6, 4] = Some [1, 2, 3, 4, 5, 6] \<and> mergeSort [3, 2, 1, 5, 6, 4] = quickSort [3, 2, 1, 5, 6, 4]"
  using sorts_agree[of "[3, 2, 1, 5, 6, 4]"] by simp

text \<open>
  A vector of \<^verbatim>\<open>2 ^ 31\<close> or more but fewer than \<^verbatim>\<open>2 ^ 32\<close> elements has a negative size: \<^verbatim>\<open>insertionSort\<close>, \<^verbatim>\<open>mergeSort\<close> and \<^verbatim>\<open>quickSort\<close>
  return at once and leave it as it is, and \<^verbatim>\<open>n - 1\<close> overflows in the other two when there are exactly \<^verbatim>\<open>2 ^ 31\<close>.
\<close>

lemma int_size_negative: "2 ^ 31 \<le> length xs \<Longrightarrow> length xs < 2 ^ 32 \<Longrightarrow> int_size xs = int (length xs) - 2 ^ 32"
proof -
  assume "2 ^ 31 \<le> length xs" "length xs < 2 ^ 32"
  then have "(int (length xs) + 2 ^ 31) mod 2 ^ 32 = int (length xs) + 2 ^ 31 - 2 ^ 32" by (simp add: mod_pos_geq)
  then show ?thesis by (simp add: int_size_def signed_of_nat signed_take_bit_eq_take_bit_shift take_bit_eq_mod)
qed

lemma long_vector_unsorted:
  "2 ^ 31 \<le> length xs \<Longrightarrow> length xs < 2 ^ 32 \<Longrightarrow>
    insertionSort xs = Some xs \<and> mergeSort xs = Some xs \<and> quickSort xs = Some xs"
  "length xs = 2 ^ 31 \<Longrightarrow> bubbleSort xs = None \<and> selectionSort xs = None"
  by (simp_all add: insertionSort_def mergeSort.simps[of xs] quickSort_def bubbleSort_def selectionSort_def int_size_negative int_pred_def)

end
