(* ===== verification/Consistent_Hash.thy ===== *)
theory Consistent_Hash
  imports Xlab_Prelude
begin

text \<open>
  \<^verbatim>\<open>ConsistentHash\<close> of \<^verbatim>\<open>src/cc/cclab/src/common/consistent_hash\<close>: a ring of virtual nodes in a \<^verbatim>\<open>std::map\<close> from 32-bit
  partitions to servers.  The map is the list of its entries in ascending order of the keys.  The theory shows which server a key
  gets, that a new server only takes keys over, and that removing it again restores the ring unless partitions collide.
\<close>

section \<open>Ordered maps\<close>

type_synonym 'v ring = "(u32 \<times> 'v) list"

text \<open>\<^verbatim>\<open>std::map::insert\<close> keeps an existing entry.\<close>

fun map_insert :: "u32 \<Rightarrow> 'v \<Rightarrow> 'v ring \<Rightarrow> 'v ring" where
  "map_insert k v [] = [(k, v)]"
| "map_insert k v ((k', v') # es) =
    (if k < k' then (k, v) # (k', v') # es else if k = k' then (k', v') # es else (k', v') # map_insert k v es)"

definition map_erase :: "u32 \<Rightarrow> 'v ring \<Rightarrow> 'v ring" where
  "map_erase k es = filter (\<lambda>(k', _). k' \<noteq> k) es"

definition lower_bound :: "'v ring \<Rightarrow> u32 \<Rightarrow> (u32 \<times> 'v) option" where
  "lower_bound es k = find (\<lambda>(k', _). k \<le> k') es"

definition ring_ok :: "'v ring \<Rightarrow> bool" where
  "ring_ok es \<longleftrightarrow> sorted_wrt (<) (map fst es)"

section \<open>The code\<close>

text \<open>A character is a signed byte, widened to the 32-bit hash; \<^verbatim>\<open>hash < 0\<close> never holds of an unsigned number.\<close>

definition char_word :: "char \<Rightarrow> u32" where
  "char_word c = scast (of_char c :: 8 word)"

definition FNVHash :: "string \<Rightarrow> u32" where
  "FNVHash key =
     (let p = 16777619;
          hash = foldl (\<lambda>hash c. (hash XOR char_word c) * p) 2166136261 key;
          hash = hash + push_bit 13 hash;
          hash = hash XOR drop_bit 7 hash;
          hash = hash + push_bit 3 hash;
          hash = hash XOR drop_bit 17 hash;
          hash = hash + push_bit 5 hash
      in if hash < 0 then - hash else hash)"

record consistent_hash =
  serverNodes :: "string ring"
  physicalNodes :: "string list"
  virtualNodeNum :: int

definition ConsistentHash :: "int \<Rightarrow> consistent_hash" where
  "ConsistentHash n =
     \<lparr>serverNodes = [], physicalNodes = [''192.168.1.101'', ''192.168.1.102'', ''192.168.1.103'', ''192.168.1.104''],
      virtualNodeNum = n\<rparr>"

definition GetHash :: "string \<Rightarrow> int \<Rightarrow> u32" where
  "GetHash nodeIp idx = FNVHash (nodeIp @ ''#'' @ to_string idx)"

definition AddNewPhysicalNode :: "consistent_hash \<Rightarrow> string \<Rightarrow> consistent_hash" where
  "AddNewPhysicalNode h nodeIp =
     h\<lparr>serverNodes := fold (\<lambda>j. map_insert (GetHash nodeIp j) nodeIp) [0..virtualNodeNum h - 1] (serverNodes h)\<rparr>"

definition ch_Initialize :: "consistent_hash \<Rightarrow> consistent_hash" where
  "ch_Initialize h =
     h\<lparr>serverNodes := fold (\<lambda>ip. fold (\<lambda>j. map_insert (FNVHash (ip @ ''#'' @ to_string j)) ip) [0..virtualNodeNum h - 1])
        (physicalNodes h) (serverNodes h)\<rparr>"

definition DeletePhysicalNode :: "consistent_hash \<Rightarrow> string \<Rightarrow> consistent_hash" where
  "DeletePhysicalNode h nodeIp =
     h\<lparr>serverNodes := fold (\<lambda>j nodes.
        (let partition = GetHash nodeIp j; nodes = map_insert partition nodeIp nodes in
         if map_of nodes partition \<noteq> None then map_erase partition nodes else nodes))
        [0..virtualNodeNum h - 1] (serverNodes h)\<rparr>"

text \<open>The iterator \<^verbatim>\<open>begin()\<close> of an empty map must not be dereferenced.\<close>

definition GetServerIndex :: "consistent_hash \<Rightarrow> string \<Rightarrow> string option" where
  "GetServerIndex h key =
     (let partition = FNVHash key in
      case lower_bound (serverNodes h) partition of
        Some it \<Rightarrow> Some (snd it)
      | None \<Rightarrow> (case serverNodes h of [] \<Rightarrow> None | e # _ \<Rightarrow> Some (snd e)))"

text \<open>The counting loop of \<^verbatim>\<open>StatisticPerf\<close>; the printed rates are left out.\<close>

definition StatisticPerf :: "consistent_hash \<Rightarrow> int \<Rightarrow> int \<Rightarrow> (string \<Rightarrow> nat) option" where
  "StatisticPerf h objMin objMax =
     for_each (\<lambda>i cnt. do { nodeIp \<leftarrow> GetServerIndex h (to_string i); Some (cnt(nodeIp := cnt nodeIp + 1)) })
       [objMin..objMax] (\<lambda>_. 0)"

section \<open>Laws of the ordered map\<close>

lemma ring_ok_distinct: "ring_ok es \<Longrightarrow> distinct (map fst es)"
  unfolding ring_ok_def by (induction es) auto

lemma fst_map_insert: "fst ` set (map_insert k v es) = insert k (fst ` set es)"
  by (induction k v es rule: map_insert.induct) (simp_all add: insert_commute)

lemma ring_ok_insert: "ring_ok es \<Longrightarrow> ring_ok (map_insert k v es)"
proof (induction es)
  case (Cons e es)
  then show ?case using fst_map_insert[of k v es] by (cases e) (auto simp: ring_ok_def)
qed (simp add: ring_ok_def)

lemma ring_ok_erase: "ring_ok es \<Longrightarrow> ring_ok (map_erase k es)"
  unfolding ring_ok_def map_erase_def by (induction es) auto

lemma map_of_insert: "ring_ok es \<Longrightarrow> map_of (map_insert k v es) = (if k \<in> fst ` set es then map_of es else (map_of es)(k \<mapsto> v))"
proof (induction es)
  case (Cons e es)
  then show ?case by (cases e) (auto simp: ring_ok_def fun_upd_twist)
qed auto

lemma map_of_erase: "map_of (map_erase k es) = (map_of es)(k := None)"
  unfolding map_erase_def by (induction es) auto

lemma ring_ext:
  assumes ok: "ring_ok es" "ring_ok fs" and eq: "map_of es = map_of fs"
  shows "es = fs"
proof -
  have entries: "es = map (\<lambda>k. (k, the (map_of es k))) (map fst es)" if "ring_ok es" for es :: "'v ring"
    using map_idI[of es "\<lambda>e. (fst e, the (map_of es (fst e)))"] ring_ok_distinct[OF that] by (auto simp: o_def)
  have "set (map fst es) = set (map fst fs)" using eq by (metis dom_map_of_conv_image_fst list.set_map)
  then have "map fst es = map fst fs"
    using ok ring_ok_distinct by (intro sorted_distinct_set_unique) (auto simp: ring_ok_def strict_sorted_imp_sorted)
  then show ?thesis using entries[OF ok(1)] entries[OF ok(2)] eq by metis
qed

section \<open>The closest partition\<close>

text \<open>The partition that follows \<open>p\<close> on the ring: the one with the least distance \<open>q - p\<close> modulo \<open>2\<^sup>3\<^sup>2\<close>.\<close>

definition closest :: "u32 set \<Rightarrow> u32 \<Rightarrow> u32 \<Rightarrow> bool" where
  "closest Q p q \<longleftrightarrow> q \<in> Q \<and> (\<forall>r \<in> Q. q - p \<le> r - p)"

definition ring_lookup :: "'v ring \<Rightarrow> u32 \<Rightarrow> 'v option" where
  "ring_lookup es p = (case lower_bound es p of Some it \<Rightarrow> Some (snd it)
     | None \<Rightarrow> (case es of [] \<Rightarrow> None | e # _ \<Rightarrow> Some (snd e)))"

lemma GetServerIndex_lookup: "GetServerIndex h key = ring_lookup (serverNodes h) (FNVHash key)"
  by (simp add: GetServerIndex_def ring_lookup_def)

lemma closest_unique: "closest Q p q \<Longrightarrow> closest Q p r \<Longrightarrow> q = r"
  by (force simp: closest_def intro: antisym)

lemma closest_subset: "closest (Q \<union> N) p q \<Longrightarrow> q \<in> Q \<Longrightarrow> closest Q p q"
  by (auto simp: closest_def)

lemma distance: "uint (q - p) = (if p \<le> q then uint q - uint p else uint q - uint p + 2 ^ 32)" for p q :: u32
  by (auto simp: uint_sub_if' word_le_def)

lemma closest_above:
  fixes p q :: u32
  assumes "q \<in> Q" "p \<le> q" "\<And>r. r \<in> Q \<Longrightarrow> p \<le> r \<Longrightarrow> q \<le> r"
  shows "closest Q p q"
proof -
  have "q - p \<le> r - p" if "r \<in> Q" for r
  proof (cases "p \<le> r")
    case True
    then show ?thesis using assms(2) assms(3)[OF that] by (simp add: word_le_def distance)
  next
    case False
    have "uint q < 2 ^ 32" "0 \<le> uint r" using uint_lt2p[of q] by simp_all
    then have "uint q - uint p \<le> uint r - uint p + 2 ^ 32" by linarith
    then show ?thesis using False assms(2) unfolding word_le_def[of "q - p"] distance by simp
  qed
  then show ?thesis using assms(1) by (simp add: closest_def)
qed

lemma closest_wrap:
  fixes p q :: u32
  assumes "q \<in> Q" "\<And>r. r \<in> Q \<Longrightarrow> r < p \<and> q \<le> r"
  shows "closest Q p q"
proof -
  have "q - p \<le> r - p" if "r \<in> Q" for r
    using assms(2)[OF assms(1)] assms(2)[OF that] by (simp add: word_le_def[of "q - p"] distance not_le[symmetric]) (simp add: word_le_def)
  then show ?thesis using assms(1) by (simp add: closest_def)
qed

lemma lookup_closest:
  assumes ok: "ring_ok es" and "es \<noteq> []"
  shows "\<exists>q. closest (fst ` set es) p q \<and> ring_lookup es p = map_of es q"
proof (cases "lower_bound es p")
  case None
  obtain e es' where es: "es = e # es'" using assms(2) by (cases es) auto
  have "r < p" if "r \<in> fst ` set es" for r using None that unfolding lower_bound_def find_None_iff by (auto simp: not_le)
  moreover have "fst e \<le> r" if "r \<in> fst ` set es" for r using ok that unfolding es ring_ok_def by (auto intro: less_imp_le)
  ultimately have "closest (fst ` set es) p (fst e)" unfolding es by (intro closest_wrap) auto
  then show ?thesis using None es by (auto simp: ring_lookup_def)
next
  case (Some it)
  then obtain i where i: "i < length es" "it = es ! i" "p \<le> fst it" "\<And>j. j < i \<Longrightarrow> \<not> p \<le> fst (es ! j)"
    unfolding lower_bound_def find_Some_iff by (auto simp: case_prod_beta)
  have "fst it \<le> r" if r: "r \<in> fst ` set es" "p \<le> r" for r
  proof -
    obtain j where j: "j < length es" "r = fst (es ! j)" using r(1) by (auto simp: in_set_conv_nth)
    then have "i \<le> j" using i(4)[of j] r(2) by (meson not_le)
    then show ?thesis using ok j i(1,2) by (cases "i = j") (auto simp: ring_ok_def sorted_wrt_iff_nth_less intro: less_imp_le)
  qed
  then have "closest (fst ` set es) p (fst it)" using i(1,2,3) by (intro closest_above) auto
  moreover have "map_of es (fst it) = Some (snd it)"
    using ring_ok_distinct[OF ok] i(1,2) by (intro map_of_is_SomeI) auto
  ultimately show ?thesis using Some by (auto simp: ring_lookup_def)
qed

section \<open>Servers come and go\<close>

lemma fold_insert:
  assumes "ring_ok es"
  shows "ring_ok (fold (\<lambda>j. map_insert (g j) v) js es)"
    "fst ` set (fold (\<lambda>j. map_insert (g j) v) js es) = fst ` set es \<union> g ` set js"
    "map_of (fold (\<lambda>j. map_insert (g j) v) js es) q =
      (if q \<in> fst ` set es then map_of es q else if q \<in> g ` set js then Some v else None)"
proof -
  have "ring_ok (fold (\<lambda>j. map_insert (g j) v) js es) \<and>
    fst ` set (fold (\<lambda>j. map_insert (g j) v) js es) = fst ` set es \<union> g ` set js \<and>
    map_of (fold (\<lambda>j. map_insert (g j) v) js es) q =
      (if q \<in> fst ` set es then map_of es q else if q \<in> g ` set js then Some v else None)"
    using assms
  proof (induction js arbitrary: es)
    case Nil
    then show ?case by (auto simp: map_of_eq_None_iff)
  next
    case (Cons j js)
    then show ?case using ring_ok_insert[OF Cons.prems, of "g j" v]
      by (auto simp: fst_map_insert map_of_insert)
  qed
  then show "ring_ok (fold (\<lambda>j. map_insert (g j) v) js es)"
    "fst ` set (fold (\<lambda>j. map_insert (g j) v) js es) = fst ` set es \<union> g ` set js"
    "map_of (fold (\<lambda>j. map_insert (g j) v) js es) q =
      (if q \<in> fst ` set es then map_of es q else if q \<in> g ` set js then Some v else None)" by simp_all
qed

lemma fold_erase:
  assumes "ring_ok es"
  shows "ring_ok (fold (\<lambda>j nodes. (let partition = g j; nodes = map_insert partition v nodes in
      if map_of nodes partition \<noteq> None then map_erase partition nodes else nodes)) js es) \<and>
    map_of (fold (\<lambda>j nodes. (let partition = g j; nodes = map_insert partition v nodes in
      if map_of nodes partition \<noteq> None then map_erase partition nodes else nodes)) js es) q =
    (if q \<in> g ` set js then None else map_of es q)"
  using assms
proof (induction js arbitrary: es)
  case (Cons j js)
  let ?es = "map_erase (g j) (map_insert (g j) v es)"
  have "map_of (map_insert (g j) v es) (g j) \<noteq> None" by (simp add: map_of_eq_None_iff fst_map_insert)
  moreover have "ring_ok ?es" using Cons.prems by (simp add: ring_ok_insert ring_ok_erase)
  moreover have "map_of ?es q = (if q = g j then None else map_of es q)"
    using Cons.prems by (simp add: map_of_erase map_of_insert)
  ultimately show ?case using Cons.IH[of ?es] by (auto simp: Let_def)
qed simp

definition partitions :: "consistent_hash \<Rightarrow> string \<Rightarrow> u32 set" where
  "partitions h ip = GetHash ip ` {0..<virtualNodeNum h}"

lemma set_upto_partitions: "GetHash ip ` set [0..virtualNodeNum h - 1] = partitions h ip"
  by (auto simp: partitions_def)

lemma Add_ring:
  assumes "ring_ok (serverNodes h)"
  shows "ring_ok (serverNodes (AddNewPhysicalNode h ip))"
    "fst ` set (serverNodes (AddNewPhysicalNode h ip)) = fst ` set (serverNodes h) \<union> partitions h ip"
    "map_of (serverNodes (AddNewPhysicalNode h ip)) q = (if q \<in> fst ` set (serverNodes h) then map_of (serverNodes h) q
      else if q \<in> partitions h ip then Some ip else None)"
  using fold_insert[OF assms, of "GetHash ip" ip "[0..virtualNodeNum h - 1]"]
  unfolding set_upto_partitions by (simp_all add: AddNewPhysicalNode_def)

lemma Delete_ring:
  assumes "ring_ok (serverNodes h)"
  shows "ring_ok (serverNodes (DeletePhysicalNode h ip))"
    "map_of (serverNodes (DeletePhysicalNode h ip)) q = (if q \<in> partitions h ip then None else map_of (serverNodes h) q)"
  using fold_erase[OF assms, of "GetHash ip" ip "[0..virtualNodeNum h - 1]"]
  unfolding set_upto_partitions by (simp_all add: DeletePhysicalNode_def)

lemma ch_Initialize_ok: assumes "ring_ok (serverNodes h)" shows "ring_ok (serverNodes (ch_Initialize h))"
proof -
  have "ring_ok (fold (\<lambda>ip. fold (\<lambda>j. map_insert (FNVHash (ip @ ''#'' @ to_string j)) ip) js) ips es)"
    if "ring_ok es" for js ips es
    using that by (induction ips arbitrary: es) (auto simp: fold_insert(1))
  then show ?thesis using assms unfolding ch_Initialize_def by simp
qed

text \<open>A partition that belongs to another server is removed as well.\<close>

lemma Delete_takes_foreign:
  "ring_ok (serverNodes h) \<Longrightarrow> q \<in> partitions h ip \<Longrightarrow> map_of (serverNodes h) q = Some other \<Longrightarrow>
    map_of (serverNodes (DeletePhysicalNode h ip)) q = None"
  by (simp add: Delete_ring)

section \<open>Properties\<close>

text \<open>
  C26: on a ring with at least one virtual node, \<^verbatim>\<open>GetServerIndex\<close> returns the server of the partition
  with the least clockwise distance from the hash of the key, the wrap-around at \<open>2\<^sup>3\<^sup>2\<close> included, and on an empty ring it
  dereferences the end of the map.
\<close>
theorem GetServerIndex_closest:
  assumes "ring_ok (serverNodes h)"
  shows "if serverNodes h = [] then GetServerIndex h key = None
    else \<exists>q. closest (fst ` set (serverNodes h)) (FNVHash key) q \<and> GetServerIndex h key = map_of (serverNodes h) q \<and>
      GetServerIndex h key \<noteq> None"
proof (cases "serverNodes h = []")
  case True
  then show ?thesis by (simp add: GetServerIndex_lookup ring_lookup_def lower_bound_def)
next
  case False
  obtain q where q: "closest (fst ` set (serverNodes h)) (FNVHash key) q" "GetServerIndex h key = map_of (serverNodes h) q"
    using lookup_closest[OF assms False] unfolding GetServerIndex_lookup by blast
  then have "map_of (serverNodes h) q \<noteq> None" by (simp add: closest_def map_of_eq_None_iff)
  then show ?thesis using False q by auto
qed

definition two_servers :: consistent_hash where
  "two_servers = \<lparr>serverNodes = [(5, ''10.0.0.1''), (9, ''10.0.0.2'')], physicalNodes = [''10.0.0.1'', ''10.0.0.2''], virtualNodeNum = 1\<rparr>"

theorem GetServerIndex_closest_witness:
  "\<exists>q. closest {5, 9} (FNVHash ''42'') q \<and> GetServerIndex two_servers ''42'' = map_of (serverNodes two_servers) q"
proof -
  have "ring_ok (serverNodes two_servers)" by (simp add: two_servers_def ring_ok_def)
  then show ?thesis using GetServerIndex_closest[of two_servers "''42''"] by (auto simp: two_servers_def)
qed

text \<open>
  C28: adding a server moves keys only to that server: afterwards every key has the server it had before or
  the new one.
\<close>
theorem add_moves_to_new:
  assumes ok: "ring_ok (serverNodes h)" and ne: "serverNodes h \<noteq> []"
  shows "GetServerIndex (AddNewPhysicalNode h ip) key \<in> {GetServerIndex h key, Some ip}"
proof -
  let ?p = "FNVHash key" and ?Q = "fst ` set (serverNodes h)" and ?h = "AddNewPhysicalNode h ip"
  have "serverNodes ?h \<noteq> []" using Add_ring(2)[OF ok, of ip] ne by (metis image_is_empty set_empty sup_eq_bot_iff)
  then obtain q where q: "closest (?Q \<union> partitions h ip) ?p q" "GetServerIndex ?h key = map_of (serverNodes ?h) q"
    using lookup_closest[OF Add_ring(1)[OF ok]] Add_ring(2)[OF ok] unfolding GetServerIndex_lookup by metis
  obtain r where r: "closest ?Q ?p r" "GetServerIndex h key = map_of (serverNodes h) r"
    using lookup_closest[OF ok ne] unfolding GetServerIndex_lookup by blast
  show ?thesis
  proof (cases "q \<in> ?Q")
    case True
    then have "q = r" using closest_unique[OF closest_subset[OF q(1) True] r(1)] by simp
    then show ?thesis using q(2) r(2) True by (simp add: Add_ring(3)[OF ok])
  next
    case False
    then have "q \<in> partitions h ip" using q(1) by (auto simp: closest_def)
    then show ?thesis using q(2) False by (simp add: Add_ring(3)[OF ok])
  qed
qed

theorem add_moves_to_new_witness:
  "GetServerIndex (AddNewPhysicalNode two_servers ''10.0.0.3'') ''42'' \<in> {GetServerIndex two_servers ''42'', Some ''10.0.0.3''}"
  by (rule add_moves_to_new) (simp_all add: two_servers_def ring_ok_def)

text \<open>
  Removing a server right after adding it restores the ring, and every key's server with it, when none
  of its partitions was taken.
\<close>
lemma add_delete_roundtrip:
  assumes ok: "ring_ok (serverNodes h)" and free: "partitions h ip \<inter> fst ` set (serverNodes h) = {}"
  shows "DeletePhysicalNode (AddNewPhysicalNode h ip) ip = h"
proof -
  have parts: "partitions (AddNewPhysicalNode h ip) ip = partitions h ip" by (simp add: partitions_def AddNewPhysicalNode_def)
  have "map_of (serverNodes (DeletePhysicalNode (AddNewPhysicalNode h ip) ip)) q = map_of (serverNodes h) q" for q
  proof (cases "q \<in> partitions h ip")
    case True
    then have "map_of (serverNodes h) q = None" using free by (auto simp: map_of_eq_None_iff)
    then show ?thesis using True by (simp add: Delete_ring(2)[OF Add_ring(1)[OF ok]] parts)
  next
    case False
    moreover have "map_of (serverNodes h) q = None" if "q \<notin> fst ` set (serverNodes h)"
      using that by (simp add: map_of_eq_None_iff)
    ultimately show ?thesis by (auto simp: Delete_ring(2)[OF Add_ring(1)[OF ok]] parts Add_ring(3)[OF ok])
  qed
  then have "serverNodes (DeletePhysicalNode (AddNewPhysicalNode h ip) ip) = serverNodes h"
    using Delete_ring(1)[OF Add_ring(1)[OF ok]] ok by (intro ring_ext) auto
  then show ?thesis by (simp add: DeletePhysicalNode_def AddNewPhysicalNode_def)
qed

end
