(* ===== verification/Skip_List.thy ===== *)
theory Skip_List
  imports Xlab_Prelude
begin

text \<open>
  \<^verbatim>\<open>SkipList\<close> of \<^verbatim>\<open>src/cc/cclab/src/common/skiplist/skiplist_v2.h\<close> on an explicit heap: a pointer is the address of a node or
  \<^const>\<open>None\<close>, a freed node is no longer in the heap, and an access through a null or freed pointer or beyond an array is undefined.
  The insertion and the deletion hold the global mutex for their whole bodies; the search takes no lock, so the theorems on it are about
  calls that do not overlap a change.  The random number of odd draws before the first even one is an
  argument of the insertion; the theorems hold for every such number.
\<close>

section \<open>The code\<close>

record ('k, 'v) sk_node =
  sk_key :: 'k
  sk_value :: 'v
  node_level :: nat
  sk_next :: "nat option list"

record ('k, 'v) skip_list =
  sk_heap :: "nat \<Rightarrow> ('k, 'v) sk_node option"
  sk_fresh :: nat
  sk_max_level :: nat
  skip_list_level :: nat
  sk_header :: nat
  element_count :: nat

definition create_node :: "('k, 'v) skip_list \<Rightarrow> 'k \<Rightarrow> 'v \<Rightarrow> nat \<Rightarrow> nat \<times> ('k, 'v) skip_list" where
  "create_node s k v level = (sk_fresh s,
     s\<lparr>sk_heap := (sk_heap s)(sk_fresh s \<mapsto> \<lparr>sk_key = k, sk_value = v, node_level = level, sk_next = replicate (level + 1) None\<rparr>),
       sk_fresh := sk_fresh s + 1\<rparr>)"

text \<open>The key and value of the header are uninitialised: any \<open>k\<close> and \<open>v\<close>.\<close>

definition SkipList :: "nat \<Rightarrow> 'k \<Rightarrow> 'v \<Rightarrow> ('k, 'v) skip_list" where
  "SkipList max_level k v =
     (let (header, s) = create_node \<lparr>sk_heap = (\<lambda>_. None), sk_fresh = 0, sk_max_level = max_level, skip_list_level = 0,
        sk_header = 0, element_count = 0\<rparr> k v max_level
      in s\<lparr>sk_header := header\<rparr>)"

definition get_random_level :: "nat \<Rightarrow> nat \<Rightarrow> nat" where
  "get_random_level max_level odd_draws = (let k = 1 + odd_draws in if k < max_level then k else max_level)"

definition next_at :: "('k, 'v) skip_list \<Rightarrow> nat \<Rightarrow> nat \<Rightarrow> nat option option" where
  "next_at s a i = do { nd \<leftarrow> sk_heap s a; vec_at (sk_next nd) i }"

definition set_next_at :: "('k, 'v) skip_list \<Rightarrow> nat \<Rightarrow> nat \<Rightarrow> nat option \<Rightarrow> ('k, 'v) skip_list option" where
  "set_next_at s a i p = do {
     nd \<leftarrow> sk_heap s a;
     nx \<leftarrow> vec_set (sk_next nd) i p;
     Some (s\<lparr>sk_heap := (sk_heap s)(a \<mapsto> nd\<lparr>sk_next := nx\<rparr>)\<rparr>)}"

text \<open>The inner loop of the searches: go right on level \<open>i\<close> while the next key is smaller.\<close>

partial_function (option) go_right :: "('k::linorder, 'v) skip_list \<Rightarrow> 'k \<Rightarrow> nat \<Rightarrow> nat \<Rightarrow> nat option" where
  "go_right s key i current = Option.bind (next_at s current i) (\<lambda>p. case p of
     None \<Rightarrow> Some current
   | Some n \<Rightarrow> Option.bind (sk_heap s n) (\<lambda>nd. if sk_key nd < key then go_right s key i n else Some current))"

text \<open>The outer loop, from level \<open>i - 1\<close> down to 0, filling the array \<^verbatim>\<open>update\<close>.\<close>

primrec go_down :: "('k::linorder, 'v) skip_list \<Rightarrow> 'k \<Rightarrow> nat \<Rightarrow> nat \<times> nat option list \<Rightarrow> (nat \<times> nat option list) option" where
  "go_down s key 0 c = Some c"
| "go_down s key (Suc i) c = do {
     current \<leftarrow> go_right s key i (fst c);
     update \<leftarrow> vec_set (snd c) i (Some current);
     go_down s key i (current, update)}"

definition find_update :: "('k::linorder, 'v) skip_list \<Rightarrow> 'k \<Rightarrow> (nat option \<times> nat option list) option" where
  "find_update s key = do {
     (current, update) \<leftarrow> go_down s key (skip_list_level s + 1) (sk_header s, replicate (sk_max_level s + 1) None);
     current \<leftarrow> next_at s current 0;
     Some (current, update)}"

text \<open>The result is 1 for a key that exists and 0 for a new one.\<close>

definition insert_element :: "('k::linorder, 'v) skip_list \<Rightarrow> nat \<Rightarrow> 'k \<Rightarrow> 'v \<Rightarrow> (nat \<times> ('k, 'v) skip_list) option" where
  "insert_element s odd_draws key value = do {
     (current, update) \<leftarrow> find_update s key;
     found \<leftarrow> (case current of None \<Rightarrow> Some False | Some c \<Rightarrow> do { nd \<leftarrow> sk_heap s c; Some (sk_key nd = key) });
     (if found then Some (1, s)
      else do {
        let random_level = get_random_level (sk_max_level s) odd_draws;
        update \<leftarrow> for_each (\<lambda>i update. vec_set update i (Some (sk_header s))) [skip_list_level s + 1..<random_level + 1] update;
        let s = (if random_level > skip_list_level s then s\<lparr>skip_list_level := random_level\<rparr> else s);
        let (inserted_node, s) = create_node s key value random_level;
        s \<leftarrow> for_each (\<lambda>i s. do {
            u \<leftarrow> vec_at update i;
            u \<leftarrow> u;
            p \<leftarrow> next_at s u i;
            s \<leftarrow> set_next_at s inserted_node i p;
            set_next_at s u i (Some inserted_node)}) [0..<random_level + 1] s;
        Some (0, s\<lparr>element_count := element_count s + 1\<rparr>)})}"

primrec search_down :: "('k::linorder, 'v) skip_list \<Rightarrow> 'k \<Rightarrow> nat \<Rightarrow> nat \<Rightarrow> nat option" where
  "search_down s key 0 current = Some current"
| "search_down s key (Suc i) current = do { current \<leftarrow> go_right s key i current; search_down s key i current }"

definition search_element :: "('k::linorder, 'v) skip_list \<Rightarrow> 'k \<Rightarrow> bool option" where
  "search_element s key = do {
     current \<leftarrow> search_down s key (skip_list_level s + 1) (sk_header s);
     current \<leftarrow> next_at s current 0;
     (case current of None \<Rightarrow> Some False | Some c \<Rightarrow> do { nd \<leftarrow> sk_heap s c; Some (sk_key nd = key) })}"

text \<open>The unlinking loop stops at the first level whose next node is another one.\<close>

primrec unlink :: "nat option list \<Rightarrow> nat \<Rightarrow> nat list \<Rightarrow> ('k, 'v) skip_list \<Rightarrow> ('k, 'v) skip_list option" where
  "unlink update current [] s = Some s"
| "unlink update current (i # is) s = do {
     u \<leftarrow> vec_at update i;
     u \<leftarrow> u;
     p \<leftarrow> next_at s u i;
     (if p \<noteq> Some current then Some s
      else do {
        q \<leftarrow> next_at s current i;
        s \<leftarrow> set_next_at s u i q;
        unlink update current is s})}"

primrec lower_level :: "('k, 'v) skip_list \<Rightarrow> nat \<Rightarrow> nat option" where
  "lower_level s 0 = Some 0"
| "lower_level s (Suc l) = do {
     p \<leftarrow> next_at s (sk_header s) (Suc l);
     (if p = None then lower_level s l else Some (Suc l))}"

definition delete_element :: "('k::linorder, 'v) skip_list \<Rightarrow> 'k \<Rightarrow> ('k, 'v) skip_list option" where
  "delete_element s key = do {
     (current, update) \<leftarrow> find_update s key;
     (case current of
        None \<Rightarrow> Some s
      | Some c \<Rightarrow> do {
          nd \<leftarrow> sk_heap s c;
          (if sk_key nd \<noteq> key then Some s
           else do {
             s \<leftarrow> unlink update c [0..<skip_list_level s + 1] s;
             l \<leftarrow> lower_level s (skip_list_level s);
             Some (s\<lparr>skip_list_level := l, sk_heap := (sk_heap s)(c := None), element_count := element_count s - 1\<rparr>)})})}"

definition sk_size :: "('k, 'v) skip_list \<Rightarrow> nat" where
  "sk_size s = element_count s"

text \<open>\<^verbatim>\<open>clear\<close> frees a node after all nodes behind it.\<close>

partial_function (option) sk_clear :: "nat \<Rightarrow> ('k, 'v) skip_list \<Rightarrow> ('k, 'v) skip_list option" where
  "sk_clear cur s = Option.bind (next_at s cur 0) (\<lambda>p. Option.bind (case p of None \<Rightarrow> Some s | Some n \<Rightarrow> sk_clear n s)
     (\<lambda>s. Option.bind (sk_heap s cur) (\<lambda>_. Some (s\<lparr>sk_heap := (sk_heap s)(cur := None)\<rparr>))))"

definition SkipList_destroy :: "('k, 'v) skip_list \<Rightarrow> ('k, 'v) skip_list option" where
  "SkipList_destroy s = do {
     p \<leftarrow> next_at s (sk_header s) 0;
     s \<leftarrow> (case p of None \<Rightarrow> Some s | Some n \<Rightarrow> sk_clear n s);
     _ \<leftarrow> sk_heap s (sk_header s);
     Some (s\<lparr>sk_heap := (sk_heap s)(sk_header s := None)\<rparr>)}"

section \<open>Positions in a chain\<close>

definition hd_opt :: "'a list \<Rightarrow> 'a option" where
  "hd_opt xs = (case xs of [] \<Rightarrow> None | x # _ \<Rightarrow> Some x)"

lemma hd_opt_simps [simp]: "hd_opt [] = None" "hd_opt (x # xs) = Some x"
  by (simp_all add: hd_opt_def)

text \<open>The element after \<open>a\<close> in a list.\<close>

fun nxt_in :: "nat list \<Rightarrow> nat \<Rightarrow> nat option" where
  "nxt_in [] a = None"
| "nxt_in (x # xs) a = (if x = a then hd_opt xs else nxt_in xs a)"

lemma nxt_in_split: "a \<notin> set P \<Longrightarrow> nxt_in (P @ a # Q) a = hd_opt Q"
  by (induction P) auto

lemma hd_opt_append: "P \<noteq> [] \<Longrightarrow> hd_opt (P @ Q) = hd_opt P"
  by (cases P) auto

lemma nxt_in_insert:
  "P \<noteq> [] \<Longrightarrow> distinct (P @ n # S) \<Longrightarrow>
    nxt_in (P @ n # S) a = (if a = n then hd_opt S else if a = last P then Some n else nxt_in (P @ S) a)"
proof (induction P)
  case (Cons x P)
  show ?case
  proof (cases "P = []")
    case True
    then show ?thesis using Cons.prems by auto
  next
    case False
    then have "last P \<in> set P" by simp
    then have "x \<noteq> last P" "x \<noteq> n" using Cons.prems by auto
    then show ?thesis using Cons.IH[OF False] Cons.prems False by (auto simp: hd_opt_append)
  qed
qed simp

lemma takeWhile_sorted:
  "sorted_wrt (<) (map f xs) \<Longrightarrow> takeWhile (\<lambda>a. f a < k) xs = filter (\<lambda>a. f a < k) xs \<and>
    dropWhile (\<lambda>a. f a < k) xs = filter (\<lambda>a. \<not> f a < k) xs" for k :: "'k::linorder"
proof (induction xs)
  case (Cons x xs)
  show ?case
  proof (cases "f x < k")
    case False
    then have "\<not> f y < k" if "y \<in> set xs" for y using Cons.prems that by (auto simp: not_less intro: less_imp_le order.trans)
    then show ?thesis using False by (auto simp: filter_empty_conv[symmetric] intro!: filter_True[symmetric])
  qed (use Cons in simp)
qed simp

lemma sorted_filter_map: "sorted_wrt (<) (map f xs) \<Longrightarrow> sorted_wrt (<) (map f (filter P xs))"
  by (induction xs) auto

section \<open>Shape and chains\<close>

definition key_of :: "('k, 'v) skip_list \<Rightarrow> nat \<Rightarrow> 'k" where
  "key_of s a = sk_key (the (sk_heap s a))"

definition value_of :: "('k, 'v) skip_list \<Rightarrow> nat \<Rightarrow> 'v" where
  "value_of s a = sk_value (the (sk_heap s a))"

definition lev :: "('k, 'v) skip_list \<Rightarrow> nat \<Rightarrow> nat" where
  "lev s a = node_level (the (sk_heap s a))"

definition height :: "('k, 'v) skip_list \<Rightarrow> nat \<Rightarrow> nat" where
  "height s a = (case sk_heap s a of None \<Rightarrow> 0 | Some nd \<Rightarrow> length (sk_next nd))"

text \<open>Everything but the pointers.\<close>

definition data_of :: "('k, 'v) skip_list \<Rightarrow> nat \<Rightarrow> ('k \<times> 'v \<times> nat \<times> nat) option" where
  "data_of s a = map_option (\<lambda>nd. (sk_key nd, sk_value nd, node_level nd, length (sk_next nd))) (sk_heap s a)"

definition same_shape :: "('k, 'v) skip_list \<Rightarrow> ('k, 'v) skip_list \<Rightarrow> bool" where
  "same_shape s s' \<longleftrightarrow> data_of s' = data_of s \<and> sk_fresh s' = sk_fresh s \<and> sk_max_level s' = sk_max_level s \<and>
     skip_list_level s' = skip_list_level s \<and> sk_header s' = sk_header s \<and> element_count s' = element_count s"

lemma same_shape_refl [simp]: "same_shape s s"
  by (simp add: same_shape_def)

lemma same_shape_trans: "same_shape s s' \<Longrightarrow> same_shape s' s'' \<Longrightarrow> same_shape s s''"
  by (simp add: same_shape_def)

lemma next_at_None_iff: "next_at s a i = None \<longleftrightarrow> height s a \<le> i"
  by (auto simp: next_at_def height_def vec_at_def split: option.splits Option.bind_splits)

lemma data_fields:
  "data_of s' a = data_of s a \<Longrightarrow> height s' a = height s a"
  "data_of s' a = data_of s a \<Longrightarrow> a \<in> dom (sk_heap s') \<longleftrightarrow> a \<in> dom (sk_heap s)"
  "data_of s' a = data_of s a \<Longrightarrow> a \<in> dom (sk_heap s) \<Longrightarrow> key_of s' a = key_of s a \<and> value_of s' a = value_of s a \<and> lev s' a = lev s a"
  by (cases "sk_heap s a"; cases "sk_heap s' a"; simp add: data_of_def height_def key_of_def value_of_def lev_def domIff)+

lemma set_next_at_ok:
  assumes "i < height s a"
  shows "\<exists>s'. set_next_at s a i p = Some s' \<and> same_shape s s' \<and>
    (\<forall>b j. next_at s' b j = (if b = a \<and> j = i then Some p else next_at s b j))"
proof -
  obtain nd where nd: "sk_heap s a = Some nd" "i < length (sk_next nd)" using assms by (auto simp: height_def split: option.splits)
  let ?s = "s\<lparr>sk_heap := (sk_heap s)(a \<mapsto> nd\<lparr>sk_next := (sk_next nd)[i := p]\<rparr>)\<rparr>"
  have "set_next_at s a i p = Some ?s" using nd by (simp add: set_next_at_def)
  moreover have "same_shape s ?s" using nd by (auto simp: same_shape_def data_of_def fun_eq_iff)
  moreover have "next_at ?s b j = (if b = a \<and> j = i then Some p else next_at s b j)" for b j
    using nd by (auto simp: next_at_def vec_at_def)
  ultimately show ?thesis by blast
qed

section \<open>The representation\<close>

definition level_list :: "('k, 'v) skip_list \<Rightarrow> nat list \<Rightarrow> nat \<Rightarrow> nat list" where
  "level_list s A i = filter (\<lambda>a. i \<le> lev s a) A"

definition nodes_ok :: "('k::linorder, 'v) skip_list \<Rightarrow> nat list \<Rightarrow> bool" where
  "nodes_ok s A \<longleftrightarrow> distinct (sk_header s # A) \<and> dom (sk_heap s) = set (sk_header s # A) \<and>
     (\<forall>a \<in> set (sk_header s # A). a < sk_fresh s) \<and> height s (sk_header s) = sk_max_level s + 1 \<and>
     (\<forall>a \<in> set A. height s a = lev s a + 1 \<and> lev s a \<le> skip_list_level s) \<and>
     skip_list_level s \<le> sk_max_level s \<and> element_count s = length A \<and> sorted_wrt (<) (map (key_of s) A)"

definition chains_ok :: "('k, 'v) skip_list \<Rightarrow> nat list \<Rightarrow> bool" where
  "chains_ok s A \<longleftrightarrow> (\<forall>i \<le> sk_max_level s. \<forall>a \<in> set (sk_header s # level_list s A i).
     next_at s a i = Some (nxt_in (sk_header s # level_list s A i) a))"

definition sk_rep :: "('k::linorder, 'v) skip_list \<Rightarrow> nat list \<Rightarrow> bool" where
  "sk_rep s A \<longleftrightarrow> nodes_ok s A \<and> chains_ok s A"

text \<open>The predecessor of a key on level \<open>i\<close>.\<close>

definition pred :: "('k::linorder, 'v) skip_list \<Rightarrow> nat list \<Rightarrow> 'k \<Rightarrow> nat \<Rightarrow> nat" where
  "pred s A key i = last (sk_header s # level_list s (filter (\<lambda>a. key_of s a < key) A) i)"

lemma level_list_sub: "set (level_list s A i) \<subseteq> set A" "level_list s A 0 = A"
  by (auto simp: level_list_def)

lemma level_list_filter: "level_list s (filter P A) i = filter P (level_list s A i)"
  by (auto simp: level_list_def conj_commute)

lemma go_right_chain:
  assumes "\<And>a. a \<in> set L \<Longrightarrow> next_at s a i = Some (nxt_in L a)" "distinct L" "set Q \<subseteq> dom (sk_heap s)"
  shows "L = P @ cur # Q \<Longrightarrow> go_right s key i cur = Some (last (cur # takeWhile (\<lambda>a. key_of s a < key) Q))"
  using assms(3)
proof (induction Q arbitrary: P cur)
  case Nil
  then have "next_at s cur i = Some None" using assms(1)[of cur] assms(2) by (simp add: nxt_in_split)
  then show ?case by (simp add: go_right.simps[of s])
next
  case (Cons n Q)
  have nx: "next_at s cur i = Some (Some n)" using assms(1)[of cur] assms(2) Cons.prems(1) by (simp add: nxt_in_split)
  obtain nd where nd: "sk_heap s n = Some nd" "key_of s n = sk_key nd" using Cons.prems(2) by (auto simp: key_of_def)
  have "go_right s key i n = Some (last (n # takeWhile (\<lambda>a. key_of s a < key) Q))"
    using Cons.IH[of "P @ [cur]" n] Cons.prems by simp
  then show ?case using nx nd by (simp add: go_right.simps[of s key i cur])
qed

lemma sk_repD:
  assumes "sk_rep s A"
  shows "nodes_ok s A" "i \<le> sk_max_level s \<Longrightarrow> a \<in> set (sk_header s # level_list s A i) \<Longrightarrow>
    next_at s a i = Some (nxt_in (sk_header s # level_list s A i) a)"
  using assms unfolding sk_rep_def chains_ok_def by blast+

lemma go_right_pred:
  assumes rep: "sk_rep s A" and i: "i \<le> sk_max_level s"
    and cur: "cur \<in> set (sk_header s # level_list s (filter (\<lambda>a. key_of s a < key) A) i)"
  shows "go_right s key i cur = Some (pred s A key i)"
proof -
  let ?F = "level_list s A i" and ?T = "level_list s (filter (\<lambda>a. key_of s a < key) A) i"
  note nodes = sk_repD(1)[OF rep, unfolded nodes_ok_def]
  have srt: "sorted_wrt (<) (map (key_of s) ?F)" using nodes unfolding level_list_def by (blast intro: sorted_filter_map)
  define D where "D = dropWhile (\<lambda>a. key_of s a < key) ?F"
  have F: "?F = ?T @ D" unfolding D_def level_list_filter takeWhile_sorted[OF srt, THEN conjunct1, symmetric] by simp
  have D: "takeWhile (\<lambda>a. key_of s a < key) D = []" unfolding D_def by (metis takeWhile_eq_Nil_iff hd_dropWhile dropWhile_eq_Nil_conv)
  obtain P Q where split: "sk_header s # ?T = P @ cur # Q" using cur by (meson split_list)
  have Q: "\<forall>a \<in> set Q. key_of s a < key"
  proof
    fix a
    assume "a \<in> set Q"
    then have "a \<in> set ?T" using split by (cases P) auto
    then show "key_of s a < key" by (auto simp: level_list_def)
  qed
  have "go_right s key i cur = Some (last (cur # takeWhile (\<lambda>a. key_of s a < key) (Q @ D)))"
  proof (rule go_right_chain[where L = "sk_header s # ?F" and P = P])
    show "next_at s a i = Some (nxt_in (sk_header s # ?F) a)" if "a \<in> set (sk_header s # ?F)" for a
      using sk_repD(2)[OF rep i that] .
    show "distinct (sk_header s # ?F)" using nodes level_list_sub(1)[of s A i] by (auto simp: level_list_def)
    have "set (sk_header s # ?F) \<subseteq> dom (sk_heap s)" using nodes level_list_sub(1)[of s A i] by auto
    moreover have L: "sk_header s # ?F = P @ cur # Q @ D" using split F by simp
    ultimately show "set (Q @ D) \<subseteq> dom (sk_heap s)" by (metis (no_types, lifting) Un_iff list.set_intros(2) set_append subset_iff)
    show "sk_header s # ?F = P @ cur # Q @ D" by (rule L)
  qed
  moreover have "takeWhile (\<lambda>a. key_of s a < key) (Q @ D) = Q" using Q D by (simp add: takeWhile_append2)
  moreover have "pred s A key i = last (cur # Q)" unfolding pred_def split by (cases Q) auto
  ultimately show ?thesis by simp
qed

lemma pred_lower: "pred s A key (Suc i) \<in> set (sk_header s # level_list s (filter (\<lambda>a. key_of s a < key) A) i)"
proof -
  have "pred s A key (Suc i) \<in> set (sk_header s # level_list s (filter (\<lambda>a. key_of s a < key) A) (Suc i))"
    unfolding pred_def by (rule last_in_set) simp
  then show ?thesis by (auto simp: level_list_def)
qed

lemma go_down_preds:
  assumes rep: "sk_rep s A"
  shows "n \<le> sk_max_level s + 1 \<Longrightarrow> length upd = sk_max_level s + 1 \<Longrightarrow>
    (0 < n \<Longrightarrow> cur \<in> set (sk_header s # level_list s (filter (\<lambda>a. key_of s a < key) A) (n - 1))) \<Longrightarrow>
    \<exists>upd'. go_down s key n (cur, upd) = Some (if n = 0 then cur else pred s A key 0, upd') \<and>
      search_down s key n cur = Some (if n = 0 then cur else pred s A key 0) \<and> length upd' = length upd \<and>
      (\<forall>i < length upd. upd' ! i = (if i < n then Some (pred s A key i) else upd ! i))"
proof (induction n arbitrary: cur upd)
  case (Suc n)
  have right: "go_right s key n cur = Some (pred s A key n)" using go_right_pred[OF rep, of n cur key] Suc.prems by simp
  have "pred s A key n \<in> set (sk_header s # level_list s (filter (\<lambda>a. key_of s a < key) A) (n - 1))" if "0 < n"
    using pred_lower[of s A key "n - 1"] that by simp
  then obtain upd' where upd': "go_down s key n (pred s A key n, upd[n := Some (pred s A key n)]) = Some (if n = 0 then pred s A key n else pred s A key 0, upd')"
    "search_down s key n (pred s A key n) = Some (if n = 0 then pred s A key n else pred s A key 0)"
    "length upd' = length upd" "\<And>i. i < length upd \<Longrightarrow> upd' ! i = (if i < n then Some (pred s A key i) else upd[n := Some (pred s A key n)] ! i)"
    using Suc.IH[of "upd[n := Some (pred s A key n)]" "pred s A key n"] Suc.prems(1,2) by auto
  have "upd' ! i = (if i < Suc n then Some (pred s A key i) else upd ! i)" if "i < length upd" for i
    using upd'(4)[OF that] that Suc.prems(1,2) by (cases "i = n") auto
  then show ?case using right upd' Suc.prems(1,2) by (intro exI[of _ upd']) (cases "n = 0"; simp)
qed simp

section \<open>Searching\<close>

lemma nxt_in_last: "P \<noteq> [] \<Longrightarrow> distinct (P @ S) \<Longrightarrow> nxt_in (P @ S) (last P) = hd_opt S"
  using nxt_in_split[of "last P" "butlast P" S] by (cases P rule: rev_cases) auto

lemma key_split:
  assumes "nodes_ok s A"
  shows "A = filter (\<lambda>a. key_of s a < key) A @ filter (\<lambda>a. \<not> key_of s a < key) A"
proof -
  have "sorted_wrt (<) (map (key_of s) A)" using assms by (simp add: nodes_ok_def)
  from takeWhile_sorted[OF this, of key] show ?thesis using takeWhile_dropWhile_id[of "\<lambda>a. key_of s a < key" A] by metis
qed

lemma key_present:
  assumes "nodes_ok s A"
  shows "(case hd_opt (filter (\<lambda>a. \<not> key_of s a < key) A) of None \<Rightarrow> False | Some c \<Rightarrow> key_of s c = key) \<longleftrightarrow> key \<in> key_of s ` set A"
proof -
  let ?D = "filter (\<lambda>a. \<not> key_of s a < key) A"
  have srt: "sorted_wrt (<) (map (key_of s) ?D)" using assms by (auto simp: nodes_ok_def intro: sorted_filter_map)
  have mem: "key \<in> key_of s ` set A \<longleftrightarrow> key \<in> key_of s ` set ?D" by auto
  show ?thesis
  proof (cases ?D)
    case Nil
    then show ?thesis unfolding mem by simp
  next
    case (Cons c D)
    have "c \<in> set ?D" unfolding Cons by simp
    then have "key \<le> key_of s c" by (simp add: not_less)
    moreover have "key_of s c < key_of s d" if "d \<in> set D" for d using srt that unfolding Cons by auto
    ultimately show ?thesis unfolding mem Cons by fastforce
  qed
qed

lemma read_key:
  "set X \<subseteq> dom (sk_heap s) \<Longrightarrow>
    (case hd_opt X of None \<Rightarrow> Some False | Some c \<Rightarrow> do { nd \<leftarrow> sk_heap s c; Some (sk_key nd = key) }) =
    Some (case hd_opt X of None \<Rightarrow> False | Some c \<Rightarrow> key_of s c = key)"
  by (cases X) (auto simp: key_of_def)

lemma find_update_preds:
  assumes rep: "sk_rep s A"
  shows "\<exists>upd. find_update s key = Some (hd_opt (filter (\<lambda>a. \<not> key_of s a < key) A), upd) \<and> length upd = sk_max_level s + 1 \<and>
      (\<forall>i \<le> skip_list_level s. upd ! i = Some (pred s A key i))"
    "search_element s key = Some (key \<in> key_of s ` set A)"
proof -
  let ?T = "filter (\<lambda>a. key_of s a < key) A" and ?D = "filter (\<lambda>a. \<not> key_of s a < key) A"
  note nodes = sk_repD(1)[OF rep]
  note sp = key_split[OF nodes, of key]
  have A: "distinct (sk_header s # ?T @ ?D)" unfolding sp[symmetric] using nodes unfolding nodes_ok_def by blast
  have lvl: "skip_list_level s + 1 \<le> sk_max_level s + 1" using nodes by (simp add: nodes_ok_def)
  obtain upd where upd: "go_down s key (skip_list_level s + 1) (sk_header s, replicate (sk_max_level s + 1) None) = Some (pred s A key 0, upd)"
    "search_down s key (skip_list_level s + 1) (sk_header s) = Some (pred s A key 0)" "length upd = sk_max_level s + 1"
    "\<And>i. i < length upd \<Longrightarrow> i < skip_list_level s + 1 \<Longrightarrow> upd ! i = Some (pred s A key i)"
    using go_down_preds[OF rep lvl, of "replicate (sk_max_level s + 1) None" "sk_header s" key] by auto
  have "pred s A key 0 \<in> set (sk_header s # level_list s A 0)"
    unfolding pred_def level_list_filter level_list_sub(2) by (rule subsetD[OF _ last_in_set]) auto
  then have "next_at s (pred s A key 0) 0 = Some (nxt_in (sk_header s # A) (pred s A key 0))"
    using sk_repD(2)[OF rep, of 0] by (simp add: level_list_sub)
  also have "nxt_in (sk_header s # A) (pred s A key 0) = hd_opt ?D"
    using nxt_in_last[of "sk_header s # ?T" ?D] A unfolding pred_def level_list_sub(2) append_Cons sp[symmetric] by blast
  finally have nx: "next_at s (pred s A key 0) 0 = Some (hd_opt ?D)" .
  show "\<exists>upd. find_update s key = Some (hd_opt ?D, upd) \<and> length upd = sk_max_level s + 1 \<and>
      (\<forall>i \<le> skip_list_level s. upd ! i = Some (pred s A key i))"
    using upd nx lvl by (auto simp: find_update_def)
  have "set ?D \<subseteq> dom (sk_heap s)" using nodes by (auto simp: nodes_ok_def)
  then show "search_element s key = Some (key \<in> key_of s ` set A)"
    unfolding search_element_def using upd(2) nx key_present[OF nodes, of key] read_key[of ?D s key] by simp
qed

section \<open>Inserting\<close>

lemma fill_update:
  assumes "m < length upd"
  shows "\<exists>upd'. for_each (\<lambda>i update. vec_set update i (Some h)) [l..<m + 1] upd = Some upd' \<and> length upd' = length upd \<and>
    (\<forall>i. upd' ! i = (if l \<le> i \<and> i \<le> m then Some h else upd ! i))"
proof (cases "l \<le> m + 1")
  case True
  define I where "I k u \<longleftrightarrow> length u = length upd \<and> (\<forall>i. u ! i = (if l \<le> i \<and> i < k then Some h else upd ! i))" for k u
  have "\<exists>upd'. for_each (\<lambda>i update. vec_set update i (Some h)) [l..<m + 1] upd = Some upd' \<and> I (m + 1) upd'"
  proof (rule for_each_upt_inv[OF True])
    show "I l upd" by (auto simp: I_def)
    fix i u
    assume i: "l \<le> i" "i < m + 1" and "I i u"
    then have u: "length u = length upd" "\<And>j. u ! j = (if l \<le> j \<and> j < i then Some h else upd ! j)" by (simp_all add: I_def)
    have "u[i := Some h] ! j = (if l \<le> j \<and> j < Suc i then Some h else upd ! j)" for j
      using u(2)[of j] i u(1) assms by (cases "j = i") auto
    then show "\<exists>u'. vec_set u i (Some h) = Some u' \<and> I (Suc i) u'"
      using i u(1) assms by (intro exI[of _ "u[i := Some h]"]) (simp add: I_def)
  qed
  then show ?thesis by (simp add: I_def less_Suc_eq_le)
next
  case False
  then show ?thesis by auto
qed

lemma same_shape_height: "same_shape s s' \<Longrightarrow> height s' a = height s a"
  by (rule data_fields(1)) (simp add: same_shape_def)

lemma link_loop:
  assumes upd: "\<And>j. j \<le> m \<Longrightarrow> vec_at update j = Some (Some (P j))" "\<And>j. j \<le> m \<Longrightarrow> j < height s (P j) \<and> P j \<noteq> n"
    and n: "m < height s n"
  shows "\<exists>s'. for_each (\<lambda>i s. do {
            u \<leftarrow> vec_at update i;
            u \<leftarrow> u;
            p \<leftarrow> next_at s u i;
            s \<leftarrow> set_next_at s n i p;
            set_next_at s u i (Some n)}) [0..<m + 1] s = Some s' \<and>
    (same_shape s s' \<and> (\<forall>a j. next_at s' a j = (if j < m + 1 then
        if a = n then next_at s (P j) j else if a = P j then Some (Some n) else next_at s a j else next_at s a j)))"
proof (rule for_each_upt_inv[where I = "\<lambda>k s'. same_shape s s' \<and> (\<forall>a j. next_at s' a j = (if j < k then
        if a = n then next_at s (P j) j else if a = P j then Some (Some n) else next_at s a j else next_at s a j))"])
  fix i s1
  assume i: "i < m + 1" and I: "same_shape s s1 \<and> (\<forall>a j. next_at s1 a j = (if j < i then
        if a = n then next_at s (P j) j else if a = P j then Some (Some n) else next_at s a j else next_at s a j))"
  have h: "i < height s1 (P i)" "i < height s1 n" "P i \<noteq> n" using upd(2)[of i] n i I by (auto simp: same_shape_height)
  obtain p where p: "next_at s1 (P i) i = Some p" using h(1) next_at_None_iff[of s1 "P i" i] by auto
  obtain s2 where s2: "set_next_at s1 n i p = Some s2" "same_shape s1 s2"
    "\<And>b j. next_at s2 b j = (if b = n \<and> j = i then Some p else next_at s1 b j)" using set_next_at_ok[OF h(2)] by blast
  obtain s3 where s3: "set_next_at s2 (P i) i (Some n) = Some s3" "same_shape s2 s3"
    "\<And>b j. next_at s3 b j = (if b = P i \<and> j = i then Some (Some n) else next_at s2 b j)"
    using set_next_at_ok[of i s2 "P i" "Some n"] h(1) s2(2) by (auto simp: same_shape_height)
  have "same_shape s s3" using I s2(2) s3(2) same_shape_trans by blast
  moreover have "next_at s3 a j = (if j < Suc i then
        if a = n then next_at s (P j) j else if a = P j then Some (Some n) else next_at s a j else next_at s a j)" for a j
    using s3(3)[of a j] s2(3)[of a j] p h(3) I by (cases "j = i") auto
  ultimately show "\<exists>s'. do {
            u \<leftarrow> vec_at update i;
            u \<leftarrow> u;
            p \<leftarrow> next_at s1 u i;
            s \<leftarrow> set_next_at s1 n i p;
            set_next_at s u i (Some n)} = Some s' \<and> same_shape s s' \<and> (\<forall>a j. next_at s' a j = (if j < Suc i then
        if a = n then next_at s (P j) j else if a = P j then Some (Some n) else next_at s a j else next_at s a j))"
    using upd(1)[of i] i p s2(1) s3(1) by (intro exI[of _ s3]) simp
qed simp_all

lemma create_node_next:
  assumes "create_node s k v l = (n, s')"
  shows "n = sk_fresh s" "next_at s' a i = (if a = n then if i \<le> l then Some None else None else next_at s a i)"
    "data_of s' a = (if a = n then Some (k, v, l, l + 1) else data_of s a)"
    "sk_header s' = sk_header s" "sk_max_level s' = sk_max_level s" "skip_list_level s' = skip_list_level s"
    "element_count s' = element_count s" "sk_fresh s' = sk_fresh s + 1"
  using assms by (auto simp: create_node_def next_at_def data_of_def vec_at_def simp del: replicate_Suc)

lemma pred_above:
  assumes "nodes_ok s A" "skip_list_level s < i"
  shows "pred s A key i = sk_header s"
proof -
  have "level_list s (filter (\<lambda>a. key_of s a < key) A) i = []"
    using assms by (auto simp: level_list_def filter_empty_conv nodes_ok_def)
  then show ?thesis by (simp add: pred_def)
qed

lemma pred_props:
  assumes rep: "sk_rep s A" and "i \<le> sk_max_level s"
  shows "pred s A key i \<in> set (sk_header s # level_list s A i)" "i < height s (pred s A key i)" "pred s A key i < sk_fresh s"
proof -
  note nodes = sk_repD(1)[OF rep, unfolded nodes_ok_def]
  show mem: "pred s A key i \<in> set (sk_header s # level_list s A i)"
    unfolding pred_def level_list_filter by (rule subsetD[OF _ last_in_set]) auto
  show "i < height s (pred s A key i)" using mem nodes assms(2) by (auto simp: level_list_def)
  show "pred s A key i < sk_fresh s" using mem nodes by (auto simp: level_list_def)
qed

definition inserted :: "('k::linorder, 'v) skip_list \<Rightarrow> nat list \<Rightarrow> nat \<Rightarrow> 'k \<Rightarrow> 'v \<Rightarrow> ('k, 'v) skip_list \<Rightarrow> bool" where
  "inserted s A rl key value s' \<longleftrightarrow>
     (\<forall>a. data_of s' a = (if a = sk_fresh s then Some (key, value, rl, rl + 1) else data_of s a)) \<and>
     sk_fresh s' = sk_fresh s + 1 \<and> sk_header s' = sk_header s \<and> sk_max_level s' = sk_max_level s \<and>
     skip_list_level s' = max (skip_list_level s) rl \<and> element_count s' = element_count s + 1 \<and>
     (\<forall>a j. j \<le> rl \<longrightarrow> next_at s' a j = (if a = sk_fresh s then next_at s (pred s A key j) j
        else if a = pred s A key j then Some (Some (sk_fresh s)) else next_at s a j)) \<and>
     (\<forall>a j. rl < j \<longrightarrow> a \<noteq> sk_fresh s \<longrightarrow> next_at s' a j = next_at s a j)"

lemma insert_element_inserted:
  assumes rep: "sk_rep s A" and new: "key \<notin> key_of s ` set A"
  shows "\<exists>s'. insert_element s draws key value = Some (0, s') \<and> inserted s A (get_random_level (sk_max_level s) draws) key value s'"
proof -
  let ?D = "filter (\<lambda>a. \<not> key_of s a < key) A" and ?rl = "get_random_level (sk_max_level s) draws"
  note nodes = sk_repD(1)[OF rep]
  have rl: "?rl \<le> sk_max_level s" by (simp add: get_random_level_def Let_def)
  obtain upd where upd: "find_update s key = Some (hd_opt ?D, upd)" "length upd = sk_max_level s + 1"
    "\<And>i. i \<le> skip_list_level s \<Longrightarrow> upd ! i = Some (pred s A key i)" using find_update_preds(1)[OF rep] by blast
  have "set ?D \<subseteq> dom (sk_heap s)" using nodes by (auto simp: nodes_ok_def)
  then have found: "(case hd_opt ?D of None \<Rightarrow> Some False | Some c \<Rightarrow> do { nd \<leftarrow> sk_heap s c; Some (sk_key nd = key) }) = Some False"
    using read_key[of ?D s key] key_present[OF nodes, of key] new by simp
  obtain upd' where upd': "for_each (\<lambda>i update. vec_set update i (Some (sk_header s))) [skip_list_level s + 1..<?rl + 1] upd = Some upd'"
    "length upd' = length upd" "\<And>i. upd' ! i = (if skip_list_level s + 1 \<le> i \<and> i \<le> ?rl then Some (sk_header s) else upd ! i)"
    using fill_update[of ?rl upd "sk_header s" "skip_list_level s + 1"] rl upd(2) by auto
  define s1 where "s1 = (if ?rl > skip_list_level s then s\<lparr>skip_list_level := ?rl\<rparr> else s)"
  have s1: "next_at s1 a i = next_at s a i" "data_of s1 = data_of s" "sk_fresh s1 = sk_fresh s" "sk_header s1 = sk_header s"
    "sk_max_level s1 = sk_max_level s" "element_count s1 = element_count s" "skip_list_level s1 = max (skip_list_level s) ?rl" for a i
    by (auto simp: s1_def next_at_def data_of_def fun_eq_iff)
  obtain n s2 where cn: "create_node s1 key value ?rl = (n, s2)" by (cases "create_node s1 key value ?rl")
  note s2 = create_node_next[OF cn, unfolded s1]
  have P: "vec_at upd' j = Some (Some (pred s A key j)) \<and> j < height s2 (pred s A key j) \<and> pred s A key j \<noteq> n" if "j \<le> ?rl" for j
  proof -
    have "upd' ! j = Some (pred s A key j)" using upd'(3)[of j] upd(3)[of j] pred_above[OF nodes, of j key] that by auto
    moreover have "pred s A key j \<noteq> n" using pred_props(3)[OF rep, of j key] that rl s2(1) by simp
    moreover from this have "next_at s2 (pred s A key j) j \<noteq> None"
      using pred_props(2)[OF rep, of j key] that rl s2(2) next_at_None_iff[of s "pred s A key j" j] by simp
    ultimately show ?thesis using that rl upd(2) upd'(2) next_at_None_iff[of s2] by simp
  qed
  have "next_at s2 n ?rl \<noteq> None" using s2(2)[of n ?rl] by simp
  then have n: "?rl < height s2 n" using next_at_None_iff[of s2 n ?rl] by simp
  obtain s3 where s3: "for_each (\<lambda>i s. do {
            u \<leftarrow> vec_at upd' i;
            u \<leftarrow> u;
            p \<leftarrow> next_at s u i;
            s \<leftarrow> set_next_at s n i p;
            set_next_at s u i (Some n)}) [0..<?rl + 1] s2 = Some s3" "same_shape s2 s3"
    "\<And>a j. next_at s3 a j = (if j < ?rl + 1 then
        if a = n then next_at s2 (pred s A key j) j else if a = pred s A key j then Some (Some n) else next_at s2 a j else next_at s2 a j)"
    using link_loop[of ?rl upd' "pred s A key" s2 n] P n by blast
  let ?s = "s3\<lparr>element_count := element_count s3 + 1\<rparr>"
  have "insert_element s draws key value = Some (0, ?s)"
    unfolding insert_element_def upd(1) Option.bind.bind_lunit prod.case found upd'(1) Let_def s1_def[symmetric] cn if_False s3(1) by simp
  moreover have "next_at ?s a j = next_at s3 a j" "data_of ?s a = data_of s3 a" for a j by (simp_all add: next_at_def data_of_def)
  then have "inserted s A ?rl key value ?s"
    unfolding inserted_def using s3(2,3) s2 P by (auto simp: same_shape_def less_Suc_eq_le)
  ultimately show ?thesis by blast
qed

lemma data_of_Some:
  "data_of s a = Some (k, v, l, h) \<Longrightarrow> a \<in> dom (sk_heap s) \<and> key_of s a = k \<and> value_of s a = v \<and> lev s a = l \<and> height s a = h"
  by (auto simp: data_of_def key_of_def value_of_def lev_def height_def)

lemma dom_heap_data: "dom (sk_heap s) = dom (data_of s)"
  by (auto simp: data_of_def dom_def)

text \<open>Lists of nodes whose data are the same in two heaps.\<close>

lemma same_data_lists:
  assumes "\<And>a. a \<in> set X \<Longrightarrow> data_of s' a = data_of s a" "set X \<subseteq> dom (sk_heap s)"
  shows "map (key_of s') X = map (key_of s) X" "map (value_of s') X = map (value_of s) X" "level_list s' X i = level_list s X i"
proof -
  have eq: "key_of s' a = key_of s a \<and> value_of s' a = value_of s a \<and> lev s' a = lev s a" if "a \<in> set X" for a
    using data_fields(3)[of s' a s] assms that by blast
  then show "map (key_of s') X = map (key_of s) X" "map (value_of s') X = map (value_of s) X" by simp_all
  show "level_list s' X i = level_list s X i" unfolding level_list_def using eq by (intro filter_cong) simp_all
qed

lemma chain_insert:
  fixes h n :: nat
  assumes "distinct (h # T @ n # D)" and old: "\<And>a. a \<in> set (h # T @ D) \<Longrightarrow> f a = Some (nxt_in (h # T @ D) a)"
    and new: "\<And>a. g a = (if a = n then f (last (h # T)) else if a = last (h # T) then Some (Some n) else f a)"
    and a: "a \<in> set (h # T @ n # D)"
  shows "g a = Some (nxt_in (h # T @ n # D) a)"
proof -
  have "last (h # T) \<in> set (h # T)" by (rule last_in_set) simp
  then have "f (last (h # T)) = Some (nxt_in (h # T @ D) (last (h # T)))" using old[of "last (h # T)"] by auto
  moreover have "nxt_in (h # T @ D) (last (h # T)) = hd_opt D" using nxt_in_last[of "h # T" D] assms(1) by simp
  ultimately show ?thesis using nxt_in_insert[of "h # T" n D a] assms(1) old[of a] new[of a] a by auto
qed

lemma inserted_rep:
  assumes rep: "sk_rep s A" and new: "key \<notin> key_of s ` set A" and ins: "inserted s A rl key value s'" and rl: "rl \<le> sk_max_level s"
  defines "T \<equiv> filter (\<lambda>a. key_of s a < key) A" and "D \<equiv> filter (\<lambda>a. \<not> key_of s a < key) A"
  shows "sk_rep s' (T @ sk_fresh s # D)"
    "map (\<lambda>a. (key_of s' a, value_of s' a)) (T @ sk_fresh s # D) =
      map (\<lambda>a. (key_of s a, value_of s a)) T @ (key, value) # map (\<lambda>a. (key_of s a, value_of s a)) D"
proof -
  let ?n = "sk_fresh s" and ?h = "sk_header s"
  note nodes = sk_repD(1)[OF rep, unfolded nodes_ok_def]
  note I = ins[unfolded inserted_def]
  have A: "A = T @ D" unfolding T_def D_def by (rule key_split[OF sk_repD(1)[OF rep]])
  have fresh: "?n \<notin> set (?h # A)" using nodes by auto
  have sub: "set T \<subseteq> dom (sk_heap s)" "set D \<subseteq> dom (sk_heap s)" "set T \<subseteq> set A" "set D \<subseteq> set A" using nodes A by auto
  have same: "data_of s' a = data_of s a" if "a \<in> set (?h # A)" for a using I fresh that by auto
  have sameT: "data_of s' a = data_of s a" if "a \<in> set T" for a using same that sub by auto
  have sameD: "data_of s' a = data_of s a" if "a \<in> set D" for a using same that sub by auto
  note LT = same_data_lists[OF sameT sub(1)] and LD = same_data_lists[OF sameD sub(2)]
  have nd: "key_of s' ?n = key" "value_of s' ?n = value" "lev s' ?n = rl" "height s' ?n = rl + 1"
    using data_of_Some[of s' ?n key "value" rl "rl + 1"] I by simp_all
  have hT: "height s' a = height s a \<and> lev s' a = lev s a" if "a \<in> set A" for a
    using same[of a] data_fields(1,3)[of s' a s] that nodes by auto
  have "map (key_of s') (T @ ?n # D) = map (key_of s) T @ key # map (key_of s) D" using LT(1) LD(1) nd by simp
  moreover have "sorted_wrt (<) (map (key_of s) T @ key # map (key_of s) D)"
  proof -
    have "sorted_wrt (<) (map (key_of s) T @ map (key_of s) D)" using nodes A by (metis map_append)
    moreover have "key < key_of s d" if "d \<in> set D" for d
      using that new by (force simp: D_def)
    moreover have "key_of s d < key" if "d \<in> set T" for d using that by (simp add: T_def)
    ultimately show ?thesis by (auto simp: sorted_wrt_append)
  qed
  ultimately have srt: "sorted_wrt (<) (map (key_of s') (T @ ?n # D))" by (simp only:)
  have "dom (sk_heap s') = insert ?n (dom (sk_heap s))" unfolding dom_heap_data using I by auto
  then have dm: "dom (sk_heap s') = set (?h # T @ ?n # D)" using nodes A by auto
  have dist: "distinct (?h # T @ ?n # D)" using nodes A fresh by auto
  have hhd: "height s' ?h = sk_max_level s + 1" using same[of ?h] data_fields(1)[of s' ?h s] nodes by simp
  have "nodes_ok s' (T @ ?n # D)" unfolding nodes_ok_def
  proof (intro conjI)
    show "element_count s' = length (T @ ?n # D)" using I nodes A by (metis Suc_eq_plus1 add_Suc_right length_Cons length_append)
    show "\<forall>a \<in> set (T @ ?n # D). height s' a = lev s' a + 1 \<and> lev s' a \<le> skip_list_level s'"
    proof
      fix a
      assume "a \<in> set (T @ ?n # D)"
      then consider "a = ?n" | "a \<in> set A" using sub(3,4) by auto
      then show "height s' a = lev s' a + 1 \<and> lev s' a \<le> skip_list_level s'" using nd hT[of a] nodes I by cases auto
    qed
    show "\<forall>a \<in> set (sk_header s' # T @ ?n # D). a < sk_fresh s'" using I nodes sub(3,4) by (auto simp: less_Suc_eq)
  qed (use srt dm dist hhd I nodes rl in auto)
  moreover have "chains_ok s' (T @ ?n # D)" unfolding chains_ok_def
  proof (intro allI impI ballI)
    fix i a
    assume i: "i \<le> sk_max_level s'" and a: "a \<in> set (sk_header s' # level_list s' (T @ ?n # D) i)"
    have hdr: "sk_header s' = ?h" using I by blast
    have i': "i \<le> sk_max_level s" using i I by simp
    let ?T = "level_list s T i" and ?D = "level_list s D i"
    have lA: "level_list s A i = ?T @ ?D" using A by (simp add: level_list_def)
    have old: "next_at s b i = Some (nxt_in (?h # ?T @ ?D) b)" if "b \<in> set (?h # ?T @ ?D)" for b
      using sk_repD(2)[OF rep i', of b] that unfolding lA by simp
    have L: "level_list s' (T @ ?n # D) i = ?T @ (if i \<le> rl then ?n # ?D else ?D)"
      using LT(3)[of i] LD(3)[of i] nd by (simp add: level_list_def)
    show "next_at s' a i = Some (nxt_in (sk_header s' # level_list s' (T @ ?n # D) i) a)"
    proof (cases "i \<le> rl")
      case True
      have "next_at s' a i = Some (nxt_in (?h # ?T @ ?n # ?D) a)"
      proof (rule chain_insert[where f = "\<lambda>a. next_at s a i"])
        show "distinct (?h # ?T @ ?n # ?D)" using dist by (auto simp: level_list_def)
        show "next_at s' b i = (if b = ?n then next_at s (last (?h # ?T)) i else if b = last (?h # ?T) then Some (Some ?n) else next_at s b i)" for b
          using I True unfolding pred_def T_def by blast
      qed (use a L True hdr old in auto)
      then show ?thesis using L True hdr by simp
    next
      case False
      then have "a \<in> set (?h # ?T @ ?D)" using a L hdr by simp
      then have "a \<noteq> ?n" using fresh lA level_list_sub(1)[of s A i] by auto
      then have "next_at s' a i = next_at s a i" using I False by simp
      then show ?thesis using old[OF \<open>a \<in> set (?h # ?T @ ?D)\<close>] L False hdr by simp
    qed
  qed
  ultimately show "sk_rep s' (T @ ?n # D)" by (simp add: sk_rep_def)
  show "map (\<lambda>a. (key_of s' a, value_of s' a)) (T @ ?n # D) =
      map (\<lambda>a. (key_of s a, value_of s a)) T @ (key, value) # map (\<lambda>a. (key_of s a, value_of s a)) D"
    using LT(1,2) LD(1,2) nd by simp
qed

text \<open>Inserting a key that is present changes nothing and returns 1.\<close>

lemma insert_element_present:
  assumes rep: "sk_rep s A" and "key \<in> key_of s ` set A"
  shows "insert_element s draws key value = Some (1, s)"
proof -
  let ?D = "filter (\<lambda>a. \<not> key_of s a < key) A"
  note nodes = sk_repD(1)[OF rep]
  obtain upd where upd: "find_update s key = Some (hd_opt ?D, upd)" using find_update_preds(1)[OF rep] by blast
  have "set ?D \<subseteq> dom (sk_heap s)" using nodes by (auto simp: nodes_ok_def)
  then have found: "(case hd_opt ?D of None \<Rightarrow> Some False | Some c \<Rightarrow> do { nd \<leftarrow> sk_heap s c; Some (sk_key nd = key) }) = Some True"
    using read_key[of ?D s key] key_present[OF nodes, of key] assms(2) by simp
  show ?thesis unfolding insert_element_def upd Option.bind.bind_lunit prod.case found by simp
qed

section \<open>Deleting\<close>

lemma unlink_loop:
  assumes P: "\<And>j. j \<le> l \<Longrightarrow> vec_at update j = Some (Some (P j)) \<and> j < height s (P j) \<and> P j \<noteq> c"
    and m: "\<And>j. j \<le> l \<Longrightarrow> next_at s (P j) j = Some (Some c) \<longleftrightarrow> j \<le> m" "m < height s c" "m \<le> l"
  shows "i \<le> m + 1 \<Longrightarrow> same_shape s s1 \<Longrightarrow>
    (\<And>a j. next_at s1 a j = (if j < i \<and> a = P j then next_at s c j else next_at s a j)) \<Longrightarrow>
    \<exists>s'. unlink update c [i..<l + 1] s1 = Some s' \<and> same_shape s s' \<and>
      (\<forall>a j. next_at s' a j = (if j \<le> m \<and> a = P j then next_at s c j else next_at s a j))"
proof (induction "m + 1 - i" arbitrary: i s1)
  case 0
  then have i: "i = m + 1" by simp
  have "unlink update c [i..<l + 1] s1 = Some s1"
  proof (cases "i \<le> l")
    case True
    obtain p where p: "next_at s (P i) i = Some p" using P[OF True] next_at_None_iff[of s "P i" i] by auto
    then have "p \<noteq> Some c" using m(1)[OF True] i by simp
    moreover have "next_at s1 (P i) i = Some p" using 0(4)[of "P i" i] p by simp
    ultimately show ?thesis using P[OF True] True by (simp add: upt_conv_Cons del: upt_Suc)
  qed simp
  then show ?case using 0 i by (intro exI[of _ s1]) (simp add: less_Suc_eq_le)
next
  case (Suc n)
  have i: "i \<le> m" "i \<le> l" using Suc.hyps(2) m(3) by simp_all
  have next_i: "next_at s1 (P i) i = Some (Some c)" using Suc.prems(3)[of "P i" i] m(1)[OF i(2)] i by simp
  obtain q where q: "next_at s c i = Some q" using m(2) i(1) next_at_None_iff[of s c i] by auto
  have q1: "next_at s1 c i = Some q" using Suc.prems(3)[of c i] q by simp
  have h1: "i < height s1 (P i)" using P[OF i(2)] same_shape_height[OF Suc.prems(2)] by simp
  obtain s2 where s2: "set_next_at s1 (P i) i q = Some s2" "same_shape s1 s2"
    "\<And>b j. next_at s2 b j = (if b = P i \<and> j = i then Some q else next_at s1 b j)" using set_next_at_ok[OF h1] by blast
  have inv: "next_at s2 a j = (if j < Suc i \<and> a = P j then next_at s c j else next_at s a j)" for a j
    using s2(3)[of a j] Suc.prems(3)[of a j] q by (cases "j = i") auto
  obtain s' where "unlink update c [Suc i..<l + 1] s2 = Some s'" "same_shape s s'"
    "\<forall>a j. next_at s' a j = (if j \<le> m \<and> a = P j then next_at s c j else next_at s a j)"
    using Suc.hyps(1)[of "Suc i" s2, OF _ _ same_shape_trans[OF Suc.prems(2) s2(2)] inv] Suc.hyps(2) i by force
  moreover have "unlink update c [i..<l + 1] s1 = unlink update c [Suc i..<l + 1] s2"
    using P[OF i(2)] next_i q1 s2(1) i(2) by (simp add: upt_conv_Cons del: upt_Suc)
  ultimately show ?case by simp
qed

lemma lower_level_spec:
  "l < height s (sk_header s) \<Longrightarrow>
    \<exists>l'. lower_level s l = Some l' \<and> l' \<le> l \<and> (\<forall>j. l' < j \<longrightarrow> j \<le> l \<longrightarrow> next_at s (sk_header s) j = Some None)"
proof (induction l)
  case (Suc l)
  obtain p where p: "next_at s (sk_header s) (Suc l) = Some p" using Suc.prems next_at_None_iff[of s "sk_header s" "Suc l"] by auto
  then show ?case using Suc by (cases p) (auto simp: le_Suc_eq)
qed simp

definition deleted :: "('k::linorder, 'v) skip_list \<Rightarrow> nat list \<Rightarrow> nat \<Rightarrow> 'k \<Rightarrow> ('k, 'v) skip_list \<Rightarrow> bool" where
  "deleted s A c key s' \<longleftrightarrow> (\<forall>a. data_of s' a = (if a = c then None else data_of s a)) \<and>
     sk_fresh s' = sk_fresh s \<and> sk_header s' = sk_header s \<and> sk_max_level s' = sk_max_level s \<and>
     skip_list_level s' \<le> skip_list_level s \<and> element_count s' = element_count s - 1 \<and>
     (\<forall>a j. a \<noteq> c \<longrightarrow> next_at s' a j = (if j \<le> lev s c \<and> a = pred s A key j then next_at s c j else next_at s a j)) \<and>
     (\<forall>j. skip_list_level s' < j \<longrightarrow> j \<le> skip_list_level s \<longrightarrow> next_at s' (sk_header s) j = Some None)"

text \<open>A key that is present splits the nodes at its node.\<close>

lemma key_node:
  assumes rep: "sk_rep s A" and present: "key \<in> key_of s ` set A"
  obtains c D where "filter (\<lambda>a. \<not> key_of s a < key) A = c # D" "key_of s c = key" "c \<in> set A"
    "A = filter (\<lambda>a. key_of s a < key) A @ c # D"
proof -
  note nodes = sk_repD(1)[OF rep]
  let ?D = "filter (\<lambda>a. \<not> key_of s a < key) A"
  obtain c D where D: "?D = c # D" "key_of s c = key" using key_present[OF nodes, of key] present by (cases ?D) auto
  have "c \<in> set ?D" unfolding D(1) by simp
  then have "c \<in> set A" by simp
  moreover have "A = filter (\<lambda>a. key_of s a < key) A @ c # D" using key_split[OF nodes, of key] D(1) by simp
  ultimately show ?thesis using that[OF D] by blast
qed

lemma pred_next:
  assumes rep: "sk_rep s A" and A: "A = filter (\<lambda>a. key_of s a < key) A @ c # D" and i: "i \<le> sk_max_level s"
  shows "next_at s (pred s A key i) i = Some (Some c) \<longleftrightarrow> i \<le> lev s c"
proof -
  let ?T = "level_list s (filter (\<lambda>a. key_of s a < key) A) i" and ?D = "level_list s D i" and ?h = "sk_header s"
  let ?C = "if i \<le> lev s c then c # ?D else ?D"
  have L: "level_list s A i = ?T @ ?C" by (subst A) (simp add: level_list_def)
  have "distinct (?h # A)" using sk_repD(1)[OF rep] unfolding nodes_ok_def by blast
  moreover from this have "distinct (filter (\<lambda>a. key_of s a < key) A @ c # D)" using A by simp
  ultimately have dist: "distinct (?h # ?T @ ?C)" "c \<notin> set D" unfolding L[symmetric] by (auto simp: level_list_def)
  have "next_at s (pred s A key i) i = Some (nxt_in (?h # ?T @ ?C) (pred s A key i))"
    using sk_repD(2)[OF rep i pred_props(1)[OF rep i]] unfolding L .
  also have "nxt_in (?h # ?T @ ?C) (pred s A key i) = hd_opt ?C"
    using nxt_in_last[of "?h # ?T" ?C] dist(1) unfolding pred_def by simp
  finally have nx: "next_at s (pred s A key i) i = Some (hd_opt ?C)" .
  have "hd_opt ?D \<noteq> Some c" using dist(2) by (cases ?D) (auto simp: level_list_def filter_eq_Cons_iff)
  then show ?thesis using nx by simp
qed

lemma delete_element_deleted:
  assumes rep: "sk_rep s A" and c: "filter (\<lambda>a. \<not> key_of s a < key) A = c # D" "key_of s c = key" "c \<in> set A"
    "A = filter (\<lambda>a. key_of s a < key) A @ c # D"
  shows "\<exists>s'. delete_element s key = Some s' \<and> deleted s A c key s'"
proof -
  note nodes = sk_repD(1)[OF rep, unfolded nodes_ok_def]
  let ?l = "skip_list_level s"
  have lm: "?l \<le> sk_max_level s" "lev s c \<le> ?l" "lev s c < height s c" using nodes c(3) by auto
  have "c \<in> dom (sk_heap s)" using nodes c(3) by simp
  then obtain nd where nd: "sk_heap s c = Some nd" "sk_key nd = key" using c(2) by (auto simp: key_of_def)
  obtain upd where upd: "find_update s key = Some (Some c, upd)" "length upd = sk_max_level s + 1"
    "\<And>i. i \<le> ?l \<Longrightarrow> upd ! i = Some (pred s A key i)" using find_update_preds(1)[OF rep, of key] unfolding c(1) by auto
  have "distinct (sk_header s # A)" using nodes by blast
  then have "c \<notin> set (sk_header s # filter (\<lambda>a. key_of s a < key) A)" using c(2,3) by auto
  moreover have "pred s A key j \<in> set (sk_header s # filter (\<lambda>a. key_of s a < key) A)" for j
    unfolding pred_def by (rule subsetD[OF _ last_in_set]) (auto simp: level_list_def)
  ultimately have pc: "pred s A key j \<noteq> c" for j by metis
  have P: "vec_at upd j = Some (Some (pred s A key j)) \<and> j < height s (pred s A key j) \<and> pred s A key j \<noteq> c" if "j \<le> ?l" for j
    using upd(2,3) pred_props(2)[OF rep, of j key] lm(1) pc that by simp
  obtain s1 where s1: "unlink upd c [0..<?l + 1] s = Some s1" "same_shape s s1"
    "\<And>a j. next_at s1 a j = (if j \<le> lev s c \<and> a = pred s A key j then next_at s c j else next_at s a j)"
    using unlink_loop[of ?l upd "pred s A key" s c "lev s c" 0 s] P pred_next[OF rep c(4)] lm by auto
  have "?l < height s1 (sk_header s1)" using s1(2) same_shape_height[OF s1(2)] nodes by (simp add: same_shape_def)
  then obtain l where l: "lower_level s1 ?l = Some l" "l \<le> ?l" "\<And>j. l < j \<Longrightarrow> j \<le> ?l \<Longrightarrow> next_at s1 (sk_header s1) j = Some None"
    using lower_level_spec by blast
  let ?s = "s1\<lparr>skip_list_level := l, sk_heap := (sk_heap s1)(c := None), element_count := element_count s1 - 1\<rparr>"
  have "skip_list_level s1 = ?l" using s1(2) by (simp add: same_shape_def)
  then have "delete_element s key = Some ?s"
    unfolding delete_element_def using upd(1) nd s1(1) l(1) by simp
  moreover have "deleted s A c key ?s" unfolding deleted_def
  proof (intro conjI allI impI)
    fix a j
    show "data_of ?s a = (if a = c then None else data_of s a)"
      using s1(2) by (simp add: data_of_def same_shape_def fun_eq_iff)
    have same: "next_at ?s b j = next_at s1 b j" if "b \<noteq> c" for b using that by (simp add: next_at_def)
    show "next_at ?s a j = (if j \<le> lev s c \<and> a = pred s A key j then next_at s c j else next_at s a j)" if "a \<noteq> c"
      using same[OF that] s1(3) by simp
    show "next_at ?s (sk_header s) j = Some None" if "skip_list_level ?s < j" "j \<le> skip_list_level s"
    proof -
      have "sk_header s \<noteq> c" using nodes c(3) by auto
      then show ?thesis using same[of "sk_header s"] l(3)[of j] that s1(2) by (simp add: same_shape_def)
    qed
  qed (use s1(2) l(2) in \<open>simp_all add: same_shape_def\<close>)
  ultimately show ?thesis by blast
qed

lemma chain_delete:
  fixes h c :: nat
  assumes "distinct (h # T @ c # D)" and old: "\<And>a. a \<in> set (h # T @ c # D) \<Longrightarrow> f a = Some (nxt_in (h # T @ c # D) a)"
    and new: "g a = (if a = last (h # T) then f c else f a)" and a: "a \<in> set (h # T @ D)"
  shows "g a = Some (nxt_in (h # T @ D) a)"
proof -
  have "nxt_in (h # T @ D) (last (h # T)) = hd_opt D" using nxt_in_last[of "h # T" D] assms(1) by simp
  moreover have "f c = Some (hd_opt D)" using old[of c] nxt_in_split[of c "h # T" D] assms(1) by simp
  moreover have "a \<noteq> c" using a assms(1) by auto
  ultimately show ?thesis using nxt_in_insert[of "h # T" c D a] assms(1) old[of a] new a by auto
qed

lemma deleted_chains:
  assumes rep: "sk_rep s A" and A: "A = filter (\<lambda>a. key_of s a < key) A @ c # D" and del: "deleted s A c key s'"
    and lists: "\<And>i. level_list s' (filter (\<lambda>a. key_of s a < key) A @ D) i = level_list s (filter (\<lambda>a. key_of s a < key) A @ D) i"
  shows "chains_ok s' (filter (\<lambda>a. key_of s a < key) A @ D)"
  unfolding chains_ok_def
proof (intro allI impI ballI)
  let ?T = "filter (\<lambda>a. key_of s a < key) A" and ?h = "sk_header s"
  fix i a
  let ?Ti = "level_list s ?T i" and ?Di = "level_list s D i"
  assume i: "i \<le> sk_max_level s'" and a: "a \<in> set (sk_header s' # level_list s' (?T @ D) i)"
  note del' = del[unfolded deleted_def]
  have i': "i \<le> sk_max_level s" and hdr: "sk_header s' = ?h" using i del' by simp_all
  have dA: "distinct (?h # A)" using sk_repD(1)[OF rep] unfolding nodes_ok_def by blast
  then have dist: "distinct (?h # ?T @ c # D)" using A by simp
  have lA: "level_list s A i = ?Ti @ (if i \<le> lev s c then c # ?Di else ?Di)" by (subst A) (simp add: level_list_def)
  have L: "level_list s' (?T @ D) i = ?Ti @ ?Di" using lists[of i] by (simp add: level_list_def)
  have a: "a \<in> set (?h # ?Ti @ ?Di)" using a unfolding L hdr .
  have ac: "a \<noteq> c" using a dist by (auto simp: level_list_def)
  have new: "next_at s' a i = (if i \<le> lev s c \<and> a = pred s A key i then next_at s c i else next_at s a i)" using del' ac by blast
  have old: "next_at s b i = Some (nxt_in (?h # level_list s A i) b)" if "b \<in> set (?h # level_list s A i)" for b
    using sk_repD(2)[OF rep i' that] .
  show "next_at s' a i = Some (nxt_in (sk_header s' # level_list s' (?T @ D) i) a)" unfolding L hdr
  proof (cases "i \<le> lev s c")
    case True
    show "next_at s' a i = Some (nxt_in (?h # ?Ti @ ?Di) a)"
    proof (rule chain_delete[where f = "\<lambda>a. next_at s a i"])
      show "distinct (?h # ?Ti @ c # ?Di)" using dA dist by (auto simp: level_list_def)
      show "next_at s' a i = (if a = last (?h # ?Ti) then next_at s c i else next_at s a i)" using new True by (simp add: pred_def)
      show "next_at s b i = Some (nxt_in (?h # ?Ti @ c # ?Di) b)" if "b \<in> set (?h # ?Ti @ c # ?Di)" for b
        using old[of b] that True unfolding lA by simp
    qed (rule a)
  next
    case False
    then show "next_at s' a i = Some (nxt_in (?h # ?Ti @ ?Di) a)" using new old[of a] a unfolding lA by simp
  qed
qed

lemma deleted_rep:
  assumes rep: "sk_rep s A" and A: "A = filter (\<lambda>a. key_of s a < key) A @ c # D" and del: "deleted s A c key s'"
  defines "B \<equiv> filter (\<lambda>a. key_of s a < key) A @ D"
  shows "sk_rep s' B" "map (\<lambda>a. (key_of s' a, value_of s' a)) B = map (\<lambda>a. (key_of s a, value_of s a)) B"
proof -
  let ?T = "filter (\<lambda>a. key_of s a < key) A" and ?h = "sk_header s"
  note nodes = sk_repD(1)[OF rep, unfolded nodes_ok_def]
  note del' = del[unfolded deleted_def]
  have "distinct (?h # A)" using nodes by blast
  then have dist: "distinct (?h # ?T @ c # D)" using A by simp
  have BA: "set A = insert c (set B)" unfolding B_def by (subst A) auto
  have cB: "c \<notin> set (?h # B)" using dist unfolding B_def by auto
  have sub: "set B \<subseteq> dom (sk_heap s)" using nodes BA by auto
  have same: "data_of s' a = data_of s a" if "a \<in> set (?h # B)" for a
  proof -
    have "a \<noteq> c" using cB that by metis
    then show ?thesis using del' by simp
  qed
  have same': "data_of s' a = data_of s a" if "a \<in> set B" for a using same that by simp
  note L = same_data_lists[OF same' sub]
  show "map (\<lambda>a. (key_of s' a, value_of s' a)) B = map (\<lambda>a. (key_of s a, value_of s a)) B" using L(1,2) by simp
  have chains: "chains_ok s' B" unfolding B_def by (rule deleted_chains[OF rep A del]) (use L(3) in \<open>simp add: B_def\<close>)
  have hT: "height s' a = height s a \<and> lev s' a = lev s a" if "a \<in> set B" for a
    using same'[OF that] data_fields(1,3)[of s' a s] that sub by blast
  have low: "lev s' a \<le> skip_list_level s'" if "a \<in> set B" for a
  proof (rule ccontr)
    assume "\<not> lev s' a \<le> skip_list_level s'"
    moreover have "lev s' a \<le> skip_list_level s" using hT[OF that] nodes BA that by auto
    ultimately have "next_at s' ?h (lev s' a) = Some None" using del' by simp
    moreover have "next_at s' ?h (lev s' a) = Some (hd_opt (level_list s' B (lev s' a)))"
      using chains \<open>lev s' a \<le> skip_list_level s\<close> nodes del' unfolding chains_ok_def by auto
    ultimately have "level_list s' B (lev s' a) = []" by (cases "level_list s' B (lev s' a)") auto
    then show False using that by (auto simp: level_list_def filter_empty_conv)
  qed
  have "a \<in> dom (data_of s') \<longleftrightarrow> a \<in> dom (data_of s) - {c}" for a using del' by (cases "a = c") (simp_all add: domIff)
  then have "dom (sk_heap s') = dom (sk_heap s) - {c}" unfolding dom_heap_data by blast
  then have "dom (sk_heap s') = set (?h # B)" using nodes BA cB by auto
  moreover have "length A = Suc (length B)" unfolding B_def by (subst A) simp
  moreover have "sorted_wrt (<) (map (key_of s') B)"
  proof -
    have "sorted_wrt (<) (map (key_of s) (?T @ c # D))" using nodes A by simp
    then have "sorted_wrt (<) (map (key_of s) B)" unfolding B_def by (simp add: sorted_wrt_append)
    then show ?thesis using L(1) by (simp only:)
  qed
  moreover have "height s' ?h = sk_max_level s + 1" using same[of ?h] data_fields(1)[of s' ?h s] nodes by simp
  moreover have "distinct (?h # B)" using dist unfolding B_def by auto
  ultimately have "nodes_ok s' B" unfolding nodes_ok_def using nodes del' BA hT low by auto
  then show "sk_rep s' B" using chains by (simp add: sk_rep_def)
qed

lemma delete_element_absent:
  assumes rep: "sk_rep s A" and "key \<notin> key_of s ` set A"
  shows "delete_element s key = Some s"
proof -
  let ?D = "filter (\<lambda>a. \<not> key_of s a < key) A"
  note nodes = sk_repD(1)[OF rep]
  obtain upd where upd: "find_update s key = Some (hd_opt ?D, upd)" using find_update_preds(1)[OF rep] by blast
  show ?thesis
  proof (cases ?D)
    case (Cons c D)
    then have "c \<in> set ?D" by simp
    then have "c \<in> dom (sk_heap s)" using nodes by (simp add: nodes_ok_def)
    then show ?thesis using upd Cons key_present[OF nodes, of key] assms(2) by (auto simp: delete_element_def key_of_def)
  qed (use upd in \<open>simp add: delete_element_def\<close>)
qed

section \<open>Construction and destruction\<close>

lemma SkipList_rep: "sk_rep (SkipList max_level k v) []"
  by (auto simp: SkipList_def create_node_def sk_rep_def nodes_ok_def chains_ok_def height_def level_list_def next_at_def vec_at_def
      simp del: replicate_Suc)

lemma sk_clear_chain:
  "distinct (cur # Q) \<Longrightarrow> set (cur # Q) \<subseteq> dom (sk_heap s) \<Longrightarrow> (\<And>a. a \<in> set (cur # Q) \<Longrightarrow> next_at s a 0 = Some (nxt_in (cur # Q) a)) \<Longrightarrow>
    sk_clear cur s = Some (s\<lparr>sk_heap := sk_heap s |` (- set (cur # Q))\<rparr>)"
proof (induction Q arbitrary: cur)
  case Nil
  then show ?case by (subst sk_clear.simps) (auto simp: restrict_map_def fun_eq_iff)
next
  case (Cons n Q)
  have "sk_clear n s = Some (s\<lparr>sk_heap := sk_heap s |` (- set (n # Q))\<rparr>)"
  proof (rule Cons.IH)
    show "next_at s a 0 = Some (nxt_in (n # Q) a)" if "a \<in> set (n # Q)" for a using Cons.prems(1,3) that by auto
  qed (use Cons.prems in auto)
  moreover have "next_at s cur 0 = Some (Some n)" using Cons.prems(3)[of cur] by simp
  moreover have "cur \<in> dom (sk_heap s)" "cur \<notin> set (n # Q)" using Cons.prems(1,2) by auto
  moreover have "(sk_heap s |` (- set (n # Q)))(cur := None) = sk_heap s |` (- set (cur # n # Q))" by (auto simp: restrict_map_def fun_eq_iff)
  ultimately show ?case by (subst sk_clear.simps) (auto simp: restrict_map_def fun_eq_iff)
qed

text \<open>The destructor frees every node exactly once.\<close>

lemma SkipList_destroy_rep:
  assumes rep: "sk_rep s A"
  shows "\<exists>s'. SkipList_destroy s = Some s' \<and> sk_heap s' = (\<lambda>_. None)"
proof -
  let ?h = "sk_header s"
  note nodes = sk_repD(1)[OF rep, unfolded nodes_ok_def]
  have chain: "next_at s a 0 = Some (nxt_in (?h # A) a)" if "a \<in> set (?h # A)" for a
    using sk_repD(2)[OF rep, of 0 a] that by (simp add: level_list_sub)
  define s1 where "s1 = s\<lparr>sk_heap := sk_heap s |` (- set A)\<rparr>"
  have "(case hd_opt A of None \<Rightarrow> Some s | Some n \<Rightarrow> sk_clear n s) = Some s1"
  proof (cases A)
    case (Cons n Q)
    have "sk_clear n s = Some (s\<lparr>sk_heap := sk_heap s |` (- set (n # Q))\<rparr>)"
    proof (rule sk_clear_chain)
      show "next_at s a 0 = Some (nxt_in (n # Q) a)" if "a \<in> set (n # Q)" for a using chain[of a] nodes that unfolding Cons by auto
    qed (use nodes Cons in auto)
    then show ?thesis using Cons by (simp add: s1_def)
  qed (simp add: s1_def restrict_map_def)
  moreover have "next_at s ?h 0 = Some (hd_opt A)" using chain[of ?h] by simp
  moreover have "?h \<in> dom (sk_heap s1)"
  proof -
    have "?h \<in> dom (sk_heap s)" "?h \<notin> set A" using nodes by simp_all
    then show ?thesis by (auto simp: s1_def restrict_map_def)
  qed
  moreover have "(sk_heap s1)(?h := None) = (\<lambda>_. None)"
  proof
    fix a
    have "a \<in> dom (sk_heap s) \<longleftrightarrow> a = ?h \<or> a \<in> set A" using nodes by auto
    then show "((sk_heap s1)(?h := None)) a = None" by (auto simp: s1_def restrict_map_def)
  qed
  moreover have "sk_header s1 = ?h" by (simp add: s1_def)
  ultimately show ?thesis unfolding SkipList_destroy_def by (auto simp del: fun_upd_apply)
qed

section \<open>The contract of a map\<close>

text \<open>
  A container \<open>s\<close> that holds a finite map \<open>m\<close>: an insertion never overwrites, a search decides membership, a deletion removes one key,
  the size is the number of keys.  The client is any sequence of calls.
\<close>

datatype ('k, 'v) map_call = Insert_call nat 'k 'v | Search_call 'k | Delete_call 'k | Size_call

datatype map_reply = Inserted | Exists | Found bool | Deleted | Size nat

fun map_answer :: "('k, 'v) map_call \<Rightarrow> ('k \<rightharpoonup> 'v) \<Rightarrow> map_reply \<times> ('k \<rightharpoonup> 'v)" where
  "map_answer (Insert_call r k v) m = (if k \<in> dom m then (Exists, m) else (Inserted, m(k \<mapsto> v)))"
| "map_answer (Search_call k) m = (Found (k \<in> dom m), m)"
| "map_answer (Delete_call k) m = (Deleted, m(k := None))"
| "map_answer Size_call m = (Size (card (dom m)), m)"

primrec map_answers :: "('k, 'v) map_call list \<Rightarrow> ('k \<rightharpoonup> 'v) \<Rightarrow> map_reply list \<times> ('k \<rightharpoonup> 'v)" where
  "map_answers [] m = ([], m)"
| "map_answers (c # cs) m = (let (r, m) = map_answer c m; (rs, m) = map_answers cs m in (r # rs, m))"

locale map_contract =
  fixes rep :: "'s \<Rightarrow> ('k \<rightharpoonup> 'v) \<Rightarrow> bool"
    and insert_op :: "'s \<Rightarrow> nat \<Rightarrow> 'k \<Rightarrow> 'v \<Rightarrow> (nat \<times> 's) option"
    and search_op :: "'s \<Rightarrow> 'k \<Rightarrow> bool option"
    and delete_op :: "'s \<Rightarrow> 'k \<Rightarrow> 's option"
    and size_op :: "'s \<Rightarrow> nat"
  assumes insert_present: "rep s m \<Longrightarrow> k \<in> dom m \<Longrightarrow> insert_op s r k v = Some (1, s)"
    and insert_new: "rep s m \<Longrightarrow> k \<notin> dom m \<Longrightarrow> \<exists>s'. insert_op s r k v = Some (0, s') \<and> rep s' (m(k \<mapsto> v))"
    and search: "rep s m \<Longrightarrow> search_op s k = Some (k \<in> dom m)"
    and delete: "rep s m \<Longrightarrow> \<exists>s'. delete_op s k = Some s' \<and> rep s' (m(k := None))"
    and size: "rep s m \<Longrightarrow> size_op s = card (dom m)"
begin

fun perform :: "('k, 'v) map_call \<Rightarrow> 's \<Rightarrow> (map_reply \<times> 's) option" where
  "perform (Insert_call r k v) s = map_option (\<lambda>(i, s). (if i = 0 then Inserted else Exists, s)) (insert_op s r k v)"
| "perform (Search_call k) s = map_option (\<lambda>b. (Found b, s)) (search_op s k)"
| "perform (Delete_call k) s = map_option (\<lambda>s. (Deleted, s)) (delete_op s k)"
| "perform Size_call s = Some (Size (size_op s), s)"

primrec performs :: "('k, 'v) map_call list \<Rightarrow> 's \<Rightarrow> (map_reply list \<times> 's) option" where
  "performs [] s = Some ([], s)"
| "performs (c # cs) s = do { (r, s) \<leftarrow> perform c s; (rs, s) \<leftarrow> performs cs s; Some (r # rs, s) }"

lemma perform_answer: "rep s m \<Longrightarrow> \<exists>s'. perform c s = Some (fst (map_answer c m), s') \<and> rep s' (snd (map_answer c m))"
proof (cases c)
  case (Insert_call r k v)
  assume "rep s m"
  then show ?thesis using Insert_call insert_present insert_new[of s m k r v] by (cases "k \<in> dom m") auto
next
  case (Delete_call k)
  assume "rep s m"
  then show ?thesis using Delete_call delete[of s m k] by auto
qed (auto simp: search size)

lemma performs_answers: "rep s m \<Longrightarrow> \<exists>s'. performs cs s = Some (fst (map_answers cs m), s') \<and> rep s' (snd (map_answers cs m))"
proof (induction cs arbitrary: s m)
  case (Cons c cs)
  obtain s1 where s1: "perform c s = Some (fst (map_answer c m), s1)" "rep s1 (snd (map_answer c m))"
    using perform_answer[OF Cons.prems] by blast
  then show ?case using Cons.IH[OF s1(2)] by (auto split: prod.splits)
qed simp

end

text \<open>The calls on the skip list, with the random level of each insertion.\<close>

fun sk_perform :: "('k::linorder, 'v) map_call \<Rightarrow> ('k, 'v) skip_list \<Rightarrow> (map_reply \<times> ('k, 'v) skip_list) option" where
  "sk_perform (Insert_call r k v) s = map_option (\<lambda>(i, s). (if i = 0 then Inserted else Exists, s)) (insert_element s r k v)"
| "sk_perform (Search_call k) s = map_option (\<lambda>b. (Found b, s)) (search_element s k)"
| "sk_perform (Delete_call k) s = map_option (\<lambda>s. (Deleted, s)) (delete_element s k)"
| "sk_perform Size_call s = Some (Size (sk_size s), s)"

primrec sk_performs :: "('k::linorder, 'v) map_call list \<Rightarrow> ('k, 'v) skip_list \<Rightarrow> (map_reply list \<times> ('k, 'v) skip_list) option" where
  "sk_performs [] s = Some ([], s)"
| "sk_performs (c # cs) s = do { (r, s) \<leftarrow> sk_perform c s; (rs, s) \<leftarrow> sk_performs cs s; Some (r # rs, s) }"

definition sk_contents :: "('k, 'v) skip_list \<Rightarrow> nat list \<Rightarrow> ('k \<times> 'v) list" where
  "sk_contents s A = map (\<lambda>a. (key_of s a, value_of s a)) A"

definition sk_map_rep :: "nat \<Rightarrow> ('k::linorder, 'v) skip_list \<Rightarrow> ('k \<rightharpoonup> 'v) \<Rightarrow> bool" where
  "sk_map_rep M s m \<longleftrightarrow> sk_max_level s = M \<and> (\<exists>A. sk_rep s A \<and> m = map_of (sk_contents s A))"

lemma dom_contents [simp]: "dom (map_of (sk_contents s A)) = key_of s ` set A"
  by (auto simp: sk_contents_def dom_map_of_conv_image_fst image_image)

lemma sk_map_repE:
  assumes "sk_map_rep M s m"
  obtains A where "sk_max_level s = M" "sk_rep s A" "m = map_of (sk_contents s A)" "dom m = key_of s ` set A"
  using assms unfolding sk_map_rep_def by fastforce

lemma map_of_add_entry: "xs = T @ D \<Longrightarrow> k \<notin> dom (map_of T) \<Longrightarrow> (map_of xs)(k \<mapsto> v) = map_of (T @ (k, v) # D)"
  by (simp add: map_add_def fun_eq_iff domIff split: option.splits)

lemma map_of_drop_entry: "k \<notin> dom (map_of (T @ D)) \<Longrightarrow> (map_of (T @ (k, v) # D))(k := None) = map_of (T @ D)"
  by (simp add: map_add_def fun_eq_iff domIff split: option.splits)

lemma sk_insert_new:
  assumes "sk_map_rep M s m" "k \<notin> dom m"
  shows "\<exists>s'. insert_element s r k v = Some (0, s') \<and> sk_map_rep M s' (m(k \<mapsto> v))"
proof -
  obtain A where M: "sk_max_level s = M" and A: "sk_rep s A" "m = map_of (sk_contents s A)" "dom m = key_of s ` set A" using assms(1) by (rule sk_map_repE)
  let ?T = "filter (\<lambda>a. key_of s a < k) A" and ?D = "filter (\<lambda>a. \<not> key_of s a < k) A"
  have new: "k \<notin> key_of s ` set A" using assms(2) A(3) by simp
  obtain s' where s': "insert_element s r k v = Some (0, s')" "inserted s A (get_random_level (sk_max_level s) r) k v s'"
    using insert_element_inserted[OF A(1) new] by blast
  have rl: "get_random_level (sk_max_level s) r \<le> sk_max_level s" by (simp add: get_random_level_def Let_def)
  note R = inserted_rep[OF A(1) new s'(2) rl]
  have "sk_contents s A = sk_contents s ?T @ sk_contents s ?D"
    using key_split[OF sk_repD(1)[OF A(1)], of k] unfolding sk_contents_def by (metis map_append)
  moreover have "k \<notin> dom (map_of (sk_contents s ?T))" using new by auto
  ultimately have "m(k \<mapsto> v) = map_of (sk_contents s ?T @ (k, v) # sk_contents s ?D)"
    unfolding A(2) by (rule map_of_add_entry)
  also have "\<dots> = map_of (sk_contents s' (?T @ sk_fresh s # ?D))" using R(2) unfolding sk_contents_def by (simp only:)
  finally have "m(k \<mapsto> v) = map_of (sk_contents s' (?T @ sk_fresh s # ?D))" .
  moreover have "sk_max_level s' = M" using s'(2) M by (simp add: inserted_def)
  ultimately show ?thesis using s'(1) R(1) unfolding sk_map_rep_def by blast
qed

lemma sk_delete:
  assumes "sk_map_rep M s m"
  shows "\<exists>s'. delete_element s k = Some s' \<and> sk_map_rep M s' (m(k := None))"
proof -
  obtain A where M: "sk_max_level s = M" and A: "sk_rep s A" "m = map_of (sk_contents s A)" "dom m = key_of s ` set A" using assms by (rule sk_map_repE)
  show ?thesis
  proof (cases "k \<in> dom m")
    case True
    let ?T = "filter (\<lambda>a. key_of s a < k) A"
    obtain c D where c: "filter (\<lambda>a. \<not> key_of s a < k) A = c # D" "key_of s c = k" "c \<in> set A" "A = ?T @ c # D"
      using key_node[OF A(1)] True A(3) by metis
    obtain s' where s': "delete_element s k = Some s'" "deleted s A c k s'" using delete_element_deleted[OF A(1) c] by blast
    note R = deleted_rep[OF A(1) c(4) s'(2)]
    have "sorted_wrt (<) (map (key_of s) (?T @ c # D))" using sk_repD(1)[OF A(1)] c(4) by (simp add: nodes_ok_def)
    then have "\<forall>x \<in> set D. k < key_of s x" using c(2) unfolding map_append sorted_wrt_append by simp
    then have "k \<notin> dom (map_of (sk_contents s (?T @ D)))" unfolding dom_contents by auto
    moreover have "sk_contents s (?T @ D) = sk_contents s ?T @ sk_contents s D" by (simp add: sk_contents_def)
    ultimately have "k \<notin> dom (map_of (sk_contents s ?T @ sk_contents s D))" by (simp only:) simp
    from map_of_drop_entry[OF this, of "value_of s c"]
    have "(map_of (sk_contents s (?T @ c # D)))(k := None) = map_of (sk_contents s (?T @ D))" using c(2) by (simp add: sk_contents_def)
    then have "m(k := None) = map_of (sk_contents s (?T @ D))" using A(2) c(4) by (simp only:)
    moreover have "sk_max_level s' = M" using s'(2) M by (simp add: deleted_def)
    moreover have "sk_contents s' (?T @ D) = sk_contents s (?T @ D)" using R(2) by (simp only: sk_contents_def)
    ultimately have "sk_max_level s' = M \<and> sk_rep s' (?T @ D) \<and> m(k := None) = map_of (sk_contents s' (?T @ D))"
      using R(1) by (simp only:)
    then show ?thesis using s'(1) unfolding sk_map_rep_def by blast
  next
    case False
    then have "m(k := None) = m" by (auto simp: fun_eq_iff)
    then show ?thesis using delete_element_absent[OF A(1)] False A(3) assms by auto
  qed
qed

interpretation sk: map_contract "sk_map_rep M" insert_element search_element delete_element sk_size for M :: nat
proof
  fix s :: "('k::linorder, 'v) skip_list" and m k r v
  assume rep: "sk_map_rep M s m"
  show "\<exists>s'. insert_element s r k v = Some (0, s') \<and> sk_map_rep M s' (m(k \<mapsto> v))" if "k \<notin> dom m" using sk_insert_new[OF rep that] .
  show "\<exists>s'. delete_element s k = Some s' \<and> sk_map_rep M s' (m(k := None))" using sk_delete[OF rep] .
  from rep obtain A where M: "sk_max_level s = M" and A: "sk_rep s A" "m = map_of (sk_contents s A)" "dom m = key_of s ` set A" by (rule sk_map_repE)
  show "insert_element s r k v = Some (1, s)" if "k \<in> dom m" using insert_element_present[OF A(1)] that A(3) by simp
  show "search_element s k = Some (k \<in> dom m)" using find_update_preds(2)[OF A(1)] A(3) by simp
  have "distinct (map (key_of s) A)" "element_count s = length A"
    using sk_repD(1)[OF A(1)] by (auto simp: nodes_ok_def strict_sorted_iff)
  then show "sk_size s = card (dom m)" unfolding A(3) sk_size_def by (metis card_image distinct_card distinct_map length_map list.set_map)
qed

lemma sk_performs_eq: "sk.performs cs s = sk_performs cs s"
proof (induction cs arbitrary: s)
  case (Cons c cs)
  have "sk.perform c s = sk_perform c s" for s by (cases c) simp_all
  then show ?case using Cons by simp
qed simp

lemma sk_reachable:
  "\<exists>s A. sk_performs cs (SkipList max_level k v) = Some (fst (map_answers cs Map.empty), s) \<and> sk_rep s A \<and>
     map_of (sk_contents s A) = snd (map_answers cs Map.empty) \<and> sk_max_level s = max_level"
  using sk.performs_answers[of max_level "SkipList max_level k v" Map.empty cs] SkipList_rep[of max_level k v]
  unfolding sk_performs_eq sk_map_rep_def by (auto simp: sk_contents_def SkipList_def create_node_def)

section \<open>Properties\<close>

text \<open>
  C25: a skip list of any maximal level refines a finite map: every sequence of insertions, searches, deletions and size
  queries, with any random levels, runs without touching a null or freed pointer or leaving an array, gives the replies of the map,
  and ends in a list whose nodes hold the map; the destructor then frees every node.
\<close>

theorem sk_refines_map:
  "\<exists>s A. sk_performs cs (SkipList max_level k v) = Some (fst (map_answers cs Map.empty), s) \<and>
     sk_rep s A \<and> map_of (sk_contents s A) = snd (map_answers cs Map.empty) \<and>
     (\<exists>s'. SkipList_destroy s = Some s' \<and> sk_heap s' = (\<lambda>_. None))"
  using sk_reachable[of cs max_level k v] SkipList_destroy_rep by blast

text \<open>Walking the pointers of a level.\<close>

fun walk :: "('k, 'v) skip_list \<Rightarrow> nat \<Rightarrow> nat \<Rightarrow> nat \<Rightarrow> nat list option" where
  "walk s i 0 a = None"
| "walk s i (Suc fuel) a = do {
     p \<leftarrow> next_at s a i;
     (case p of None \<Rightarrow> Some [] | Some n \<Rightarrow> do { ns \<leftarrow> walk s i fuel n; Some (n # ns) })}"

lemma walk_chain:
  assumes "\<And>a. a \<in> set L \<Longrightarrow> next_at s a i = Some (nxt_in L a)" "distinct L"
  shows "L = P @ cur # Q \<Longrightarrow> length Q < fuel \<Longrightarrow> walk s i fuel cur = Some Q"
proof (induction Q arbitrary: P cur fuel)
  case Nil
  then show ?case using assms(1)[of cur] assms(2) by (cases fuel) (auto simp: nxt_in_split)
next
  case (Cons n Q)
  obtain fuel' where fuel: "fuel = Suc fuel'" "length Q < fuel'" using Cons.prems(2) by (cases fuel) auto
  have "next_at s cur i = Some (Some n)" using assms(1)[of cur] assms(2) Cons.prems(1) by (simp add: nxt_in_split)
  moreover have "walk s i fuel' n = Some Q" using Cons.IH[of "P @ [cur]" n fuel'] Cons.prems(1) fuel(2) by simp
  ultimately show ?case using fuel(1) by simp
qed

text \<open>
  C35: after any calls, walking the pointers of a level from the header visits exactly the nodes of at least that
  level, in strictly increasing order of their keys, and ends in a null pointer.
\<close>

theorem sk_levels_sorted:
  assumes "sk_performs cs (SkipList max_level k v) = Some (rs, s)" "i \<le> max_level"
  shows "\<exists>ns. walk s i (sk_size s + 1) (sk_header s) = Some ns \<and> sorted_wrt (<) (map (key_of s) ns) \<and>
    set ns = {a \<in> dom (sk_heap s). a \<noteq> sk_header s \<and> i \<le> lev s a} \<and> (\<forall>a \<in> set ns. height s a = lev s a + 1)"
proof -
  obtain A where rep: "sk_rep s A" and i: "i \<le> sk_max_level s" using sk_reachable[of cs max_level k v] assms by auto
  note nodes = sk_repD(1)[OF rep, unfolded nodes_ok_def]
  let ?L = "level_list s A i"
  have "walk s i (sk_size s + 1) (sk_header s) = Some ?L"
  proof (rule walk_chain[where P = "[]"])
    show "next_at s a i = Some (nxt_in (sk_header s # ?L) a)" if "a \<in> set (sk_header s # ?L)" for a
      using sk_repD(2)[OF rep i that] .
    show "distinct (sk_header s # ?L)" using nodes level_list_sub(1)[of s A i] by (auto simp: level_list_def)
    show "length ?L < sk_size s + 1" using nodes by (simp add: sk_size_def level_list_def less_Suc_eq_le)
  qed simp
  moreover have "sorted_wrt (<) (map (key_of s) ?L)" using nodes unfolding level_list_def by (blast intro: sorted_filter_map)
  moreover have "set ?L = {a \<in> dom (sk_heap s). a \<noteq> sk_header s \<and> i \<le> lev s a}" using nodes by (auto simp: level_list_def)
  ultimately show ?thesis using nodes by (intro exI[of _ ?L]) (auto simp: level_list_def)
qed

definition sk_example :: "(nat, nat) map_call list" where
  "sk_example = [Insert_call 0 5 50, Insert_call 1 3 30, Insert_call 0 3 31, Search_call 3, Delete_call 5, Search_call 5, Size_call]"

theorem sk_levels_sorted_witness:
  "\<exists>s ns. sk_performs sk_example (SkipList 2 0 0) = Some ([Inserted, Inserted, Exists, Found True, Deleted, Found False, Size 1], s) \<and>
    walk s 1 (sk_size s + 1) (sk_header s) = Some ns \<and> sorted_wrt (<) (map (key_of s) ns) \<and>
    set ns = {a \<in> dom (sk_heap s). a \<noteq> sk_header s \<and> 1 \<le> lev s a}"
proof -
  have "fst (map_answers sk_example Map.empty) = [Inserted, Inserted, Exists, Found True, Deleted, Found False, Size 1]"
    by (simp add: sk_example_def dom_def) 
  then obtain s where s: "sk_performs sk_example (SkipList 2 0 0) = Some ([Inserted, Inserted, Exists, Found True, Deleted, Found False, Size 1], s)"
    using sk_reachable[of sk_example 2 0 0] by auto
  then show ?thesis using sk_levels_sorted[OF s, of 1] by auto
qed

end
