(* ===== verification/Skip_List_File.thy ===== *)
theory Skip_List_File
  imports Skip_List
begin

text \<open>
  The file operations of \<^verbatim>\<open>src/cc/cclab/src/common/skiplist/skiplist_v2.h\<close>, which are for integer keys and strings: the content
  of the file is a string, the random draws of the insertions are a function of the line number.  Reading back a written file gives
  the same map when no value is empty or holds a line feed.
\<close>

section \<open>The code\<close>

text \<open>The text that \<^verbatim>\<open>dump_file\<close> writes, from the node \<open>node\<close> on.\<close>

partial_function (option) dump_from :: "(int, string) skip_list \<Rightarrow> nat option \<Rightarrow> string option" where
  "dump_from s node = (case node of
     None \<Rightarrow> Some []
   | Some n \<Rightarrow> Option.bind (sk_heap s n) (\<lambda>nd. Option.bind (next_at s n 0) (\<lambda>p. Option.bind (dump_from s p)
       (\<lambda>rest. Some (to_string (sk_key nd) @ '':'' @ sk_value nd @ [CHR 0x0A] @ rest)))))"

definition dump_file :: "(int, string) skip_list \<Rightarrow> string option" where
  "dump_file s = do { node \<leftarrow> next_at s (sk_header s) 0; dump_from s node }"

definition is_valid_string :: "string \<Rightarrow> bool" where
  "is_valid_string str \<longleftrightarrow> str \<noteq> [] \<and> CHR '':'' \<in> set str"

text \<open>The strings \<^verbatim>\<open>key\<close> and \<^verbatim>\<open>value\<close> keep their contents when the line is not valid.\<close>

definition get_key_value_from_string :: "string \<Rightarrow> string \<times> string \<Rightarrow> string \<times> string" where
  "get_key_value_from_string str kv =
     (if \<not> is_valid_string str then kv
      else (takeWhile (\<lambda>c. c \<noteq> CHR '':'') str, drop 1 (dropWhile (\<lambda>c. c \<noteq> CHR '':'') str)))"

text \<open>\<^verbatim>\<open>getline\<close>: the lines of a file, a last line without line feed included.\<close>

function lines_of :: "string \<Rightarrow> string list" where
  "lines_of str = (if str = [] then []
     else takeWhile (\<lambda>c. c \<noteq> CHR 0x0A) str # lines_of (drop 1 (dropWhile (\<lambda>c. c \<noteq> CHR 0x0A) str)))"
  by auto
termination lines_of
proof (relation "measure length")
  fix str :: string
  assume "str \<noteq> []"
  moreover have "length (dropWhile (\<lambda>c. c \<noteq> CHR 0x0A) str) \<le> length str" by (rule length_dropWhile_le)
  ultimately show "(drop 1 (dropWhile (\<lambda>c. c \<noteq> CHR 0x0A) str), str) \<in> measure length" by (cases str) auto
qed simp

declare lines_of.simps [simp del]

text \<open>An exception of \<^verbatim>\<open>stoi\<close> ends the loading; the lines before it stay inserted.\<close>

primrec load_lines ::
  "(nat \<Rightarrow> nat) \<Rightarrow> nat \<Rightarrow> string \<times> string \<Rightarrow> string list \<Rightarrow> (int, string) skip_list \<Rightarrow> (stoi_error option \<times> (int, string) skip_list) option" where
  "load_lines draws i kv [] s = Some (None, s)"
| "load_lines draws i kv (line # lines) s =
     (let (key, value) = get_key_value_from_string line kv in
      if key = [] \<or> value = [] then load_lines draws (i + 1) (key, value) lines s
      else (case stoi key of
          Inl e \<Rightarrow> Some (Some e, s)
        | Inr k \<Rightarrow> do { (_, s) \<leftarrow> insert_element s (draws i) k value; load_lines draws (i + 1) (key, value) lines s }))"

definition load_file :: "(nat \<Rightarrow> nat) \<Rightarrow> string \<Rightarrow> (int, string) skip_list \<Rightarrow> (stoi_error option \<times> (int, string) skip_list) option" where
  "load_file draws file s = load_lines draws 0 ([], []) (lines_of file) s"

section \<open>Writing\<close>

definition entry_line :: "int \<times> string \<Rightarrow> string" where
  "entry_line e = to_string (fst e) @ '':'' @ snd e"

definition file_of :: "(int \<times> string) list \<Rightarrow> string" where
  "file_of es = concat (map (\<lambda>e. entry_line e @ [CHR 0x0A]) es)"

lemma dump_from_chain:
  assumes "\<And>a. a \<in> set L \<Longrightarrow> next_at s a 0 = Some (nxt_in L a)" "distinct L" "set L \<subseteq> dom (sk_heap s)"
  shows "L = P @ Q \<Longrightarrow> dump_from s (hd_opt Q) = Some (file_of (sk_contents s Q))"
proof (induction Q arbitrary: P)
  case Nil
  show ?case by (simp add: dump_from.simps[of s None] file_of_def sk_contents_def)
next
  case (Cons n Q)
  have "n \<in> dom (sk_heap s)" using assms(3) Cons.prems by auto
  then obtain nd where nd: "sk_heap s n = Some nd" "sk_key nd = key_of s n" "sk_value nd = value_of s n"
    by (auto simp: key_of_def value_of_def)
  have "next_at s n 0 = Some (hd_opt Q)" using assms(1)[of n] assms(2) Cons.prems by (simp add: nxt_in_split)
  moreover have "dump_from s (hd_opt Q) = Some (file_of (sk_contents s Q))" using Cons.IH[of "P @ [n]"] Cons.prems by simp
  ultimately show ?case using nd
    by (simp add: dump_from.simps[of s "Some n"] file_of_def sk_contents_def entry_line_def)
qed

lemma dump_file_contents:
  assumes rep: "sk_rep s A"
  shows "dump_file s = Some (file_of (sk_contents s A))"
proof -
  note nodes = sk_repD(1)[OF rep, unfolded nodes_ok_def]
  have chain: "next_at s a 0 = Some (nxt_in (sk_header s # A) a)" if "a \<in> set (sk_header s # A)" for a
    using sk_repD(2)[OF rep, of 0 a] that by (simp add: level_list_sub)
  have "dump_from s (hd_opt A) = Some (file_of (sk_contents s A))"
    using nodes by (intro dump_from_chain[where L = "sk_header s # A" and P = "[sk_header s]"] chain) auto
  then show ?thesis using chain[of "sk_header s"] by (simp add: dump_file_def)
qed

section \<open>Reading\<close>

definition entry_ok :: "int \<times> string \<Rightarrow> bool" where
  "entry_ok e \<longleftrightarrow> - (2 ^ 31) \<le> fst e \<and> fst e < 2 ^ 31 \<and> snd e \<noteq> [] \<and> CHR 0x0A \<notin> set (snd e)"

lemma lines_of_append: "CHR 0x0A \<notin> set line \<Longrightarrow> lines_of (line @ [CHR 0x0A] @ rest) = line # lines_of rest"
  by (subst lines_of.simps) (simp add: takeWhile_append dropWhile_append cong: conj_cong)

lemma entry_line_parse:
  "entry_ok e \<Longrightarrow> get_key_value_from_string (entry_line e) kv = (to_string (fst e), snd e)"
  "entry_ok e \<Longrightarrow> CHR 0x0A \<notin> set (entry_line e)"
proof -
  have chars: "c \<noteq> CHR '':'' \<and> c \<noteq> CHR 0x0A" if "c \<in> set (to_string (fst e))" for c
    using to_string_chars(1)[OF that] by (auto simp: is_digit_def)
  show "entry_ok e \<Longrightarrow> CHR 0x0A \<notin> set (entry_line e)" using chars by (auto simp: entry_line_def entry_ok_def)
  have "takeWhile (\<lambda>c. c \<noteq> CHR '':'') (to_string (fst e) @ CHR '':'' # snd e) = to_string (fst e)"
    "dropWhile (\<lambda>c. c \<noteq> CHR '':'') (to_string (fst e) @ CHR '':'' # snd e) = CHR '':'' # snd e"
    using chars by (simp_all add: takeWhile_append2 dropWhile_append2)
  then show "entry_ok e \<Longrightarrow> get_key_value_from_string (entry_line e) kv = (to_string (fst e), snd e)"
    by (simp add: get_key_value_from_string_def is_valid_string_def entry_line_def)
qed

lemma lines_of_file: "\<forall>e \<in> set es. entry_ok e \<Longrightarrow> lines_of (file_of es) = map entry_line es"
  using lines_of_append entry_line_parse(2) by (induction es) (simp_all add: file_of_def lines_of.simps[of "[]"])

text \<open>Loading inserts the entries in the order of the lines.\<close>

lemma load_lines_map:
  "\<forall>e \<in> set es. entry_ok e \<Longrightarrow> distinct (map fst es) \<Longrightarrow> fst ` set es \<inter> dom m = {} \<Longrightarrow> sk_map_rep M s m \<Longrightarrow>
    \<exists>s'. load_lines draws i kv (map entry_line es) s = Some (None, s') \<and> sk_map_rep M s' (m ++ map_of es)"
proof (induction es arbitrary: i kv s m)
  case (Cons e es)
  obtain k v where e: "e = (k, v)" by (cases e)
  have ok: "entry_ok (k, v)" "v \<noteq> []" "stoi (to_string k) = Inr k" using Cons.prems(1) stoi_to_string[of k] by (auto simp: e entry_ok_def)
  have "k \<notin> dom m" using Cons.prems(3) by (auto simp: e)
  then obtain s1 where s1: "insert_element s (draws i) k v = Some (0, s1)" "sk_map_rep M s1 (m(k \<mapsto> v))"
    using sk_insert_new[OF Cons.prems(4)] by blast
  have "fst ` set es \<inter> dom (m(k \<mapsto> v)) = {}" using Cons.prems(2,3) by (simp add: e)
  then obtain s' where s': "load_lines draws (i + 1) (to_string k, v) (map entry_line es) s1 = Some (None, s')"
    "sk_map_rep M s' (m(k \<mapsto> v) ++ map_of es)"
    using Cons.IH[OF _ _ _ s1(2), of "i + 1" "(to_string k, v)"] Cons.prems(1,2) by (auto simp del: fun_upd_apply)
  have "m(k \<mapsto> v) ++ map_of es = m ++ map_of (e # es)"
    using Cons.prems(2) by (simp add: e map_add_upd_left dom_map_of_conv_image_fst)
  moreover have "load_lines draws i kv (map entry_line (e # es)) s = Some (None, s')"
    using entry_line_parse(1)[OF ok(1), of kv] ok(2,3) s1(1) s'(1) to_string_chars(2)[of k] by (simp add: e)
  ultimately show ?case using s'(2) by (intro exI[of _ s'] conjI) (simp_all only:)
qed simp

section \<open>Properties\<close>

text \<open>
  C27: a file written from a reachable list and loaded into a new list of any maximal level, with any random
  levels, gives a list with the same map, and no exception, when the keys fit in an \<^verbatim>\<open>int\<close> and no value is empty or contains a
  line feed; a value may contain the delimiter.
\<close>

theorem dump_load_roundtrip:
  assumes "sk_performs cs (SkipList max_level k v) = Some (rs, s)" "\<forall>e \<in> Map.graph (snd (map_answers cs Map.empty)). entry_ok e"
  shows "\<exists>file s' A. dump_file s = Some file \<and> load_file draws file (SkipList max_level' k' v') = Some (None, s') \<and>
    sk_rep s' A \<and> map_of (sk_contents s' A) = snd (map_answers cs Map.empty)"
proof -
  obtain A where A: "sk_rep s A" "map_of (sk_contents s A) = snd (map_answers cs Map.empty)"
    using sk_reachable[of cs max_level k v] assms(1) by auto
  let ?es = "sk_contents s A"
  have "distinct (map (key_of s) A)" using sk_repD(1)[OF A(1)] by (auto simp: nodes_ok_def strict_sorted_iff)
  then have dist: "distinct (map fst ?es)" by (simp add: sk_contents_def o_def)
  then have ok: "\<forall>e \<in> set ?es. entry_ok e" using assms(2) A(2) by (metis graph_map_of_if_distinct_dom)
  have "sk_map_rep max_level' (SkipList max_level' k' v') Map.empty"
    unfolding sk_map_rep_def using SkipList_rep[of max_level' k' v'] by (auto simp: sk_contents_def SkipList_def create_node_def)
  from load_lines_map[OF ok dist _ this, of draws 0 "([], [])"]
  obtain s' where "load_file draws (file_of ?es) (SkipList max_level' k' v') = Some (None, s')" "sk_map_rep max_level' s' (map_of ?es)"
    unfolding load_file_def lines_of_file[OF ok] by auto
  then show ?thesis using dump_file_contents[OF A(1)] A(2) unfolding sk_map_rep_def by metis
qed

definition dump_example :: "(int, string) map_call list" where
  "dump_example = [Insert_call 1 42 ''a:b'', Insert_call 0 (- 7) ''c'', Delete_call 5]"

theorem dump_load_roundtrip_witness:
  "\<exists>s file s' A. sk_performs dump_example (SkipList 3 0 []) = Some ([Inserted, Inserted, Deleted], s) \<and> dump_file s = Some file \<and>
    load_file (\<lambda>i. i) file (SkipList 2 0 []) = Some (None, s') \<and> sk_rep s' A \<and>
    map_of (sk_contents s' A) = [42 \<mapsto> ''a:b'', - 7 \<mapsto> ''c'']"
proof -
  have m: "fst (map_answers dump_example Map.empty) = [Inserted, Inserted, Deleted]"
    "snd (map_answers dump_example Map.empty) = [42 \<mapsto> ''a:b'', - 7 \<mapsto> ''c'']" by (simp_all add: dump_example_def fun_eq_iff)
  obtain s where s: "sk_performs dump_example (SkipList 3 0 []) = Some ([Inserted, Inserted, Deleted], s)"
    using sk_reachable[of dump_example 3 0 "[]"] m(1) by auto
  have "\<forall>e \<in> Map.graph (snd (map_answers dump_example Map.empty)). entry_ok e"
    unfolding m(2) by (auto simp: Map.graph_def entry_ok_def split: if_splits)
  then show ?thesis using dump_load_roundtrip[OF s, of "\<lambda>i. i" 2 0 "[]"] s unfolding m(2) by blast
qed

text \<open>An entry with an empty value is written and not read back.\<close>

lemma load_drops_empty_value:
  "load_file draws (file_of [(k, [])]) s = Some (None, s)"
proof -
  have chars: "c \<noteq> CHR '':'' \<and> c \<noteq> CHR 0x0A" if "c \<in> set (to_string k)" for c
    using to_string_chars(1)[OF that] by (auto simp: is_digit_def)
  have "lines_of (file_of [(k, [])]) = [to_string k @ '':'']"
    using lines_of_append[of "to_string k @ '':''" "[]"] chars by (auto simp: file_of_def entry_line_def lines_of.simps[of "[]"])
  moreover have "get_key_value_from_string (to_string k @ '':'') kv = (to_string k, [])" for kv
    using chars by (simp add: get_key_value_from_string_def is_valid_string_def takeWhile_append2 dropWhile_append2)
  ultimately show ?thesis by (simp add: load_file_def)
qed

end
