(* ===== verification/String_Search.thy ===== *)
theory String_Search
  imports Xlab_Prelude
begin

text \<open>
  The string searches of \<^verbatim>\<open>src/cc/algo/src/algo/algo_string.cc\<close>: \<^verbatim>\<open>VolnitskySearcher\<close>, which hashes pairs of bytes, and
  \<^verbatim>\<open>Volnitsky\<close>, which shifts by the last position of a mismatching character.  The reference is the first position at which the
  pattern occurs.  \<^const>\<open>None\<close> is an access outside a string, an undefined shift, or a loop that does not end.
\<close>

section \<open>The code: VolnitskySearcher\<close>

definition load_hash :: "string \<Rightarrow> nat \<Rightarrow> u16 option" where
  "load_hash data i = do { a \<leftarrow> vec_at data i; b \<leftarrow> vec_at data (i + 1); Some (of_char a + 256 * of_char b) }"

text \<open>The table of 65536 entries, indexed by 16-bit hashes.\<close>

record volnitsky_searcher =
  vs_pattern :: string
  hash_table :: "u16 \<Rightarrow> int"

definition VolnitskySearcher :: "string \<Rightarrow> volnitsky_searcher option" where
  "VolnitskySearcher pattern = (let m = length pattern in
     if m < 2 then Some \<lparr>vs_pattern = pattern, hash_table = (\<lambda>_. - 1)\<rparr>
     else do {
       table \<leftarrow> for_each (\<lambda>i table. do { hash \<leftarrow> load_hash pattern i; Some (table(hash := int i)) }) [0..<m - 1] (\<lambda>_. - 1);
       Some \<lparr>vs_pattern = pattern, hash_table = table\<rparr>})"

text \<open>\<open>text\<close> is the memory from the pointer on, of which the first \<open>n\<close> bytes are the text; the result is an offset or the null pointer.\<close>

partial_function (option) searcher_loop :: "volnitsky_searcher \<Rightarrow> string \<Rightarrow> nat \<Rightarrow> nat \<Rightarrow> nat option option" where
  "searcher_loop v str n current = (let m = length (vs_pattern v) in
     if current \<le> n - 1 then Option.bind (load_hash str current) (\<lambda>hash.
       let offset = hash_table v hash; start = int current - offset in
       if offset \<noteq> - 1 \<and> 0 \<le> start \<and> start \<le> int (n - m) \<and> take m (drop (nat start) str) = vs_pattern v then Some (Some (nat start))
       else searcher_loop v str n (current + (m - 1)))
     else Some None)"

definition searcher_search :: "volnitsky_searcher \<Rightarrow> string \<Rightarrow> nat \<Rightarrow> nat option option" where
  "searcher_search v str n = (let m = length (vs_pattern v) in
     if m < 2 then Some None else if n < m then Some None else searcher_loop v str n (m - 2))"

section \<open>The code: Volnitsky\<close>

text \<open>The table of last positions is indexed by unsigned characters.\<close>

definition lastPos :: "string \<Rightarrow> char \<Rightarrow> int" where
  "lastPos pattern = fold (\<lambda>i pos. pos(pattern ! i := int i)) [0..<length pattern] (\<lambda>_. - 1)"

text \<open>\<^verbatim>\<open>searchOptimized\<close> fills its table from the end, so that it holds first positions.\<close>

definition posMap :: "string \<Rightarrow> char \<Rightarrow> int" where
  "posMap pattern = fold (\<lambda>i pos. pos(pattern ! i := int i)) (rev [0..<length pattern]) (\<lambda>_. - 1)"

text \<open>The inner loop: \<open>j - 1\<close> counts down while the characters agree; -1 means a match.\<close>

primrec match_back :: "string \<Rightarrow> string \<Rightarrow> nat \<Rightarrow> nat \<Rightarrow> int option" where
  "match_back str pattern i 0 = Some (- 1)"
| "match_back str pattern i (Suc j) = do {
     t \<leftarrow> vec_at str (i + j);
     p \<leftarrow> vec_at pattern j;
     (if t = p then match_back str pattern i j else Some (int j))}"

text \<open>Positions are 64-bit words and the shift is computed modulo \<open>2\<^sup>6\<^sup>4\<close>; the result is converted to \<^verbatim>\<open>int\<close>.\<close>

definition shift_by :: "nat \<Rightarrow> int \<Rightarrow> int \<Rightarrow> u64 \<Rightarrow> u64" where
  "shift_by m pos j i = (if pos = - 1 then i + of_nat m else i + (of_nat m - of_int pos - of_int j))"

definition as_int :: "u64 \<Rightarrow> int" where
  "as_int i = sint (ucast i :: u32)"

partial_function (option) search_loop :: "string \<Rightarrow> string \<Rightarrow> u64 \<Rightarrow> int option" where
  "search_loop str pattern i = (let m = length pattern in
     if i \<le> of_nat (length str) - of_nat m then Option.bind (match_back str pattern (unat i) m) (\<lambda>j.
       if j < 0 then Some (as_int i)
       else Option.bind (vec_at str (unat i + nat j)) (\<lambda>c. search_loop str pattern (shift_by m (lastPos pattern c) j i)))
     else Some (- 1))"

definition search :: "string \<Rightarrow> string \<Rightarrow> int option" where
  "search str pattern =
     (if pattern = [] then Some 0
      else if str = [] \<or> length pattern > length str then Some (- 1)
      else search_loop str pattern 0)"

partial_function (option) findAll_loop :: "string \<Rightarrow> string \<Rightarrow> nat \<Rightarrow> int list \<Rightarrow> int list option" where
  "findAll_loop str pattern offset results =
     (if offset < length str then Option.bind (search (drop offset str) pattern) (\<lambda>pos.
        if pos = - 1 then Some results
        else let results = results @ [int offset + pos]; offset = offset + nat pos + 1 in
          if offset + length pattern > length str then Some results else findAll_loop str pattern offset results)
      else Some results)"

definition findAll :: "string \<Rightarrow> string \<Rightarrow> int list option" where
  "findAll str pattern = (if pattern = [] \<or> str = [] then Some [] else findAll_loop str pattern 0 [])"

text \<open>A character is signed, and its remainder modulo 64 keeps the sign; a shift by a negative number is undefined.\<close>

definition mask_bit :: "char \<Rightarrow> u64 option" where
  "mask_bit c = (let code = sint (of_char c :: 8 word); r = (if 0 \<le> code then code mod 64 else - (- code mod 64)) in
     if r < 0 then None else Some (push_bit (nat r) 1))"

definition charMask :: "string \<Rightarrow> u64 option" where
  "charMask pattern = for_each (\<lambda>c bits. do { b \<leftarrow> mask_bit c; Some (bits OR b) }) pattern 0"

partial_function (option) optimized_loop :: "string \<Rightarrow> string \<Rightarrow> u64 \<Rightarrow> u64 \<Rightarrow> int option" where
  "optimized_loop str pattern bits i = (let m = length pattern in
     if i \<le> of_nat (length str) - of_nat m then Option.bind (vec_at str (unat i + m - 1)) (\<lambda>last. Option.bind (mask_bit last) (\<lambda>b.
       if bits AND b = 0 then optimized_loop str pattern bits (i + of_nat m)
       else Option.bind (match_back str pattern (unat i) m) (\<lambda>j.
         if j < 0 then Some (as_int i)
         else Option.bind (vec_at str (unat i + nat j)) (\<lambda>c. optimized_loop str pattern bits (shift_by m (posMap pattern c) j i)))))
     else Some (- 1))"

definition searchOptimized :: "string \<Rightarrow> string \<Rightarrow> int option" where
  "searchOptimized str pattern =
     (if pattern = [] then Some 0
      else if str = [] \<or> length pattern > length str then Some (- 1)
      else do { bits \<leftarrow> charMask pattern; optimized_loop str pattern bits 0 })"

section \<open>Occurrences\<close>

definition occurs_at :: "string \<Rightarrow> string \<Rightarrow> nat \<Rightarrow> bool" where
  "occurs_at pattern str s \<longleftrightarrow> s + length pattern \<le> length str \<and> take (length pattern) (drop s str) = pattern"

definition first_occurrence :: "string \<Rightarrow> string \<Rightarrow> nat option" where
  "first_occurrence pattern str = find (occurs_at pattern str) [0..<length str + 1]"

lemma first_occurrence_Some:
  assumes "occurs_at pattern str s" "\<And>s'. s' < s \<Longrightarrow> \<not> occurs_at pattern str s'"
  shows "first_occurrence pattern str = Some s"
proof -
  have "s < length str + 1" using assms(1) by (simp add: occurs_at_def)
  then show ?thesis unfolding first_occurrence_def find_Some_iff using assms by (intro exI[of _ s]) (simp del: upt_Suc)
qed

lemma first_occurrence_None:
  assumes "\<And>s. \<not> occurs_at pattern str s"
  shows "first_occurrence pattern str = None"
  unfolding first_occurrence_def find_None_iff using assms by blast

lemma occurs_at_nth: "occurs_at pattern str s \<Longrightarrow> i < length pattern \<Longrightarrow> str ! (s + i) = pattern ! i"
  unfolding occurs_at_def by (metis add_leD1 nth_drop nth_take)

lemma occurs_at_iff:
  "occurs_at pattern str s \<longleftrightarrow> s + length pattern \<le> length str \<and> (\<forall>i < length pattern. str ! (s + i) = pattern ! i)"
proof
  assume "s + length pattern \<le> length str \<and> (\<forall>i < length pattern. str ! (s + i) = pattern ! i)"
  then show "occurs_at pattern str s" by (auto simp: occurs_at_def intro: nth_equalityI)
qed (use occurs_at_nth in \<open>auto simp: occurs_at_def\<close>)

section \<open>Hashed pairs\<close>

lemma digits_256: "A + 256 * B = C + 256 * D \<Longrightarrow> A < 256 \<Longrightarrow> C < 256 \<Longrightarrow> A = C \<and> B = D" for A B C D :: nat
proof -
  assume eq: "A + 256 * B = C + 256 * D" and small: "A < 256" "C < 256"
  have "(A + 256 * B) mod 256 = A" "(C + 256 * D) mod 256 = C" using small by simp_all
  then have "A = C" unfolding eq by simp
  then show ?thesis using eq by simp
qed

lemma hash_inj:
  assumes "of_char a + 256 * of_char b = (of_char c + 256 * of_char d :: u16)"
  shows "a = c \<and> b = d"
proof -
  have small: "(of_char x :: nat) < 256" for x :: char by simp
  have u: "unat (of_char x + 256 * of_char y :: u16) = of_char x + 256 * of_char y" for x y :: char
  proof -
    have "(of_char x + 256 * of_char y :: u16) = of_nat (of_char x + 256 * of_char y)" by (simp add: of_nat_of_char)
    moreover have "(of_char x + 256 * of_char y :: nat) < 65536" using small[of x] small[of y] by linarith
    ultimately show ?thesis by (simp only: unsigned_of_nat) (simp add: take_bit_nat_eq_self)
  qed
  have "(of_char a + 256 * of_char b :: nat) = of_char c + 256 * of_char d" using arg_cong[OF assms, of unat] unfolding u .
  from digits_256[OF this small small] have "(of_char a :: nat) = of_char c" "(of_char b :: nat) = of_char d" by blast+
  then show ?thesis by simp
qed

definition pair_at :: "string \<Rightarrow> nat \<Rightarrow> char \<times> char" where
  "pair_at str i = (str ! i, str ! (i + 1))"

lemma load_hash_eq:
  assumes "i + 1 < length xs" "j + 1 < length ys"
  shows "\<exists>h. load_hash xs i = Some h" "load_hash xs i = load_hash ys j \<longleftrightarrow> pair_at xs i = pair_at ys j"
  using assms hash_inj by (auto simp: load_hash_def pair_at_def)

text \<open>The table maps a hash to a position of a pair with this hash, and to -1 when there is none.\<close>

lemma VolnitskySearcher_table:
  assumes "2 \<le> length p"
  shows "\<exists>v. VolnitskySearcher p = Some v \<and> vs_pattern v = p \<and>
    (\<forall>h. hash_table v h = - 1 \<and> (\<forall>i < length p - 1. load_hash p i \<noteq> Some h) \<or>
      (\<exists>i < length p - 1. hash_table v h = int i \<and> load_hash p i = Some h))"
proof -
  define I where "I k table \<longleftrightarrow> (\<forall>h. table h = - 1 \<and> (\<forall>i < k. load_hash p i \<noteq> Some h) \<or>
    (\<exists>i < k. table h = int i \<and> load_hash p i = Some h))" for k and table :: "u16 \<Rightarrow> int"
  have "\<exists>table. for_each (\<lambda>i table. do { hash \<leftarrow> load_hash p i; Some (table(hash := int i)) }) [0..<length p - 1] (\<lambda>_. - 1) = Some table \<and>
    I (length p - 1) table"
  proof (rule for_each_upt_inv[where I = I])
    fix i table
    assume i: "i < length p - 1" and "I i table"
    then obtain hash where h: "load_hash p i = Some hash" using load_hash_eq(1)[of i p i p] by fastforce
    have "I (Suc i) (table(hash := int i))" unfolding I_def
    proof
      fix h'
      show "(table(hash := int i)) h' = - 1 \<and> (\<forall>k < Suc i. load_hash p k \<noteq> Some h') \<or>
        (\<exists>k < Suc i. (table(hash := int i)) h' = int k \<and> load_hash p k = Some h')"
      proof (cases "h' = hash")
        case False
        then show ?thesis using \<open>I i table\<close> h by (auto simp: I_def less_Suc_eq dest!: spec[of _ h'])
      qed (use h in auto)
    qed
    then show "\<exists>table'. do { hash \<leftarrow> load_hash p i; Some (table(hash := int i)) } = Some table' \<and> I (Suc i) table'" using h by simp
  qed (simp_all add: I_def)
  then obtain table where "VolnitskySearcher p = Some \<lparr>vs_pattern = p, hash_table = table\<rparr>" "I (length p - 1) table"
    using assms by (auto simp: VolnitskySearcher_def Let_def)
  then show ?thesis unfolding I_def by auto
qed

section \<open>VolnitskySearcher finds the first occurrence\<close>

lemma searcher_loop_first:
  assumes v: "vs_pattern v = p" "2 \<le> length p" "length p \<le> n" "n < length str"
    and table: "\<And>h. hash_table v h = - 1 \<and> (\<forall>i < length p - 1. load_hash p i \<noteq> Some h) \<or>
      (\<exists>i < length p - 1. hash_table v h = int i \<and> load_hash p i = Some h)"
    and dist: "inj_on (pair_at p) {..<length p - 1}"
  shows "(\<And>s. occurs_at p (take n str) s \<Longrightarrow> current \<le> s + (length p - 2)) \<Longrightarrow>
    searcher_loop v str n current = Some (first_occurrence p (take n str))"
proof (induction "n - current" arbitrary: current rule: less_induct)
  case less
  let ?m = "length p" and ?occ = "occurs_at p (take n str)"
  have occ: "?occ s \<longleftrightarrow> s + ?m \<le> n \<and> take ?m (drop s str) = p" for s
    using v(4) by (auto simp: occurs_at_def take_drop min_def)
  show ?case
  proof (cases "current \<le> n - 1")
    case False
    have "\<not> ?occ s" for s
    proof
      assume "?occ s"
      then have "current \<le> s + (?m - 2)" "s + ?m \<le> n" using less.prems occ by auto
      then show False using False v(2,3) by simp
    qed
    then show ?thesis using False first_occurrence_None by (simp add: searcher_loop.simps[of v str n current])
  next
    case True
    then obtain hash where h: "load_hash str current = Some hash" using load_hash_eq(1)[of current str current str] v by fastforce
    have window: "hash_table v hash = int (current - s) \<and> s \<le> current" if s: "?occ s" "s \<le> current" "current \<le> s + (?m - 2)" for s
    proof -
      have k: "current - s < ?m - 1" "s + (current - s) = current" using s v(2) by simp_all
      have "str ! (s + i) = p ! i" if "i < ?m" for i
        using occurs_at_nth[OF s(1) that] s(1) that by (simp add: occ)
      then have "pair_at str current = pair_at p (current - s)" using k unfolding pair_at_def by (metis add.assoc less_diff_conv add_lessD1)
      then have "load_hash p (current - s) = Some hash"
        using load_hash_eq(2)[of current str "current - s" p] h k True v by simp
      then obtain i where "i < ?m - 1" "hash_table v hash = int i" "load_hash p i = Some hash" using table[of hash] k(1) by auto
      moreover from this have "pair_at p i = pair_at p (current - s)"
        using load_hash_eq(2)[of i p "current - s" p] \<open>load_hash p (current - s) = Some hash\<close> k(1) by simp
      ultimately show ?thesis using inj_onD[OF dist, of i "current - s"] k(1) s(2) by simp
    qed
    let ?start = "int current - hash_table v hash"
    show ?thesis
    proof (cases "hash_table v hash \<noteq> - 1 \<and> 0 \<le> ?start \<and> ?start \<le> int (n - ?m) \<and> take ?m (drop (nat ?start) str) = p")
      case True
      then have found: "?occ (nat ?start)" using v(3) by (auto simp: occ)
      have "\<not> ?occ s" if "s < nat ?start" for s
      proof
        assume s: "?occ s"
        have "0 \<le> hash_table v hash" using table[of hash] True by auto
        then have "s \<le> current" using that by linarith
        then show False using window[OF s] less.prems[OF s] that by simp
      qed
      then have "first_occurrence p (take n str) = Some (nat ?start)" using found first_occurrence_Some by blast
      then show ?thesis using True \<open>current \<le> n - 1\<close> h v(1) by (simp add: searcher_loop.simps[of v str n current] Let_def)
    next
      case miss: False
      have "current + (?m - 1) \<le> s + (?m - 2)" if s: "?occ s" for s
      proof (rule ccontr)
        assume "\<not> current + (?m - 1) \<le> s + (?m - 2)"
        then have "s \<le> current" using v(2) by simp
        then have "?start = int s" using window[OF s] less.prems[OF s] by simp
        moreover have "hash_table v hash \<noteq> - 1" using window[OF s \<open>s \<le> current\<close>] less.prems[OF s] by simp
        ultimately show False using miss s v(3) by (auto simp: occ)
      qed
      then have "searcher_loop v str n (current + (?m - 1)) = Some (first_occurrence p (take n str))"
        using less.hyps[of "current + (?m - 1)"] True v(2,3) by simp
      then show ?thesis using True h v(1) miss by (auto simp: searcher_loop.simps[of v str n current] Let_def)
    qed
  qed
qed

section \<open>Volnitsky: hits are occurrences\<close>

lemma match_back_spec:
  assumes "i + length pattern \<le> length str"
  shows "k \<le> length pattern \<Longrightarrow> \<exists>j. match_back str pattern i k = Some j \<and> - 1 \<le> j \<and> j < int k \<and>
    (\<forall>l < k. j < int l \<longrightarrow> str ! (i + l) = pattern ! l) \<and> (0 \<le> j \<longrightarrow> str ! (i + nat j) \<noteq> pattern ! nat j)"
proof (induction k)
  case (Suc k)
  then show ?case using assms
    by (cases "str ! (i + k) = pattern ! k") (auto simp: less_Suc_eq)
qed simp

lemma match_back_hit:
  assumes "i + length pattern \<le> length str" "match_back str pattern i (length pattern) = Some j" "j < 0"
  shows "occurs_at pattern str i"
  using match_back_spec[OF assms(1), of "length pattern"] assms by (auto simp: occurs_at_iff)

text \<open>A bound on positions: the comparison of the loops.\<close>

lemma position_bound:
  assumes "length pattern \<le> length str" "length str < 2 ^ 31" "i \<le> (of_nat (length str) - of_nat (length pattern) :: u64)"
  shows "unat i + length pattern \<le> length str" "as_int i = int (unat i)"
proof -
  have "(of_nat (length str) - of_nat (length pattern) :: u64) = of_nat (length str - length pattern)" using assms(1) by (simp add: of_nat_diff)
  moreover have "unat (of_nat (length str - length pattern) :: u64) = length str - length pattern"
    using assms(2) by (simp add: unsigned_of_nat take_bit_nat_eq_self)
  ultimately have le: "unat i \<le> length str - length pattern" using assms(3) by (simp add: word_le_nat_alt)
  then show "unat i + length pattern \<le> length str" using assms(1) by simp
  have "unat i < 2 ^ 31" using le assms(2) by simp
  then have "int (unat i) < int (2 ^ 31)" by (simp only: of_nat_less_iff)
  then have "int (unat i) < 2 ^ 31" by (simp only: of_nat_power of_nat_numeral)
  then have u: "uint i < 2 ^ 31" by (simp only: uint_nat)
  have "uint (ucast i :: u32) = uint i" using u by (simp add: unsigned_ucast_eq take_bit_int_eq_self)
  moreover have "- (2 ^ 31) \<le> uint i" by (rule order_trans[OF _ uint_ge_0]) simp
  ultimately show "as_int i = int (unat i)" using u by (simp add: as_int_def sint_uint signed_take_bit_int_eq_self)
qed

text \<open>What both loops promise of a result.\<close>

definition hit_ok :: "string \<Rightarrow> string \<Rightarrow> int \<Rightarrow> bool" where
  "hit_ok str pattern r \<longleftrightarrow> (length pattern \<le> length str \<and> length str < 2 ^ 31 \<longrightarrow> r = - 1 \<or> (\<exists>s. r = int s \<and> occurs_at pattern str s))"

lemma hit_ok_miss [simp]: "hit_ok str pattern (- 1)"
  by (simp add: hit_ok_def)

lemma hit_ok_found:
  assumes "i \<le> of_nat (length str) - of_nat (length pattern)" "match_back str pattern (unat i) (length pattern) = Some j" "j < 0"
  shows "hit_ok str pattern (as_int i)"
  unfolding hit_ok_def using position_bound[OF _ _ assms(1)] match_back_hit[OF _ assms(2,3)] by blast

lemma search_loop_sound: "search_loop str pattern i = Some r \<Longrightarrow> hit_ok str pattern r"
proof (rule search_loop.raw_induct[where P = "\<lambda>str pattern i r. hit_ok str pattern r"])
  fix loop str pattern i r
  assume IH: "\<And>str pattern i r. loop str pattern i = Some r \<Longrightarrow> hit_ok str pattern r"
    and body: "(let m = length pattern in
     if i \<le> of_nat (length str) - of_nat m then Option.bind (match_back str pattern (unat i) m) (\<lambda>j.
       if j < 0 then Some (as_int i)
       else Option.bind (vec_at str (unat i + nat j)) (\<lambda>c. loop str pattern (shift_by m (lastPos pattern c) j i)))
     else Some (- 1)) = Some r"
  then show "hit_ok str pattern r"
    by (cases "match_back str pattern (unat i) (length pattern)")
      (auto simp: Let_def hit_ok_found split: if_splits Option.bind_splits)
qed

lemma optimized_loop_sound: "optimized_loop str pattern bits i = Some r \<Longrightarrow> hit_ok str pattern r"
proof (rule optimized_loop.raw_induct[where P = "\<lambda>str pattern bits i r. hit_ok str pattern r"])
  fix loop str pattern bits i r
  assume IH: "\<And>str pattern bits i r. loop str pattern bits i = Some r \<Longrightarrow> hit_ok str pattern r"
    and body: "(let m = length pattern in
     if i \<le> of_nat (length str) - of_nat m then Option.bind (vec_at str (unat i + m - 1)) (\<lambda>last. Option.bind (mask_bit last) (\<lambda>b.
       if bits AND b = 0 then loop str pattern bits (i + of_nat m)
       else Option.bind (match_back str pattern (unat i) m) (\<lambda>j.
         if j < 0 then Some (as_int i)
         else Option.bind (vec_at str (unat i + nat j)) (\<lambda>c. loop str pattern bits (shift_by m (posMap pattern c) j i)))))
     else Some (- 1)) = Some r"
  then show "hit_ok str pattern r"
    by (cases "match_back str pattern (unat i) (length pattern)")
      (auto simp: Let_def hit_ok_found split: if_splits Option.bind_splits)
qed

lemma search_sound: "search str pattern = Some r \<Longrightarrow> length str < 2 ^ 31 \<Longrightarrow> r = - 1 \<or> (\<exists>s. r = int s \<and> occurs_at pattern str s)"
  using search_loop_sound[of str pattern 0 r] by (auto simp: search_def hit_ok_def occurs_at_def split: if_splits)

lemma searchOptimized_sound:
  "searchOptimized str pattern = Some r \<Longrightarrow> length str < 2 ^ 31 \<Longrightarrow> r = - 1 \<or> (\<exists>s. r = int s \<and> occurs_at pattern str s)"
  using optimized_loop_sound[of str pattern _ 0 r]
  by (auto simp: searchOptimized_def hit_ok_def occurs_at_def split: if_splits Option.bind_splits)

lemma occurs_at_drop: "occurs_at pattern (drop k str) s \<Longrightarrow> k \<le> length str \<Longrightarrow> occurs_at pattern str (k + s)"
  by (auto simp: occurs_at_def add.commute)

lemma findAll_loop_sound:
  "findAll_loop str pattern offset results = Some rs \<Longrightarrow>
    (\<forall>r \<in> set results. \<exists>s. r = int s \<and> s < offset \<and> occurs_at pattern str s) \<longrightarrow> sorted_wrt (<) results \<longrightarrow> length str < 2 ^ 31 \<longrightarrow>
    sorted_wrt (<) rs \<and> (\<forall>r \<in> set rs. \<exists>s. r = int s \<and> occurs_at pattern str s)"
proof (rule findAll_loop.raw_induct[where P = "\<lambda>str pattern offset results rs.
    (\<forall>r \<in> set results. \<exists>s. r = int s \<and> s < offset \<and> occurs_at pattern str s) \<longrightarrow> sorted_wrt (<) results \<longrightarrow> length str < 2 ^ 31 \<longrightarrow>
    sorted_wrt (<) rs \<and> (\<forall>r \<in> set rs. \<exists>s. r = int s \<and> occurs_at pattern str s)"], goal_cases)
  case (1 loop str pattern offset results rs)
  show ?case
  proof (intro impI)
    assume res: "\<forall>r \<in> set results. \<exists>s. r = int s \<and> s < offset \<and> occurs_at pattern str s" "sorted_wrt (<) results" "length str < 2 ^ 31"
    show "sorted_wrt (<) rs \<and> (\<forall>r \<in> set rs. \<exists>s. r = int s \<and> occurs_at pattern str s)"
    proof (cases "rs = results")
      case False
      then obtain pos where off: "offset < length str" and pos: "search (drop offset str) pattern = Some pos" "pos \<noteq> - 1"
        using 1(3) by (auto split: if_splits Option.bind_splits)
      obtain s where s: "pos = int s" "occurs_at pattern (drop offset str) s"
        using search_sound[OF pos(1)] pos(2) res(3) by fastforce
      let ?results = "results @ [int offset + pos]"
      have r1: "\<forall>r \<in> set ?results. \<exists>s'. r = int s' \<and> s' < offset + s + 1 \<and> occurs_at pattern str s'"
        using res(1) s(1) occurs_at_drop[OF s(2)] off by (fastforce intro: exI[of _ "offset + s"])
      have r2: "sorted_wrt (<) ?results" using res(1,2) s(1) by (fastforce simp: sorted_wrt_append)
      show ?thesis
      proof (cases "offset + s + 1 + length pattern > length str")
        case True
        then have "rs = ?results" using 1(3) off pos s(1) by (simp add: Let_def)
        then show ?thesis using r1 r2 by fastforce
      next
        case False
        then have "loop str pattern (offset + s + 1) ?results = Some rs" using 1(3) off pos s(1) by (simp add: Let_def)
        from 1(2)[OF this] show ?thesis using r1 r2 res(3) by blast
      qed
    qed (use res in blast)
  qed
qed

section \<open>Volnitsky: short patterns\<close>

lemma lastPos_short: "lastPos [a] c = (if c = a then 0 else - 1)" "lastPos [a, b] c = (if c = b then 1 else if c = a then 0 else - 1)"
  by (simp_all add: lastPos_def)

lemma shift_unat:
  fixes i :: u64
  assumes "unat i < 2 ^ 31" "d \<le> 2"
  shows "unat (i + of_nat d) = unat i + d"
proof -
  have "unat i + d < 2 ^ 64" using assms by simp
  moreover have "i + of_nat d = of_nat (unat i + d)" by simp
  ultimately show ?thesis by (simp only: unsigned_of_nat) (simp add: take_bit_nat_eq_self)
qed

text \<open>The shift after a mismatch: between 1 and the length, and no position in between is an occurrence.\<close>

lemma short_shift:
  assumes short: "length pattern = 1 \<or> (\<exists>a b. pattern = [a, b] \<and> a \<noteq> b)" and le: "unat i + length pattern \<le> length str"
    and j: "match_back str pattern (unat i) (length pattern) = Some j" "0 \<le> j"
  shows "\<exists>d. shift_by (length pattern) (lastPos pattern (str ! (unat i + nat j))) j i = i + of_nat d \<and> 1 \<le> d \<and> d \<le> 2 \<and>
    (\<forall>s. unat i \<le> s \<longrightarrow> s < unat i + d \<longrightarrow> \<not> occurs_at pattern str s)"
  using short
proof
  assume "length pattern = 1"
  then obtain a where p: "pattern = [a]" by (auto simp: length_Suc_conv)
  then have "j = 0" "str ! unat i \<noteq> a" using j le by (auto split: if_splits)
  then show ?thesis using p by (intro exI[of _ 1]) (auto simp: shift_by_def lastPos_short occurs_at_iff less_Suc_eq_le dest!: le_antisym)
next
  assume "\<exists>a b. pattern = [a, b] \<and> a \<noteq> b"
  then obtain a b where p: "pattern = [a, b]" "a \<noteq> b" by blast
  let ?k = "unat i"
  have "?k + 2 \<le> length str" using le p by simp
  then consider "j = 1" "str ! (?k + 1) \<noteq> b" | "j = 0" "str ! (?k + 1) = b" "str ! ?k \<noteq> a"
    using j p by (auto split: if_splits)
  then show ?thesis
  proof cases
    case 1
    show ?thesis
    proof (cases "str ! (?k + 1) = a")
      case True
      then show ?thesis using 1 p by (intro exI[of _ 1]) (auto simp: shift_by_def lastPos_short occurs_at_iff less_Suc_eq_le dest!: le_antisym)
    next
      case False
      have "\<not> occurs_at pattern str s" if "?k \<le> s" "s < ?k + 2" for s
        using that 1 False p by (cases "s = ?k") (auto simp: occurs_at_iff less_Suc_eq)
      then show ?thesis using 1 p False by (intro exI[of _ 2]) (simp add: shift_by_def lastPos_short)
    qed
  next
    case 2
    show ?thesis
    proof (cases "str ! ?k = b")
      case True
      then show ?thesis using 2 p by (intro exI[of _ 1]) (auto simp: shift_by_def lastPos_short occurs_at_iff less_Suc_eq_le dest!: le_antisym)
    next
      case False
      have "\<not> occurs_at pattern str s" if "?k \<le> s" "s < ?k + 2" for s
        using that 2 p by (cases "s = ?k") (auto simp: occurs_at_iff less_Suc_eq)
      then show ?thesis using 2 p False by (intro exI[of _ 2]) (simp add: shift_by_def lastPos_short)
    qed
  qed
qed

lemma search_loop_short:
  assumes short: "length pattern = 1 \<or> (\<exists>a b. pattern = [a, b] \<and> a \<noteq> b)" and le: "length pattern \<le> length str" "length str < 2 ^ 31"
  shows "unat i \<le> length str + 1 \<Longrightarrow> (\<And>s. occurs_at pattern str s \<Longrightarrow> unat i \<le> s) \<Longrightarrow>
    search_loop str pattern i = Some (case first_occurrence pattern str of None \<Rightarrow> - 1 | Some s \<Rightarrow> int s)"
proof (induction "length str + 1 - unat i" arbitrary: i rule: less_induct)
  case less
  let ?m = "length pattern"
  show ?case
  proof (cases "i \<le> of_nat (length str) - of_nat ?m")
    case False
    have "\<not> occurs_at pattern str s" for s
    proof
      assume occ: "occurs_at pattern str s"
      have "(of_nat (length str) - of_nat ?m :: u64) = of_nat (length str - ?m)" using le(1) by (simp add: of_nat_diff)
      moreover have "unat (of_nat (length str - ?m) :: u64) = length str - ?m"
        using le(2) by (simp add: unsigned_of_nat take_bit_nat_eq_self)
      ultimately have "length str - ?m < unat i" using False by (simp add: word_le_nat_alt)
      moreover have "s + ?m \<le> length str" using occ by (simp add: occurs_at_def)
      ultimately show False using less.prems(2)[OF occ] by linarith
    qed
    then show ?thesis using False first_occurrence_None by (simp add: search_loop.simps[of str pattern i] Let_def)
  next
    case True
    note pb = position_bound[OF le True]
    obtain j where j: "match_back str pattern (unat i) ?m = Some j" "j < int ?m" using match_back_spec[OF pb(1), of ?m] by auto
    show ?thesis
    proof (cases "j < 0")
      case neg: True
      then have "occurs_at pattern str (unat i)" using match_back_hit[OF pb(1) j(1)] by simp
      then have "first_occurrence pattern str = Some (unat i)" using less.prems(2) not_less first_occurrence_Some by metis
      then show ?thesis using True j neg pb(2) by (simp add: search_loop.simps[of str pattern i] Let_def)
    next
      case nonneg: False
      then obtain d where d: "shift_by ?m (lastPos pattern (str ! (unat i + nat j))) j i = i + of_nat d" "1 \<le> d" "d \<le> 2"
        "\<And>s. unat i \<le> s \<Longrightarrow> s < unat i + d \<Longrightarrow> \<not> occurs_at pattern str s"
        using short_shift[OF short pb(1) j(1)] by auto
      have i: "unat (i + of_nat d) = unat i + d" using shift_unat[OF _ d(3)] pb(1) le(2) by simp
      have "search_loop str pattern (i + of_nat d) = Some (case first_occurrence pattern str of None \<Rightarrow> - 1 | Some s \<Rightarrow> int s)"
      proof (rule less.hyps)
        show "length str + 1 - unat (i + of_nat d) < length str + 1 - unat i" using i d(2) pb(1) by simp
        show "unat (i + of_nat d) \<le> length str + 1" using i d(3) pb(1) short by auto
        show "unat (i + of_nat d) \<le> s" if "occurs_at pattern str s" for s
          using less.prems(2)[OF that] d(4)[of s] that unfolding i by (meson not_less)
      qed
      moreover have "vec_at str (unat i + nat j) = Some (str ! (unat i + nat j))" using j(2) nonneg pb(1) by simp
      ultimately show ?thesis using True j(1) nonneg d(1) by (simp add: search_loop.simps[of str pattern i] Let_def)
    qed
  qed
qed

lemma search_short_pattern:
  assumes "length pattern = 1 \<or> (\<exists>a b. pattern = [a, b] \<and> a \<noteq> b)" "length str < 2 ^ 31"
  shows "search str pattern = Some (case first_occurrence pattern str of None \<Rightarrow> - 1 | Some s \<Rightarrow> int s)"
proof (cases "str = [] \<or> length str < length pattern")
  case True
  then have "\<not> occurs_at pattern str s" for s using assms(1) by (auto simp: occurs_at_def)
  then have "first_occurrence pattern str = None" by (rule first_occurrence_None)
  then show ?thesis using True assms(1) by (auto simp: search_def)
next
  case False
  then show ?thesis using search_loop_short[OF assms(1) _ assms(2), of 0] assms(1) by (auto simp: search_def)
qed

section \<open>Properties\<close>

text \<open>
  C34: for a pattern of at least two characters whose adjacent pairs are all different, \<^verbatim>\<open>VolnitskySearcher\<close> ends and
  returns the first occurrence in the text, or the null pointer when there is none; one byte behind the text must be readable.
\<close>
theorem searcher_first:
  assumes "2 \<le> length p" "inj_on (pair_at p) {..<length p - 1}" "n < length str"
  shows "do { v \<leftarrow> VolnitskySearcher p; searcher_search v str n } = Some (first_occurrence p (take n str))"
proof -
  obtain v where v: "VolnitskySearcher p = Some v" "vs_pattern v = p"
    "\<And>h. hash_table v h = - 1 \<and> (\<forall>i < length p - 1. load_hash p i \<noteq> Some h) \<or>
      (\<exists>i < length p - 1. hash_table v h = int i \<and> load_hash p i = Some h)"
    using VolnitskySearcher_table[OF assms(1)] by blast
  have "searcher_search v str n = Some (first_occurrence p (take n str))"
  proof (cases "n < length p")
    case True
    then have "first_occurrence p (take n str) = None" by (intro first_occurrence_None) (simp add: occurs_at_def)
    then show ?thesis using True assms(1) v(2) by (simp add: searcher_search_def)
  next
    case False
    have "searcher_loop v str n (length p - 2) = Some (first_occurrence p (take n str))"
      by (rule searcher_loop_first[OF v(2) assms(1) _ assms(3) v(3) assms(2)]) (use False in simp_all)
    then show ?thesis using False assms(1) v(2) by (simp add: searcher_search_def)
  qed
  then show ?thesis using v(1) by simp
qed

theorem searcher_first_witness:
  "do { v \<leftarrow> VolnitskySearcher ''abc''; searcher_search v (''xcabc'' @ [CHR 0x00]) 5 } = Some (Some 2)"
proof -
  have "inj_on (pair_at ''abc'') {..<length ''abc'' - 1}" by (simp add: lessThan_Suc pair_at_def inj_on_def)
  then show ?thesis using searcher_first[of "''abc''" 5 "''xcabc'' @ [CHR 0x00]"] by (simp add: first_occurrence_def occurs_at_def upt_rec)
qed

text \<open>
  \<^verbatim>\<open>Volnitsky::search\<close> ends and returns the first occurrence, or -1, for patterns of one character and of two
  different characters.
\<close>
lemma search_short:
  assumes "length pattern = 1 \<or> (\<exists>a b. pattern = [a, b] \<and> a \<noteq> b)" "length str < 2 ^ 31"
  shows "search str pattern = Some (case first_occurrence pattern str of None \<Rightarrow> - 1 | Some s \<Rightarrow> int s)"
  using assms by (rule search_short_pattern)

text \<open>
  Whatever the pattern, every position that \<^verbatim>\<open>search\<close>, \<^verbatim>\<open>searchOptimized\<close> or \<^verbatim>\<open>findAll\<close> returns is an occurrence, and
  \<^verbatim>\<open>findAll\<close> lists its positions in increasing order.
\<close>
lemma hits_occur:
  assumes "length str < 2 ^ 31"
  shows "(\<forall>r \<in> {r. search str pattern = Some r \<or> searchOptimized str pattern = Some r}. r = - 1 \<or> (\<exists>s. r = int s \<and> occurs_at pattern str s)) \<and>
    (\<forall>rs \<in> {rs. findAll str pattern = Some rs}. sorted_wrt (<) rs \<and> (\<forall>r \<in> set rs. \<exists>s. r = int s \<and> occurs_at pattern str s))"
  using search_sound[of str pattern] searchOptimized_sound[of str pattern] findAll_loop_sound[of str pattern 0 "[]"] assms
  by (auto simp: findAll_def split: if_splits)

text \<open>A loop whose position does not change never returns.\<close>

lemma search_loop_stuck:
  assumes "i \<le> of_nat (length str) - of_nat (length pattern)" "match_back str pattern (unat i) (length pattern) = Some j" "0 \<le> j"
    "vec_at str (unat i + nat j) = Some c" "shift_by (length pattern) (lastPos pattern c) j i = i"
  shows "search_loop str pattern i = None"
proof (rule ccontr)
  assume "search_loop str pattern i \<noteq> None"
  then obtain r where "search_loop str pattern i = Some r" by blast
  then have "\<not> (str = str \<and> pattern = pattern \<and> i = i)"
  proof (rule search_loop.raw_induct[where P = "\<lambda>str' pattern' i' r. \<not> (str' = str \<and> pattern' = pattern \<and> i' = i)", rotated])
    fix loop :: "string \<Rightarrow> string \<Rightarrow> u64 \<Rightarrow> int option" and str' pattern' i' r
    assume IH: "\<And>str' pattern' i' r. loop str' pattern' i' = Some r \<Longrightarrow> \<not> (str' = str \<and> pattern' = pattern \<and> i' = i)"
      and body: "(let m = length pattern' in
     if i' \<le> of_nat (length str') - of_nat m then Option.bind (match_back str' pattern' (unat i') m) (\<lambda>j.
       if j < 0 then Some (as_int i')
       else Option.bind (vec_at str' (unat i' + nat j)) (\<lambda>c. loop str' pattern' (shift_by m (lastPos pattern' c) j i')))
     else Some (- 1)) = Some r"
    show "\<not> (str' = str \<and> pattern' = pattern \<and> i' = i)"
    proof
      assume "str' = str \<and> pattern' = pattern \<and> i' = i"
      then have "loop str pattern i = Some r" using body assms by (simp add: Let_def)
      then show False using IH by blast
    qed
  qed
  then show False by simp
qed

lemma evaluate_loops:
  "search_loop ''caa'' ''aa'' 0 = Some (- 1)" "optimized_loop ''caa'' ''aa'' (push_bit 33 1) 0 = Some (- 1)" "charMask ''aa'' = Some (push_bit 33 1)"
proof -
  have a: "mask_bit CHR ''a'' = Some (push_bit 33 1)" by code_simp
  have le: "\<not> (2 :: u64) \<le> 1" by (simp add: word_le_nat_alt)
  show "search_loop ''caa'' ''aa'' 0 = Some (- 1)"
    by (simp add: search_loop.simps[of _ _ 0] search_loop.simps[of _ _ 2] le shift_by_def lastPos_def Let_def)
  show "charMask ''aa'' = Some (push_bit 33 1)" by (simp add: charMask_def a)
  show "optimized_loop ''caa'' ''aa'' (push_bit 33 1) 0 = Some (- 1)"
    by (simp add: optimized_loop.simps[of _ _ _ 0] optimized_loop.simps[of _ _ _ 2] le a shift_by_def posMap_def Let_def)
qed

lemma searcher_miss: "do { v \<leftarrow> VolnitskySearcher ''aaab''; searcher_search v (''xxaaab'' @ [CHR 0x00]) 6 } = Some None"
proof -
  define v where "v = \<lparr>vs_pattern = ''aaab'', hash_table = (\<lambda>_. - 1)(0x6161 := 1, 0x6261 := 2)\<rparr>"
  have "VolnitskySearcher ''aaab'' = Some v"
    by (simp add: VolnitskySearcher_def v_def upt_rec load_hash_def fun_upd_twist)
  moreover have "searcher_loop v (''xxaaab'' @ [CHR 0x00]) 6 2 = Some None"
    by (simp add: searcher_loop.simps[of _ _ _ 2] searcher_loop.simps[of _ _ _ 5] searcher_loop.simps[of _ _ _ 8] v_def load_hash_def vec_at_def Let_def)
  ultimately show ?thesis by (simp add: searcher_search_def v_def numeral_2_eq_2)
qed

text \<open>
  The shift of \<^verbatim>\<open>Volnitsky\<close> is wrong.  It skips the occurrence of ''aa'' in ''caa'', in both variants; searching
  ''aab'' in ''abb'' computes a shift of zero and never ends; and \<^verbatim>\<open>VolnitskySearcher\<close> misses a pattern in which a pair of characters
  is repeated.
\<close>
lemma search_wrong:
  "search ''caa'' ''aa'' = Some (- 1) \<and> searchOptimized ''caa'' ''aa'' = Some (- 1) \<and> occurs_at ''aa'' ''caa'' 1 \<and>
   match_back ''abb'' ''aab'' 0 3 = Some 1 \<and> shift_by 3 (lastPos ''aab'' CHR ''b'') 1 0 = 0 \<and> search ''abb'' ''aab'' = None \<and>
   do { v \<leftarrow> VolnitskySearcher ''aaab''; searcher_search v (''xxaaab'' @ [CHR 0x00]) 6 } = Some None \<and> occurs_at ''aaab'' ''xxaaab'' 2"
proof -
  have "match_back ''abb'' ''aab'' 0 3 = Some 1" by (simp add: eval_nat_numeral)
  moreover have "shift_by 3 (lastPos ''aab'' CHR ''b'') 1 0 = 0" by (simp add: shift_by_def lastPos_def)
  moreover from calculation have "search_loop ''abb'' ''aab'' 0 = None" by (intro search_loop_stuck[where j = 1 and c = "CHR ''b''"]) (simp_all add: shift_by_def lastPos_def)
  ultimately show ?thesis using evaluate_loops searcher_miss by (simp add: search_def searchOptimized_def occurs_at_def)
qed

end
