(* ===== verification/Segment_Tree.thy ===== *)
theory Segment_Tree
  imports Xlab_Prelude "HOL-Library.Signed_Division"
begin

text \<open>
  \<^verbatim>\<open>SegmentTree\<close> of \<^verbatim>\<open>src/cc/algo/src/algo/algo_segment_tree.cc\<close>: sums over ranges of an array, in a vector of four times its
  length.  Indices and sums are \<^verbatim>\<open>int\<close>; \<^const>\<open>None\<close> is an access outside a vector, an overflow of a sum, or a recursion that does
  not end.
\<close>

section \<open>The code\<close>

record segment_tree =
  st_tree :: "int list"
  st_n :: int

definition int_fits :: "int \<Rightarrow> bool" where
  "int_fits x \<longleftrightarrow> - (2 ^ 31) \<le> x \<and> x < 2 ^ 31"

definition add_int :: "int \<Rightarrow> int \<Rightarrow> int option" where
  "add_int x y = (if int_fits (x + y) then Some (x + y) else None)"

text \<open>\<^verbatim>\<open>tree[node] = tree[node * 2] + tree[node * 2 + 1]\<close>\<close>

definition pull :: "int \<Rightarrow> int list \<Rightarrow> int list option" where
  "pull node tree = do {
     a \<leftarrow> at_index tree (node * 2);
     b \<leftarrow> at_index tree (node * 2 + 1);
     s \<leftarrow> add_int a b;
     set_index tree node s}"

partial_function (option) st_build :: "int \<Rightarrow> int \<Rightarrow> int \<Rightarrow> int list \<Rightarrow> int list \<Rightarrow> int list option" where
  "st_build node l r nums tree =
     (if l = r then Option.bind (at_index nums l) (set_index tree node)
      else let mid = (l + r) sdiv 2 in
        Option.bind (st_build (node * 2) l mid nums tree) (\<lambda>tree.
        Option.bind (st_build (node * 2 + 1) (mid + 1) r nums tree) (pull node)))"

definition SegmentTree :: "int list \<Rightarrow> segment_tree option" where
  "SegmentTree nums = (if int_fits (4 * int (length nums)) then do {
     tree \<leftarrow> st_build 1 0 (int (length nums) - 1) nums (replicate (4 * length nums) 0);
     Some \<lparr>st_tree = tree, st_n = int (length nums)\<rparr>} else None)"

partial_function (option) query_node :: "int list \<Rightarrow> int \<Rightarrow> int \<Rightarrow> int \<Rightarrow> int \<Rightarrow> int \<Rightarrow> int option" where
  "query_node tree node l r ql qr =
     (if qr < l \<or> r < ql then Some 0
      else if ql \<le> l \<and> r \<le> qr then at_index tree node
      else let mid = (l + r) sdiv 2 in
        Option.bind (query_node tree (node * 2) l mid ql qr) (\<lambda>leftSum.
        Option.bind (query_node tree (node * 2 + 1) (mid + 1) r ql qr) (\<lambda>rightSum.
          add_int leftSum rightSum)))"

definition st_query :: "segment_tree \<Rightarrow> int \<Rightarrow> int \<Rightarrow> int option" where
  "st_query t ql qr = query_node (st_tree t) 1 0 (st_n t - 1) ql qr"

partial_function (option) update_node :: "int \<Rightarrow> int \<Rightarrow> int \<Rightarrow> int \<Rightarrow> int \<Rightarrow> int list \<Rightarrow> int list option" where
  "update_node node l r idx val tree =
     (if l = r then set_index tree node val
      else let mid = (l + r) sdiv 2 in
        Option.bind (if idx \<le> mid then update_node (node * 2) l mid idx val tree
          else update_node (node * 2 + 1) (mid + 1) r idx val tree) (pull node))"

definition st_update :: "segment_tree \<Rightarrow> int \<Rightarrow> int \<Rightarrow> segment_tree option" where
  "st_update t idx val = do { tree \<leftarrow> update_node 1 0 (st_n t - 1) idx val (st_tree t); Some (t\<lparr>st_tree := tree\<rparr>) }"

section \<open>Nodes and their descendants\<close>

definition desc :: "nat \<Rightarrow> nat \<Rightarrow> bool" where
  "desc n k \<longleftrightarrow> (\<exists>d. k div 2 ^ d = n)"

lemma desc_refl [simp]: "desc n n"
  unfolding desc_def by (rule exI[of _ 0]) simp

lemma div_power_step: "k div 2 ^ Suc d = k div 2 ^ d div (2::nat)"
  by (simp only: power_Suc2 div_mult2_eq)

lemma desc_child: "desc (2 * n) k \<Longrightarrow> desc n k" "desc (2 * n + 1) k \<Longrightarrow> desc n k"
proof -
  have up: "k div 2 ^ d = m \<Longrightarrow> m div 2 = n \<Longrightarrow> desc n k" for d m
    unfolding desc_def by (rule exI[of _ "Suc d"]) (simp only: div_power_step)
  show "desc (2 * n) k \<Longrightarrow> desc n k" "desc (2 * n + 1) k \<Longrightarrow> desc n k"
    unfolding desc_def[of "2 * n"] desc_def[of "2 * n + 1"] using up[of _ "2 * n"] up[of _ "2 * n + 1"] by auto
qed

lemma desc_le: "desc n k \<Longrightarrow> n \<le> k"
  by (auto simp: desc_def)

lemma desc_twice:
  assumes "desc a k" "desc b k" "0 < a" "0 < b"
  shows "a = b \<or> a \<le> b div 2 \<or> b \<le> a div 2"
proof -
  obtain d e where de: "k div 2 ^ d = a" "k div 2 ^ e = b" using assms by (auto simp: desc_def)
  have half: "k div 2 ^ e \<le> k div 2 ^ d div 2" if lt: "d < e" for d e
  proof -
    obtain f where e: "e = Suc d + f" using less_imp_Suc_add[OF lt] by auto
    have "k div 2 ^ e = k div 2 ^ d div 2 div 2 ^ f" unfolding e power_add div_mult2_eq div_power_step ..
    then show ?thesis by simp
  qed
  show ?thesis using half[of d e] half[of e d] de by (cases d e rule: linorder_cases) auto
qed

lemma desc_disjoint:
  "0 < n \<Longrightarrow> desc (2 * n) k \<Longrightarrow> \<not> desc (2 * n + 1) k" "0 < n \<Longrightarrow> \<not> desc (2 * n) n" "0 < n \<Longrightarrow> \<not> desc (2 * n + 1) n"
  using desc_twice[of "2 * n" k "2 * n + 1"] desc_le[of "2 * n" n] desc_le[of "2 * n + 1" n] by auto

section \<open>The invariant\<close>

definition range_sum :: "int list \<Rightarrow> nat \<Rightarrow> nat \<Rightarrow> int" where
  "range_sum xs l r = (\<Sum>i = l..r. xs ! i)"

inductive seg :: "int list \<Rightarrow> int list \<Rightarrow> nat \<Rightarrow> nat \<Rightarrow> nat \<Rightarrow> bool" for tree xs where
  leaf: "node < length tree \<Longrightarrow> tree ! node = xs ! l \<Longrightarrow> seg tree xs node l l"
| inner: "l < r \<Longrightarrow> node < length tree \<Longrightarrow> tree ! node = range_sum xs l r \<Longrightarrow> seg tree xs (2 * node) l ((l + r) div 2) \<Longrightarrow>
    seg tree xs (2 * node + 1) ((l + r) div 2 + 1) r \<Longrightarrow> seg tree xs node l r"

inductive_cases seg_innerE: "seg tree xs node l r"

lemma seg_root: "seg tree xs node l r \<Longrightarrow> node < length tree \<and> tree ! node = range_sum xs l r \<and> l \<le> r"
  by (induction rule: seg.induct) (auto simp: range_sum_def)

lemma seg_frame:
  "seg tree xs node l r \<Longrightarrow> length tree' = length tree \<Longrightarrow> (\<And>k. desc node k \<Longrightarrow> tree' ! k = tree ! k) \<Longrightarrow>
    (\<And>i. l \<le> i \<Longrightarrow> i \<le> r \<Longrightarrow> xs' ! i = xs ! i) \<Longrightarrow> seg tree' xs' node l r"
proof (induction rule: seg.induct)
  case (leaf node l)
  then show ?case by (auto intro: seg.leaf)
next
  case (inner l r node)
  have sum: "range_sum xs' l r = range_sum xs l r" unfolding range_sum_def using inner.prems(3) by (intro sum.cong) auto
  have left: "seg tree' xs' (2 * node) l ((l + r) div 2)"
  proof (rule inner.IH(1)[OF inner.prems(1)])
    show "tree' ! k = tree ! k" if "desc (2 * node) k" for k by (rule inner.prems(2)[OF desc_child(1)[OF that]])
    show "xs' ! i = xs ! i" if "l \<le> i" "i \<le> (l + r) div 2" for i using inner.prems(3) that inner.hyps(1) by simp
  qed
  have right: "seg tree' xs' (2 * node + 1) ((l + r) div 2 + 1) r"
  proof (rule inner.IH(2)[OF inner.prems(1)])
    show "tree' ! k = tree ! k" if "desc (2 * node + 1) k" for k by (rule inner.prems(2)[OF desc_child(2)[OF that]])
    show "xs' ! i = xs ! i" if "(l + r) div 2 + 1 \<le> i" "i \<le> r" for i using inner.prems(3) that inner.hyps(1) by simp
  qed
  have "node < length tree'" "tree' ! node = range_sum xs' l r"
    using inner.hyps(2,3) inner.prems(1) inner.prems(2)[of node] sum by simp_all
  then show ?case using inner.hyps(1) left right seg.inner by blast
qed

lemma range_sum_split: "l \<le> m \<Longrightarrow> m < r \<Longrightarrow> range_sum xs l r = range_sum xs l m + range_sum xs (m + 1) r"
  unfolding range_sum_def using sum.ub_add_nat[of l m "\<lambda>i. xs ! i" "r - m"] by simp

lemma middle: "(int l + int r) sdiv 2 = int ((l + r) div 2)" "int node * 2 = int (2 * node)" "int k + 1 = int (k + 1)"
proof -
  have "(int l + int r) sdiv 2 = (int l + int r) div 2" by (cases "l + r = 0") (simp_all add: signed_divide_int_def sgn_if)
  then show "(int l + int r) sdiv 2 = int ((l + r) div 2)" by simp
qed simp_all

section \<open>Operations on a segment\<close>

definition sums_fit :: "int list \<Rightarrow> bool" where
  "sums_fit xs \<longleftrightarrow> (\<forall>r < length xs. \<forall>l \<le> r. int_fits (range_sum xs l r))"

definition others_same :: "nat \<Rightarrow> int list \<Rightarrow> int list \<Rightarrow> bool" where
  "others_same node tree tree' \<longleftrightarrow> length tree' = length tree \<and> (\<forall>k. \<not> desc node k \<longrightarrow> tree' ! k = tree ! k)"

lemma others_same_child:
  "others_same (2 * node) tree tree' \<Longrightarrow> others_same node tree tree'" "others_same (2 * node + 1) tree tree' \<Longrightarrow> others_same node tree tree'"
  unfolding others_same_def using desc_child[of node] by blast+

lemma others_same_trans: "others_same node t t' \<Longrightarrow> others_same node t' t'' \<Longrightarrow> others_same node t t''"
  by (simp add: others_same_def)

text \<open>The sibling of a changed segment keeps its sums.\<close>

lemma seg_sibling:
  assumes "0 < node" "\<And>i. l \<le> i \<Longrightarrow> i \<le> r \<Longrightarrow> xs' ! i = xs ! i"
  shows "others_same (2 * node + 1) t t' \<Longrightarrow> seg t xs (2 * node) l r \<Longrightarrow> seg t' xs' (2 * node) l r"
    "others_same (2 * node) t t' \<Longrightarrow> seg t xs (2 * node + 1) l r \<Longrightarrow> seg t' xs' (2 * node + 1) l r"
  using desc_disjoint(1)[OF assms(1)] assms(2) unfolding others_same_def by (auto intro: seg_frame)

lemma pull_seg:
  assumes "l < r" "0 < node" "node < length t" "int_fits (range_sum xs l r)"
    and left: "seg t xs (2 * node) l ((l + r) div 2)" and right: "seg t xs (2 * node + 1) ((l + r) div 2 + 1) r"
  shows "\<exists>t'. pull (int node) t = Some t' \<and> others_same node t t' \<and> seg t' xs node l r"
proof -
  let ?t = "t[node := range_sum xs l r]"
  note L = seg_root[OF left] and R = seg_root[OF right]
  have "range_sum xs l r = range_sum xs l ((l + r) div 2) + range_sum xs ((l + r) div 2 + 1) r"
    using assms(1) by (intro range_sum_split) auto
  then have "pull (int node) t = Some ?t"
    using L R assms(3,4) unfolding pull_def middle index_nat add_int_def by simp
  moreover have "others_same node t ?t" unfolding others_same_def using desc_refl[of node] by (metis length_list_update nth_list_update_neq)
  moreover have "?t ! k = t ! k" if "desc (2 * node) k \<or> desc (2 * node + 1) k" for k
    using that desc_disjoint(2,3)[OF assms(2)] by (metis nth_list_update_neq)
  then have "seg ?t xs (2 * node) l ((l + r) div 2)" "seg ?t xs (2 * node + 1) ((l + r) div 2 + 1) r"
    using seg_frame[OF left, of ?t xs] seg_frame[OF right, of ?t xs] by simp_all
  then have "seg ?t xs node l r" using assms(1,3) by (auto intro: seg.inner)
  ultimately show ?thesis by blast
qed

lemma st_build_seg:
  "l \<le> r \<Longrightarrow> r - l < 2 ^ k \<Longrightarrow> r < length xs \<Longrightarrow> sums_fit xs \<Longrightarrow> 0 < node \<Longrightarrow> (node + 1) * 2 ^ k \<le> length t \<Longrightarrow>
    \<exists>t'. st_build (int node) (int l) (int r) xs t = Some t' \<and> others_same node t t' \<and> seg t' xs node l r"
proof (induction k arbitrary: node l r t)
  case (Suc k)
  let ?m = "(l + r) div 2"
  have node: "node < length t"
    using Suc.prems(6) mult_le_mono2[of 1 "2 ^ Suc k" "node + 1"] by (simp del: power_Suc)
  show ?case
  proof (cases "l = r")
    case True
    then show ?thesis using Suc.prems(3) node
      by (auto simp: st_build.simps[of "int node"] at_index_def set_index_def others_same_def nth_list_update seg.leaf)
  next
    case False
    then have m: "l \<le> ?m" "?m < r" "?m - l < 2 ^ k" "r - (?m + 1) < 2 ^ k" using Suc.prems(1,2) by auto
    obtain t1 where t1: "st_build (int (2 * node)) (int l) (int ?m) xs t = Some t1" "others_same (2 * node) t t1" "seg t1 xs (2 * node) l ?m"
      using Suc.IH[of l ?m "2 * node" t] Suc.prems m by auto
    have "length t1 = length t" using t1(2) by (simp add: others_same_def)
    then obtain t2 where t2: "st_build (int (2 * node + 1)) (int (?m + 1)) (int r) xs t1 = Some t2"
      "others_same (2 * node + 1) t1 t2" "seg t2 xs (2 * node + 1) (?m + 1) r"
      using Suc.IH[of "?m + 1" r "2 * node + 1" t1] Suc.prems m by auto
    have left: "seg t2 xs (2 * node) l ?m" using seg_sibling(1)[OF Suc.prems(5) _ t2(2) t1(3)] by simp
    have same: "others_same node t t2" using others_same_trans[OF others_same_child(1)[OF t1(2)] others_same_child(2)[OF t2(2)]] .
    have "l < r" "node < length t2" "int_fits (range_sum xs l r)"
      using False Suc.prems node same by (auto simp: sums_fit_def others_same_def)
    from pull_seg[OF this(1) Suc.prems(5) this(2,3) left t2(3)]
    obtain t3 where "pull (int node) t2 = Some t3" "others_same node t2 t3" "seg t3 xs node l r" by blast
    moreover have "st_build (int node) (int l) (int r) xs t = pull (int node) t2"
      using False t1(1) t2(1) by (subst st_build.simps) (simp only: middle Let_def if_False of_nat_eq_iff Option.bind.bind_lunit)
    ultimately show ?thesis using others_same_trans[OF same] by metis
  qed
qed (auto simp: st_build.simps[of "int node" for node] at_index_def set_index_def others_same_def nth_list_update seg.leaf)

text \<open>A query sums the elements of its segment that lie in the queried range.\<close>

definition clip_sum :: "int list \<Rightarrow> nat \<Rightarrow> nat \<Rightarrow> int \<Rightarrow> int \<Rightarrow> int" where
  "clip_sum xs l r ql qr = (\<Sum>i \<in> {i \<in> {l..r}. ql \<le> int i \<and> int i \<le> qr}. xs ! i)"

lemma clip_sum_fits:
  assumes "sums_fit xs" "r < length xs"
  shows "int_fits (clip_sum xs l r ql qr)"
proof (cases "{i \<in> {l..r}. ql \<le> int i \<and> int i \<le> qr} = {}")
  case True
  then show ?thesis unfolding clip_sum_def True by (simp add: int_fits_def)
next
  case False
  then obtain i where i: "l \<le> i" "i \<le> r" "ql \<le> int i" "int i \<le> qr" by auto
  have "{i \<in> {l..r}. ql \<le> int i \<and> int i \<le> qr} = {max l (nat ql)..min r (nat qr)}" using i(3,4) by auto
  then have "clip_sum xs l r ql qr = range_sum xs (max l (nat ql)) (min r (nat qr))" by (simp add: clip_sum_def range_sum_def)
  moreover have "max l (nat ql) \<le> min r (nat qr)" "min r (nat qr) < length xs" using i assms(2) by auto
  ultimately show ?thesis using assms(1) by (simp add: sums_fit_def)
qed

lemma clip_sum_split:
  assumes "l \<le> m" "m < r"
  shows "clip_sum xs l r ql qr = clip_sum xs l m ql qr + clip_sum xs (m + 1) r ql qr"
proof -
  have "{i \<in> {l..r}. ql \<le> int i \<and> int i \<le> qr} =
    {i \<in> {l..m}. ql \<le> int i \<and> int i \<le> qr} \<union> {i \<in> {m + 1..r}. ql \<le> int i \<and> int i \<le> qr}" using assms by auto
  then show ?thesis unfolding clip_sum_def by (simp add: sum.union_disjoint[symmetric] disjoint_iff)
qed

lemma query_node_seg:
  "seg t xs node l r \<Longrightarrow> sums_fit xs \<Longrightarrow> r < length xs \<Longrightarrow>
    query_node t (int node) (int l) (int r) ql qr = Some (clip_sum xs l r ql qr)"
proof (induction rule: seg.induct)
  case (leaf node l)
  have "{i \<in> {l..l}. ql \<le> int i \<and> int i \<le> qr} = (if ql \<le> int l \<and> int l \<le> qr then {l} else {})" by auto
  then show ?case using leaf by (subst query_node.simps) (auto simp: clip_sum_def index_nat)
next
  case (inner l r node)
  let ?m = "(l + r) div 2"
  have m: "l \<le> ?m" "?m < r" using inner.hyps(1) by auto
  consider "qr < int l \<or> int r < ql" | "\<not> (qr < int l \<or> int r < ql)" "ql \<le> int l \<and> int r \<le> qr"
    | "\<not> (qr < int l \<or> int r < ql)" "\<not> (ql \<le> int l \<and> int r \<le> qr)" by blast
  then show ?case
  proof cases
    case 1
    then have none: "{i \<in> {l..r}. ql \<le> int i \<and> int i \<le> qr} = {}" by auto
    show ?thesis using 1 unfolding clip_sum_def none by (subst query_node.simps) simp
  next
    case 2
    then have all: "{i \<in> {l..r}. ql \<le> int i \<and> int i \<le> qr} = {l..r}" by auto
    show ?thesis using 2 inner.hyps(2,3) unfolding clip_sum_def all
      by (subst query_node.simps) (simp add: index_nat range_sum_def)
  next
    case 3
    have "query_node t (int node) (int l) (int r) ql qr = add_int (clip_sum xs l ?m ql qr) (clip_sum xs (?m + 1) r ql qr)"
      using 3 inner.IH inner.prems m
      by (subst query_node.simps) (simp only: middle Let_def if_False Option.bind.bind_lunit)
    then show ?thesis by (simp only: add_int_def clip_sum_split[OF m, symmetric] clip_sum_fits[OF inner.prems] if_True)
  qed
qed

text \<open>An update writes the position of its segment that is closest to the index.\<close>

definition clamp :: "int \<Rightarrow> nat \<Rightarrow> nat \<Rightarrow> nat" where
  "clamp idx l r = max l (min r (nat idx))"

lemma clamp_child:
  assumes "l \<le> m" "m < r"
  shows "idx \<le> int m \<Longrightarrow> clamp idx l m = clamp idx l r \<and> clamp idx l r \<le> m"
    "\<not> idx \<le> int m \<Longrightarrow> clamp idx (m + 1) r = clamp idx l r \<and> m < clamp idx l r"
  using assms by (auto simp: clamp_def max_def min_def)

lemma update_node_seg:
  "seg t xs node l r \<Longrightarrow> 0 < node \<Longrightarrow> r < length xs \<Longrightarrow> sums_fit (xs[clamp idx l r := val]) \<Longrightarrow>
    \<exists>t'. update_node (int node) (int l) (int r) idx val t = Some t' \<and> others_same node t t' \<and> seg t' (xs[clamp idx l r := val]) node l r"
proof (induction rule: seg.induct)
  case (leaf node l)
  have "others_same node t (t[node := val])" unfolding others_same_def using desc_refl[of node] by (metis length_list_update nth_list_update_neq)
  moreover have "clamp idx l l = l" by (simp add: clamp_def)
  ultimately show ?case using leaf by (subst update_node.simps) (auto simp: index_nat intro: seg.leaf)
next
  case (inner l r node)
  let ?m = "(l + r) div 2" and ?xs = "xs[clamp idx l r := val]"
  have m: "l \<le> ?m" "?m < r" using inner.hyps(1) by auto
  have "\<exists>t1. (if idx \<le> int ?m then update_node (int (2 * node)) (int l) (int ?m) idx val t
      else update_node (int (2 * node + 1)) (int (?m + 1)) (int r) idx val t) = Some t1 \<and> others_same node t t1 \<and>
      seg t1 ?xs (2 * node) l ?m \<and> seg t1 ?xs (2 * node + 1) (?m + 1) r"
  proof (cases "idx \<le> int ?m")
    case True
    note c = clamp_child(1)[OF m True]
    obtain t1 where t1: "update_node (int (2 * node)) (int l) (int ?m) idx val t = Some t1" "others_same (2 * node) t t1"
      "seg t1 ?xs (2 * node) l ?m" using inner.IH(1) inner.prems m c by auto
    moreover have "seg t1 ?xs (2 * node + 1) (?m + 1) r"
      by (rule seg_sibling(2)[OF inner.prems(1) _ t1(2) inner.hyps(5)]) (use c in simp)
    ultimately show ?thesis using True others_same_child(1)[OF t1(2)] by (simp only: if_True) blast
  next
    case False
    note c = clamp_child(2)[OF m False]
    obtain t1 where t1: "update_node (int (2 * node + 1)) (int (?m + 1)) (int r) idx val t = Some t1" "others_same (2 * node + 1) t t1"
      "seg t1 ?xs (2 * node + 1) (?m + 1) r" using inner.IH(2) inner.prems m c by auto
    moreover have "seg t1 ?xs (2 * node) l ?m"
      by (rule seg_sibling(1)[OF inner.prems(1) _ t1(2) inner.hyps(4)]) (use c in simp)
    ultimately show ?thesis using False others_same_child(2)[OF t1(2)] by (simp only: if_False) blast
  qed
  then obtain t1 where t1: "(if idx \<le> int ?m then update_node (int (2 * node)) (int l) (int ?m) idx val t
      else update_node (int (2 * node + 1)) (int (?m + 1)) (int r) idx val t) = Some t1" "others_same node t t1"
      "seg t1 ?xs (2 * node) l ?m" "seg t1 ?xs (2 * node + 1) (?m + 1) r" by blast
  have "node < length t1" "int_fits (range_sum ?xs l r)"
    using inner.hyps(1,2) inner.prems(2,3) t1(2) by (auto simp: sums_fit_def others_same_def)
  from pull_seg[OF inner.hyps(1) inner.prems(1) this t1(3,4)]
  obtain t2 where "pull (int node) t1 = Some t2" "others_same node t1 t2" "seg t2 ?xs node l r" by blast
  moreover have "update_node (int node) (int l) (int r) idx val t = pull (int node) t1"
    using inner.hyps(1) t1(1) by (subst update_node.simps) (simp only: middle Let_def of_nat_eq_iff Option.bind.bind_lunit less_imp_neq if_False)
  ultimately show ?case using others_same_trans[OF t1(2)] by metis
qed

section \<open>The tree as an array\<close>

definition st_rep :: "segment_tree \<Rightarrow> int list \<Rightarrow> bool" where
  "st_rep t xs \<longleftrightarrow> xs \<noteq> [] \<and> st_n t = int (length xs) \<and> sums_fit xs \<and> seg (st_tree t) xs 1 0 (length xs - 1)"

lemma last_index: "xs \<noteq> [] \<Longrightarrow> int (length xs) - 1 = int (length xs - 1)"
  by (cases xs) auto

text \<open>The vector is long enough: a power of two between the length and twice the length bounds the depth.\<close>

lemma power_between: "0 < n \<Longrightarrow> \<exists>k. n \<le> 2 ^ k \<and> 2 ^ k \<le> 2 * n" for n :: nat
proof (induction n)
  case (Suc n)
  show ?case
  proof (cases "n = 0")
    case False
    then obtain k where k: "n \<le> 2 ^ k" "2 ^ k \<le> 2 * n" using Suc by auto
    show ?thesis
    proof (cases "Suc n \<le> 2 ^ k")
      case False
      then have "n = 2 ^ k" using k(1) by simp
      then show ?thesis by (intro exI[of _ "Suc k"]) (simp add: Suc_le_eq)
    qed (use k in auto)
  qed (auto intro: exI[of _ 0])
qed simp

lemma SegmentTree_rep:
  assumes "xs \<noteq> []" "sums_fit xs" "length xs < 2 ^ 29"
  shows "\<exists>t. SegmentTree xs = Some t \<and> st_rep t xs"
proof -
  obtain k where k: "length xs \<le> 2 ^ k" "2 ^ k \<le> 2 * length xs" using power_between[of "length xs"] assms(1) by auto
  have "length xs - 1 - 0 < 2 ^ k" "length xs - 1 < length xs" using k(1) assms(1) by (cases xs; simp)+
  from st_build_seg[OF _ this assms(2), of 1 "replicate (4 * length xs) 0"]
  obtain t where "st_build (int 1) (int 0) (int (length xs - 1)) xs (replicate (4 * length xs) 0) = Some t" "seg t xs 1 0 (length xs - 1)"
    using k(2) by auto
  moreover have "int_fits (4 * int (length xs))" using assms(3) by (simp add: int_fits_def)
  ultimately have "SegmentTree xs = Some \<lparr>st_tree = t, st_n = int (length xs)\<rparr>"
    unfolding SegmentTree_def last_index[OF assms(1)] of_nat_1 semiring_1_class.of_nat_0 by simp
  moreover have "st_rep \<lparr>st_tree = t, st_n = int (length xs)\<rparr> xs" using \<open>seg t xs 1 0 (length xs - 1)\<close> assms by (simp add: st_rep_def)
  ultimately show ?thesis by blast
qed

lemma st_query_rep:
  assumes "st_rep t xs"
  shows "st_query t ql qr = Some (clip_sum xs 0 (length xs - 1) ql qr)"
proof -
  have rep: "xs \<noteq> []" "st_n t = int (length xs)" "sums_fit xs" "seg (st_tree t) xs 1 0 (length xs - 1)"
    using assms by (simp_all add: st_rep_def)
  have "length xs - 1 < length xs" using rep(1) by (cases xs) simp_all
  from query_node_seg[OF rep(4,3) this] show ?thesis
    unfolding st_query_def rep(2) last_index[OF rep(1)] by (simp only: of_nat_1 semiring_1_class.of_nat_0)
qed

lemma st_update_rep:
  assumes "st_rep t xs" "sums_fit (xs[clamp idx 0 (length xs - 1) := val])"
  shows "\<exists>t'. st_update t idx val = Some t' \<and> st_rep t' (xs[clamp idx 0 (length xs - 1) := val])"
proof -
  let ?xs = "xs[clamp idx 0 (length xs - 1) := val]"
  have rep: "xs \<noteq> []" "st_n t = int (length xs)" "seg (st_tree t) xs 1 0 (length xs - 1)"
    using assms by (simp_all add: st_rep_def)
  have "length xs - 1 < length xs" using rep(1) by (cases xs) simp_all
  from update_node_seg[OF rep(3) _ this assms(2)]
  obtain tree where tree: "update_node (int 1) (int 0) (int (length xs - 1)) idx val (st_tree t) = Some tree"
    "seg tree ?xs 1 0 (length xs - 1)" by auto
  have "st_update t idx val = Some (t\<lparr>st_tree := tree\<rparr>)"
    unfolding st_update_def rep(2) last_index[OF rep(1)]
    using tree(1) by (simp only: of_nat_1 semiring_1_class.of_nat_0 Option.bind.bind_lunit)
  moreover have "st_rep (t\<lparr>st_tree := tree\<rparr>) ?xs" using tree(2) assms(2) rep(1,2) by (simp add: st_rep_def)
  ultimately show ?thesis by blast
qed

section \<open>Properties\<close>

datatype st_call = Query int int | Update int int

fun st_run :: "st_call list \<Rightarrow> segment_tree \<Rightarrow> (int list \<times> segment_tree) option" where
  "st_run [] t = Some ([], t)"
| "st_run (Query ql qr # cs) t = do { s \<leftarrow> st_query t ql qr; (rs, t) \<leftarrow> st_run cs t; Some (s # rs, t) }"
| "st_run (Update idx val # cs) t = do { t \<leftarrow> st_update t idx val; st_run cs t }"

text \<open>The array: a query sums the elements with index in the range; an update of an index outside the array writes its nearest end.\<close>

fun array_run :: "st_call list \<Rightarrow> int list \<Rightarrow> int list \<times> int list" where
  "array_run [] xs = ([], xs)"
| "array_run (Query ql qr # cs) xs = (let (rs, ys) = array_run cs xs in
     (sum_list (map (\<lambda>i. xs ! i) (filter (\<lambda>i. ql \<le> int i \<and> int i \<le> qr) [0..<length xs])) # rs, ys))"
| "array_run (Update idx val # cs) xs = array_run cs (xs[max 0 (min (length xs - 1) (nat idx)) := val])"

fun all_fit :: "st_call list \<Rightarrow> int list \<Rightarrow> bool" where
  "all_fit [] xs \<longleftrightarrow> sums_fit xs"
| "all_fit (Query ql qr # cs) xs \<longleftrightarrow> all_fit cs xs"
| "all_fit (Update idx val # cs) xs \<longleftrightarrow> sums_fit xs \<and> all_fit cs (xs[max 0 (min (length xs - 1) (nat idx)) := val])"

lemma all_fitD: "all_fit cs xs \<Longrightarrow> sums_fit xs"
  by (induction cs xs rule: all_fit.induct) auto

lemma clip_sum_list: "xs \<noteq> [] \<Longrightarrow> clip_sum xs 0 (length xs - 1) ql qr =
    sum_list (map (\<lambda>i. xs ! i) (filter (\<lambda>i. ql \<le> int i \<and> int i \<le> qr) [0..<length xs]))"
proof -
  assume "xs \<noteq> []"
  then have "{i \<in> {0..length xs - 1}. ql \<le> int i \<and> int i \<le> qr} = set (filter (\<lambda>i. ql \<le> int i \<and> int i \<le> qr) [0..<length xs])"
    by (cases xs) auto
  then have "clip_sum xs 0 (length xs - 1) ql qr = sum ((!) xs) (set (filter (\<lambda>i. ql \<le> int i \<and> int i \<le> qr) [0..<length xs]))"
    unfolding clip_sum_def by (rule arg_cong[where f = "sum ((!) xs)"])
  also have "\<dots> = sum_list (map ((!) xs) (filter (\<lambda>i. ql \<le> int i \<and> int i \<le> qr) [0..<length xs]))"
    by (rule sum.distinct_set_conv_list) simp
  finally show ?thesis .
qed

lemma st_run_array:
  "st_rep t xs \<Longrightarrow> all_fit cs xs \<Longrightarrow> \<exists>t'. st_run cs t = Some (fst (array_run cs xs), t') \<and> st_rep t' (snd (array_run cs xs))"
proof (induction cs arbitrary: t xs)
  case (Cons c cs)
  have ne: "xs \<noteq> []" using Cons.prems(1) by (simp add: st_rep_def)
  show ?case
  proof (cases c)
    case (Query ql qr)
    obtain t' where "st_run cs t = Some (fst (array_run cs xs), t')" "st_rep t' (snd (array_run cs xs))"
      using Cons.IH[OF Cons.prems(1)] Cons.prems(2) Query by auto
    then show ?thesis using st_query_rep[OF Cons.prems(1)] clip_sum_list[OF ne] Query by (auto split: prod.splits)
  next
    case (Update idx val)
    let ?xs = "xs[max 0 (min (length xs - 1) (nat idx)) := val]"
    have "all_fit cs ?xs" using Cons.prems(2) Update by simp
    moreover from this obtain t1 where "st_update t idx val = Some t1" "st_rep t1 ?xs"
      using st_update_rep[OF Cons.prems(1), of idx val] all_fitD[of cs ?xs] unfolding clamp_def by blast
    ultimately show ?thesis using Cons.IH[of t1 ?xs] Update by simp
  qed
qed simp

text \<open>
  C33: a segment tree built from an array of positive length below \<open>2\<^sup>2\<^sup>9\<close> answers any sequence of queries and updates as the
  array, without leaving its vector of four times the length, when no sum of adjacent elements ever overflows an \<^verbatim>\<open>int\<close>.
\<close>

theorem st_refines_array:
  assumes "xs \<noteq> []" "all_fit cs xs" "length xs < 2 ^ 29"
  shows "\<exists>t'. do { t \<leftarrow> SegmentTree xs; st_run cs t } = Some (fst (array_run cs xs), t') \<and> st_rep t' (snd (array_run cs xs))"
proof -
  obtain t where "SegmentTree xs = Some t" "st_rep t xs" using SegmentTree_rep[OF assms(1) all_fitD[OF assms(2)] assms(3)] by blast
  then show ?thesis using st_run_array assms(2) by auto
qed

theorem st_refines_array_witness:
  "\<exists>t'. do { t \<leftarrow> SegmentTree [1, 3, 5]; st_run [Query 0 1, Update 2 10, Query (- 4) 9] t } = Some ([4, 14], t')"
proof -
  have "sums_fit [1, 3, 5]" "sums_fit [1, 3, 10]"
    by (auto simp: sums_fit_def range_sum_def int_fits_def less_Suc_eq le_Suc_eq numeral_2_eq_2)
  then have "all_fit [Query 0 1, Update 2 10, Query (- 4) 9] [1, 3, 5]" by (simp add: numeral_2_eq_2)
  moreover have "[1, 3, 5 :: int] \<noteq> []" "length [1, 3, 5 :: int] < 2 ^ 29" by simp_all
  ultimately show ?thesis using st_refines_array[of "[1, 3, 5]" "[Query 0 1, Update 2 10, Query (- 4) 9]"]
    by (auto simp: numeral_2_eq_2)
qed

end
