(* ===== verification/Graph_Search.thy ===== *)
theory Graph_Search
  imports Xlab_Prelude
begin

text \<open>
  The traversals of \<^verbatim>\<open>AlgoGraph\<close> in \<^verbatim>\<open>src/cc/algo/src/algo/algo_graph.cc\<close>: a graph is the vector of adjacency lists, of target
  and weight.  Breadth-first search is shown to visit the reachable nodes in the order of their distance, and Kahn's algorithm to
  return a topological order exactly when the graph has no cycle.  \<^const>\<open>None\<close> is an access outside a vector or a loop that does
  not end.
\<close>

section \<open>The code\<close>

type_synonym graph = "(int \<times> int) list list"

text \<open>The loop over the edges of the current node.\<close>

primrec bfs_edges :: "(int \<times> int) list \<Rightarrow> int list \<times> int set \<Rightarrow> int list \<times> int set" where
  "bfs_edges [] s = s"
| "bfs_edges (edge # edges) s = (let neighbor = fst edge; (q, visited) = s in
     bfs_edges edges (if neighbor \<notin> visited then (q @ [neighbor], insert neighbor visited) else s))"

text \<open>The visited nodes that are printed are the result.\<close>

partial_function (option) bfs_loop :: "graph \<Rightarrow> int list \<Rightarrow> int set \<Rightarrow> int list \<Rightarrow> int list option" where
  "bfs_loop adj q visited out = (case q of
     [] \<Rightarrow> Some out
   | current # q \<Rightarrow> Option.bind (at_index adj current) (\<lambda>edges.
       let (q, visited) = bfs_edges edges (q, visited) in bfs_loop adj q visited (out @ [current])))"

definition BreadthFirstSearch :: "int \<Rightarrow> graph \<Rightarrow> int list option" where
  "BreadthFirstSearch start_node adj = bfs_loop adj [start_node] {start_node} []"

definition count_degrees :: "int \<Rightarrow> graph \<Rightarrow> int list \<Rightarrow> int list option" where
  "count_degrees num_nodes adj in_degree = for_each (\<lambda>i in_degree. do {
       edges \<leftarrow> at_index adj i;
       for_each (\<lambda>edge in_degree. do { d \<leftarrow> at_index in_degree (fst edge); set_index in_degree (fst edge) (d + 1) }) edges in_degree})
     [0..num_nodes - 1] in_degree"

primrec relax_edges :: "(int \<times> int) list \<Rightarrow> int list \<Rightarrow> int list \<Rightarrow> (int list \<times> int list) option" where
  "relax_edges [] q in_degree = Some (q, in_degree)"
| "relax_edges (edge # edges) q in_degree = (let v = fst edge in do {
     d \<leftarrow> at_index in_degree v;
     in_degree \<leftarrow> set_index in_degree v (d - 1);
     relax_edges edges (if d - 1 = 0 then q @ [v] else q) in_degree})"

partial_function (option) kahn_loop :: "graph \<Rightarrow> int list \<Rightarrow> int list \<Rightarrow> int list \<Rightarrow> int list option" where
  "kahn_loop adj q in_degree topo_order = (case q of
     [] \<Rightarrow> Some topo_order
   | u # q \<Rightarrow> Option.bind (at_index adj u) (\<lambda>edges. Option.bind (relax_edges edges q in_degree) (\<lambda>(q, in_degree).
       kahn_loop adj q in_degree (topo_order @ [u]))))"

definition TopologicalSort :: "int \<Rightarrow> graph \<Rightarrow> int list option" where
  "TopologicalSort num_nodes adj = do {
     in_degree \<leftarrow> count_degrees num_nodes adj (replicate (nat num_nodes) 0);
     let q = filter (\<lambda>i. in_degree ! nat i = 0) [0..num_nodes - 1];
     topo_order \<leftarrow> kahn_loop adj q in_degree [];
     Some (if int (length topo_order) \<noteq> num_nodes then [] else topo_order)}"

section \<open>Edges and distances\<close>

definition targets :: "graph \<Rightarrow> int \<Rightarrow> int list" where
  "targets adj u = map fst (adj ! nat u)"

definition edges_of :: "graph \<Rightarrow> (int \<times> int) set" where
  "edges_of adj = {(u, v). 0 \<le> u \<and> u < int (length adj) \<and> v \<in> set (targets adj u)}"

definition graph_ok :: "graph \<Rightarrow> bool" where
  "graph_ok adj \<longleftrightarrow> (\<forall>(u, v) \<in> edges_of adj. 0 \<le> v \<and> v < int (length adj))"

lemma graph_okD: "graph_ok adj \<Longrightarrow> (u, v) \<in> edges_of adj \<Longrightarrow> u \<in> {0..<int (length adj)} \<and> v \<in> {0..<int (length adj)}"
proof -
  assume ok: "graph_ok adj" and e: "(u, v) \<in> edges_of adj"
  have "0 \<le> u \<and> u < int (length adj)" using e by (simp add: edges_of_def)
  then show ?thesis using bspec[OF ok[unfolded graph_ok_def] e] by simp
qed

definition reachable :: "graph \<Rightarrow> int \<Rightarrow> int set" where
  "reachable adj s = {v. (s, v) \<in> (edges_of adj)\<^sup>*}"

definition distance :: "graph \<Rightarrow> int \<Rightarrow> int \<Rightarrow> nat" where
  "distance adj s v = (LEAST n. (s, v) \<in> edges_of adj ^^ n)"

lemma distance_path: "v \<in> reachable adj s \<Longrightarrow> (s, v) \<in> edges_of adj ^^ distance adj s v"
  unfolding reachable_def distance_def using rtrancl_power by (metis (mono_tags, lifting) LeastI_ex mem_Collect_eq)

lemma distance_le: "(s, v) \<in> edges_of adj ^^ n \<Longrightarrow> distance adj s v \<le> n"
  unfolding distance_def by (rule Least_le)

lemma distance_self: "distance adj s s = 0"
  using distance_le[of s s 0 adj] by simp

lemma distance_edge:
  assumes "u \<in> reachable adj s" "(u, v) \<in> edges_of adj"
  shows "v \<in> reachable adj s" "distance adj s v \<le> Suc (distance adj s u)"
proof -
  show "v \<in> reachable adj s" using assms unfolding reachable_def by (auto intro: rtrancl_into_rtrancl)
  show "distance adj s v \<le> Suc (distance adj s u)"
    using distance_path[OF assms(1)] assms(2) by (intro distance_le) (auto intro: relpow_Suc_I)
qed

lemma distance_predecessor:
  assumes "v \<in> reachable adj s" "distance adj s v \<noteq> 0"
  obtains p where "p \<in> reachable adj s" "(p, v) \<in> edges_of adj" "distance adj s v = Suc (distance adj s p)"
proof -
  obtain n where n: "distance adj s v = Suc n" using assms(2) by (cases "distance adj s v") auto
  then obtain p where p: "(s, p) \<in> edges_of adj ^^ n" "(p, v) \<in> edges_of adj" using distance_path[OF assms(1)] by auto
  have "p \<in> reachable adj s" using p(1) unfolding reachable_def by (auto dest: relpow_imp_rtrancl)
  moreover from this have "distance adj s v \<le> Suc (distance adj s p)" using distance_edge(2)[OF _ p(2)] by simp
  moreover have "distance adj s p \<le> n" by (rule distance_le[OF p(1)])
  ultimately show ?thesis using that p(2) n by simp
qed

lemma distance_zero: "v \<in> reachable adj s \<Longrightarrow> distance adj s v = 0 \<Longrightarrow> v = s"
  using distance_path[of v adj s] by simp

section \<open>Breadth-first search\<close>

lemma bfs_edges_spec:
  "\<exists>new. bfs_edges edges (q, visited) = (q @ new, visited \<union> set new) \<and> distinct new \<and> set new = fst ` set edges - visited"
proof (induction edges arbitrary: q visited)
  case (Cons e edges)
  show ?case
  proof (cases "fst e \<in> visited")
    case True
    obtain new where "bfs_edges edges (q, visited) = (q @ new, visited \<union> set new)" "distinct new" "set new = fst ` set edges - visited"
      using Cons.IH by blast
    then show ?thesis using True by (intro exI[of _ new]) auto
  next
    case False
    obtain new where "bfs_edges edges (q @ [fst e], insert (fst e) visited) = ((q @ [fst e]) @ new, insert (fst e) visited \<union> set new)"
      "distinct new" "set new = fst ` set edges - insert (fst e) visited"
      using Cons.IH[of "q @ [fst e]" "insert (fst e) visited"] by blast
    moreover from this have "fst ` set (e # edges) - visited = set (fst e # new)" using False by auto
    moreover have "visited \<union> set (fst e # new) = insert (fst e) visited \<union> set new" by simp
    moreover have "distinct (fst e # new)" using calculation(2,3) by simp
    ultimately show ?thesis using False by (intro exI[of _ "fst e # new"]) (simp only: bfs_edges.simps Let_def prod.case if_True not_False_eq_True append_assoc append_Cons append_Nil)
  qed
qed simp

text \<open>What holds whenever the queue is tested: \<open>out\<close> and the queue hold every node up to the distance of the queue's head.\<close>

definition bfs_inv :: "graph \<Rightarrow> int \<Rightarrow> int list \<Rightarrow> int list \<Rightarrow> bool" where
  "bfs_inv adj s q out \<longleftrightarrow> distinct (out @ q) \<and> s \<in> set (out @ q) \<and> set (out @ q) \<subseteq> reachable adj s \<and>
     sorted (map (distance adj s) (out @ q)) \<and>
     (\<forall>u \<in> set out. \<forall>v. (u, v) \<in> edges_of adj \<longrightarrow> v \<in> set (out @ q)) \<and>
     (case q of [] \<Rightarrow> True | u # _ \<Rightarrow> (\<forall>x \<in> set q. distance adj s x \<le> Suc (distance adj s u)) \<and>
        (\<forall>x \<in> reachable adj s. distance adj s x \<le> distance adj s u \<longrightarrow> x \<in> set (out @ q)))"

lemma bfs_step:
  assumes ok: "graph_ok adj" and s: "0 \<le> s" "s < int (length adj)" and inv: "bfs_inv adj s (u # q) out"
  shows "\<exists>new. at_index adj u \<noteq> None \<and> bfs_edges (adj ! nat u) (q, set (out @ u # q)) = (q @ new, set ((out @ [u]) @ q @ new)) \<and>
    bfs_inv adj s (q @ new) (out @ [u]) \<and> at_index adj u = Some (adj ! nat u)"
proof -
  let ?d = "distance adj s"
  note I = inv[unfolded bfs_inv_def]
  have u: "u \<in> reachable adj s" using I by simp
  have range: "0 \<le> v \<and> v < int (length adj)" if "v \<in> reachable adj s" for v
    using that s ok unfolding reachable_def graph_ok_def by (auto elim: rtranclE)
  obtain new where new: "bfs_edges (adj ! nat u) (q, set (out @ u # q)) = (q @ new, set (out @ u # q) \<union> set new)" "distinct new"
    "set new = fst ` set (adj ! nat u) - set (out @ u # q)" using bfs_edges_spec by blast
  have edge: "(u, v) \<in> edges_of adj \<longleftrightarrow> v \<in> fst ` set (adj ! nat u)" for v using range[OF u] by (auto simp: edges_of_def targets_def)
  have new_d: "?d v = Suc (?d u) \<and> v \<in> reachable adj s" if "v \<in> set new" for v
  proof -
    have "(u, v) \<in> edges_of adj" "v \<notin> set (out @ u # q)" using that new(3) edge by auto
    then show ?thesis using distance_edge[OF u, of v] I by (force simp: le_Suc_eq)
  qed
  have q_d: "?d u \<le> ?d x \<and> ?d x \<le> Suc (?d u)" if "x \<in> set q" for x using I that by (auto simp: sorted_append)
  have out_d: "?d x \<le> ?d u" if "x \<in> set out" for x using I that by (auto simp: sorted_append)
  have "sorted (map ?d ((out @ [u]) @ q @ new))"
  proof -
    have "map ?d new = replicate (length new) (Suc (?d u))" using new_d by (simp add: map_replicate_const[symmetric] cong: map_cong)
    then have "sorted (map ?d new)" by simp
    moreover have "?d x \<le> ?d y" if "x \<in> set (out @ u # q)" "y \<in> set new" for x y
    proof -
      have "?d x \<le> Suc (?d u)" using that(1) out_d[of x] q_d[of x] by auto
      then show ?thesis using new_d[OF that(2)] by simp
    qed
    ultimately have "sorted (map ?d (out @ u # q) @ map ?d new)" using I by (auto simp: sorted_append)
    then show ?thesis by simp
  qed
  moreover have "distinct ((out @ [u]) @ q @ new)" using I new(2,3) by auto
  moreover have "\<forall>x \<in> set (out @ [u]). \<forall>v. (x, v) \<in> edges_of adj \<longrightarrow> v \<in> set ((out @ [u]) @ q @ new)"
    using I new(3) edge by auto
  moreover have "case q @ new of [] \<Rightarrow> True | u' # _ \<Rightarrow> (\<forall>x \<in> set (q @ new). ?d x \<le> Suc (?d u')) \<and>
      (\<forall>x \<in> reachable adj s. ?d x \<le> ?d u' \<longrightarrow> x \<in> set ((out @ [u]) @ q @ new))"
  proof (cases "q @ new")
    case (Cons u' qs)
    have u': "u' \<in> set q \<union> set new" "?d u \<le> ?d u'" using Cons q_d new_d by (cases q; force)+
    have "x \<in> set ((out @ [u]) @ q @ new)" if x: "x \<in> reachable adj s" "?d x \<le> ?d u'" for x
    proof (cases "?d x \<le> ?d u")
      case True
      then show ?thesis using I x(1) by auto
    next
      case False
      then have dx: "?d x = Suc (?d u)" "?d u' = Suc (?d u)" using x(2) u'(1) q_d[of u'] new_d[of u'] by auto
      then obtain p where p: "p \<in> reachable adj s" "(p, x) \<in> edges_of adj" "?d p = ?d u"
        using distance_predecessor[OF x(1)] by (metis nat.distinct(1) nat.inject)
      then have "p \<in> set (out @ u # q)" using I by simp
      moreover have "p \<notin> set q"
      proof
        assume "p \<in> set q"
        then obtain q' where "q = u' # q'" using Cons by (cases q) auto
        then have "?d u' \<le> ?d p" using I \<open>p \<in> set q\<close> by (auto simp: sorted_append)
        then show False using p(3) dx(2) by simp
      qed
      ultimately show ?thesis using I p(2) edge new(3) by auto
    qed
    moreover have "\<forall>x \<in> set (q @ new). ?d x \<le> Suc (?d u')"
    proof
      fix x
      assume "x \<in> set (q @ new)"
      then have "?d x \<le> Suc (?d u)" using q_d new_d by auto
      then show "?d x \<le> Suc (?d u')" using u'(2) by simp
    qed
    ultimately show ?thesis unfolding Cons list.case by blast
  qed simp
  ultimately have "bfs_inv adj s (q @ new) (out @ [u])" using I new_d unfolding bfs_inv_def by auto
  then show ?thesis using new(1) range[OF u] by (intro exI[of _ new]) (auto simp: at_index_def)
qed

lemma bfs_loop_spec:
  assumes ok: "graph_ok adj" and s: "0 \<le> s" "s < int (length adj)"
  shows "bfs_inv adj s q out \<Longrightarrow> \<exists>out'. bfs_loop adj q (set (out @ q)) out = Some out' \<and> bfs_inv adj s [] out'"
proof (induction "length adj - length out" arbitrary: q out rule: less_induct)
  case less
  show ?case
  proof (cases q)
    case Nil
    then show ?thesis using less.prems by (simp add: bfs_loop.simps[of adj "[]"])
  next
    case (Cons u q')
    obtain new where new: "bfs_edges (adj ! nat u) (q', set (out @ u # q')) = (q' @ new, set ((out @ [u]) @ q' @ new))"
      "bfs_inv adj s (q' @ new) (out @ [u])" "at_index adj u = Some (adj ! nat u)"
      using bfs_step[OF ok s less.prems[unfolded Cons]] by blast
    have "set (out @ [u]) \<subseteq> {0..<int (length adj)}"
    proof
      fix v
      assume "v \<in> set (out @ [u])"
      then have "v \<in> reachable adj s" using new(2) by (auto simp: bfs_inv_def)
      then show "v \<in> {0..<int (length adj)}" using s ok unfolding reachable_def graph_ok_def by (auto elim: rtranclE)
    qed
    moreover have "distinct (out @ [u])" using new(2) by (auto simp: bfs_inv_def)
    ultimately have "length (out @ [u]) \<le> length adj"
      using card_mono[of "{0..<int (length adj)}" "set (out @ [u])"] distinct_card[of "out @ [u]"] by simp
    then have "length adj - length (out @ [u]) < length adj - length out" by simp
    then obtain out' where "bfs_loop adj (q' @ new) (set ((out @ [u]) @ q' @ new)) (out @ [u]) = Some out'" "bfs_inv adj s [] out'"
      using less.hyps[OF _ new(2)] by blast
    then show ?thesis unfolding Cons using new(1,3) by (subst bfs_loop.simps) simp
  qed
qed

lemma bfs_inv_end:
  assumes "bfs_inv adj s [] out"
  shows "distinct out" "set out = reachable adj s" "sorted (map (distance adj s) out)"
proof -
  note I = assms[unfolded bfs_inv_def]
  show "distinct out" "sorted (map (distance adj s) out)" using I by simp_all
  have "v \<in> set out" if "(s, v) \<in> (edges_of adj)\<^sup>*" for v
    using that by (induction rule: rtrancl_induct) (use I in auto)
  then show "set out = reachable adj s" using I by (auto simp: reachable_def)
qed

section \<open>Topological order\<close>

definition edge_count :: "graph \<Rightarrow> int \<Rightarrow> int \<Rightarrow> nat" where
  "edge_count adj u v = count_list (targets adj u) v"

lemma edge_count_pos: "0 \<le> u \<Longrightarrow> u < int (length adj) \<Longrightarrow> 0 < edge_count adj u v \<longleftrightarrow> (u, v) \<in> edges_of adj"
  unfolding edge_count_def edges_of_def by (metis (no_types, lifting) case_prodI count_list_0_iff mem_Collect_eq not_gr_zero case_prodD)

text \<open>Edges all of whose targets are indices of a vector of length \<open>n\<close>.\<close>

definition edges_in :: "nat \<Rightarrow> (int \<times> int) list \<Rightarrow> bool" where
  "edges_in n edges \<longleftrightarrow> (\<forall>e \<in> set edges. 0 \<le> fst e \<and> fst e < int n)"

lemma count_edges_spec:
  "edges_in (length deg) edges \<Longrightarrow>
    \<exists>deg'. for_each (\<lambda>edge in_degree. do { d \<leftarrow> at_index in_degree (fst edge); set_index in_degree (fst edge) (d + 1) }) edges deg = Some deg' \<and>
      length deg' = length deg \<and> (\<forall>v < length deg. deg' ! v = deg ! v + int (count_list (map fst edges) (int v)))"
proof (induction edges arbitrary: deg)
  case (Cons e edges)
  obtain k where k: "fst e = int k" "k < length deg" using Cons.prems by (auto simp: edges_in_def elim: nonneg_int_cases)
  let ?deg = "deg[k := deg ! k + 1]"
  have "edges_in (length ?deg) edges" using Cons.prems by (simp add: edges_in_def)
  then obtain deg' where d: "for_each (\<lambda>edge in_degree. do { d \<leftarrow> at_index in_degree (fst edge); set_index in_degree (fst edge) (d + 1) }) edges ?deg = Some deg'"
    "length deg' = length ?deg" "\<forall>v < length ?deg. deg' ! v = ?deg ! v + int (count_list (map fst edges) (int v))"
    using Cons.IH by blast
  then show ?case using k by (intro exI[of _ deg']) (auto simp: index_nat nth_list_update)
qed simp

lemma graph_ok_edges:
  assumes "graph_ok adj" "0 \<le> u" "u < int (length adj)"
  shows "edges_in (length adj) (adj ! nat u)"
  unfolding edges_in_def
proof
  fix e
  assume "e \<in> set (adj ! nat u)"
  then have "(u, fst e) \<in> edges_of adj" using assms(2,3) by (simp add: edges_of_def targets_def)
  then show "0 \<le> fst e \<and> fst e < int (length adj)" using assms(1) unfolding graph_ok_def by blast
qed

lemma count_degrees_spec:
  assumes ok: "graph_ok adj"
  shows "\<exists>deg. count_degrees (int (length adj)) adj (replicate (length adj) 0) = Some deg \<and> length deg = length adj \<and>
    (\<forall>v < length adj. deg ! v = int (\<Sum>u \<in> {0..<int (length adj)}. edge_count adj u (int v)))"
proof -
  let ?n = "int (length adj)"
  have loop: "set us \<subseteq> {0..<?n} \<Longrightarrow> length deg = length adj \<Longrightarrow> \<exists>deg'. for_each (\<lambda>i in_degree. do {
       edges \<leftarrow> at_index adj i;
       for_each (\<lambda>edge in_degree. do { d \<leftarrow> at_index in_degree (fst edge); set_index in_degree (fst edge) (d + 1) }) edges in_degree})
     us deg = Some deg' \<and> length deg' = length adj \<and> (\<forall>v < length adj. deg' ! v = deg ! v + int (\<Sum>u \<leftarrow> us. edge_count adj u (int v)))"
    for us and deg :: "int list"
  proof (induction us arbitrary: deg)
    case (Cons u us)
    have u: "at_index adj u = Some (adj ! nat u)" "0 \<le> u" "u < ?n" using Cons.prems(1) by (auto simp: at_index_def)
    have "edges_in (length deg) (adj ! nat u)" using graph_ok_edges[OF ok u(2,3)] Cons.prems(2) by simp
    from count_edges_spec[OF this] obtain deg1 where d1: "for_each (\<lambda>edge in_degree. do { d \<leftarrow> at_index in_degree (fst edge);
        set_index in_degree (fst edge) (d + 1) }) (adj ! nat u) deg = Some deg1" "length deg1 = length adj"
      "\<forall>v < length deg. deg1 ! v = deg ! v + int (count_list (map fst (adj ! nat u)) (int v))" using Cons.prems(2) by auto
    have "set us \<subseteq> {0..<?n}" using Cons.prems(1) by simp
    from Cons.IH[OF this d1(2)] obtain deg' where d2: "for_each (\<lambda>i in_degree. do {
       edges \<leftarrow> at_index adj i;
       for_each (\<lambda>edge in_degree. do { d \<leftarrow> at_index in_degree (fst edge); set_index in_degree (fst edge) (d + 1) }) edges in_degree})
     us deg1 = Some deg'" "length deg' = length adj" "\<forall>v < length adj. deg' ! v = deg1 ! v + int (\<Sum>u \<leftarrow> us. edge_count adj u (int v))" by blast
    have "deg' ! v = deg ! v + int (\<Sum>u \<leftarrow> u # us. edge_count adj u (int v))" if "v < length adj" for v
      using d1(3) d2(3) that Cons.prems(2) by (simp add: edge_count_def targets_def)
    then show ?case using u(1) d1(1) d2(1,2) by (intro exI[of _ deg']) simp
  qed simp
  have us: "set [0..?n - 1] = {0..<?n}" "distinct [0..?n - 1]" by auto
  have "(\<Sum>u \<leftarrow> [0..?n - 1]. edge_count adj u (int v)) = (\<Sum>u \<in> {0..<?n}. edge_count adj u (int v))" for v
    using sum.distinct_set_conv_list[OF us(2), of "\<lambda>u. edge_count adj u (int v)"] us(1) by simp
  then show ?thesis using loop[of "[0..?n - 1]" "replicate (length adj) 0"] us(1) by (auto simp: count_degrees_def)
qed

lemma relax_edges_spec:
  "edges_in (length deg) edges \<Longrightarrow> (\<forall>v < length deg. int (count_list (map fst edges) (int v)) \<le> deg ! v) \<Longrightarrow>
    \<exists>new deg'. relax_edges edges q deg = Some (q @ new, deg') \<and> length deg' = length deg \<and>
      (\<forall>v < length deg. deg' ! v = deg ! v - int (count_list (map fst edges) (int v))) \<and> distinct new \<and>
      set new = {v \<in> fst ` set edges. deg ! nat v = int (count_list (map fst edges) v)}"
proof (induction edges arbitrary: deg q)
  case (Cons e edges)
  obtain k where k: "fst e = int k" "k < length deg" using Cons.prems(1) by (auto simp: edges_in_def elim: nonneg_int_cases)
  let ?deg = "deg[k := deg ! k - 1]" and ?q = "if deg ! k - 1 = 0 then q @ [int k] else q"
  have le: "\<forall>v < length ?deg. int (count_list (map fst edges) (int v)) \<le> ?deg ! v"
    using Cons.prems(2) k by (auto simp: nth_list_update)
  have "edges_in (length ?deg) edges" using Cons.prems(1) by (simp add: edges_in_def)
  from Cons.IH[OF this le, of ?q] obtain new deg' where new: "relax_edges edges ?q ?deg = Some (?q @ new, deg')" "length deg' = length deg"
    "\<forall>v < length deg. deg' ! v = ?deg ! v - int (count_list (map fst edges) (int v))" "distinct new"
    "set new = {v \<in> fst ` set edges. ?deg ! nat v = int (count_list (map fst edges) v)}" by auto
  let ?new = "(if deg ! k - 1 = 0 then [int k] else []) @ new"
  have absent: "int k \<notin> fst ` set edges" if "deg ! k - 1 = 0"
  proof -
    have "count_list (map fst edges) (int k) = 0" using le[rule_format, of k] k(2) that by simp
    then show ?thesis by (simp add: count_list_0_iff)
  qed
  have "relax_edges (e # edges) q deg = Some (q @ ?new, deg')" using k new(1) by (simp add: index_nat Let_def)
  moreover have "\<forall>v < length deg. deg' ! v = deg ! v - int (count_list (map fst (e # edges)) (int v))"
    using new(3) k by (auto simp: nth_list_update)
  moreover have "distinct ?new" using new(4,5) absent by auto
  moreover have "set ?new = {v \<in> fst ` set (e # edges). deg ! nat v = int (count_list (map fst (e # edges)) v)}"
  proof (rule set_eqI)
    fix v
    show "v \<in> set ?new \<longleftrightarrow> v \<in> {v \<in> fst ` set (e # edges). deg ! nat v = int (count_list (map fst (e # edges)) v)}"
    proof (cases "v = int k")
      case True
      have left: "v \<in> set ?new \<longleftrightarrow> deg ! k = 1 \<or> int k \<in> fst ` set edges \<and> deg ! k - 1 = int (count_list (map fst edges) (int k))"
        using True new(5) k(2) by (cases "deg ! k = 1") auto
      have right: "v \<in> {v \<in> fst ` set (e # edges). deg ! nat v = int (count_list (map fst (e # edges)) v)} \<longleftrightarrow>
          deg ! k = 1 + int (count_list (map fst edges) (int k))" using True k(1) by auto
      show ?thesis
      proof (cases "int k \<in> fst ` set edges")
        case True
        then show ?thesis unfolding left right using absent by auto
      next
        case False
        then have "count_list (map fst edges) (int k) = 0" by (simp add: count_list_0_iff)
        then show ?thesis unfolding left right using False by simp
      qed
    next
      case False
      have "?deg ! nat v = deg ! nat v" if "v \<in> fst ` set edges"
      proof -
        have "0 \<le> v" using that Cons.prems(1) by (auto simp: edges_in_def)
        then show ?thesis using False k(2) by (auto simp: nth_list_update)
      qed
      moreover have "v \<in> set ?new \<longleftrightarrow> v \<in> set new" using False by simp
      moreover have "count_list (map fst (e # edges)) v = count_list (map fst edges) v" "v \<in> fst ` set (e # edges) \<longleftrightarrow> v \<in> fst ` set edges"
        using False k(1) by auto
      ultimately show ?thesis unfolding new(5) mem_Collect_eq by metis
    qed
  qed
  ultimately show ?case using new(2) by blast
qed simp

text \<open>The edges that enter a node from the nodes that are not yet in the order.\<close>

definition in_edges :: "graph \<Rightarrow> int list \<Rightarrow> int \<Rightarrow> nat" where
  "in_edges adj out v = (\<Sum>u \<in> {0..<int (length adj)} - set out. edge_count adj u v)"

lemma in_edges_step:
  assumes "0 \<le> u" "u < int (length adj)" "u \<notin> set out"
  shows "in_edges adj out v = edge_count adj u v + in_edges adj (out @ [u]) v"
proof -
  have "{0..<int (length adj)} - set (out @ [u]) = {0..<int (length adj)} - set out - {u}" by auto
  then show ?thesis unfolding in_edges_def using assms by (simp add: sum.remove)
qed

lemma in_edges_pos:
  "0 < in_edges adj out v \<longleftrightarrow> (\<exists>u. u \<notin> set out \<and> (u, v) \<in> edges_of adj)"
proof -
  have "0 < in_edges adj out v \<longleftrightarrow> (\<exists>u \<in> {0..<int (length adj)} - set out. 0 < edge_count adj u v)"
    unfolding in_edges_def by (simp add: sum_nonneg_eq_0_iff neq0_conv[symmetric] del: neq0_conv)
  also have "\<dots> \<longleftrightarrow> (\<exists>u. u \<notin> set out \<and> (u, v) \<in> edges_of adj)"
    using edge_count_pos[of _ adj v] by (force simp: edges_of_def)
  finally show ?thesis .
qed

text \<open>Every node of a list comes after its predecessors.\<close>

definition ordered :: "graph \<Rightarrow> int list \<Rightarrow> bool" where
  "ordered adj out \<longleftrightarrow> (\<forall>xs v ys. out = xs @ v # ys \<longrightarrow> (\<forall>u. (u, v) \<in> edges_of adj \<longrightarrow> u \<in> set xs))"

definition kahn_inv :: "graph \<Rightarrow> int list \<Rightarrow> int list \<Rightarrow> int list \<Rightarrow> bool" where
  "kahn_inv adj q deg out \<longleftrightarrow> distinct (out @ q) \<and> length deg = length adj \<and>
     (\<forall>v < length adj. deg ! v = int (in_edges adj out (int v))) \<and>
     (\<forall>v. v \<in> set (out @ q) \<longleftrightarrow> 0 \<le> v \<and> v < int (length adj) \<and> in_edges adj out v = 0) \<and> ordered adj out"

lemma kahn_step:
  assumes ok: "graph_ok adj" and inv: "kahn_inv adj (u # q) deg out"
  shows "\<exists>new deg'. at_index adj u = Some (adj ! nat u) \<and> relax_edges (adj ! nat u) q deg = Some (q @ new, deg') \<and>
    kahn_inv adj (q @ new) deg' (out @ [u])"
proof -
  let ?n = "int (length adj)"
  note I = inv[unfolded kahn_inv_def]
  have u: "0 \<le> u" "u < ?n" "u \<notin> set out" "in_edges adj out u = 0" using I by auto
  have count: "count_list (map fst (adj ! nat u)) v = edge_count adj u v" for v by (simp add: edge_count_def targets_def)
  note step = in_edges_step[OF u(1,2,3)]
  have "edges_in (length deg) (adj ! nat u)" using graph_ok_edges[OF ok u(1,2)] I by simp
  moreover have "\<forall>v < length deg. int (count_list (map fst (adj ! nat u)) (int v)) \<le> deg ! v" using I step by (simp add: count)
  ultimately obtain new deg' where new: "relax_edges (adj ! nat u) q deg = Some (q @ new, deg')" "length deg' = length deg"
    "\<forall>v < length deg. deg' ! v = deg ! v - int (edge_count adj u (int v))" "distinct new"
    "set new = {v \<in> fst ` set (adj ! nat u). deg ! nat v = int (edge_count adj u v)}"
    using relax_edges_spec[of deg "adj ! nat u" q] unfolding count by blast
  have deg: "deg ! nat v = int (in_edges adj out v)" if "0 \<le> v" "v < ?n" for v
    using I that by (metis int_nat_eq nat_less_iff)
  have new_iff: "v \<in> set new \<longleftrightarrow> 0 \<le> v \<and> v < ?n \<and> in_edges adj (out @ [u]) v = 0 \<and> 0 < edge_count adj u v" for v
  proof -
    have "v \<in> fst ` set (adj ! nat u) \<longleftrightarrow> (u, v) \<in> edges_of adj" using u by (auto simp: edges_of_def targets_def)
    moreover have "0 \<le> v \<and> v < ?n" if "(u, v) \<in> edges_of adj" using ok that by (auto simp: graph_ok_def)
    ultimately show ?thesis unfolding new(5) edge_count_pos[OF u(1,2)] using deg[of v] step[of v] by auto
  qed
  have old_iff: "v \<in> set (out @ u # q) \<longleftrightarrow> 0 \<le> v \<and> v < ?n \<and> in_edges adj (out @ [u]) v = 0 \<and> edge_count adj u v = 0" for v
    using I step[of v] by auto
  have "kahn_inv adj (q @ new) deg' (out @ [u])" unfolding kahn_inv_def
  proof (intro conjI allI impI)
    have "set new \<inter> set (out @ u # q) = {}" using new_iff old_iff by fastforce
    then show "distinct ((out @ [u]) @ q @ new)" using I new(4) by auto
    show "length deg' = length adj" using new(2) I by simp
    show "deg' ! v = int (in_edges adj (out @ [u]) (int v))" if "v < length adj" for v
      using new(3) I step[of "int v"] that by simp
    show "v \<in> set ((out @ [u]) @ q @ new) \<longleftrightarrow> 0 \<le> v \<and> v < ?n \<and> in_edges adj (out @ [u]) v = 0" for v
      using new_iff[of v] old_iff[of v] by auto
    have preds: "w \<in> set out" if "(w, u) \<in> edges_of adj" for w using in_edges_pos[of adj out u] u(4) that by auto
    show "ordered adj (out @ [u])" unfolding ordered_def
    proof (intro allI impI)
      fix xs v ys w
      assume split: "out @ [u] = xs @ v # ys" and edge: "(w, v) \<in> edges_of adj"
      show "w \<in> set xs"
      proof (cases ys rule: rev_cases)
        case Nil
        then show ?thesis using split preds edge by simp
      next
        case (snoc zs z)
        then have "out = xs @ v # zs" using split by simp
        then show ?thesis using I edge unfolding ordered_def by blast
      qed
    qed
  qed
  then show ?thesis using new(1) u by (auto simp: at_index_def)
qed

lemma kahn_loop_spec:
  assumes ok: "graph_ok adj"
  shows "kahn_inv adj q deg out \<Longrightarrow> \<exists>out' deg'. kahn_loop adj q deg out = Some out' \<and> kahn_inv adj [] deg' out'"
proof (induction "length adj - length out" arbitrary: q deg out rule: less_induct)
  case less
  show ?case
  proof (cases q)
    case Nil
    then show ?thesis using less.prems by (auto simp: kahn_loop.simps[of adj "[]"])
  next
    case (Cons u q')
    obtain new deg' where new: "at_index adj u = Some (adj ! nat u)" "relax_edges (adj ! nat u) q' deg = Some (q' @ new, deg')"
      "kahn_inv adj (q' @ new) deg' (out @ [u])" using kahn_step[OF ok less.prems[unfolded Cons]] by blast
    have "set (out @ [u]) \<subseteq> {0..<int (length adj)}" "distinct (out @ [u])" using less.prems Cons unfolding kahn_inv_def by auto
    then have "length (out @ [u]) \<le> length adj"
      using card_mono[of "{0..<int (length adj)}" "set (out @ [u])"] distinct_card[of "out @ [u]"] by simp
    then have "length adj - length (out @ [u]) < length adj - length out" by simp
    from less.hyps[OF this new(3)] show ?thesis unfolding Cons using new(1,2) by (subst kahn_loop.simps) auto
  qed
qed

text \<open>An order of all nodes and a cycle exclude each other.\<close>

lemma position_split: "v \<notin> set xs \<Longrightarrow> length (takeWhile (\<lambda>x. x \<noteq> v) (xs @ v # ys)) = length xs"
  by (induction xs) auto

lemma ordered_acyclic:
  assumes "ordered adj out" "edges_of adj \<subseteq> UNIV \<times> set out"
  shows "acyclic (edges_of adj)"
proof -
  define pos where "pos v = length (takeWhile (\<lambda>x. x \<noteq> v) out)" for v
  have "pos u < pos v" if edge: "(u, v) \<in> edges_of adj" for u v
  proof -
    have "v \<in> set out" using assms(2) edge by auto
    then obtain xs ys where split: "out = xs @ v # ys" "v \<notin> set xs" by (meson split_list_first)
    have u: "u \<in> set xs" using assms(1) edge unfolding ordered_def split(1) by blast
    have "pos v = length xs" unfolding pos_def split(1) by (rule position_split[OF split(2)])
    moreover have "pos u < length xs"
    proof -
      obtain as bs where "xs = as @ u # bs" "u \<notin> set as" using u by (meson split_list_first)
      then have "pos u = length as" unfolding pos_def split(1) using position_split[of u as "bs @ v # ys"] by simp
      then show ?thesis using \<open>xs = as @ u # bs\<close> by simp
    qed
    ultimately show ?thesis by simp
  qed
  then have "edges_of adj \<subseteq> measure pos" by auto
  then show ?thesis using wf_subset wf_acyclic by blast
qed

lemma acyclic_all:
  assumes ok: "graph_ok adj" and acyc: "acyclic (edges_of adj)" and inv: "kahn_inv adj [] deg out"
  shows "set out = {0..<int (length adj)}"
proof (rule ccontr)
  let ?N = "{0..<int (length adj)}"
  assume "set out \<noteq> ?N"
  then have ne: "?N - set out \<noteq> {}" using inv by (auto simp: kahn_inv_def)
  have "e \<in> ?N \<times> ?N" if "e \<in> edges_of adj" for e
  proof -
    obtain u v where e: "e = (u, v)" by (cases e)
    then show ?thesis using graph_okD[OF ok, of u v] that by simp
  qed
  then have "edges_of adj \<subseteq> ?N \<times> ?N" by blast
  then have "finite (edges_of adj)" by (rule finite_subset) simp
  then have "wf (edges_of adj)" using acyc by (rule finite_acyclic_wf)
  then obtain v where v: "v \<in> ?N - set out" "\<And>u. (u, v) \<in> edges_of adj \<Longrightarrow> u \<notin> ?N - set out" using wfE_min'[OF _ ne] by blast
  then have "in_edges adj out v \<noteq> 0" using inv by (auto simp: kahn_inv_def)
  then obtain u where "u \<notin> set out" "(u, v) \<in> edges_of adj" using in_edges_pos[of adj out v] by auto
  then show False using v(2)[of u] by (auto simp: edges_of_def)
qed

section \<open>Properties\<close>

text \<open>
  C32: from a node of a graph whose edges stay inside it, breadth-first search ends and visits each reachable node once and
  no other, in the order of the distance from the start.
\<close>

theorem bfs_levels:
  assumes "graph_ok adj" "0 \<le> start" "start < int (length adj)"
  shows "\<exists>out. BreadthFirstSearch start adj = Some out \<and> distinct out \<and> set out = reachable adj start \<and>
    sorted (map (distance adj start) out)"
proof -
  have "bfs_inv adj start [start] []"
    using distance_zero[of _ adj start] by (auto simp: bfs_inv_def distance_self reachable_def)
  from bfs_loop_spec[OF assms this] obtain out where "bfs_loop adj [start] {start} [] = Some out" "bfs_inv adj start [] out" by auto
  then show ?thesis using bfs_inv_end by (auto simp: BreadthFirstSearch_def)
qed

theorem bfs_levels_witness:
  "\<exists>out. BreadthFirstSearch 0 [[(1, 5), (2, 1)], [(2, 1)], []] = Some out \<and> distinct out \<and>
    set out = reachable [[(1, 5), (2, 1)], [(2, 1)], []] 0"
proof -
  have "graph_ok [[(1, 5), (2, 1)], [(2, 1)], []]"
    by (auto simp: graph_ok_def edges_of_def targets_def nth_Cons' split: if_splits)
  then show ?thesis using bfs_levels[of "[[(1, 5), (2, 1)], [(2, 1)], []]" 0] by auto
qed

text \<open>
  C31: on a graph whose edges stay inside it, Kahn's algorithm ends; without a cycle it returns every node once and
  every edge leads forward in the result; with a cycle it returns the empty vector.
\<close>

theorem topo_sound_complete:
  assumes "graph_ok adj"
  shows "\<exists>order. TopologicalSort (int (length adj)) adj = Some order \<and>
    (if acyclic (edges_of adj) then distinct order \<and> set order = {0..<int (length adj)} \<and>
       (\<forall>(u, v) \<in> edges_of adj. \<exists>xs ys zs. order = xs @ u # ys @ v # zs)
     else order = [])"
proof -
  let ?n = "int (length adj)" and ?N = "{0..<int (length adj)}"
  obtain deg where deg: "count_degrees ?n adj (replicate (length adj) 0) = Some deg" "length deg = length adj"
    "\<forall>v < length adj. deg ! v = int (in_edges adj [] (int v))" using count_degrees_spec[OF assms] by (auto simp: in_edges_def)
  let ?q = "filter (\<lambda>i. deg ! nat i = 0) [0..?n - 1]"
  have "v \<in> set ?q \<longleftrightarrow> 0 \<le> v \<and> v < ?n \<and> in_edges adj [] v = 0" for v
    using deg(3)[rule_format, of "nat v"] by (auto simp: nat_less_iff)
  then have "kahn_inv adj ?q deg []" unfolding kahn_inv_def ordered_def using deg(2,3) by auto
  from kahn_loop_spec[OF assms this] obtain out deg' where out: "kahn_loop adj ?q deg [] = Some out" "kahn_inv adj [] deg' out" by blast
  note I = out(2)[unfolded kahn_inv_def]
  let ?r = "if int (length out) \<noteq> ?n then [] else out"
  have run: "TopologicalSort ?n adj = Some ?r" using deg(1) out(1) by (simp add: TopologicalSort_def)
  have sub: "distinct out" "set out \<subseteq> ?N" using I by auto
  have full: "int (length out) = ?n \<longleftrightarrow> set out = ?N"
    using sub distinct_card[of out] card_subset_eq[of ?N "set out"] by auto
  show ?thesis
  proof (cases "acyclic (edges_of adj)")
    case True
    then have all: "set out = ?N" using acyclic_all[OF assms _ out(2)] by blast
    have "\<exists>xs ys zs. out = xs @ u # ys @ v # zs" if edge: "(u, v) \<in> edges_of adj" for u v
    proof -
      have "v \<in> set out" using graph_okD[OF assms edge] all by simp
      then obtain xs zs where split: "out = xs @ v # zs" by (meson split_list)
      then have "u \<in> set xs" using I edge unfolding ordered_def by blast
      then obtain as bs where "xs = as @ u # bs" by (meson split_list)
      then show ?thesis using split by auto
    qed
    then show ?thesis using run True full all sub(1) by auto
  next
    case False
    have "set out \<noteq> ?N"
    proof
      assume "set out = ?N"
      then have "edges_of adj \<subseteq> UNIV \<times> set out" using graph_okD[OF assms] by auto
      then show False using ordered_acyclic[of adj out] I False by blast
    qed
    then show ?thesis using run False full by simp
  qed
qed

theorem topo_sound_complete_witness:
  "\<exists>order. TopologicalSort 3 [[(1, 0)], [(2, 0)], [(1, 0)]] = Some order \<and> order = []"
proof -
  let ?adj = "[[(1, 0)], [(2, 0)], [(1, 0)]] :: graph"
  have "graph_ok ?adj" by (auto simp: graph_ok_def edges_of_def targets_def nth_Cons' split: if_splits)
  moreover have "(1, 2) \<in> edges_of ?adj" "(2, 1) \<in> edges_of ?adj" by (simp_all add: edges_of_def targets_def)
  then have "\<not> acyclic (edges_of ?adj)" unfolding acyclic_def by (meson trancl.intros)
  ultimately show ?thesis using topo_sound_complete[of ?adj] by simp
qed

end
