(* ===== verification/Disjoint_Sets_Forest.thy ===== *)
theory Disjoint_Sets_Forest
  imports Graph_Search "HOL-Library.Product_Lexorder"
begin

text \<open>
  \<^verbatim>\<open>UnionFind\<close> and \<^verbatim>\<open>kruskal\<close> of \<^verbatim>\<open>src/cc/algo/src/algo/algo_graph.cc\<close>.  The parents form a forest, in which \<^verbatim>\<open>find\<close> compresses paths;
  the abstract state is the set of pairs united so far, whose connected components the structure represents.  Kruskal's algorithm is
  then shown to return a spanning forest of least bottlenecks.
\<close>

section \<open>The code\<close>

record union_find =
  parent :: "int list"
  uf_count :: int

definition UnionFind :: "int \<Rightarrow> union_find" where
  "UnionFind n = \<lparr>parent = [0..n - 1], uf_count = n\<rparr>"

text \<open>\<^verbatim>\<open>find\<close> writes the root into every node of the path.\<close>

partial_function (option) uf_find :: "int \<Rightarrow> int list \<Rightarrow> (int \<times> int list) option" where
  "uf_find i p = Option.bind (at_index p i) (\<lambda>k. if k = i then Some (i, p)
     else Option.bind (uf_find k p) (\<lambda>(r, p). Option.bind (set_index p i r) (\<lambda>p. Some (r, p))))"

definition uf_unite :: "int \<Rightarrow> int \<Rightarrow> union_find \<Rightarrow> union_find option" where
  "uf_unite i j uf = do {
     (rootI, p) \<leftarrow> uf_find i (parent uf);
     (rootJ, p) \<leftarrow> uf_find j p;
     (if rootI \<noteq> rootJ then do { p \<leftarrow> set_index p rootI rootJ; Some (uf\<lparr>parent := p, uf_count := uf_count uf - 1\<rparr>) }
      else Some (uf\<lparr>parent := p\<rparr>))}"

definition uf_connected :: "int \<Rightarrow> int \<Rightarrow> union_find \<Rightarrow> (bool \<times> union_find) option" where
  "uf_connected i j uf = do {
     (rootI, p) \<leftarrow> uf_find i (parent uf);
     (rootJ, p) \<leftarrow> uf_find j p;
     Some (rootI = rootJ, uf\<lparr>parent := p\<rparr>)}"

definition get_count :: "union_find \<Rightarrow> int" where
  "get_count uf = uf_count uf"

text \<open>The priority queue is a list of weight, source and target; its top is the least entry in lexicographic order.\<close>

definition kruskal_edges :: "int \<Rightarrow> graph \<Rightarrow> (int \<times> int \<times> int) list option" where
  "kruskal_edges n adj = for_each (\<lambda>i pq. do { edges \<leftarrow> at_index adj i; Some (pq @ map (\<lambda>edge. (snd edge, i, fst edge)) edges) }) [0..n - 1] []"

partial_function (option) kruskal_loop ::
  "(int \<times> int \<times> int) list \<Rightarrow> union_find \<Rightarrow> ((int \<times> int) \<times> int) list \<Rightarrow> ((int \<times> int) \<times> int) list option" where
  "kruskal_loop pq uf mst = (if pq = [] then Some mst
     else let (weight, u, v) = Min (set pq); pq = remove1 (weight, u, v) pq in
       Option.bind (uf_connected u v uf) (\<lambda>(b, uf).
         if \<not> b then Option.bind (uf_unite u v uf) (\<lambda>uf. kruskal_loop pq uf (mst @ [((u, v), weight)]))
         else kruskal_loop pq uf mst))"

definition kruskal :: "int \<Rightarrow> graph \<Rightarrow> ((int \<times> int) \<times> int) list option" where
  "kruskal n adj = do { pq \<leftarrow> kruskal_edges n adj; kruskal_loop pq (UnionFind n) [] }"

section \<open>Roots\<close>

inductive root :: "int list \<Rightarrow> int \<Rightarrow> int \<Rightarrow> bool" for p where
  here: "p ! nat i = i \<Longrightarrow> root p i i"
| up: "p ! nat i = k \<Longrightarrow> k \<noteq> i \<Longrightarrow> root p k r \<Longrightarrow> root p i r"

inductive_simps root_simps: "root p i r"

lemma root_fixed: "root p i r \<Longrightarrow> p ! nat r = r"
  by (induction rule: root.induct) auto

lemma root_unique: "root p i r \<Longrightarrow> root p i s \<Longrightarrow> r = s"
proof (induction rule: root.induct)
  case (here i)
  from here.prems show ?case by (cases rule: root.cases) (use here.hyps in simp_all)
next
  case (up i k r)
  from up.prems show ?case
  proof (cases rule: root.cases)
    case (up k')
    then show ?thesis using up.IH up.hyps by simp
  qed (use up.hyps in simp)
qed

lemma roots_meet: "root p k s \<Longrightarrow> root p l s' \<Longrightarrow> (\<exists>r. root p k r \<and> root p l r) \<longleftrightarrow> s = s'"
  using root_unique by metis

lemma root_self: "p ! nat r = r \<Longrightarrow> root p r s \<longleftrightarrow> s = r"
  using root_unique[OF root.here] root.here by blast

definition nodes :: "int list \<Rightarrow> int set" where
  "nodes p = {0..<int (length p)}"

definition uf_ok :: "int list \<Rightarrow> bool" where
  "uf_ok p \<longleftrightarrow> (\<forall>i \<in> nodes p. p ! nat i \<in> nodes p \<and> (\<exists>r. root p i r))"

lemma uf_okD: "uf_ok p \<Longrightarrow> i \<in> nodes p \<Longrightarrow> p ! nat i \<in> nodes p" "uf_ok p \<Longrightarrow> i \<in> nodes p \<Longrightarrow> \<exists>r. root p i r"
  by (simp_all add: uf_ok_def)

lemma nodes_update [simp]: "nodes (p[k := x]) = nodes p"
  by (simp add: nodes_def)

lemma nodes_nth: "i \<in> nodes p \<Longrightarrow> j \<in> nodes p \<Longrightarrow> p[nat i := x] ! nat j = (if j = i then x else p ! nat j)"
  by (auto simp: nodes_def nth_list_update)

lemma root_range: "root p i r \<Longrightarrow> uf_ok p \<Longrightarrow> i \<in> nodes p \<Longrightarrow> r \<in> nodes p"
  by (induction rule: root.induct) (auto dest: uf_okD(1))

text \<open>Hanging a node under its root keeps all roots; hanging a root under another root moves its nodes there.\<close>

lemma root_compress:
  assumes ok: "uf_ok p" and i: "root p i r" "i \<in> nodes p"
  shows "root p j s \<Longrightarrow> j \<in> nodes p \<Longrightarrow> root (p[nat i := r]) j s"
proof (induction rule: root.induct)
  case (here j)
  then have "p[nat i := r] ! nat j = j" using nodes_nth[OF i(2)] root_self[of p j] i(1) by auto
  then show ?case by (rule root.here)
next
  case (up j k s)
  have k: "k \<in> nodes p" using uf_okD(1)[OF ok up.prems] up.hyps(1) by simp
  have r: "r \<in> nodes p" "p ! nat r = r" using root_range[OF i(1) ok i(2)] root_fixed[OF i(1)] by simp_all
  show ?case
  proof (cases "j = i")
    case True
    have "root p j s" using up.hyps root.up by blast
    then have s: "s = r" using root_unique[OF i(1)] True by simp
    have "r \<noteq> i" using True up.hyps r(2) by auto
    then have "root (p[nat i := r]) r r" using nodes_nth[OF i(2) r(1)] r(2) by (intro root.here) simp
    moreover have "p[nat i := r] ! nat j = r" using True nodes_nth[OF i(2) i(2)] by simp
    ultimately show ?thesis using s True \<open>r \<noteq> i\<close> root.up by blast
  next
    case False
    have "p[nat i := r] ! nat j = k" using False nodes_nth[OF i(2) up.prems] up.hyps(1) by simp
    then show ?thesis using up.hyps(2) up.IH[OF k] root.up by blast
  qed
qed

lemma root_link:
  assumes ok: "uf_ok p" and a: "p ! nat a = a" "a \<in> nodes p" and b: "p ! nat b = b" "b \<in> nodes p" and ab: "a \<noteq> b"
  shows "root p j s \<Longrightarrow> j \<in> nodes p \<Longrightarrow> root (p[nat a := b]) j (if s = a then b else s)"
proof (induction rule: root.induct)
  case (here j)
  have rb: "root (p[nat a := b]) b b" using nodes_nth[OF a(2) b(2)] ab b(1) by (intro root.here) simp
  show ?case
  proof (cases "j = a")
    case True
    have "p[nat a := b] ! nat a = b" using nodes_nth[OF a(2) a(2)] by simp
    then have "root (p[nat a := b]) a b" using root.up rb ab by blast
    then show ?thesis using True by simp
  next
    case False
    then show ?thesis using nodes_nth[OF a(2) here.prems] here.hyps by (simp add: root.here)
  qed
next
  case (up j k s)
  have "k \<in> nodes p" using uf_okD(1)[OF ok up.prems] up.hyps(1) by simp
  moreover have "j \<noteq> a" using up.hyps a(1) by auto
  then have "p[nat a := b] ! nat j = k" using nodes_nth[OF a(2) up.prems] up.hyps(1) by simp
  ultimately show ?case using up.hyps(2) up.IH root.up by blast
qed

lemma uf_ok_update:
  assumes "uf_ok p" "i \<in> nodes p" "x \<in> nodes p" "\<And>j s. root p j s \<Longrightarrow> j \<in> nodes p \<Longrightarrow> \<exists>s'. root (p[nat i := x]) j s'"
  shows "uf_ok (p[nat i := x])"
  unfolding uf_ok_def nodes_update
proof
  fix j
  assume j: "j \<in> nodes p"
  then have "p[nat i := x] ! nat j \<in> nodes p" using assms(1,3) nodes_nth[OF assms(2) j] uf_okD(1) by simp
  then show "p[nat i := x] ! nat j \<in> nodes p \<and> (\<exists>r. root (p[nat i := x]) j r)" using uf_okD(2)[OF assms(1) j] assms(4) j by blast
qed

section \<open>Finding\<close>

definition same_roots :: "int list \<Rightarrow> int list \<Rightarrow> bool" where
  "same_roots p p' \<longleftrightarrow> uf_ok p' \<and> length p' = length p \<and> (\<forall>j s. j \<in> nodes p \<longrightarrow> root p j s \<longleftrightarrow> root p' j s)"

lemma at_node: "i \<in> nodes p \<Longrightarrow> at_index p i = Some (p ! nat i)" "i \<in> nodes p \<Longrightarrow> set_index p i x = Some (p[nat i := x])"
  by (simp_all add: nodes_def at_index_def set_index_def nat_less_iff)

lemma uf_find_root:
  "root p i r \<Longrightarrow> uf_ok p \<Longrightarrow> i \<in> nodes p \<Longrightarrow> \<exists>p'. uf_find i p = Some (r, p') \<and> same_roots p p'"
proof (induction rule: root.induct)
  case (here i)
  then show ?case by (subst uf_find.simps) (auto simp: at_node same_roots_def)
next
  case (up i k r)
  have k: "k \<in> nodes p" using uf_okD(1)[OF up.prems] up.hyps(1) by simp
  obtain p1 where p1: "uf_find k p = Some (r, p1)" "same_roots p p1" using up.IH[OF up.prems(1) k] by blast
  have ok1: "uf_ok p1" and n: "nodes p1 = nodes p" using p1(2) by (simp_all add: same_roots_def nodes_def)
  have r1: "root p1 i r" using p1(2) root.up[OF up.hyps] up.prems(2) by (simp add: same_roots_def)
  note comp = root_compress[OF ok1 r1, unfolded n, OF up.prems(2)]
  have rn: "r \<in> nodes p1" using root_range[OF r1 ok1] up.prems(2) n by simp
  have ok2: "uf_ok (p1[nat i := r])" using uf_ok_update[OF ok1 _ rn] up.prems(2) comp n by blast
  have "root p j s \<longleftrightarrow> root (p1[nat i := r]) j s" if j: "j \<in> nodes p" for j s
  proof
    assume "root p j s"
    then show "root (p1[nat i := r]) j s" using p1(2) comp j by (simp add: same_roots_def)
  next
    assume s: "root (p1[nat i := r]) j s"
    obtain s' where s': "root p1 j s'" using uf_okD(2)[OF ok1] j n by blast
    then have "s' = s" using comp[OF s' j] root_unique[OF s] by simp
    then show "root p j s" using p1(2) s' j by (simp add: same_roots_def)
  qed
  then have "same_roots p (p1[nat i := r])" using ok2 p1(2) by (simp add: same_roots_def)
  moreover have "uf_find i p = Some (r, p1[nat i := r])"
    using up.hyps up.prems(2) p1(1) n by (subst uf_find.simps) (simp add: at_node)
  ultimately show ?case by blast
qed

section \<open>The components of the united pairs\<close>

definition conn :: "(int \<times> int) set \<Rightarrow> (int \<times> int) set" where
  "conn E = (E \<union> E\<inverse>)\<^sup>*"

lemma conn_refl [simp]: "(i, i) \<in> conn E"
  by (simp add: conn_def)

lemma conn_sym: "(i, j) \<in> conn E \<Longrightarrow> (j, i) \<in> conn E"
  unfolding conn_def by (metis converse_Un converse_converse rtrancl_converseI sup_commute)

lemma conn_trans: "(i, j) \<in> conn E \<Longrightarrow> (j, k) \<in> conn E \<Longrightarrow> (i, k) \<in> conn E"
  by (auto simp: conn_def)

lemma conn_mono: "E \<subseteq> F \<Longrightarrow> conn E \<subseteq> conn F"
  unfolding conn_def by (rule rtrancl_mono) auto

lemma conn_edge: "(i, j) \<in> E \<Longrightarrow> (i, j) \<in> conn E"
  unfolding conn_def by auto

lemma conn_least:
  assumes "\<And>i j. (i, j) \<in> E \<Longrightarrow> (i, j) \<in> conn F"
  shows "conn E \<subseteq> conn F"
proof
  fix e
  assume e: "e \<in> conn E"
  obtain i j where ij: "e = (i, j)" by (cases e)
  have "(i, j) \<in> (E \<union> E\<inverse>)\<^sup>*" using e ij by (simp add: conn_def)
  then have "(i, j) \<in> conn F"
  proof (induction rule: rtrancl_induct)
    case (step k l)
    then have "(k, l) \<in> conn F" using assms conn_sym by blast
    then show ?case using conn_trans[OF step.IH] by blast
  qed simp
  then show "e \<in> conn F" by (simp add: ij)
qed

text \<open>A parent vector represents a set of pairs.\<close>

definition uf_rep :: "union_find \<Rightarrow> int \<Rightarrow> (int \<times> int) set \<Rightarrow> bool" where
  "uf_rep uf n E \<longleftrightarrow> uf_ok (parent uf) \<and> int (length (parent uf)) = n \<and> E \<subseteq> {0..<n} \<times> {0..<n} \<and>
     (\<forall>i \<in> {0..<n}. \<forall>j \<in> {0..<n}. (\<exists>r. root (parent uf) i r \<and> root (parent uf) j r) \<longleftrightarrow> (i, j) \<in> conn E) \<and>
     uf_count uf = int (card {i \<in> {0..<n}. parent uf ! nat i = i})"

lemma uf_rep_nodes: "uf_rep uf n E \<Longrightarrow> nodes (parent uf) = {0..<n}"
  by (simp add: uf_rep_def nodes_def)

lemma uf_rep_roots:
  assumes "uf_rep uf n E" "k \<in> {0..<n}" "l \<in> {0..<n}" "root (parent uf) k s" "root (parent uf) l s'"
  shows "s = s' \<longleftrightarrow> (k, l) \<in> conn E"
proof -
  have "(\<exists>r. root (parent uf) k r \<and> root (parent uf) l r) \<longleftrightarrow> (k, l) \<in> conn E" using assms(1-3) unfolding uf_rep_def by blast
  then show ?thesis unfolding roots_meet[OF assms(4,5)] .
qed

lemma UnionFind_rep:
  assumes "0 \<le> n"
  shows "uf_rep (UnionFind n) n {}"
proof -
  have p: "[0..n - 1] ! nat i = i" if "0 \<le> i" "i < n" for i using that by (simp add: nth_upto)
  have r: "root [0..n - 1] i s \<longleftrightarrow> s = i" if "0 \<le> i" "i < n" for i s using root_self[of "[0..n - 1]" i] p[OF that] by simp
  have "{i. 0 \<le> i \<and> i < n \<and> [0..n - 1] ! nat i = i} = {0..<n}" using p by auto
  then show ?thesis using assms p r by (auto simp: uf_rep_def UnionFind_def uf_ok_def nodes_def conn_def)
qed

text \<open>Compression changes neither the components nor the roots.\<close>

lemma same_roots_fixed: "same_roots p p' \<Longrightarrow> i \<in> nodes p \<Longrightarrow> p' ! nat i = i \<longleftrightarrow> p ! nat i = i"
  unfolding same_roots_def by (metis root.here root_fixed root_self)

lemma uf_rep_same:
  assumes rep: "uf_rep uf n E" and same: "same_roots (parent uf) p"
  shows "uf_rep (uf\<lparr>parent := p\<rparr>) n E"
proof -
  note n = uf_rep_nodes[OF rep]
  have "{i \<in> {0..<n}. p ! nat i = i} = {i \<in> {0..<n}. parent uf ! nat i = i}" using same_roots_fixed[OF same] n by auto
  then show ?thesis using rep same n unfolding uf_rep_def same_roots_def by simp
qed

lemma same_roots_trans: "same_roots p q \<Longrightarrow> same_roots q r \<Longrightarrow> same_roots p r"
  by (auto simp: same_roots_def nodes_def)

text \<open>Two finds: the roots of both nodes.\<close>

lemma two_finds:
  assumes rep: "uf_rep uf n E" and ij: "i \<in> {0..<n}" "j \<in> {0..<n}"
  shows "\<exists>ri rj p p'. uf_find i (parent uf) = Some (ri, p) \<and> uf_find j p = Some (rj, p') \<and> same_roots (parent uf) p' \<and>
    root (parent uf) i ri \<and> root (parent uf) j rj \<and> (ri = rj \<longleftrightarrow> (i, j) \<in> conn E)"
proof -
  note n = uf_rep_nodes[OF rep]
  have ok: "uf_ok (parent uf)" using rep by (simp add: uf_rep_def)
  obtain ri rj where r: "root (parent uf) i ri" "root (parent uf) j rj" using uf_okD(2)[OF ok] ij n by metis
  obtain p where p: "uf_find i (parent uf) = Some (ri, p)" "same_roots (parent uf) p" using uf_find_root[OF r(1) ok] ij n by blast
  have "root p j rj" "uf_ok p" "j \<in> nodes p" using p(2) r(2) ij n by (auto simp: same_roots_def nodes_def)
  then obtain p' where p': "uf_find j p = Some (rj, p')" "same_roots p p'" using uf_find_root by blast
  have "ri = rj \<longleftrightarrow> (i, j) \<in> conn E" by (rule uf_rep_roots[OF rep ij r])
  then show ?thesis using p(1) p' r same_roots_trans[OF p(2)] by blast
qed

lemma uf_connected_rep:
  assumes "uf_rep uf n E" "i \<in> {0..<n}" "j \<in> {0..<n}"
  shows "\<exists>uf'. uf_connected i j uf = Some ((i, j) \<in> conn E, uf') \<and> uf_rep uf' n E \<and> uf_count uf' = uf_count uf"
  using two_finds[OF assms] uf_rep_same[OF assms(1)] by (auto simp: uf_connected_def)

section \<open>Uniting\<close>

lemma conn_insert:
  "(k, l) \<in> conn (insert (i, j) E) \<longleftrightarrow>
    (k, l) \<in> conn E \<or> (k, i) \<in> conn E \<and> (j, l) \<in> conn E \<or> (k, j) \<in> conn E \<and> (i, l) \<in> conn E" (is "?L \<longleftrightarrow> ?R k l")
proof
  assume ?L
  then have "(k, l) \<in> (insert (i, j) E \<union> (insert (i, j) E)\<inverse>)\<^sup>*" by (simp add: conn_def)
  then show "?R k l"
  proof (induction rule: rtrancl_induct)
    case (step l m)
    then consider "(l, m) \<in> conn E" | "l = i" "m = j" | "l = j" "m = i" using conn_edge[of _ _ E] conn_sym[of _ _ E] by blast
    then show ?case
    proof cases
      case 1
      then show ?thesis using step.IH conn_trans[of _ _ E] by blast
    next
      case 2
      then show ?thesis using step.IH conn_trans[of _ _ E] conn_sym[of _ _ E] conn_refl[of _ E] by blast
    next
      case 3
      then show ?thesis using step.IH conn_trans[of _ _ E] conn_sym[of _ _ E] conn_refl[of _ E] by blast
    qed
  qed simp
next
  assume R: "?R k l"
  have "conn E \<subseteq> conn (insert (i, j) E)" by (rule conn_mono) blast
  moreover have "(i, j) \<in> conn (insert (i, j) E)" by (rule conn_edge) simp
  ultimately show ?L using R conn_trans[of _ _ "insert (i, j) E"] conn_sym[of _ _ "insert (i, j) E"] by blast
qed

lemma conn_absorb: "(i, j) \<in> conn E \<Longrightarrow> conn (insert (i, j) E) = conn E"
proof
  show "(i, j) \<in> conn E \<Longrightarrow> conn (insert (i, j) E) \<subseteq> conn E" by (rule conn_least) (auto intro: conn_edge)
  show "conn E \<subseteq> conn (insert (i, j) E)" by (rule conn_mono) blast
qed

lemma uf_unite_rep:
  assumes rep: "uf_rep uf n E" and ij: "i \<in> {0..<n}" "j \<in> {0..<n}"
  shows "\<exists>uf'. uf_unite i j uf = Some uf' \<and> uf_rep uf' n (insert (i, j) E) \<and>
    uf_count uf' = uf_count uf - (if (i, j) \<in> conn E then 0 else 1)"
proof -
  obtain a b p p' where f: "uf_find i (parent uf) = Some (a, p)" "uf_find j p = Some (b, p')" "same_roots (parent uf) p'"
    "root (parent uf) i a" "root (parent uf) j b" "a = b \<longleftrightarrow> (i, j) \<in> conn E" using two_finds[OF assms] by blast
  have rep': "uf_rep (uf\<lparr>parent := p'\<rparr>) n E" by (rule uf_rep_same[OF rep f(3)])
  note n = uf_rep_nodes[OF rep', simplified]
  have ok: "uf_ok p'" and iroot: "root p' i a" "root p' j b" using f(3,4,5) ij uf_rep_nodes[OF rep] by (auto simp: same_roots_def)
  have sub: "insert (i, j) E \<subseteq> {0..<n} \<times> {0..<n}" using rep ij by (auto simp: uf_rep_def)
  show ?thesis
  proof (cases "a = b")
    case True
    then have "uf_rep (uf\<lparr>parent := p'\<rparr>) n (insert (i, j) E)" using rep' sub conn_absorb f(6) by (simp add: uf_rep_def)
    then show ?thesis using f True by (simp add: uf_unite_def)
  next
    case False
    have a: "p' ! nat a = a" "a \<in> nodes p'" and b: "p' ! nat b = b" "b \<in> nodes p'"
      using root_fixed iroot root_range[OF _ ok] ij n by auto
    let ?q = "p'[nat a := b]"
    have link: "root ?q k (if s = a then b else s)" if "root p' k s" "k \<in> {0..<n}" for k s
      using root_link[OF ok a b False that(1)] that(2) n by simp
    have okq: "uf_ok ?q" using uf_ok_update[OF ok a(2) b(2)] link n by blast
    have comp: "s = s' \<longleftrightarrow> (k, l) \<in> conn E" if "root p' k s" "root p' l s'" "k \<in> {0..<n}" "l \<in> {0..<n}" for k l s s'
      using uf_rep_roots[OF rep', of k l s s'] that by simp
    have pairs: "(\<exists>r. root ?q k r \<and> root ?q l r) \<longleftrightarrow> (k, l) \<in> conn (insert (i, j) E)" if kl: "k \<in> {0..<n}" "l \<in> {0..<n}" for k l
    proof -
      obtain s s' where s: "root p' k s" "root p' l s'" using uf_okD(2)[OF ok] kl n by metis
      have "(\<exists>r. root ?q k r \<and> root ?q l r) \<longleftrightarrow> (if s = a then b else s) = (if s' = a then b else s')"
        by (rule roots_meet[OF link[OF s(1) kl(1)] link[OF s(2) kl(2)]])
      also have "\<dots> \<longleftrightarrow> s = s' \<or> s = a \<and> s' = b \<or> s = b \<and> s' = a" using False by auto
      also have "\<dots> \<longleftrightarrow> (k, l) \<in> conn (insert (i, j) E)"
        unfolding conn_insert comp[OF s kl, symmetric] comp[OF s(1) iroot(1) kl(1) ij(1), symmetric]
          comp[OF s(1) iroot(2) kl(1) ij(2), symmetric] comp[OF iroot(1) s(2) ij(1) kl(2), symmetric]
          comp[OF iroot(2) s(2) ij(2) kl(2), symmetric] by blast
      finally show ?thesis .
    qed
    let ?F = "{k \<in> {0..<n}. p' ! nat k = k}"
    have rest: "{k \<in> {0..<n}. ?q ! nat k = k} = ?F - {a}"
      using nodes_nth[OF a(2), of _ b] False n by (auto split: if_splits)
    have "finite ?F" "a \<in> ?F" using a n by (auto intro: finite_subset[of _ "{0..<n}"])
    from card_Suc_Diff1[OF this] have "int (card (?F - {a})) = int (card ?F) - 1" by linarith
    moreover have "uf_count uf = int (card ?F)" using rep' by (simp add: uf_rep_def)
    ultimately have count: "uf_count uf - 1 = int (card {k \<in> {0..<n}. ?q ! nat k = k})" unfolding rest by simp
    have "int (length ?q) = n" using rep' by (simp add: uf_rep_def)
    then have "uf_rep (uf\<lparr>parent := ?q, uf_count := uf_count uf - 1\<rparr>) n (insert (i, j) E)"
      unfolding uf_rep_def using okq sub pairs count by simp
    moreover have "uf_unite i j uf = Some (uf\<lparr>parent := ?q, uf_count := uf_count uf - 1\<rparr>)"
      using f(1,2) False at_node(2)[OF a(2)] by (simp add: uf_unite_def)
    ultimately show ?thesis using f(6) False by auto
  qed
qed

text \<open>The counter is the number of components.\<close>

definition components :: "int \<Rightarrow> (int \<times> int) set \<Rightarrow> int set set" where
  "components n E = {0..<n} // (conn E \<inter> {0..<n} \<times> {0..<n})"

lemma uf_count_components:
  assumes rep: "uf_rep uf n E"
  shows "uf_count uf = int (card (components n E))"
proof -
  let ?p = "parent uf" and ?C = "\<lambda>i. (conn E \<inter> {0..<n} \<times> {0..<n}) `` {i}"
  let ?R = "{i \<in> {0..<n}. ?p ! nat i = i}"
  note n = uf_rep_nodes[OF rep]
  have ok: "uf_ok ?p" using rep by (simp add: uf_rep_def)
  note comp = uf_rep_roots[OF rep]
  have "components n E = ?C ` ?R"
  proof
    show "components n E \<subseteq> ?C ` ?R"
    proof
      fix c
      assume "c \<in> components n E"
      then obtain i where i: "i \<in> {0..<n}" "c = ?C i" unfolding components_def by (rule quotientE)
      then obtain r where r: "root ?p i r" using uf_okD(2)[OF ok] n by blast
      have "r \<in> {0..<n}" "?p ! nat r = r" using root_range[OF r ok] root_fixed[OF r] i(1) n by simp_all
      moreover from this have ir: "(i, r) \<in> conn E" using comp[OF i(1) _ r root.here] by blast
      have "(i, x) \<in> conn E \<longleftrightarrow> (r, x) \<in> conn E" for x using conn_trans[of _ _ E] conn_sym[of _ _ E] ir by blast
      then have "?C i = ?C r" using i(1) calculation(1) by auto
      ultimately show "c \<in> ?C ` ?R" using i(2) by blast
    qed
    show "?C ` ?R \<subseteq> components n E" unfolding components_def by (auto intro: quotientI)
  qed
  moreover have "inj_on ?C ?R"
  proof (rule inj_onI)
    fix r s
    assume rs: "r \<in> ?R" "s \<in> ?R" "?C r = ?C s"
    have "s \<in> ?C s" using rs(2) by simp
    then have "(r, s) \<in> conn E" using rs(3) by blast
    then show "r = s" using comp[of r s r s] rs(1,2) root.here[of ?p] by simp
  qed
  ultimately show ?thesis using rep by (simp add: card_image uf_rep_def)
qed

section \<open>Kruskal's algorithm\<close>

definition weighted_edges :: "graph \<Rightarrow> (int \<times> int \<times> int) set" where
  "weighted_edges adj = {(w, u, v). 0 \<le> u \<and> u < int (length adj) \<and> (v, w) \<in> set (adj ! nat u)}"

lemma edges_of_weighted: "edges_of adj = snd ` weighted_edges adj"
  by (force simp: edges_of_def weighted_edges_def targets_def)

lemma kruskal_edges_spec: "\<exists>pq. kruskal_edges (int (length adj)) adj = Some pq \<and> set pq = weighted_edges adj"
proof -
  have loop: "set us \<subseteq> {0..<int (length adj)} \<Longrightarrow> \<exists>pq'. for_each (\<lambda>i pq. do { edges \<leftarrow> at_index adj i;
      Some (pq @ map (\<lambda>edge. (snd edge, i, fst edge)) edges) }) us pq = Some pq' \<and>
      set pq' = set pq \<union> {(w, u, v). u \<in> set us \<and> (v, w) \<in> set (adj ! nat u)}" for us pq
  proof (induction us arbitrary: pq)
    case (Cons u us)
    have "at_index adj u = Some (adj ! nat u)" using Cons.prems by (simp add: at_index_def nat_less_iff)
    moreover have "set us \<subseteq> {0..<int (length adj)}" using Cons.prems by simp
    from Cons.IH[OF this, of "pq @ map (\<lambda>edge. (snd edge, u, fst edge)) (adj ! nat u)"]
    obtain pq' where "for_each (\<lambda>i pq. do { edges \<leftarrow> at_index adj i; Some (pq @ map (\<lambda>edge. (snd edge, i, fst edge)) edges) }) us
        (pq @ map (\<lambda>edge. (snd edge, u, fst edge)) (adj ! nat u)) = Some pq'"
      "set pq' = set pq \<union> (\<lambda>edge. (snd edge, u, fst edge)) ` set (adj ! nat u) \<union> {(w, u, v). u \<in> set us \<and> (v, w) \<in> set (adj ! nat u)}"
      by auto
    moreover have "(\<lambda>edge. (snd edge, u, fst edge)) ` set (adj ! nat u) \<union> {(w, u, v). u \<in> set us \<and> (v, w) \<in> set (adj ! nat u)} =
        {(w, u', v). u' \<in> set (u # us) \<and> (v, w) \<in> set (adj ! nat u')}" by force
    ultimately show ?case by (intro exI[of _ pq']) (simp add: Un_assoc)
  qed auto
  have "set [0..int (length adj) - 1] \<subseteq> {0..<int (length adj)}" by auto
  from loop[OF this, of "[]"] show ?thesis by (auto simp: kruskal_edges_def weighted_edges_def)
qed

text \<open>The chosen edges of weight at most \<open>w\<close>.\<close>

definition chosen :: "((int \<times> int) \<times> int) list \<Rightarrow> int \<Rightarrow> (int \<times> int) set" where
  "chosen mst w = {e. \<exists>w' \<le> w. (e, w') \<in> set mst}"

lemma chosen_append: "w \<le> w' \<Longrightarrow> chosen mst w \<subseteq> chosen (mst @ [(e, w')]) w"
  by (auto simp: chosen_def)

lemma chosen_mono: "chosen mst w \<subseteq> chosen (mst @ xs) w"
  by (auto simp: chosen_def)

text \<open>The edges \<open>W\<close> of the graph are still queued or connected by chosen edges that are not heavier.\<close>

definition kruskal_inv ::
  "(int \<times> int \<times> int) set \<Rightarrow> int \<Rightarrow> (int \<times> int \<times> int) list \<Rightarrow> union_find \<Rightarrow> ((int \<times> int) \<times> int) list \<Rightarrow> bool" where
  "kruskal_inv W n pq uf mst \<longleftrightarrow> uf_rep uf n (fst ` set mst) \<and> set pq \<subseteq> W \<and> uf_count uf + int (length mst) = n \<and>
     (\<forall>e w. (e, w) \<in> set mst \<longrightarrow> (w, e) \<in> W) \<and> (\<forall>e w w' x. (e, w) \<in> set mst \<longrightarrow> (w', x) \<in> set pq \<longrightarrow> w \<le> w') \<and>
     (\<forall>w u v. (w, u, v) \<in> W \<longrightarrow> (w, u, v) \<in> set pq \<or> (u, v) \<in> conn (chosen mst w))"

lemma kruskal_invD:
  assumes "kruskal_inv W n pq uf mst"
  shows "uf_rep uf n (fst ` set mst)" "set pq \<subseteq> W" "uf_count uf + int (length mst) = n" "(e, w) \<in> set mst \<Longrightarrow> (w, e) \<in> W"
    "(e, w) \<in> set mst \<Longrightarrow> (w', x) \<in> set pq \<Longrightarrow> w \<le> w'"
    "(w, u, v) \<in> W \<Longrightarrow> (w, u, v) \<in> set pq \<or> (u, v) \<in> conn (chosen mst w)"
  using assms unfolding kruskal_inv_def by blast+

lemma remove1_rest: "set xs \<subseteq> insert x (set (remove1 x xs))"
  by (induction xs) auto

lemma kruskal_step:
  assumes inv: "kruskal_inv W n pq uf mst" and ne: "pq \<noteq> []" and W: "W \<subseteq> UNIV \<times> {0..<n} \<times> {0..<n}"
    and top: "Min (set pq) = (weight, u, v)"
  shows "\<exists>b uf1. uf_connected u v uf = Some (b, uf1) \<and> (if \<not> b
    then \<exists>uf2. uf_unite u v uf1 = Some uf2 \<and> kruskal_inv W n (remove1 (weight, u, v) pq) uf2 (mst @ [((u, v), weight)])
    else kruskal_inv W n (remove1 (weight, u, v) pq) uf1 mst)"
proof -
  note I = kruskal_invD[OF inv]
  let ?pq = "remove1 (weight, u, v) pq" and ?E = "fst ` set mst"
  have mem: "(weight, u, v) \<in> set pq" using Min_in[of "set pq"] ne top by simp
  have least: "weight \<le> w" if "(w, u', v') \<in> set pq" for w u' v'
    using Min_le[of "set pq" "(w, u', v')"] that top by (auto simp: less_eq_prod_def)
  have uv: "u \<in> {0..<n}" "v \<in> {0..<n}" using subsetD[OF W subsetD[OF I(2) mem]] by auto
  have rest: "set pq \<subseteq> insert (weight, u, v) (set ?pq)" "set ?pq \<subseteq> set pq"
    by (rule remove1_rest, rule set_remove1_subset)
  have all: "chosen mst weight = ?E" using I(5)[OF _ mem] by (force simp: chosen_def)
  obtain uf1 where uf1: "uf_connected u v uf = Some ((u, v) \<in> conn ?E, uf1)" "uf_rep uf1 n ?E" "uf_count uf1 = uf_count uf"
    using uf_connected_rep[OF I(1) uv] by blast
  show ?thesis
  proof (cases "(u, v) \<in> conn ?E")
    case True
    have "(w, a, b) \<in> set ?pq \<or> (a, b) \<in> conn (chosen mst w)" if "(w, a, b) \<in> W" for w a b
      using I(6)[OF that] rest(1) True all by auto
    then have "kruskal_inv W n ?pq uf1 mst" unfolding kruskal_inv_def
      using I(3) uf1(2,3) I(4) I(5)[OF _ subsetD[OF rest(2)]] order_trans[OF rest(2) I(2)] by simp
    then show ?thesis using uf1(1) True by auto
  next
    case False
    let ?mst = "mst @ [((u, v), weight)]"
    obtain uf2 where uf2: "uf_unite u v uf1 = Some uf2" "uf_rep uf2 n (insert (u, v) ?E)" "uf_count uf2 = uf_count uf1 - 1"
      using uf_unite_rep[OF uf1(2) uv] False by auto
    have "(u, v) \<in> chosen ?mst weight" by (auto simp: chosen_def)
    then have new: "(u, v) \<in> conn (chosen ?mst weight)" by (rule conn_edge)
    have cover: "(w, a, b) \<in> set ?pq \<or> (a, b) \<in> conn (chosen ?mst w)" if W3: "(w, a, b) \<in> W" for w a b
    proof -
      consider "(w, a, b) \<in> set pq" | "(a, b) \<in> conn (chosen mst w)" using I(6)[OF W3] by blast
      then show ?thesis
      proof cases
        case 1
        then show ?thesis using rest(1) new by blast
      next
        case 2
        then show ?thesis using conn_mono[OF chosen_mono] by blast
      qed
    qed
    have light: "(w, e) \<in> W" "(w', x) \<in> set ?pq \<Longrightarrow> w \<le> w'" if e: "(e, w) \<in> set ?mst" for e w w' x
    proof -
      consider "(e, w) \<in> set mst" | "e = (u, v)" "w = weight" using e by auto
      then have "(w, e) \<in> W \<and> ((w', x) \<in> set ?pq \<longrightarrow> w \<le> w')"
      proof cases
        case 1
        then show ?thesis using I(4,5) rest(2) by blast
      next
        case 2
        then show ?thesis using subsetD[OF I(2) mem] least[of w' "fst x" "snd x"] rest(2) by auto
      qed
      then show "(w, e) \<in> W" "(w', x) \<in> set ?pq \<Longrightarrow> w \<le> w'" by blast+
    qed
    have "fst ` set ?mst = insert (u, v) ?E" by auto
    moreover have "uf_count uf2 + int (length ?mst) = n" using I(3) uf1(3) uf2(3) by simp
    moreover have "set ?pq \<subseteq> W" using order_trans[OF rest(2) I(2)] .
    ultimately have "kruskal_inv W n ?pq uf2 ?mst" unfolding kruskal_inv_def using uf2(2) cover light by simp
    then show ?thesis using uf1(1) uf2(1) False by auto
  qed
qed

lemma kruskal_loop_spec:
  assumes W: "W \<subseteq> UNIV \<times> {0..<n} \<times> {0..<n}"
  shows "kruskal_inv W n pq uf mst \<Longrightarrow> \<exists>mst' uf'. kruskal_loop pq uf mst = Some mst' \<and> kruskal_inv W n [] uf' mst'"
proof (induction "length pq" arbitrary: pq uf mst rule: less_induct)
  case less
  show ?case
  proof (cases "pq = []")
    case True
    then show ?thesis using less.prems by (auto simp: kruskal_loop.simps[of "[]"])
  next
    case False
    obtain weight u v where top: "Min (set pq) = (weight, u, v)" by (cases "Min (set pq)")
    have "(weight, u, v) \<in> set pq" using Min_in[of "set pq"] False top by simp
    then have shorter: "length (remove1 (weight, u, v) pq) < length pq" by (simp add: length_remove1) (use False in \<open>cases pq; simp\<close>)
    from kruskal_step[OF less.prems False W top] obtain b uf1 where b: "uf_connected u v uf = Some (b, uf1)"
      "if \<not> b then \<exists>uf2. uf_unite u v uf1 = Some uf2 \<and> kruskal_inv W n (remove1 (weight, u, v) pq) uf2 (mst @ [((u, v), weight)])
       else kruskal_inv W n (remove1 (weight, u, v) pq) uf1 mst" by blast
    show ?thesis
    proof (cases b)
      case True
      then show ?thesis using less.hyps[OF shorter, of uf1 mst] b False top by (subst kruskal_loop.simps) simp
    next
      case b': False
      then obtain uf2 where "uf_unite u v uf1 = Some uf2" "kruskal_inv W n (remove1 (weight, u, v) pq) uf2 (mst @ [((u, v), weight)])"
        using b(2) by auto
      then show ?thesis using less.hyps[OF shorter, of uf2 "mst @ [((u, v), weight)]"] b(1) b' False top
        by (subst kruskal_loop.simps) simp
    qed
  qed
qed

section \<open>Properties\<close>

datatype uf_call = Unite int int | Connected int int | Count

fun uf_run :: "uf_call list \<Rightarrow> union_find \<Rightarrow> (int list \<times> union_find) option" where
  "uf_run [] uf = Some ([], uf)"
| "uf_run (Unite i j # cs) uf = do { uf \<leftarrow> uf_unite i j uf; uf_run cs uf }"
| "uf_run (Connected i j # cs) uf = do { (b, uf) \<leftarrow> uf_connected i j uf; (rs, uf) \<leftarrow> uf_run cs uf; Some (of_bool b # rs, uf) }"
| "uf_run (Count # cs) uf = do { (rs, uf') \<leftarrow> uf_run cs uf; Some (get_count uf # rs, uf') }"

text \<open>The partition: the pairs united so far.\<close>

fun partition_run :: "int \<Rightarrow> uf_call list \<Rightarrow> (int \<times> int) set \<Rightarrow> int list" where
  "partition_run n [] E = []"
| "partition_run n (Unite i j # cs) E = partition_run n cs (insert (i, j) E)"
| "partition_run n (Connected i j # cs) E = of_bool ((i, j) \<in> conn E) # partition_run n cs E"
| "partition_run n (Count # cs) E = int (card (components n E)) # partition_run n cs E"

fun call_in :: "int \<Rightarrow> uf_call \<Rightarrow> bool" where
  "call_in n (Unite i j) \<longleftrightarrow> 0 \<le> i \<and> i < n \<and> 0 \<le> j \<and> j < n"
| "call_in n (Connected i j) \<longleftrightarrow> 0 \<le> i \<and> i < n \<and> 0 \<le> j \<and> j < n"
| "call_in n Count \<longleftrightarrow> True"

lemma uf_run_partition:
  "uf_rep uf n E \<Longrightarrow> list_all (call_in n) cs \<Longrightarrow> \<exists>uf'. uf_run cs uf = Some (partition_run n cs E, uf')"
proof (induction cs arbitrary: uf E)
  case (Cons c cs)
  show ?case
  proof (cases c)
    case (Unite i j)
    then obtain uf1 where "uf_unite i j uf = Some uf1" "uf_rep uf1 n (insert (i, j) E)"
      using uf_unite_rep[OF Cons.prems(1), of i j] Cons.prems(2) by auto
    then show ?thesis using Cons.IH[of uf1 "insert (i, j) E"] Cons.prems(2) Unite by auto
  next
    case (Connected i j)
    then obtain uf1 where "uf_connected i j uf = Some ((i, j) \<in> conn E, uf1)" "uf_rep uf1 n E"
      using uf_connected_rep[OF Cons.prems(1), of i j] Cons.prems(2) by auto
    then show ?thesis using Cons.IH[of uf1 E] Cons.prems(2) Connected by auto
  next
    case Count
    then show ?thesis using Cons.IH[OF Cons.prems(1)] Cons.prems(2) uf_count_components[OF Cons.prems(1)]
      by (auto simp: get_count_def)
  qed
qed simp

text \<open>
  C29: the union-find structure refines a partition: any sequence of calls on nodes in range ends inside the vector,
  \<^verbatim>\<open>connected\<close> tells whether the pairs united so far connect the nodes, and \<^verbatim>\<open>get_count\<close> is the number of components.
\<close>

theorem uf_refines_partition:
  assumes "0 \<le> n" "list_all (call_in n) cs"
  shows "\<exists>uf. uf_run cs (UnionFind n) = Some (partition_run n cs {}, uf)"
  using uf_run_partition[OF UnionFind_rep[OF assms(1)] assms(2)] .

theorem uf_refines_partition_witness:
  "\<exists>r s uf. uf_run [Unite 0 1, Connected 1 0, Connected 0 2, Count] (UnionFind 3) = Some ([1, r, s], uf)"
proof -
  have "(1, 0) \<in> conn {(0, 1)}" by (rule conn_sym, rule conn_edge) simp
  then show ?thesis using uf_refines_partition[of 3 "[Unite 0 1, Connected 1 0, Connected 0 2, Count]"] by auto
qed

text \<open>
  C30: on a graph whose edges stay inside it, Kruskal's algorithm ends and returns edges of the graph that connect what
  the graph connects, as few as a forest has, and such that the ends of every edge of the graph are connected by returned edges that
  are not heavier.
\<close>

theorem kruskal_spans:
  assumes "graph_ok adj"
  shows "\<exists>mst. kruskal (int (length adj)) adj = Some mst \<and>
    (\<forall>((u, v), w) \<in> set mst. (w, u, v) \<in> weighted_edges adj) \<and> conn (fst ` set mst) = conn (edges_of adj) \<and>
    length mst + card (components (int (length adj)) (edges_of adj)) = length adj \<and>
    (\<forall>(w, u, v) \<in> weighted_edges adj. (u, v) \<in> conn (chosen mst w))"
proof -
  let ?n = "int (length adj)" and ?W = "weighted_edges adj"
  obtain pq where pq: "kruskal_edges ?n adj = Some pq" "set pq = ?W" using kruskal_edges_spec by blast
  have W: "?W \<subseteq> UNIV \<times> {0..<?n} \<times> {0..<?n}"
  proof
    fix e
    assume "e \<in> ?W"
    then have "snd e \<in> edges_of adj" unfolding edges_of_weighted by simp
    then show "e \<in> UNIV \<times> {0..<?n} \<times> {0..<?n}" using graph_okD[OF assms, of "fst (snd e)" "snd (snd e)"] by (cases e) auto
  qed
  have "kruskal_inv ?W ?n pq (UnionFind ?n) []" unfolding kruskal_inv_def using UnionFind_rep[of ?n] pq(2) by (simp add: UnionFind_def)
  from kruskal_loop_spec[OF W this] obtain mst uf where mst: "kruskal_loop pq (UnionFind ?n) [] = Some mst" "kruskal_inv ?W ?n [] uf mst" by blast
  note I = kruskal_invD[OF mst(2)]
  have sub: "fst ` set mst \<subseteq> edges_of adj" using I(4) unfolding edges_of_weighted by force
  have light: "(u, v) \<in> conn (chosen mst w)" if "(w, u, v) \<in> ?W" for w u v using I(6)[OF that] by simp
  have "chosen mst w \<subseteq> fst ` set mst" for w by (force simp: chosen_def)
  then have "(u, v) \<in> conn (fst ` set mst)" if "(u, v) \<in> edges_of adj" for u v
    using that light conn_mono unfolding edges_of_weighted by (metis (no_types, lifting) imageE prod.collapse subsetD)
  then have same: "conn (fst ` set mst) = conn (edges_of adj)" using conn_mono[OF sub] conn_least by blast
  then have "uf_count uf = int (card (components ?n (edges_of adj)))" using uf_count_components[OF I(1)] by (simp add: components_def)
  then have "length mst + card (components ?n (edges_of adj)) = length adj" using I(3) by linarith
  then show ?thesis using pq(1) mst(1) I(4) same light by (auto simp: kruskal_def)
qed

theorem kruskal_spans_witness:
  "\<exists>mst. kruskal 3 [[(1, 4), (2, 1)], [(2, 2)], []] = Some mst \<and> (0, 1) \<in> conn (chosen mst 4)"
proof -
  let ?adj = "[[(1, 4), (2, 1)], [(2, 2)], []] :: graph"
  have "graph_ok ?adj" by (auto simp: graph_ok_def edges_of_def targets_def nth_Cons' split: if_splits)
  moreover have "(4, 0, 1) \<in> weighted_edges ?adj" by (simp add: weighted_edges_def)
  ultimately show ?thesis using kruskal_spans[of ?adj] by auto
qed

end
