(* ===== verification/Coroutines.thy ===== *)
theory Coroutines
  imports Xlab_Prelude
begin

text \<open>
  The coroutine runtime of \<^verbatim>\<open>src/cc/projects/mini-seastar\<close>: tasks and their promises (\<^verbatim>\<open>task.hpp\<close>), the awaitables
  (\<^verbatim>\<open>awaitables.hpp\<close>), the scheduler (\<^verbatim>\<open>scheduler.hpp\<close>, \<^verbatim>\<open>scheduler.cpp\<close>) and the runtime (\<^verbatim>\<open>runtime.hpp\<close>).  Coroutine frames
  live on an explicit heap, so that using a destroyed frame is \<^const>\<open>None\<close>.
\<close>

section \<open>Coroutine bodies\<close>

text \<open>
  What a coroutine does between its start and its end: visible effects, the suspension points, and the two ways to end.
  \<open>Co_await_call b c k\<close> calls the coroutine \<open>c\<close>, which makes a task, resumes it once by \<^verbatim>\<open>Task::resume\<close> when \<open>b\<close> holds, and awaits
  it; \<open>k\<close> is the rest of the body.  \<open>Await_resume\<close> is the point behind a suspended \<^verbatim>\<open>co_await\<close> of the task whose frame it names.  The
  coroutines are those of \<^verbatim>\<open>Task<void>\<close>, which return no value: a \<^verbatim>\<open>Task<T>\<close> has no defined end (see below).
\<close>

datatype code =
    Co_return
  | Throw nat
  | Emit int code
  | Co_yield code
  | Sleep_for int code
  | Co_await_call bool code code
  | Await_resume nat code

section \<open>Promises and frames (task.hpp)\<close>

text \<open>The value of a \<^verbatim>\<open>std::exception_ptr\<close>, and the promise of \<^verbatim>\<open>Task<void>\<close>.\<close>

datatype thrown = No_exception | Exception nat

record promise =
  exception_ptr :: thrown
  ready :: bool
  continuation :: "nat option"

text \<open>A frame is suspended at some code, or at its final suspension point.\<close>

record frame =
  at_code :: code
  at_final :: bool
  frame_promise :: promise

record timer_entry =
  wake_time :: int
  te_handle :: nat

record scheduler =
  ready_queue :: "nat list"
  timers :: "timer_entry list"

text \<open>Scheduler 0 is \<^verbatim>\<open>global_scheduler()\<close>.  Readings of the steady clock are numbered; 0 is the null handle.\<close>

record world =
  frames :: "nat \<Rightarrow> frame option"
  fresh :: nat
  schedulers :: "nat \<Rightarrow> scheduler"
  clock_at :: nat
  effects :: "int list"

definition TaskPromise :: promise where
  "TaskPromise = \<lparr>exception_ptr = No_exception, ready = False, continuation = None\<rparr>"

definition return_void :: "promise \<Rightarrow> promise" where
  "return_void p = p\<lparr>ready := True\<rparr>"

definition unhandled_exception :: "nat \<Rightarrow> promise \<Rightarrow> promise" where
  "unhandled_exception e p = p\<lparr>exception_ptr := Exception e, ready := True\<rparr>"

text \<open>Rethrows (left) or returns (right).\<close>

definition rethrow_if_exception :: "promise \<Rightarrow> nat + unit" where
  "rethrow_if_exception p = (case exception_ptr p of Exception e \<Rightarrow> Inl e | No_exception \<Rightarrow> Inr ())"

definition set_continuation :: "nat \<Rightarrow> promise \<Rightarrow> promise" where
  "set_continuation h p = p\<lparr>continuation := Some h\<rparr>"

definition on_frame :: "nat \<Rightarrow> (frame \<Rightarrow> frame) \<Rightarrow> world \<Rightarrow> world option" where
  "on_frame h g w = (case frames w h of None \<Rightarrow> None | Some f \<Rightarrow> Some (w\<lparr>frames := (frames w)(h \<mapsto> g f)\<rparr>))"

text \<open>Calling a coroutine makes a frame that is suspended at its start.\<close>

definition co_call :: "code \<Rightarrow> world \<Rightarrow> nat \<times> world" where
  "co_call c w = (fresh w, w\<lparr>fresh := fresh w + 1,
     frames := (frames w)(fresh w \<mapsto> \<lparr>at_code = c, at_final = False, frame_promise = TaskPromise\<rparr>)\<rparr>)"

definition co_suspend :: "nat \<Rightarrow> code \<Rightarrow> world \<Rightarrow> world option" where
  "co_suspend h c = on_frame h (\<lambda>f. f\<lparr>at_code := c\<rparr>)"

definition co_finish :: "nat \<Rightarrow> (promise \<Rightarrow> promise) \<Rightarrow> world \<Rightarrow> world option" where
  "co_finish h g = on_frame h (\<lambda>f. f\<lparr>at_final := True, frame_promise := g (frame_promise f)\<rparr>)"

text \<open>Destroying a frame destroys the task its awaiter holds.\<close>

partial_function (option) co_destroy :: "nat \<Rightarrow> world \<Rightarrow> world option" where
  "co_destroy h w = (case frames w h of None \<Rightarrow> None | Some f \<Rightarrow>
     let w = w\<lparr>frames := (frames w)(h := None)\<rparr> in
     if at_final f then Some w
     else case at_code f of Await_resume t k \<Rightarrow> co_destroy t w | _ \<Rightarrow> Some w)"

section \<open>Scheduling and awaiting (scheduler.hpp, awaitables.hpp)\<close>

definition schedule :: "nat \<Rightarrow> nat \<Rightarrow> world \<Rightarrow> world" where
  "schedule s h w = w\<lparr>schedulers := (schedulers w)(s := schedulers w s\<lparr>ready_queue := ready_queue (schedulers w s) @ [h]\<rparr>)\<rparr>"

definition add_timer :: "nat \<Rightarrow> timer_entry \<Rightarrow> world \<Rightarrow> world" where
  "add_timer s e w = w\<lparr>schedulers := (schedulers w)(s := schedulers w s\<lparr>timers := timers (schedulers w s) @ [e]\<rparr>)\<rparr>"

definition clock_now :: "(nat \<Rightarrow> int) \<Rightarrow> world \<Rightarrow> int \<times> world" where
  "clock_now clock w = (clock (clock_at w), w\<lparr>clock_at := clock_at w + 1\<rparr>)"

definition yield_suspend :: "nat \<Rightarrow> world \<Rightarrow> world" where
  "yield_suspend h = schedule 0 h"

definition sleep_suspend :: "int \<Rightarrow> nat \<Rightarrow> world \<Rightarrow> world" where
  "sleep_suspend wake h = add_timer 0 \<lparr>wake_time = wake, te_handle = h\<rparr>"

text \<open>The end of a \<^verbatim>\<open>co_await\<close>: an exception of the task is rethrown, and the awaiter, which owns the task, is destroyed.\<close>

definition await_resume :: "nat \<Rightarrow> nat \<Rightarrow> (world \<Rightarrow> world option) \<Rightarrow> world \<Rightarrow> world option" where
  "await_resume t h k w = (case frames w t of None \<Rightarrow> None | Some f \<Rightarrow> do {
     w \<leftarrow> co_destroy t w;
     (case rethrow_if_exception (frame_promise f) of Inl e \<Rightarrow> co_finish h (unhandled_exception e) w | Inr _ \<Rightarrow> k w)})"

definition await_ready :: "nat \<Rightarrow> world \<Rightarrow> bool option" where
  "await_ready t w = (case frames w t of None \<Rightarrow> None | Some f \<Rightarrow> Some (ready (frame_promise f)))"

definition await_suspend :: "nat \<Rightarrow> nat \<Rightarrow> world \<Rightarrow> world option" where
  "await_suspend t h = on_frame t (\<lambda>f. f\<lparr>frame_promise := set_continuation h (frame_promise f)\<rparr>)"

text \<open>A resumed coroutine runs to its next suspension.\<close>

primrec exec :: "(nat \<Rightarrow> int) \<Rightarrow> code \<Rightarrow> nat \<Rightarrow> world \<Rightarrow> world option" where
  "exec clock Co_return h w = co_finish h return_void w"
| "exec clock (Throw e) h w = co_finish h (unhandled_exception e) w"
| "exec clock (Emit a c) h w = exec clock c h (w\<lparr>effects := effects w @ [a]\<rparr>)"
| "exec clock (Co_yield c) h w = do { w \<leftarrow> co_suspend h c w; Some (yield_suspend h w) }"
| "exec clock (Sleep_for d c) h w = (let (now, w) = clock_now clock w in
     if d \<le> 0 then exec clock c h w else do { w \<leftarrow> co_suspend h c w; Some (sleep_suspend (now + d) h w) })"
| "exec clock (Co_await_call b c k) h w = (let (t, w) = co_call c w in do {
     w \<leftarrow> (if b then exec clock c t w else Some w);
     r \<leftarrow> await_ready t w;
     (if r then await_resume t h (exec clock k h) w
      else do { w \<leftarrow> co_suspend h (Await_resume t k) w; await_suspend t h w })})"
| "exec clock (Await_resume t k) h w = await_resume t h (exec clock k h) w"

definition co_resume :: "(nat \<Rightarrow> int) \<Rightarrow> nat \<Rightarrow> world \<Rightarrow> world option" where
  "co_resume clock h w = (case frames w h of None \<Rightarrow> None | Some f \<Rightarrow> if at_final f then None else exec clock (at_code f) h w)"

section \<open>The event loop (scheduler.cpp)\<close>

definition scheduler_at :: "nat \<Rightarrow> (scheduler \<Rightarrow> scheduler) \<Rightarrow> world \<Rightarrow> world" where
  "scheduler_at s g w = w\<lparr>schedulers := (schedulers w)(s := g (schedulers w s))\<rparr>"

text \<open>One handle taken from a queue: resumed, counted, or destroyed when it is done.\<close>

definition run_handle :: "(nat \<Rightarrow> int) \<Rightarrow> nat \<Rightarrow> nat \<Rightarrow> world \<Rightarrow> (nat \<times> world) option" where
  "run_handle clock h x w = (case frames w h of None \<Rightarrow> None | Some f \<Rightarrow>
     if \<not> at_final f then do { w \<leftarrow> co_resume clock h w; Some (x + 1, w) } else do { w \<leftarrow> co_destroy h w; Some (x, w) })"

partial_function (option) drain_ready :: "(nat \<Rightarrow> int) \<Rightarrow> nat \<Rightarrow> nat \<Rightarrow> world \<Rightarrow> (nat \<times> world) option" where
  "drain_ready clock s x w = (case ready_queue (schedulers w s) of
     [] \<Rightarrow> Some (x, w)
   | h # q \<Rightarrow> Option.bind (run_handle clock h x (scheduler_at s (ready_queue_update (\<lambda>_. q)) w)) (\<lambda>(x, w). drain_ready clock s x w))"

text \<open>The priority queue of timers: \<open>earliest\<close> is an entry of least wake time; which one, when several are least, is left to the library.\<close>

definition earliest_ok :: "(timer_entry list \<Rightarrow> timer_entry) \<Rightarrow> bool" where
  "earliest_ok earliest \<longleftrightarrow> (\<forall>ts. ts \<noteq> [] \<longrightarrow> earliest ts \<in> set ts \<and> (\<forall>e \<in> set ts. wake_time (earliest ts) \<le> wake_time e))"

partial_function (option) process_timers ::
  "(nat \<Rightarrow> int) \<Rightarrow> (timer_entry list \<Rightarrow> timer_entry) \<Rightarrow> nat \<Rightarrow> int \<Rightarrow> nat \<Rightarrow> world \<Rightarrow> (nat \<times> world) option" where
  "process_timers clock earliest s now x w = (let ts = timers (schedulers w s) in
     if ts \<noteq> [] \<and> wake_time (earliest ts) \<le> now
     then Option.bind (run_handle clock (te_handle (earliest ts)) x (scheduler_at s (timers_update (\<lambda>_. remove1 (earliest ts) ts)) w))
       (\<lambda>(x, w). process_timers clock earliest s now x w)
     else Some (x, w))"

definition ready_count :: "nat \<Rightarrow> world \<Rightarrow> nat" where
  "ready_count s w = length (ready_queue (schedulers w s))"

definition timer_count :: "nat \<Rightarrow> world \<Rightarrow> nat" where
  "timer_count s w = length (timers (schedulers w s))"

definition has_work :: "nat \<Rightarrow> world \<Rightarrow> bool" where
  "has_work s w \<longleftrightarrow> ready_queue (schedulers w s) \<noteq> [] \<or> timers (schedulers w s) \<noteq> []"

text \<open>The sleep of the fourth step only passes time, which the next reading of the clock shows.\<close>

partial_function (option) run_loop ::
  "(nat \<Rightarrow> int) \<Rightarrow> (timer_entry list \<Rightarrow> timer_entry) \<Rightarrow> nat \<Rightarrow> int \<Rightarrow> nat \<Rightarrow> world \<Rightarrow> (nat \<times> world) option" where
  "run_loop clock earliest s now x w = Option.bind (drain_ready clock s x w) (\<lambda>(x, w).
     Option.bind (process_timers clock earliest s now x w) (\<lambda>(x, w).
       if \<not> has_work s w then Some (x, w)
       else let (now, w) = clock_now clock w in run_loop clock earliest s now x w))"

definition run :: "(nat \<Rightarrow> int) \<Rightarrow> (timer_entry list \<Rightarrow> timer_entry) \<Rightarrow> nat \<Rightarrow> world \<Rightarrow> (nat \<times> world) option" where
  "run clock earliest s w = (let (now, w) = clock_now clock w in run_loop clock earliest s now 0 w)"

partial_function (option) drain_bounded :: "(nat \<Rightarrow> int) \<Rightarrow> nat \<Rightarrow> nat \<Rightarrow> nat \<Rightarrow> world \<Rightarrow> (nat \<times> world) option" where
  "drain_bounded clock s max_iterations x w = (case ready_queue (schedulers w s) of
     [] \<Rightarrow> Some (x, w)
   | h # q \<Rightarrow> if \<not> x < max_iterations then Some (x, w)
     else Option.bind (run_handle clock h x (scheduler_at s (ready_queue_update (\<lambda>_. q)) w)) (\<lambda>(x, w). drain_bounded clock s max_iterations x w))"

partial_function (option) bounded_loop ::
  "(nat \<Rightarrow> int) \<Rightarrow> (timer_entry list \<Rightarrow> timer_entry) \<Rightarrow> nat \<Rightarrow> nat \<Rightarrow> int \<Rightarrow> nat \<Rightarrow> world \<Rightarrow> (nat \<times> world) option" where
  "bounded_loop clock earliest s max_iterations now x w =
     (if x < max_iterations then Option.bind (drain_bounded clock s max_iterations x w) (\<lambda>(x, w).
        Option.bind (process_timers clock earliest s now x w) (\<lambda>(x, w).
          if \<not> has_work s w then Some (x, w)
          else let (now, w) = clock_now clock w in bounded_loop clock earliest s max_iterations now x w))
      else Some (x, w))"

definition run_bounded :: "(nat \<Rightarrow> int) \<Rightarrow> (timer_entry list \<Rightarrow> timer_entry) \<Rightarrow> nat \<Rightarrow> nat \<Rightarrow> world \<Rightarrow> (nat \<times> world) option" where
  "run_bounded clock earliest s max_iterations w = (let (now, w) = clock_now clock w in bounded_loop clock earliest s max_iterations now 0 w)"

text \<open>The destructor destroys the frames of the ready queue.\<close>

definition Scheduler_destroy :: "nat \<Rightarrow> world \<Rightarrow> world option" where
  "Scheduler_destroy s w = do {
     w \<leftarrow> for_each co_destroy (ready_queue (schedulers w s)) w;
     Some (scheduler_at s (\<lambda>_. \<lparr>ready_queue = [], timers = []\<rparr>) w)}"

section \<open>Tasks and the runtime (task.hpp, runtime.hpp)\<close>

text \<open>A task is the handle it owns, or null.\<close>

type_synonym task = "nat option"

definition Task_destroy :: "task \<Rightarrow> world \<Rightarrow> world option" where
  "Task_destroy t w = (case t of None \<Rightarrow> Some w | Some h \<Rightarrow> co_destroy h w)"

definition Task_move :: "task \<Rightarrow> task \<times> task" where
  "Task_move other = (other, None)"

definition Task_move_assign :: "task \<Rightarrow> task \<Rightarrow> world \<Rightarrow> (task \<times> task \<times> world) option" where
  "Task_move_assign t other w = do { w \<leftarrow> Task_destroy t w; Some (other, None, w) }"

definition Task_resume :: "(nat \<Rightarrow> int) \<Rightarrow> task \<Rightarrow> world \<Rightarrow> world option" where
  "Task_resume clock t w = (case t of None \<Rightarrow> Some w | Some h \<Rightarrow> (case frames w h of None \<Rightarrow> None | Some f \<Rightarrow>
     if \<not> at_final f then co_resume clock h w else Some w))"

definition Task_done :: "task \<Rightarrow> world \<Rightarrow> bool option" where
  "Task_done t w = (case t of None \<Rightarrow> Some False | Some h \<Rightarrow> map_option at_final (frames w h))"

definition Task_is_ready :: "task \<Rightarrow> world \<Rightarrow> bool option" where
  "Task_is_ready t w = (case t of None \<Rightarrow> Some True | Some h \<Rightarrow> map_option (\<lambda>f. ready (frame_promise f)) (frames w h))"

definition Task_get :: "task \<Rightarrow> world \<Rightarrow> (nat + unit) option" where
  "Task_get t w = (case t of None \<Rightarrow> None | Some h \<Rightarrow> (case frames w h of None \<Rightarrow> None | Some f \<Rightarrow> Some (rethrow_if_exception (frame_promise f))))"

text \<open>\<^verbatim>\<open>spawn\<close> takes the task by value: its parameter is destroyed when it returns.\<close>

definition Runtime_spawn :: "nat \<Rightarrow> task \<Rightarrow> world \<Rightarrow> world option" where
  "Runtime_spawn s t w = Task_destroy t (case t of None \<Rightarrow> w | Some h \<Rightarrow> schedule s h w)"

definition spawn :: "task \<Rightarrow> world \<Rightarrow> world option" where
  "spawn t w = Task_destroy t (schedule 0 (case t of None \<Rightarrow> 0 | Some h \<Rightarrow> h) w)"

definition new_world :: world where
  "new_world = \<lparr>frames = (\<lambda>_. None), fresh = 1, schedulers = (\<lambda>_. \<lparr>ready_queue = [], timers = []\<rparr>), clock_at = 0, effects = []\<rparr>"

section \<open>The promise of a task with a value (task.hpp)\<close>

text \<open>
  \<^verbatim>\<open>TaskPromise<T>\<close> keeps its result in an array of bytes that it uses as a variant.  No constructor makes a variant in it: the array
  holds \<^const>\<open>None\<close>, and replacing or reading the alternative of a variant that is not there is undefined.
\<close>

datatype 'a co_result = Monostate | Result_value 'a | Result_exception nat

record 'a value_promise =
  storage :: "'a co_result option"
  vp_ready :: bool
  vp_continuation :: "nat option"

definition TaskPromise_T :: "'a value_promise" where
  "TaskPromise_T = \<lparr>storage = None, vp_ready = False, vp_continuation = None\<rparr>"

definition emplace :: "'a co_result \<Rightarrow> 'a value_promise \<Rightarrow> 'a value_promise option" where
  "emplace r p = (case storage p of None \<Rightarrow> None | Some _ \<Rightarrow> Some (p\<lparr>storage := Some r\<rparr>))"

definition return_value :: "'a \<Rightarrow> 'a value_promise \<Rightarrow> 'a value_promise option" where
  "return_value v p = do { p \<leftarrow> emplace (Result_value v) p; Some (p\<lparr>vp_ready := True\<rparr>) }"

definition unhandled_exception_T :: "nat \<Rightarrow> 'a value_promise \<Rightarrow> 'a value_promise option" where
  "unhandled_exception_T e p = do { p \<leftarrow> emplace (Result_exception e) p; Some (p\<lparr>vp_ready := True\<rparr>) }"

text \<open>\<^verbatim>\<open>get_result\<close> terminates the program before completion, which is \<^const>\<open>None\<close> as well.\<close>

definition get_result :: "'a value_promise \<Rightarrow> (nat + 'a) option" where
  "get_result p = (if \<not> vp_ready p then None
     else case storage p of
       Some (Result_exception e) \<Rightarrow> Some (Inl e)
     | Some (Result_value v) \<Rightarrow> Some (Inr v)
     | _ \<Rightarrow> None)"

definition set_continuation_T :: "nat \<Rightarrow> 'a value_promise \<Rightarrow> 'a value_promise" where
  "set_continuation_T h p = p\<lparr>vp_continuation := Some h\<rparr>"

text \<open>
  So the body of a \<^verbatim>\<open>Task<T>\<close> with a value cannot end: whatever continuations were set before, returning a value and throwing are
  undefined.
\<close>

lemma value_task_undefined:
  defines "p hs \<equiv> fold set_continuation_T hs (TaskPromise_T :: 'a value_promise)"
  shows "return_value v (p hs) = None \<and> unhandled_exception_T e (p hs) = None \<and> get_result (p hs) = None"
proof -
  have "storage (fold set_continuation_T hs q) = storage q" for q :: "'a value_promise"
    by (induction hs arbitrary: q) (simp_all add: set_continuation_T_def)
  then have "storage (p hs) = None" unfolding p_def by (simp add: TaskPromise_T_def)
  then show ?thesis by (simp add: return_value_def unhandled_exception_T_def get_result_def emplace_def)
qed

end
