(* ===== verification/Kqueue_Backend.thy ===== *)
theory Kqueue_Backend
  imports Xlab_Prelude
begin

text \<open>
  The I/O layer of \<^verbatim>\<open>src/cc/projects/web-server\<close>: \<^verbatim>\<open>Status\<close>, the interface \<^verbatim>\<open>IoBackend\<close> as a record of its virtual functions, and
  \<^verbatim>\<open>KqueueBackend\<close>.  The kernel is a parameter: its answers to coming calls are lists in the backend's state, its interest list is
  the set of registered filters.
\<close>

section \<open>Results\<close>

datatype status_code = kOk | kAgain | kEndOfFile | kInvalidArg | kWouldBlock | kConnectionReset | kConnectionClosed | kUnknown

record status =
  st_code :: status_code
  st_message :: string

abbreviation Ok :: status where "Ok \<equiv> \<lparr>st_code = kOk, st_message = ''''\<rparr>"
abbreviation Again :: "string \<Rightarrow> status" where "Again msg \<equiv> \<lparr>st_code = kAgain, st_message = msg\<rparr>"
abbreviation InvalidArg :: "string \<Rightarrow> status" where "InvalidArg msg \<equiv> \<lparr>st_code = kInvalidArg, st_message = msg\<rparr>"
abbreviation Unknown :: "string \<Rightarrow> status" where "Unknown msg \<equiv> \<lparr>st_code = kUnknown, st_message = msg\<rparr>"

definition st_ok :: "status \<Rightarrow> bool" where "st_ok s \<longleftrightarrow> st_code s = kOk"

definition IsAgain :: "status \<Rightarrow> bool" where "IsAgain s \<longleftrightarrow> st_code s = kAgain"

fun CodeToString :: "status_code \<Rightarrow> string" where
  "CodeToString kOk = ''OK''"
| "CodeToString kAgain = ''AGAIN''"
| "CodeToString kEndOfFile = ''EOF''"
| "CodeToString kInvalidArg = ''INVALID_ARG''"
| "CodeToString kWouldBlock = ''WOULD_BLOCK''"
| "CodeToString kConnectionReset = ''CONNECTION_RESET''"
| "CodeToString kConnectionClosed = ''CONNECTION_CLOSED''"
| "CodeToString kUnknown = ''UNKNOWN''"

definition ToString :: "status \<Rightarrow> string" where
  "ToString s = (if st_message s = [] then CodeToString (st_code s) else CodeToString (st_code s) @ '': '' @ st_message s)"

section \<open>The interface\<close>

datatype op_kind = kAccept | kRead | kWrite | kSendFile | kClose

text \<open>The only flag in use is \<^verbatim>\<open>EV_EOF\<close>.\<close>

record completion_event =
  ce_op :: op_kind
  ce_fd :: int
  ce_user_data :: int
  ce_result :: int
  ce_eof :: bool

text \<open>A pointer into the buffer of a connection: the connection's number and an offset.\<close>

type_synonym buffer_ptr = "int \<times> int"

record 'b io_backend =
  Init :: "'b \<Rightarrow> status \<times> 'b"
  SubmitAccept :: "int \<Rightarrow> int \<Rightarrow> 'b \<Rightarrow> status \<times> 'b"
  SubmitRead :: "int \<Rightarrow> buffer_ptr \<Rightarrow> nat \<Rightarrow> int \<Rightarrow> 'b \<Rightarrow> status \<times> 'b"
  SubmitWrite :: "int \<Rightarrow> buffer_ptr \<Rightarrow> nat \<Rightarrow> int \<Rightarrow> 'b \<Rightarrow> status \<times> 'b"
  SubmitSendFile :: "int \<Rightarrow> int \<Rightarrow> int \<Rightarrow> nat \<Rightarrow> int \<Rightarrow> 'b \<Rightarrow> status \<times> 'b"
  SubmitClose :: "int \<Rightarrow> int \<Rightarrow> 'b \<Rightarrow> status \<times> 'b"
  Poll :: "int \<Rightarrow> completion_event list \<Rightarrow> 'b \<Rightarrow> status \<times> completion_event list \<times> 'b"

section \<open>The kqueue backend\<close>

text \<open>Error numbers of macOS, where \<^verbatim>\<open>EWOULDBLOCK\<close> is \<^verbatim>\<open>EAGAIN\<close>; a failing call answers the negative number.\<close>

definition EINTR :: int where "EINTR = 4"
definition EAGAIN :: int where "EAGAIN = 35"
definition ECONNRESET :: int where "ECONNRESET = 54"

datatype filter_kind = EVFILT_READ | EVFILT_WRITE

record kevent =
  ke_ident :: int
  ke_filter :: filter_kind
  ke_eof :: bool
  ke_udata :: int

text \<open>
  \<open>kq_results\<close> are the answers to the coming calls of \<^verbatim>\<open>kqueue\<close> and of \<^verbatim>\<open>kevent\<close> with a change (0 when the list is exhausted),
  \<open>kq_polls\<close> those to the coming waits, each event with the answer to the \<^verbatim>\<open>read\<close> or \<^verbatim>\<open>write\<close> on its descriptor; \<open>kq_sent\<close>
  are the successful writes with their lengths.
\<close>

record kqueue =
  kq_fd :: int
  read_pending :: "int \<rightharpoonup> buffer_ptr \<times> nat \<times> int"
  write_pending :: "int \<rightharpoonup> buffer_ptr \<times> nat \<times> int"
  kq_filters :: "(int \<times> filter_kind) set"
  kq_results :: "int list"
  kq_polls :: "(int + (kevent \<times> int) list) list"
  kq_sent :: "(int \<times> buffer_ptr \<times> nat) list"
  kq_strerror :: "int \<Rightarrow> string"

definition KqueueBackend :: "int list \<Rightarrow> (int + (kevent \<times> int) list) list \<Rightarrow> (int \<Rightarrow> string) \<Rightarrow> kqueue" where
  "KqueueBackend results polls strerror = \<lparr>kq_fd = -1, read_pending = Map.empty, write_pending = Map.empty, kq_filters = {},
     kq_results = results, kq_polls = polls, kq_sent = [], kq_strerror = strerror\<rparr>"

definition sys_result :: "kqueue \<Rightarrow> int \<times> kqueue" where
  "sys_result q = (case kq_results q of [] \<Rightarrow> (0, q) | r # rs \<Rightarrow> (r, q\<lparr>kq_results := rs\<rparr>))"

text \<open>\<^verbatim>\<open>kevent\<close> with a change that adds or deletes a filter.\<close>

definition change_filter :: "bool \<Rightarrow> int \<Rightarrow> filter_kind \<Rightarrow> kqueue \<Rightarrow> int \<times> kqueue" where
  "change_filter add fd filt q = (let (r, q) = sys_result q in
     (r, if r < 0 then q else q\<lparr>kq_filters := (if add then insert (fd, filt) (kq_filters q) else kq_filters q - {(fd, filt)})\<rparr>))"

definition kq_Init :: "kqueue \<Rightarrow> status \<times> kqueue" where
  "kq_Init q = (let (r, q) = sys_result q; q = q\<lparr>kq_fd := (if r < 0 then -1 else r)\<rparr> in
     if kq_fd q < 0 then (Unknown (kq_strerror q (- r)), q) else (Ok, q))"

definition kq_SubmitAccept :: "int \<Rightarrow> int \<Rightarrow> kqueue \<Rightarrow> status \<times> kqueue" where
  "kq_SubmitAccept listen_fd user_data q = (let (r, q) = change_filter True listen_fd EVFILT_READ q in
     if r < 0 then (Unknown (kq_strerror q (- r)), q) else (Ok, q))"

definition kq_SubmitRead :: "int \<Rightarrow> buffer_ptr \<Rightarrow> nat \<Rightarrow> int \<Rightarrow> kqueue \<Rightarrow> status \<times> kqueue" where
  "kq_SubmitRead fd buf cap user_data q = (let (r, q) = change_filter True fd EVFILT_READ q in
     if r < 0 then (Unknown (kq_strerror q (- r)), q)
     else (Ok, q\<lparr>read_pending := (read_pending q)(fd \<mapsto> (buf, cap, user_data))\<rparr>))"

definition kq_SubmitWrite :: "int \<Rightarrow> buffer_ptr \<Rightarrow> nat \<Rightarrow> int \<Rightarrow> kqueue \<Rightarrow> status \<times> kqueue" where
  "kq_SubmitWrite fd buf len user_data q = (let (r, q) = change_filter True fd EVFILT_WRITE q in
     if r < 0 then (Unknown (kq_strerror q (- r)), q)
     else (Ok, q\<lparr>write_pending := (write_pending q)(fd \<mapsto> (buf, len, user_data))\<rparr>))"

definition kq_SubmitSendFile :: "int \<Rightarrow> int \<Rightarrow> int \<Rightarrow> nat \<Rightarrow> int \<Rightarrow> kqueue \<Rightarrow> status \<times> kqueue" where
  "kq_SubmitSendFile out_fd file_fd offset len user_data q = (InvalidArg ''SendFile not implemented in kqueue backend'', q)"

definition kq_SubmitClose :: "int \<Rightarrow> int \<Rightarrow> kqueue \<Rightarrow> status \<times> kqueue" where
  "kq_SubmitClose fd user_data q = (let (_, q) = change_filter False fd EVFILT_READ q; (_, q) = change_filter False fd EVFILT_WRITE q in
     (Ok, q\<lparr>read_pending := (read_pending q)(fd := None), write_pending := (write_pending q)(fd := None)\<rparr>))"

text \<open>The loop body of \<^verbatim>\<open>Poll\<close>.  A failed write moves the pointer by -1, and \<open>len\<close> wraps around at \<open>2\<^sup>6\<^sup>4\<close>.\<close>

definition poll_event :: "kevent \<times> int \<Rightarrow> kqueue \<Rightarrow> completion_event \<times> kqueue" where
  "poll_event a q = (let (ev, r) = a; fd = ke_ident ev;
       ce = (\<lambda>op result eof. \<lparr>ce_op = op, ce_fd = fd, ce_user_data = ke_udata ev, ce_result = result, ce_eof = eof\<rparr>) in
     if ke_eof ev then (ce kClose (- ECONNRESET) True,
       q\<lparr>read_pending := (read_pending q)(fd := None), write_pending := (write_pending q)(fd := None)\<rparr>)
     else (case ke_filter ev of
       EVFILT_READ \<Rightarrow> (case read_pending q fd of
           Some (buf, cap, user_data) \<Rightarrow> (if r < 0 then ce kRead (if r = - EAGAIN then 0 else r) False else ce kRead r (r = 0),
             q\<lparr>read_pending := (read_pending q)(fd := None)\<rparr>)
         | None \<Rightarrow> (ce kAccept 0 False, q))
     | EVFILT_WRITE \<Rightarrow> (case write_pending q fd of
           Some ((conn, offset), len, user_data) \<Rightarrow>
             (let w = (if r < 0 then -1 else r); q = (if r < 0 then q else q\<lparr>kq_sent := kq_sent q @ [(fd, (conn, offset), nat r)]\<rparr>) in
              (ce kWrite (if r = - EAGAIN then 0 else r) False,
               if w \<noteq> int len then q\<lparr>write_pending := (write_pending q)(fd \<mapsto> ((conn, offset + w), nat ((int len - w) mod 2 ^ 64), user_data))\<rparr>
               else q\<lparr>write_pending := (write_pending q)(fd := None)\<rparr>))
         | None \<Rightarrow> (ce kWrite 0 False, q))))"

fun poll_events :: "(kevent \<times> int) list \<Rightarrow> kqueue \<Rightarrow> completion_event list \<times> kqueue" where
  "poll_events [] q = ([], q)"
| "poll_events (a # as) q = (let (ce, q) = poll_event a q; (ces, q) = poll_events as q in (ce # ces, q))"

text \<open>The vector given to \<^verbatim>\<open>Poll\<close> is left as it is when the wait fails.\<close>

definition kq_Poll :: "int \<Rightarrow> completion_event list \<Rightarrow> kqueue \<Rightarrow> status \<times> completion_event list \<times> kqueue" where
  "kq_Poll timeout_ms out q = (case kq_polls q of
     [] \<Rightarrow> (Ok, [], q)
   | answer # answers \<Rightarrow> (let q = q\<lparr>kq_polls := answers\<rparr> in (case answer of
       Inl e \<Rightarrow> (if e = EINTR then Again [] else Unknown (kq_strerror q e), out, q)
     | Inr as \<Rightarrow> (let (ces, q) = poll_events as q in (Ok, ces, q)))))"

definition kqueue_io :: "kqueue io_backend" where
  "kqueue_io = \<lparr>Init = kq_Init, SubmitAccept = kq_SubmitAccept, SubmitRead = kq_SubmitRead, SubmitWrite = kq_SubmitWrite,
     SubmitSendFile = kq_SubmitSendFile, SubmitClose = kq_SubmitClose, Poll = kq_Poll\<rparr>"

lemma kqueue_io_simps [simp]: "Init kqueue_io = kq_Init" "SubmitAccept kqueue_io = kq_SubmitAccept" "SubmitRead kqueue_io = kq_SubmitRead"
  "SubmitWrite kqueue_io = kq_SubmitWrite" "SubmitClose kqueue_io = kq_SubmitClose" "Poll kqueue_io = kq_Poll"
  by (simp_all add: kqueue_io_def)

section \<open>What the backend does\<close>

text \<open>Without a pending read, no event is a \<open>kRead\<close>.\<close>

lemma poll_event_idle:
  "read_pending q = Map.empty \<Longrightarrow> ce_op (fst (poll_event a q)) \<noteq> kRead \<and> read_pending (snd (poll_event a q)) = Map.empty"
  by (auto simp: poll_event_def Let_def split: prod.splits filter_kind.splits option.splits)

lemma poll_events_idle:
  "read_pending q = Map.empty \<Longrightarrow> (\<forall>ce \<in> set (fst (poll_events as q)). ce_op ce \<noteq> kRead) \<and> read_pending (snd (poll_events as q)) = Map.empty"
proof (induction "as" arbitrary: q)
  case (Cons a "as")
  obtain ce q1 where a: "poll_event a q = (ce, q1)" by fastforce
  obtain ces q2 where as_: "poll_events as q1 = (ces, q2)" by fastforce
  have "ce_op ce \<noteq> kRead" "read_pending q1 = Map.empty" using poll_event_idle[OF Cons.prems, of a] a by simp_all
  with Cons.IH[of q1] show ?case using a as_ by simp
qed simp

lemma kq_Poll_idle:
  assumes "read_pending q = Map.empty" "\<forall>ce \<in> set out. ce_op ce \<noteq> kRead" "kq_Poll timeout out q = (st, out', q')"
  shows "read_pending q' = Map.empty \<and> (\<forall>ce \<in> set out'. ce_op ce \<noteq> kRead)"
proof (cases "kq_polls q")
  case Nil
  then show ?thesis using assms by (auto simp: kq_Poll_def)
next
  case (Cons a "as")
  show ?thesis
  proof (cases a)
    case (Inl e)
    then show ?thesis using assms Cons by (auto simp: kq_Poll_def Let_def)
  next
    case (Inr evs)
    then show ?thesis using assms Cons poll_events_idle[of "q\<lparr>kq_polls := as\<rparr>" evs]
      by (auto simp: kq_Poll_def Let_def split: prod.splits)
  qed
qed

lemma change_filter_simps [simp]:
  "read_pending (snd (change_filter add fd f q)) = read_pending q" "write_pending (snd (change_filter add fd f q)) = write_pending q"
  "kq_polls (snd (change_filter add fd f q)) = kq_polls q" "kq_sent (snd (change_filter add fd f q)) = kq_sent q"
  by (simp_all add: change_filter_def sys_result_def Let_def split: list.splits)

lemma change_filter_fine:
  "kq_results q = [] \<Longrightarrow> change_filter add fd f q =
    (0, q\<lparr>kq_filters := (if add then insert (fd, f) (kq_filters q) else kq_filters q - {(fd, f)})\<rparr>)"
  by (simp add: change_filter_def sys_result_def)

end
