(* ===== verification/Web_Server.thy ===== *)
theory Web_Server
  imports Kqueue_Backend "HOL-Library.AList"
begin

text \<open>
  \<^verbatim>\<open>Connection\<close> and \<^verbatim>\<open>Server\<close> of \<^verbatim>\<open>src/cc/projects/web-server\<close> over any \<^verbatim>\<open>IoBackend\<close>.  The descriptors the process has open are an
  explicit set, with a count of the calls of \<^verbatim>\<open>close\<close> on a descriptor that is not open; the answers of \<^verbatim>\<open>accept\<close> are arguments.
\<close>

section \<open>The code\<close>

record os =
  opened :: "int set"
  bad_closes :: nat
  accept_calls :: nat
  strerror :: "int \<Rightarrow> string"

definition sys_close :: "int \<Rightarrow> os \<Rightarrow> os" where
  "sys_close fd os = (if fd \<in> opened os then os\<lparr>opened := opened os - {fd}\<rparr> else os\<lparr>bad_closes := bad_closes os + 1\<rparr>)"

text \<open>A call that answers with a new descriptor, or a negative error.\<close>

definition sys_open :: "int \<Rightarrow> os \<Rightarrow> os" where
  "sys_open r os = (if r < 0 then os else os\<lparr>opened := insert r (opened os)\<rparr>)"

subsection \<open>Connections\<close>

datatype conn_state = kReading | kProcessing | kWriting | kClosing | kClosed

text \<open>The read buffer is left out: nothing reads it.\<close>

record connection =
  cn_fd :: int
  cn_id :: int
  cn_state :: conn_state
  keep_alive :: bool
  write_buf :: string
  write_len :: nat
  bytes_read :: nat
  bytes_written :: nat

definition Connection :: "int \<Rightarrow> int \<Rightarrow> connection" where
  "Connection fd ident = \<lparr>cn_fd = fd, cn_id = ident, cn_state = kReading, keep_alive = True, write_buf = replicate 4096 CHR 0x00,
     write_len = 0, bytes_read = 0, bytes_written = 0\<rparr>"

definition SetResponse :: "string \<Rightarrow> connection \<Rightarrow> connection" where
  "SetResponse response c = (let n = min (length response) (length (write_buf c)) in
     c\<lparr>write_len := n, write_buf := take n response @ drop n (write_buf c)\<rparr>)"

definition conn_Close :: "connection \<Rightarrow> os \<Rightarrow> connection \<times> os" where
  "conn_Close c os = (if 0 \<le> cn_fd c then (c\<lparr>cn_fd := -1, cn_state := kClosed\<rparr>, sys_close (cn_fd c) os) else (c\<lparr>cn_state := kClosed\<rparr>, os))"

definition Connection_destroy :: "connection \<Rightarrow> os \<Rightarrow> os" where
  "Connection_destroy c os = snd (conn_Close c os)"

subsection \<open>The server\<close>

definition kFixedResponse :: string where
  "kFixedResponse = ''HTTP/1.1 200 OK'' @ [CHR 0x0D, CHR 0x0A] @ ''Content-Type: text/plain'' @ [CHR 0x0D, CHR 0x0A] @
     ''Content-Length: 13'' @ [CHR 0x0D, CHR 0x0A] @ ''Connection: keep-alive'' @ [CHR 0x0D, CHR 0x0A] @ [CHR 0x0D, CHR 0x0A] @ ''Hello, World!''"

record 'b server =
  max_connections :: nat
  backend :: 'b
  listen_fd :: int
  running :: bool
  shutdown_requested :: bool
  connections :: "(int \<times> connection) list"
  next_conn_id :: int
  total_requests :: nat
  sv_os :: os

definition Server :: "nat \<Rightarrow> 'b \<Rightarrow> (int \<Rightarrow> string) \<Rightarrow> 'b server" where
  "Server limit b errors = \<lparr>max_connections = limit, backend = b, listen_fd = -1, running = False, shutdown_requested = False, connections = [],
     next_conn_id = 1, total_requests = 0, sv_os = \<lparr>opened = {}, bad_closes = 0, accept_calls = 0, strerror = errors\<rparr>\<rparr>"

definition HandleClose :: "'b io_backend \<Rightarrow> int \<Rightarrow> 'b server \<Rightarrow> 'b server" where
  "HandleClose io fd s = (case map_of (connections s) fd of
     None \<Rightarrow> s
   | Some conn \<Rightarrow> (let (_, b) = SubmitClose io fd (cn_id conn) (backend s); (conn, os) = conn_Close conn (sv_os s) in
       s\<lparr>backend := b, sv_os := Connection_destroy conn os, connections := AList.delete fd (connections s)\<rparr>))"

text \<open>\<open>client_fd\<close> is what \<^verbatim>\<open>accept\<close> answers.  The assignment to the map destroys a connection stored there.\<close>

definition HandleAccept :: "'b io_backend \<Rightarrow> int \<Rightarrow> 'b server \<Rightarrow> status \<times> 'b server" where
  "HandleAccept io client_fd s = (let os = sys_open client_fd (sv_os s)\<lparr>accept_calls := accept_calls (sv_os s) + 1\<rparr>; s = s\<lparr>sv_os := os\<rparr> in
     if client_fd < 0 then (if client_fd = - EAGAIN then Again [] else Unknown (strerror os (- client_fd)), s)
     else if length (connections s) \<ge> max_connections s then (Again ''Connection limit exceeded'', s\<lparr>sv_os := sys_close client_fd os\<rparr>)
     else (let conn_id = next_conn_id s; old = map_of (connections s) client_fd;
         s = s\<lparr>next_conn_id := conn_id + 1, connections := AList.update client_fd (Connection client_fd conn_id) (connections s),
           sv_os := (case old of None \<Rightarrow> os | Some conn \<Rightarrow> Connection_destroy conn os)\<rparr>;
         (st, b) = SubmitRead io client_fd (conn_id, 0) 4096 conn_id (backend s) in
       (st, s\<lparr>backend := b\<rparr>)))"

text \<open>The handlers get a connection and the key under which it is stored.\<close>

definition HandleRead :: "'b io_backend \<Rightarrow> int \<Rightarrow> connection \<Rightarrow> int \<Rightarrow> 'b server \<Rightarrow> status \<times> 'b server" where
  "HandleRead io key conn bytes s = (if bytes \<le> 0 then (Ok, HandleClose io (cn_fd conn) s)
     else (let conn = conn\<lparr>bytes_read := bytes_read conn + nat bytes\<rparr>; conn = (SetResponse kFixedResponse conn)\<lparr>cn_state := kWriting\<rparr>;
         s = s\<lparr>connections := AList.update key conn (connections s)\<rparr>;
         (st, b) = SubmitWrite io (cn_fd conn) (cn_id conn, 0) (write_len conn) (cn_id conn) (backend s); s = s\<lparr>backend := b\<rparr> in
       if \<not> st_ok st then (st, HandleClose io (cn_fd conn) s)
       else (Ok, s\<lparr>total_requests := total_requests s + 1\<rparr>)))"

definition HandleWrite :: "'b io_backend \<Rightarrow> int \<Rightarrow> connection \<Rightarrow> int \<Rightarrow> 'b server \<Rightarrow> status \<times> 'b server" where
  "HandleWrite io key conn bytes s = (if bytes \<le> 0 then (Ok, HandleClose io (cn_fd conn) s)
     else (let conn = conn\<lparr>bytes_written := bytes_written conn + nat bytes\<rparr> in
       if nat bytes \<ge> write_len conn then
         (if keep_alive conn then
           (let conn = conn\<lparr>cn_state := kReading\<rparr>; s = s\<lparr>connections := AList.update key conn (connections s)\<rparr>;
              (st, b) = SubmitRead io (cn_fd conn) (cn_id conn, 0) 4096 (cn_id conn) (backend s) in
            (st, s\<lparr>backend := b\<rparr>))
          else (Ok, s\<lparr>connections := AList.update key (conn\<lparr>cn_state := kClosing\<rparr>) (connections s)\<rparr>))
       else (Ok, s\<lparr>connections := AList.update key conn (connections s)\<rparr>)))"

definition CleanupClosed :: "'b server \<Rightarrow> 'b server" where
  "CleanupClosed s = s\<lparr>connections := filter (\<lambda>(_, c). cn_state c \<noteq> kClosed) (connections s),
     sv_os := fold (\<lambda>(_, c). Connection_destroy c) (filter (\<lambda>(_, c). cn_state c = kClosed) (connections s)) (sv_os s)\<rparr>"

text \<open>\<^verbatim>\<open>Shutdown\<close> closes every connection and destroys it.\<close>

definition Shutdown :: "'b server \<Rightarrow> 'b server" where
  "Shutdown s = (let s = (if running s then s\<lparr>shutdown_requested := True, running := False\<rparr> else s);
       os = fold (\<lambda>(_, c) os. let (c, os) = conn_Close c os in Connection_destroy c os) (connections s) (sv_os s) in
     s\<lparr>connections := [], sv_os := (if listen_fd s \<ge> 0 then sys_close (listen_fd s) os else os),
       listen_fd := (if listen_fd s \<ge> 0 then -1 else listen_fd s)\<rparr>)"

subsection \<open>The event loop\<close>

text \<open>One event; \<open>answer\<close> is what \<^verbatim>\<open>accept\<close> would answer if it were called now.\<close>

definition handle_event :: "'b io_backend \<Rightarrow> int \<Rightarrow> completion_event \<Rightarrow> 'b server \<Rightarrow> 'b server" where
  "handle_event io answer ev s = (if ce_fd ev = listen_fd s \<and> ce_op ev = kRead then snd (HandleAccept io answer s)
     else if ce_fd ev \<noteq> listen_fd s then
       (case map_of (connections s) (ce_fd ev) of
          None \<Rightarrow> s
        | Some conn \<Rightarrow> (if ce_op ev = kRead then snd (HandleRead io (ce_fd ev) conn (ce_result ev) s)
            else if ce_op ev = kWrite then snd (HandleWrite io (ce_fd ev) conn (ce_result ev) s)
            else if ce_op ev = kClose \<or> ce_eof ev then HandleClose io (ce_fd ev) s
            else s))
     else s)"

fun process_events :: "'b io_backend \<Rightarrow> int list \<Rightarrow> completion_event list \<Rightarrow> 'b server \<Rightarrow> 'b server" where
  "process_events io answers [] s = s"
| "process_events io answers (ev # evs) s =
     process_events io (tl answers) evs (handle_event io (case answers of [] \<Rightarrow> - EAGAIN | a # _ \<Rightarrow> a) ev s)"

text \<open>One round: the vector of events survives it, and a wait that answers \<^verbatim>\<open>Again\<close> does not end it.\<close>

definition event_round :: "'b io_backend \<Rightarrow> int list \<Rightarrow> completion_event list \<times> 'b server \<Rightarrow> completion_event list \<times> 'b server" where
  "event_round io answers es = (let (events, s) = es; (st, events, b) = Poll io 100 events (backend s); s = s\<lparr>backend := b\<rparr> in
     if \<not> st_ok st \<and> \<not> IsAgain st then (events, s) else (events, CleanupClosed (process_events io answers events s)))"

text \<open>As many rounds as there are lists of answers; the loop ends when its condition fails.\<close>

fun event_loop :: "'b io_backend \<Rightarrow> int list list \<Rightarrow> completion_event list \<times> 'b server \<Rightarrow> completion_event list \<times> 'b server" where
  "event_loop io [] es = es"
| "event_loop io (answers # rest) es = (if running (snd es) \<and> \<not> shutdown_requested (snd es) then event_loop io rest (event_round io answers es)
     else (fst es, (snd es)\<lparr>running := False\<rparr>))"

text \<open>The answers of the calls that set up the listening socket.\<close>

record setup_results =
  r_socket :: int
  r_getfl :: int
  r_setfl :: int
  r_setsockopt :: int
  r_inet_pton :: int
  r_bind :: int
  r_listen :: int

definition CreateNonBlockingSocket :: "setup_results \<Rightarrow> os \<Rightarrow> int \<times> os" where
  "CreateNonBlockingSocket x os = (let fd = r_socket x; os = sys_open fd os in
     if fd < 0 then (-1, os)
     else if r_getfl x < 0 \<or> r_setfl x < 0 then (-1, sys_close fd os)
     else if r_setsockopt x < 0 then (-1, sys_close fd os)
     else (fd, os))"

text \<open>\<^verbatim>\<open>Start\<close> up to the loop: an early return, or the loop begins.\<close>

definition Start :: "'b io_backend \<Rightarrow> setup_results \<Rightarrow> 'b server \<Rightarrow> status option \<times> 'b server" where
  "Start io x s = (let (st, b) = Init io (backend s); s = s\<lparr>backend := b\<rparr> in
     if \<not> st_ok st then (Some st, s)
     else let (fd, os) = CreateNonBlockingSocket x (sv_os s); s = s\<lparr>listen_fd := fd, sv_os := os\<rparr> in
     if fd < 0 then (Some (Unknown ''Failed to create socket''), s)
     else if r_inet_pton x \<le> 0 then (Some (InvalidArg ''Invalid address''), s)
     else if r_bind x < 0 then (Some (Unknown ''Failed to bind''), s)
     else if r_listen x < 0 then (Some (Unknown ''Failed to listen''), s)
     else let (st, b) = SubmitAccept io fd 0 (backend s); s = s\<lparr>backend := b\<rparr> in
       if \<not> st_ok st then (Some st, s) else (None, s\<lparr>running := True\<rparr>))"

text \<open>The states a server passes through, whatever its backend reports; \<^verbatim>\<open>accept\<close> answers a descriptor that is not open.\<close>

inductive sv_reach :: "'b io_backend \<Rightarrow> nat \<Rightarrow> 'b server \<Rightarrow> bool" for io limit where
  new: "sv_reach io limit (Server limit b errors)"
| start: "sv_reach io limit (Server limit b errors) \<Longrightarrow> Start io x (Server limit b errors) = (r, s) \<Longrightarrow> sv_reach io limit s"
| poll: "sv_reach io limit s \<Longrightarrow> sv_reach io limit (s\<lparr>backend := b\<rparr>)"
| event: "sv_reach io limit s \<Longrightarrow> answer \<notin> opened (sv_os s) \<Longrightarrow> sv_reach io limit (handle_event io answer ev s)"
| cleanup: "sv_reach io limit s \<Longrightarrow> sv_reach io limit (CleanupClosed s)"
| shutdown: "sv_reach io limit s \<Longrightarrow> sv_reach io limit (Shutdown s)"

section \<open>Descriptors\<close>

definition open_conn :: "nat \<Rightarrow> int \<times> connection \<Rightarrow> bool" where
  "open_conn n p \<longleftrightarrow> cn_fd (snd p) = fst p \<and> 0 \<le> fst p \<and> cn_state (snd p) \<noteq> kClosed \<and> length (write_buf (snd p)) = n"

definition sv_inv :: "nat \<Rightarrow> 'b server \<Rightarrow> bool" where
  "sv_inv limit s \<longleftrightarrow> max_connections s = limit \<and> distinct (map fst (connections s)) \<and> list_all (open_conn 4096) (connections s) \<and>
     length (connections s) \<le> limit \<and> bad_closes (sv_os s) = 0 \<and> listen_fd s \<notin> fst ` set (connections s) \<and>
     opened (sv_os s) = fst ` set (connections s) \<union> (if 0 \<le> listen_fd s then {listen_fd s} else {})"

lemma sv_inv_backend [simp]: "sv_inv limit (s\<lparr>backend := b\<rparr>) = sv_inv limit s"
  by (simp add: sv_inv_def)

lemma sv_inv_total [simp]: "sv_inv limit (s\<lparr>total_requests := n\<rparr>) = sv_inv limit s"
  by (simp add: sv_inv_def)

lemma Connection_destroy_closed: "conn_Close c os = (c', os') \<Longrightarrow> Connection_destroy c' os' = os'"
  by (auto simp: conn_Close_def Connection_destroy_def split: if_splits)

lemma conn_Close_law:
  "0 \<le> cn_fd c \<Longrightarrow> cn_fd c \<in> opened os \<Longrightarrow> \<exists>c'. conn_Close c os = (c', os\<lparr>opened := opened os - {cn_fd c}\<rparr>)"
  by (simp add: conn_Close_def sys_close_def)

lemma sv_inv_conn:
  assumes "sv_inv limit s" "map_of (connections s) fd = Some c"
  shows "cn_fd c = fd \<and> 0 \<le> fd \<and> cn_state c \<noteq> kClosed \<and> length (write_buf c) = 4096 \<and> fd \<in> opened (sv_os s) \<and> fd \<noteq> listen_fd s"
proof -
  have mem: "(fd, c) \<in> set (connections s)" using assms(2) by (rule map_of_SomeD)
  then have "open_conn 4096 (fd, c)" using assms(1) by (auto simp: sv_inv_def list_all_iff)
  moreover have "fd \<in> fst ` set (connections s)" using mem by force
  moreover have "listen_fd s \<notin> fst ` set (connections s)" using assms(1) by (simp add: sv_inv_def)
  ultimately show ?thesis using assms(1) by (metis (mono_tags, lifting) UnCI fst_conv open_conn_def snd_conv sv_inv_def)
qed

lemma HandleClose_law:
  assumes "sv_inv limit s"
  shows "sv_inv limit (HandleClose io fd s) \<and> map_of (connections (HandleClose io fd s)) fd = None \<and>
    opened (sv_os (HandleClose io fd s)) = (if fd = listen_fd s then opened (sv_os s) else opened (sv_os s) - {fd}) \<and>
    listen_fd (HandleClose io fd s) = listen_fd s"
proof (cases "map_of (connections s) fd")
  case None
  then have "HandleClose io fd s = s" by (simp add: HandleClose_def)
  moreover have "fd \<notin> fst ` set (connections s)" using None by (simp add: map_of_eq_None_iff)
  ultimately show ?thesis using assms None by (auto simp: sv_inv_def)
next
  case (Some c)
  note c = sv_inv_conn[OF assms Some]
  obtain st b where b: "SubmitClose io fd (cn_id c) (backend s) = (st, b)" by fastforce
  obtain c' where c': "conn_Close c (sv_os s) = (c', (sv_os s)\<lparr>opened := opened (sv_os s) - {fd}\<rparr>)" using conn_Close_law[of c "sv_os s"] c by auto
  have eq: "HandleClose io fd s = s\<lparr>backend := b, sv_os := (sv_os s)\<lparr>opened := opened (sv_os s) - {fd}\<rparr>, connections := AList.delete fd (connections s)\<rparr>"
    using Some b c' Connection_destroy_closed[OF c'] by (simp add: HandleClose_def)
  have keys: "fst ` set (AList.delete fd (connections s)) = fst ` set (connections s) - {fd}"
    by (metis dom_map_of_conv_image_fst delete_conv' dom_fun_upd)
  have "set (AList.delete fd (connections s)) \<subseteq> set (connections s)" by (auto simp: AList.delete_eq)
  then have "list_all (open_conn 4096) (AList.delete fd (connections s))" using assms by (auto simp: sv_inv_def list_all_iff)
  moreover have "length (AList.delete fd (connections s)) \<le> limit"
    using assms by (auto simp: sv_inv_def AList.delete_eq intro: le_trans[OF length_filter_le])
  ultimately have "sv_inv limit (HandleClose io fd s)" unfolding eq
    using assms c keys by (auto simp: sv_inv_def distinct_delete)
  then show ?thesis using c unfolding eq by (simp add: delete_conv')
qed

lemma sv_inv_update:
  assumes "sv_inv limit s" "map_of (connections s) fd = Some c" "cn_fd c' = fd" "cn_state c' \<noteq> kClosed" "length (write_buf c') = 4096"
  shows "sv_inv limit (s\<lparr>connections := AList.update fd c' (connections s)\<rparr>)"
proof -
  have mem: "fd \<in> fst ` set (connections s)" using map_of_SomeD[OF assms(2)] by force
  have keys: "map fst (AList.update fd c' (connections s)) = map fst (connections s)" using mem by (simp add: update_keys)
  then have len: "length (AList.update fd c' (connections s)) = length (connections s)" by (metis length_map)
  have "fst ` set (AList.update fd c' (connections s)) = fst ` set (connections s)" using keys by (metis list.set_map)
  moreover have "list_all (open_conn 4096) (AList.update fd c' (connections s))"
  proof -
    have "p \<in> set (AList.update fd c' xs) \<Longrightarrow> p = (fd, c') \<or> p \<in> set xs" for p xs by (induction xs) (auto split: if_splits)
    moreover have "open_conn 4096 (fd, c')" using assms sv_inv_conn[OF assms(1,2)] by (simp add: open_conn_def)
    ultimately show ?thesis using assms(1) unfolding sv_inv_def list_all_iff by blast
  qed
  ultimately show ?thesis using assms(1) keys len by (simp add: sv_inv_def)
qed

lemma SetResponse_simps [simp]:
  "cn_fd (SetResponse r c) = cn_fd c" "cn_id (SetResponse r c) = cn_id c" "length (write_buf (SetResponse r c)) = length (write_buf c)"
  "keep_alive (SetResponse r c) = keep_alive c" "write_len (SetResponse r c) = min (length r) (length (write_buf c))"
  by (simp_all add: SetResponse_def Let_def)

lemma HandleRead_inv:
  assumes "sv_inv limit s" "map_of (connections s) fd = Some c"
  shows "sv_inv limit (snd (HandleRead io fd c n s))"
proof -
  note c = sv_inv_conn[OF assms]
  let ?c = "(SetResponse kFixedResponse (c\<lparr>bytes_read := bytes_read c + nat n\<rparr>))\<lparr>cn_state := kWriting\<rparr>"
  have "sv_inv limit (s\<lparr>connections := AList.update fd ?c (connections s)\<rparr>)" using c by (intro sv_inv_update[OF assms]) simp_all
  then show ?thesis using HandleClose_law[OF assms(1)] HandleClose_law[of limit "s\<lparr>connections := AList.update fd ?c (connections s)\<rparr>\<lparr>backend := b\<rparr>" for b]
    by (auto simp: HandleRead_def Let_def split: prod.splits)
qed

lemma HandleWrite_inv:
  assumes "sv_inv limit s" "map_of (connections s) fd = Some c"
  shows "sv_inv limit (snd (HandleWrite io fd c n s))"
proof -
  note c = sv_inv_conn[OF assms]
  have "sv_inv limit (s\<lparr>connections := AList.update fd (c\<lparr>bytes_written := m, cn_state := st\<rparr>) (connections s)\<rparr>)" if "st \<noteq> kClosed" for m st
    using c that by (intro sv_inv_update[OF assms]) simp_all
  moreover have "sv_inv limit (s\<lparr>connections := AList.update fd (c\<lparr>bytes_written := m\<rparr>) (connections s)\<rparr>)" for m
    using c by (intro sv_inv_update[OF assms]) simp_all
  ultimately show ?thesis using HandleClose_law[OF assms(1)]
    by (auto simp: HandleWrite_def Let_def split: prod.splits)
qed

lemma HandleAccept_inv:
  assumes "sv_inv limit s" "r \<notin> opened (sv_os s)"
  shows "sv_inv limit (snd (HandleAccept io r s))"
proof (cases "r < 0 \<or> limit \<le> length (connections s)")
  case True
  then show ?thesis using assms by (auto simp: HandleAccept_def sv_inv_def sys_open_def sys_close_def Let_def)
next
  case False
  have new: "r \<notin> fst ` set (connections s)" "r \<noteq> listen_fd s" using assms False by (auto simp: sv_inv_def split: if_splits)
  then have none: "map_of (connections s) r = None" by (simp add: map_of_eq_None_iff)
  have upd: "AList.update r c xs = xs @ [(r, c)]" if "r \<notin> fst ` set xs" for c xs using that by (induction xs) auto
  show ?thesis using assms False new none unfolding HandleAccept_def
    by (auto simp: Let_def sv_inv_def upd sys_open_def open_conn_def Connection_def split: prod.splits)
qed

lemma handle_event_inv: "sv_inv limit s \<Longrightarrow> r \<notin> opened (sv_os s) \<Longrightarrow> sv_inv limit (handle_event io r ev s)"
  using HandleAccept_inv[of limit s r io] HandleRead_inv[of limit s "ce_fd ev"] HandleWrite_inv[of limit s "ce_fd ev"] HandleClose_law[of limit s io "ce_fd ev"]
  by (auto simp: handle_event_def split: option.splits)

text \<open>No connection in the map is ever closed: the periodic clean-up has nothing to do.\<close>

lemma CleanupClosed_idle: "sv_inv limit s \<Longrightarrow> CleanupClosed s = s"
proof -
  assume inv: "sv_inv limit s"
  have "filter (\<lambda>(_, c). cn_state c \<noteq> kClosed) (connections s) = connections s" "filter (\<lambda>(_, c). cn_state c = kClosed) (connections s) = []"
    using inv by (auto simp: sv_inv_def list_all_iff open_conn_def filter_id_conv filter_empty_conv)
  then show ?thesis by (simp add: CleanupClosed_def)
qed

lemma close_all:
  "distinct (map fst cs) \<Longrightarrow> list_all (open_conn n) cs \<Longrightarrow> fst ` set cs \<subseteq> opened os \<Longrightarrow>
    fold (\<lambda>(_, c) os. let (c, os) = conn_Close c os in Connection_destroy c os) cs os = os\<lparr>opened := opened os - fst ` set cs\<rparr>"
proof (induction cs arbitrary: os)
  case (Cons p cs)
  obtain fd c where [simp]: "p = (fd, c)" by fastforce
  have fd: "cn_fd c = fd" "0 \<le> fd" "fd \<in> opened os" using Cons.prems by (simp_all add: open_conn_def)
  obtain c' where c': "conn_Close c os = (c', os\<lparr>opened := opened os - {fd}\<rparr>)" using conn_Close_law[of c os] fd by auto
  have "fst ` set cs \<subseteq> opened os - {fd}" using Cons.prems by auto
  then show ?case using Cons c' Connection_destroy_closed[OF c'] by (simp add: set_diff_eq)
qed simp

lemma Shutdown_law:
  assumes "sv_inv limit s"
  shows "sv_inv limit (Shutdown s) \<and> opened (sv_os (Shutdown s)) = {} \<and> connections (Shutdown s) = [] \<and> \<not> running (Shutdown s)"
proof -
  have sub: "fst ` set (connections s) \<subseteq> opened (sv_os s)" using assms by (simp add: sv_inv_def)
  have "fold (\<lambda>(_, c) os. let (c, os) = conn_Close c os in Connection_destroy c os) (connections s) (sv_os s) =
      (sv_os s)\<lparr>opened := opened (sv_os s) - fst ` set (connections s)\<rparr>"
    using assms by (intro close_all[OF _ _ sub]) (auto simp: sv_inv_def)
  then show ?thesis using assms by (auto simp: Shutdown_def sv_inv_def sys_close_def Let_def)
qed

lemma Start_inv: "Start io x (Server limit b errors) = (r, s) \<Longrightarrow> sv_inv limit s"
  by (auto simp: Start_def Server_def sv_inv_def CreateNonBlockingSocket_def sys_open_def sys_close_def Let_def split: prod.splits if_splits)

lemma sv_reach_inv: "sv_reach io limit s \<Longrightarrow> sv_inv limit s"
proof (induction rule: sv_reach.induct)
  case (new b errors)
  then show ?case by (simp add: sv_inv_def Server_def)
qed (simp_all add: Start_inv handle_event_inv CleanupClosed_idle Shutdown_law)

section \<open>The server over kqueue\<close>

text \<open>Nothing pending to read and no event that reports a read: so it stays.\<close>

definition idle :: "nat \<Rightarrow> completion_event list \<times> kqueue server \<Rightarrow> bool" where
  "idle n es \<longleftrightarrow> read_pending (backend (snd es)) = Map.empty \<and> (\<forall>ev \<in> set (fst es). ce_op ev \<noteq> kRead) \<and> connections (snd es) = [] \<and>
     accept_calls (sv_os (snd es)) = n \<and> total_requests (snd es) = 0"

lemma process_events_idle:
  "connections s = [] \<Longrightarrow> \<forall>ev \<in> set evs. ce_op ev \<noteq> kRead \<Longrightarrow> process_events io answers evs s = s"
  by (induction evs arbitrary: answers) (auto simp: handle_event_def)

lemma event_round_idle: "idle n es \<Longrightarrow> idle n (event_round kqueue_io answers es)"
proof -
  assume idle: "idle n es"
  obtain evs s where es: "es = (evs, s)" by fastforce
  obtain st evs' b where p: "kq_Poll 100 evs (backend s) = (st, evs', b)" by (cases "kq_Poll 100 evs (backend s)") auto
  have *: "read_pending b = Map.empty" "\<forall>ev \<in> set evs'. ce_op ev \<noteq> kRead" using kq_Poll_idle[OF _ _ p] idle by (simp_all add: idle_def es)
  have "process_events kqueue_io answers evs' (s\<lparr>backend := b\<rparr>) = s\<lparr>backend := b\<rparr>" using idle *(2) by (intro process_events_idle) (simp_all add: idle_def es)
  then show ?thesis using idle * by (simp add: es event_round_def p idle_def CleanupClosed_def Let_def)
qed

lemma event_loop_idle: "idle n es \<Longrightarrow> idle n (event_loop kqueue_io inputs es)"
  by (induction inputs arbitrary: es) (simp_all add: event_round_idle, simp add: idle_def)

lemma Start_idle:
  assumes "Start kqueue_io x s0 = (r, s)"
  shows "read_pending (backend s) = read_pending (backend s0) \<and> connections s = connections s0 \<and> total_requests s = total_requests s0 \<and>
    accept_calls (sv_os s) = accept_calls (sv_os s0)"
proof -
  obtain st b where i: "kq_Init (backend s0) = (st, b)" by fastforce
  obtain fd os where c: "CreateNonBlockingSocket x (sv_os s0) = (fd, os)" by fastforce
  obtain st' b' where a: "kq_SubmitAccept fd 0 b = (st', b')" by fastforce
  have "read_pending b = read_pending (backend s0)" using i by (auto simp: kq_Init_def sys_result_def Let_def split: list.splits if_splits)
  moreover have "read_pending b' = read_pending b"
    using a by (auto simp: kq_SubmitAccept_def change_filter_def sys_result_def Let_def split: list.splits if_splits)
  moreover have "accept_calls os = accept_calls (sv_os s0)"
    using c by (auto simp: CreateNonBlockingSocket_def sys_open_def sys_close_def Let_def split: if_splits)
  ultimately show ?thesis using assms by (auto simp: Start_def Let_def i c a split: if_splits)
qed

text \<open>The writes of a response in pieces.\<close>

fun pieces :: "int \<Rightarrow> int \<Rightarrow> nat \<Rightarrow> nat list \<Rightarrow> (int \<times> buffer_ptr \<times> nat) list" where
  "pieces fd ident off [] = []"
| "pieces fd ident off (w # ws) = (fd, (ident, int off), w) # pieces fd ident (off + w) ws"

definition bytes_of :: "string \<Rightarrow> (int \<times> buffer_ptr \<times> nat) list \<Rightarrow> string" where
  "bytes_of buf ps = concat (map (\<lambda>(_, (_, off), n). take n (drop (nat off) buf)) ps)"

lemma pieces_bytes: "bytes_of buf (pieces fd ident off ws) = take (sum_list ws) (drop off buf)"
proof (induction ws arbitrary: off)
  case (Cons w ws)
  then show ?case by (simp add: bytes_of_def take_add add.commute)
qed (simp add: bytes_of_def)

abbreviation writable :: "int \<Rightarrow> int \<Rightarrow> kevent" where
  "writable fd udata \<equiv> \<lparr>ke_ident = fd, ke_filter = EVFILT_WRITE, ke_eof = False, ke_udata = udata\<rparr>"

text \<open>A connection of which \<open>off\<close> bytes have been sent, and \<open>len\<close> are left.\<close>

definition sending :: "int \<Rightarrow> nat \<Rightarrow> connection \<Rightarrow> kqueue server \<Rightarrow> bool" where
  "sending fd off c s \<longleftrightarrow> (\<exists>limit. sv_inv limit s) \<and> map_of (connections s) fd = Some c \<and> running s \<and> \<not> shutdown_requested s \<and> keep_alive c \<and>
     kq_results (backend s) = [] \<and> (fd, EVFILT_WRITE) \<in> kq_filters (backend s) \<and> cn_state c = kWriting \<and> off < write_len c \<and>
     write_len c < 2 ^ 64 \<and>
     write_pending (backend s) fd = Some ((cn_id c, int off), write_len c - off, cn_id c)"

definition sent_all :: "int \<Rightarrow> kqueue server \<Rightarrow> bool" where
  "sent_all fd s \<longleftrightarrow> (\<exists>limit. sv_inv limit s) \<and> running s \<and> \<not> shutdown_requested s \<and> (fd, EVFILT_WRITE) \<in> kq_filters (backend s) \<and>
     write_pending (backend s) fd = None"

lemma write_round:
  assumes inv: "sv_inv limit s" and c: "map_of (connections s) fd = Some c" and polls: "kq_polls (backend s) = Inr [(writable fd udata, r)] # polls'"
    and ev: "poll_event (writable fd udata, r) ((backend s)\<lparr>kq_polls := polls'\<rparr>) = (ce, q)" "ce_fd ce = fd" "ce_op ce = kWrite"
  shows "event_round kqueue_io answers (evs, s) = ([ce], snd (HandleWrite kqueue_io fd c (ce_result ce) (s\<lparr>backend := q\<rparr>)))"
proof -
  have p: "kq_Poll 100 evs (backend s) = (Ok, [ce], q)" using polls ev(1) by (simp add: kq_Poll_def)
  have "handle_event kqueue_io a ce (s\<lparr>backend := q\<rparr>) = snd (HandleWrite kqueue_io fd c (ce_result ce) (s\<lparr>backend := q\<rparr>))" for a
    using sv_inv_conn[OF inv c] c ev(2,3) by (simp add: handle_event_def)
  moreover have "sv_inv limit (snd (HandleWrite kqueue_io fd c (ce_result ce) (s\<lparr>backend := q\<rparr>)))" using inv c by (intro HandleWrite_inv) simp_all
  ultimately show ?thesis by (simp add: event_round_def p st_ok_def CleanupClosed_idle)
qed

text \<open>A write of some bytes but not all that are left.\<close>

lemma sending_part:
  assumes s: "sending fd off c s" and w: "0 < w" "off + w < write_len c" and polls: "kq_polls (backend s) = Inr [(writable fd udata, int w)] # polls'"
  shows "\<exists>s' evs'. event_round kqueue_io answers (evs, s) = (evs', s') \<and> sending fd (off + w) (c\<lparr>bytes_written := bytes_written c + w\<rparr>) s' \<and>
    kq_polls (backend s') = polls' \<and> kq_sent (backend s') = kq_sent (backend s) @ [(fd, (cn_id c, int off), w)]"
proof -
  obtain limit where inv: "sv_inv limit s" using s by (auto simp: sending_def)
  note st = s[unfolded sending_def]
  have c: "map_of (connections s) fd = Some c" using st by simp
  let ?q = "(backend s)\<lparr>kq_polls := polls', kq_sent := kq_sent (backend s) @ [(fd, (cn_id c, int off), w)],
     write_pending := (write_pending (backend s))(fd \<mapsto> ((cn_id c, int (off + w)), write_len c - (off + w), cn_id c))\<rparr>"
  let ?ce = "\<lparr>ce_op = kWrite, ce_fd = fd, ce_user_data = udata, ce_result = int w, ce_eof = False\<rparr>"
  have mod: "(int (write_len c - off) - int w) mod 18446744073709551616 = int (write_len c - (off + w))"
    using st w by (subst mod_pos_pos_trivial) (auto simp: of_nat_diff)
  have ne: "int w \<noteq> int (write_len c - off)" using w by simp
  have nat: "nat (int (write_len c) - int off - int w) = write_len c - (off + w)" using w by linarith
  have "poll_event (writable fd udata, int w) ((backend s)\<lparr>kq_polls := polls'\<rparr>) = (?ce, ?q)"
    using st w ne mod nat by (simp add: poll_event_def EAGAIN_def Let_def)
  from write_round[OF inv c polls this] have round: "event_round kqueue_io answers (evs, s) = ([?ce], s\<lparr>backend := ?q,
      connections := AList.update fd (c\<lparr>bytes_written := bytes_written c + w\<rparr>) (connections s)\<rparr>)"
    using w by (simp add: HandleWrite_def Let_def)
  have "sv_inv limit (s\<lparr>connections := AList.update fd (c\<lparr>bytes_written := bytes_written c + w\<rparr>) (connections s)\<rparr>)"
    using sv_inv_conn[OF inv c] by (intro sv_inv_update[OF inv c]) simp_all
  then have "\<exists>limit. sv_inv limit (s\<lparr>backend := ?q, connections := AList.update fd (c\<lparr>bytes_written := bytes_written c + w\<rparr>) (connections s)\<rparr>)"
    by (auto simp: sv_inv_def)
  then show ?thesis using st w unfolding round by (simp add: sending_def update_conv')
qed

text \<open>The last write: only a response that goes out in one write is seen to be complete.\<close>

lemma sending_last:
  assumes s: "sending fd off c s" and w: "off + w = write_len c" and polls: "kq_polls (backend s) = Inr [(writable fd udata, int w)] # polls'"
  shows "\<exists>s' evs' c'. event_round kqueue_io answers (evs, s) = (evs', s') \<and> sent_all fd s' \<and> map_of (connections s') fd = Some c' \<and>
    write_buf c' = write_buf c \<and> cn_state c' = (if off = 0 then kReading else kWriting) \<and>
    kq_polls (backend s') = polls' \<and> kq_sent (backend s') = kq_sent (backend s) @ [(fd, (cn_id c, int off), w)]"
proof -
  obtain limit where inv: "sv_inv limit s" using s by (auto simp: sending_def)
  note st = s[unfolded sending_def]
  have c: "map_of (connections s) fd = Some c" using st by simp
  note fd = sv_inv_conn[OF inv c]
  let ?q = "(backend s)\<lparr>kq_polls := polls', kq_sent := kq_sent (backend s) @ [(fd, (cn_id c, int off), w)],
     write_pending := (write_pending (backend s))(fd := None)\<rparr>"
  let ?ce = "\<lparr>ce_op = kWrite, ce_fd = fd, ce_user_data = udata, ce_result = int w, ce_eof = False\<rparr>"
  have "poll_event (writable fd udata, int w) ((backend s)\<lparr>kq_polls := polls'\<rparr>) = (?ce, ?q)"
    using st w by (auto simp: poll_event_def EAGAIN_def)
  note round = write_round[OF inv c polls this]
  let ?c = "(c\<lparr>bytes_written := bytes_written c + w\<rparr>)"
  show ?thesis
  proof (cases "off = 0")
    case True
    have "sv_inv limit (s\<lparr>connections := AList.update fd (?c\<lparr>cn_state := kReading\<rparr>) (connections s)\<rparr>)" using fd by (intro sv_inv_update[OF inv c]) simp_all
    then have "\<exists>limit. sv_inv limit (s\<lparr>connections := AList.update fd (?c\<lparr>cn_state := kReading\<rparr>) (connections s)\<rparr>)"
      "\<exists>limit. sv_inv limit (s\<lparr>backend := b, connections := AList.update fd (?c\<lparr>cn_state := kReading\<rparr>) (connections s)\<rparr>)" for b
      by (auto simp: sv_inv_def)
    then show ?thesis using st w True fd
      by (auto simp: round HandleWrite_def kq_SubmitRead_def change_filter_fine update_conv' sent_all_def)
  next
    case False
    have "sv_inv limit (s\<lparr>connections := AList.update fd ?c (connections s)\<rparr>)" using fd by (intro sv_inv_update[OF inv c]) simp_all
    then have "sv_inv limit (s\<lparr>backend := b, connections := AList.update fd ?c (connections s)\<rparr>)" for b by (simp add: sv_inv_def)
    then show ?thesis using st w False fd
      by (auto simp: round HandleWrite_def update_conv' sent_all_def Let_def)
  qed
qed

lemma sending_run:
  "sending fd off c s \<Longrightarrow> ws \<noteq> [] \<Longrightarrow> list_all ((<) 0) ws \<Longrightarrow> off + sum_list ws = write_len c \<Longrightarrow> length inputs = length ws \<Longrightarrow>
    kq_polls (backend s) = map (\<lambda>w. Inr [(writable fd udata, int w)]) ws @ polls' \<Longrightarrow>
    \<exists>s' evs' c'. event_loop kqueue_io inputs (evs, s) = (evs', s') \<and> sent_all fd s' \<and> map_of (connections s') fd = Some c' \<and>
      write_buf c' = write_buf c \<and> cn_state c' = (if off = 0 \<and> length ws = 1 then kReading else kWriting) \<and>
      kq_polls (backend s') = polls' \<and> kq_sent (backend s') = kq_sent (backend s) @ pieces fd (cn_id c) off ws"
proof (induction ws arbitrary: off c s inputs evs)
  case (Cons w ws)
  then obtain a rest where inputs: "inputs = a # rest" "length rest = length ws" by (cases inputs) auto
  have go: "running s" "\<not> shutdown_requested s" using Cons.prems(1) by (simp_all add: sending_def)
  show ?case
  proof (cases "ws = []")
    case True
    then show ?thesis using sending_last[OF Cons.prems(1), of w udata polls' a evs] Cons.prems inputs go by auto
  next
    case False
    then obtain v vs where "ws = v # vs" by (cases ws) auto
    then have "0 < sum_list ws" using Cons.prems(3) by simp
    then have "off + w < write_len c" "0 < w" using Cons.prems by simp_all
    from sending_part[OF Cons.prems(1) this(2,1), of udata "map (\<lambda>w. Inr [(writable fd udata, int w)]) ws @ polls'" a evs]
    obtain s1 evs1 where s1: "event_round kqueue_io a (evs, s) = (evs1, s1)" "sending fd (off + w) (c\<lparr>bytes_written := bytes_written c + w\<rparr>) s1"
      "kq_polls (backend s1) = map (\<lambda>w. Inr [(writable fd udata, int w)]) ws @ polls'"
      "kq_sent (backend s1) = kq_sent (backend s) @ [(fd, (cn_id c, int off), w)]"
      using Cons.prems(6) by auto
    then show ?thesis using Cons.IH[OF s1(2) False, of rest evs1] Cons.prems inputs go False \<open>0 < w\<close> by (auto simp: add.assoc)
  qed
qed simp

text \<open>The filter stays registered: the next report that the socket is writable finds nothing to write.\<close>

lemma sent_all_closes:
  assumes "sent_all fd s" "map_of (connections s) fd = Some c" "kq_polls (backend s) = Inr [(writable fd udata, r)] # polls'"
  shows "\<exists>evs' s'. event_round kqueue_io answers (evs, s) = (evs', s') \<and> map_of (connections s') fd = None \<and> fd \<notin> opened (sv_os s')"
proof -
  obtain limit where inv: "sv_inv limit s" using assms(1) by (auto simp: sent_all_def)
  let ?ce = "\<lparr>ce_op = kWrite, ce_fd = fd, ce_user_data = udata, ce_result = 0, ce_eof = False\<rparr>" and ?q = "(backend s)\<lparr>kq_polls := polls'\<rparr>"
  have "poll_event (writable fd udata, r) ?q = (?ce, ?q)" using assms(1) by (simp add: poll_event_def sent_all_def)
  from write_round[OF inv assms(2,3) this]
  have "event_round kqueue_io answers (evs, s) = ([?ce], HandleClose kqueue_io fd (s\<lparr>backend := ?q\<rparr>))"
    using sv_inv_conn[OF inv assms(2)] by (simp add: HandleWrite_def)
  moreover have "sv_inv limit (s\<lparr>backend := ?q\<rparr>)" using inv by simp
  ultimately show ?thesis using HandleClose_law[of limit "s\<lparr>backend := ?q\<rparr>" kqueue_io fd] sv_inv_conn[OF inv assms(2)] by simp
qed

lemma response_length: "0 < length kFixedResponse" "length kFixedResponse \<le> 4096"
  by (simp_all add: kFixedResponse_def)

lemma HandleRead_sends:
  assumes inv: "sv_inv limit s" and go: "running s" "\<not> shutdown_requested s" and c: "map_of (connections s) fd = Some c" "keep_alive c"
    and fine: "kq_results (backend s) = []" and n: "0 < n"
  shows "\<exists>s' c'. HandleRead kqueue_io fd c n s = (Ok, s') \<and> sending fd 0 c' s' \<and> write_len c' = length kFixedResponse \<and> cn_id c' = cn_id c \<and>
    take (write_len c') (write_buf c') = kFixedResponse \<and> kq_polls (backend s') = kq_polls (backend s) \<and> kq_sent (backend s') = kq_sent (backend s)"
proof -
  note fd = sv_inv_conn[OF inv c(1)]
  let ?c = "(SetResponse kFixedResponse (c\<lparr>bytes_read := bytes_read c + nat n\<rparr>))\<lparr>cn_state := kWriting\<rparr>"
  have len: "min (length kFixedResponse) 4096 = length kFixedResponse" using response_length by simp
  have "sv_inv limit (s\<lparr>connections := AList.update fd ?c (connections s)\<rparr>)" using fd by (intro sv_inv_update[OF inv c(1)]) simp_all
  then have "sv_inv limit (s\<lparr>connections := AList.update fd ?c (connections s), backend := b, total_requests := m\<rparr>)" for b m by (simp add: sv_inv_def)
  moreover have "take (length kFixedResponse) (write_buf ?c) = kFixedResponse" using fd len by (simp add: SetResponse_def Let_def)
  ultimately show ?thesis using fd c go fine n response_length len
    by (auto simp: HandleRead_def kq_SubmitWrite_def change_filter_fine st_ok_def sending_def update_conv' Let_def)
qed

section \<open>Properties\<close>

text \<open>
  C10: over any backend, the server closes only descriptors it has open and loses none: those open are the listening
  socket and exactly the connections in the map, each stored under its own descriptor, never closed and never more than the limit;
  after \<^verbatim>\<open>Shutdown\<close> none is open.
\<close>

theorem ws_descriptors:
  assumes "sv_reach io limit s"
  shows "bad_closes (sv_os s) = 0 \<and> opened (sv_os s) = dom (map_of (connections s)) \<union> (if 0 \<le> listen_fd s then {listen_fd s} else {}) \<and>
    (\<forall>fd c. map_of (connections s) fd = Some c \<longrightarrow> cn_fd c = fd \<and> cn_state c \<noteq> kClosed \<and> fd \<noteq> listen_fd s) \<and>
    card (dom (map_of (connections s))) \<le> limit \<and> opened (sv_os (Shutdown s)) = {} \<and> bad_closes (sv_os (Shutdown s)) = 0"
proof -
  have inv: "sv_inv limit s" using sv_reach_inv[OF assms] .
  have "card (dom (map_of (connections s))) \<le> length (connections s)" by (metis card_length dom_map_of_conv_image_fst length_map list.set_map)
  moreover have "opened (sv_os (Shutdown s)) = {} \<and> bad_closes (sv_os (Shutdown s)) = 0" using Shutdown_law[OF inv] unfolding sv_inv_def by blast
  moreover have "\<forall>fd c. map_of (connections s) fd = Some c \<longrightarrow> cn_fd c = fd \<and> cn_state c \<noteq> kClosed \<and> fd \<noteq> listen_fd s"
    using sv_inv_conn[OF inv] by blast
  ultimately show ?thesis using inv unfolding sv_inv_def dom_map_of_conv_image_fst by (metis le_trans)
qed

text \<open>A server that listens on descriptor 4 and has accepted descriptor 7; the answers of the waits to come are an argument.\<close>

definition setup_fine :: setup_results where
  "setup_fine = \<lparr>r_socket = 4, r_getfl = 2, r_setfl = 0, r_setsockopt = 0, r_inet_pton = 1, r_bind = 0, r_listen = 0\<rparr>"

definition one_client :: "(int + (kevent \<times> int) list) list \<Rightarrow> kqueue server" where
  "one_client polls = handle_event kqueue_io 7 \<lparr>ce_op = kRead, ce_fd = 4, ce_user_data = 0, ce_result = 0, ce_eof = False\<rparr>
     (snd (Start kqueue_io setup_fine (Server 10 (KqueueBackend [] polls (\<lambda>_. [])) (\<lambda>_. []))))"

lemmas one_client_defs = one_client_def setup_fine_def Start_def Server_def KqueueBackend_def kq_Init_def sys_result_def CreateNonBlockingSocket_def
  sys_open_def st_ok_def kq_SubmitAccept_def change_filter_def handle_event_def HandleAccept_def kq_SubmitRead_def Connection_def

lemma one_client_simps:
  "map_of (connections (one_client polls)) 7 = Some (Connection 7 1)" "running (one_client polls)" "\<not> shutdown_requested (one_client polls)"
  "kq_results (backend (one_client polls)) = []" "kq_polls (backend (one_client polls)) = polls" "opened (sv_os (one_client polls)) = {4, 7}"
  "total_requests (one_client polls) = 0"
  by (simp_all add: one_client_defs insert_commute)

lemma one_client_reach: "sv_reach kqueue_io 10 (one_client polls)"
proof -
  let ?s0 = "Server 10 (KqueueBackend [] polls (\<lambda>_. [])) (\<lambda>_. []) :: kqueue server"
  let ?s = "snd (Start kqueue_io setup_fine ?s0)"
  have "sv_reach kqueue_io 10 ?s" by (rule sv_reach.start[OF sv_reach.new prod.collapse[symmetric]])
  moreover have "7 \<notin> opened (sv_os ?s)" by (simp add: one_client_defs)
  ultimately show ?thesis unfolding one_client_def by (rule sv_reach.event)
qed

theorem ws_descriptors_witness:
  "bad_closes (sv_os (one_client [])) = 0 \<and> opened (sv_os (one_client [])) = {4, 7} \<and> opened (sv_os (Shutdown (one_client []))) = {}"
  using ws_descriptors[OF one_client_reach, of "[]"] one_client_simps(6)[of "[]"] by simp

text \<open>
  C11: over the kqueue backend the server never accepts a connection: whatever the kernel answers and however long the
  event loop runs, \<^verbatim>\<open>accept\<close> is not called, because \<^verbatim>\<open>Poll\<close> reports the listening socket as \<open>kAccept\<close> and the loop waits for \<open>kRead\<close>.
\<close>

theorem ws_never_accepts:
  assumes "Start kqueue_io x (Server limit (KqueueBackend results polls errors) errors') = (None, s)"
    and "event_loop kqueue_io inputs ([], s) = (evs, s')"
  shows "accept_calls (sv_os s') = 0 \<and> connections s' = [] \<and> total_requests s' = 0"
proof -
  have "idle 0 ([], s)" using Start_idle[OF assms(1)] by (simp add: idle_def Server_def KqueueBackend_def)
  from event_loop_idle[OF this, of inputs] assms(2) show ?thesis by (simp add: idle_def)
qed

text \<open>Two reports that a client waits at the listening socket.\<close>

theorem ws_never_accepts_witness:
  "\<exists>evs s'. event_loop kqueue_io [[7], [7]] ([], snd (Start kqueue_io setup_fine (Server 10 (KqueueBackend []
     [Inr [(\<lparr>ke_ident = 4, ke_filter = EVFILT_READ, ke_eof = False, ke_udata = 0\<rparr>, 0)],
      Inr [(\<lparr>ke_ident = 4, ke_filter = EVFILT_READ, ke_eof = False, ke_udata = 0\<rparr>, 0)]] (\<lambda>_. [])) (\<lambda>_. [])))) = (evs, s') \<and>
     evs \<noteq> [] \<and> accept_calls (sv_os s') = 0 \<and> connections s' = []"
  (is "\<exists>evs s'. event_loop _ _ ([], snd ?start) = _ \<and> _")
proof -
  have "fst ?start = None" by (simp add: one_client_defs)
  then have start: "?start = (None, snd ?start)" by (metis prod.collapse)
  obtain evs s' where loop: "event_loop kqueue_io [[7], [7]] ([], snd ?start) = (evs, s')" by fastforce
  have "fst (event_loop kqueue_io [[7], [7]] ([], snd ?start)) \<noteq> []"
    by (simp add: one_client_defs event_round_def kq_Poll_def poll_event_def CleanupClosed_def)
  then show ?thesis using ws_never_accepts[OF start loop] loop by auto
qed

text \<open>
  C12: when a request has been read, the response reaches the client completely and in order however the kernel
  splits the writes, but only one that goes out in a single write is seen to be complete, and the write filter stays registered: the
  next report that the socket is writable closes the connection, although it is to be kept alive.
\<close>

theorem ws_sends_then_closes:
  assumes reach: "sv_reach kqueue_io limit s" and go: "running s" "\<not> shutdown_requested s"
    and c: "map_of (connections s) fd = Some c" "keep_alive c" and fine: "kq_results (backend s) = []" and n: "0 < n"
    and polls: "kq_polls (backend s) = map (\<lambda>w. Inr [(writable fd udata, int w)]) ws @ [Inr [(writable fd udata, r)]]"
    and ws: "list_all ((<) 0) ws" "sum_list ws = length kFixedResponse" "length inputs = length ws"
    and run: "HandleRead kqueue_io fd c n s = (st, s1)" "event_loop kqueue_io inputs (evs, s1) = (evs2, s2)" "event_round kqueue_io answers (evs2, s2) = (evs3, s3)"
  shows "(\<exists>c'. map_of (connections s2) fd = Some c' \<and> cn_state c' = (if length ws = 1 then kReading else kWriting) \<and>
      (\<exists>ps. kq_sent (backend s2) = kq_sent (backend s) @ ps \<and> (\<forall>p \<in> set ps. fst p = fd) \<and> bytes_of (write_buf c') ps = kFixedResponse)) \<and>
    (fd, EVFILT_WRITE) \<in> kq_filters (backend s2) \<and> map_of (connections s3) fd = None \<and> fd \<notin> opened (sv_os s3)"
proof -
  from HandleRead_sends[OF sv_reach_inv[OF reach] go c fine n] obtain c1 where c1: "sending fd 0 c1 s1" "write_len c1 = length kFixedResponse"
    "take (write_len c1) (write_buf c1) = kFixedResponse" "kq_polls (backend s1) = kq_polls (backend s)" "kq_sent (backend s1) = kq_sent (backend s)"
    using run(1) by auto
  have "ws \<noteq> []" using ws(2) response_length(1) by auto
  from sending_run[OF c1(1) this ws(1) _ ws(3), of udata "[Inr [(writable fd udata, r)]]" evs] obtain c2 where c2: "sent_all fd s2"
    "map_of (connections s2) fd = Some c2" "write_buf c2 = write_buf c1" "cn_state c2 = (if length ws = 1 then kReading else kWriting)"
    "kq_polls (backend s2) = [Inr [(writable fd udata, r)]]" "kq_sent (backend s2) = kq_sent (backend s1) @ pieces fd (cn_id c1) 0 ws"
    using c1(2,4) ws(2) polls run(2) by auto
  have "bytes_of (write_buf c2) (pieces fd (cn_id c1) 0 ws) = kFixedResponse" using c1(2,3) c2(3) ws(2) by (simp add: pieces_bytes)
  moreover have "\<forall>p \<in> set (pieces fd ident off ws). fst p = fd" for ident off by (induction ws arbitrary: off) simp_all
  ultimately show ?thesis using sent_all_closes[OF c2(1,2,5), of answers evs2] run(3) c2 c1(5) by (auto simp: sent_all_def)
qed

text \<open>The response goes out as 40 bytes and then the rest.\<close>

theorem ws_sends_then_closes_witness:
  "\<exists>st s1 evs2 s2 evs3 s3. HandleRead kqueue_io 7 (Connection 7 1) 20 (one_client [Inr [(writable 7 1, 40)], Inr [(writable 7 1, 62)], Inr [(writable 7 1, 0)]]) = (st, s1) \<and>
     event_loop kqueue_io [[], []] ([], s1) = (evs2, s2) \<and> event_round kqueue_io [] (evs2, s2) = (evs3, s3) \<and>
     map_of (connections s2) 7 \<noteq> None \<and> map_of (connections s3) 7 = None"
proof -
  let ?s = "one_client [Inr [(writable 7 1, 40)], Inr [(writable 7 1, 62)], Inr [(writable 7 1, 0)]]"
  obtain st s1 where s1: "HandleRead kqueue_io 7 (Connection 7 1) 20 ?s = (st, s1)" by fastforce
  obtain evs2 s2 where s2: "event_loop kqueue_io [[], []] ([], s1) = (evs2, s2)" by fastforce
  obtain evs3 s3 where s3: "event_round kqueue_io [] (evs2, s2) = (evs3, s3)" by fastforce
  have "map_of (connections s2) 7 \<noteq> None \<and> map_of (connections s3) 7 = None"
    using ws_sends_then_closes[OF one_client_reach one_client_simps(2,3,1) _ one_client_simps(4) _ _ _ _ _ s1 s2 s3, of 1 "[40, 62]" 0] one_client_simps(5)
    by (auto simp: Connection_def kFixedResponse_def)
  then show ?thesis using s1 s2 s3 by blast
qed

section \<open>Further behaviour\<close>

text \<open>An interrupted wait leaves the events of the round before in the vector, and they are handled once more.\<close>

lemma eintr_replays:
  "kq_polls (backend s) = Inl EINTR # polls' \<Longrightarrow>
    event_round kqueue_io answers (evs, s) = (evs, CleanupClosed (process_events kqueue_io answers evs (s\<lparr>backend := (backend s)\<lparr>kq_polls := polls'\<rparr>\<rparr>)))"
  by (simp add: event_round_def kq_Poll_def IsAgain_def Let_def)

text \<open>A read or write that would block is reported as the end of the connection.\<close>

lemma would_block_closes:
  "map_of (connections s) fd = Some c \<Longrightarrow> read_pending q fd = Some (buf, cap, d) \<Longrightarrow> fd \<noteq> listen_fd s \<Longrightarrow>
    handle_event io a (fst (poll_event (\<lparr>ke_ident = fd, ke_filter = EVFILT_READ, ke_eof = False, ke_udata = d'\<rparr>, - EAGAIN) q)) s = HandleClose io (cn_fd c) s"
  by (simp add: poll_event_def handle_event_def HandleRead_def EAGAIN_def)

text \<open>A write that fails moves the pending pointer before the buffer and makes it longer.\<close>

lemma failed_write_moves_back:
  "write_pending q fd = Some ((conn, 0), len, d) \<Longrightarrow> len + 1 < 2 ^ 64 \<Longrightarrow>
    write_pending (snd (poll_event (writable fd d', - EAGAIN) q)) fd = Some ((conn, -1), len + 1, d)"
  by (auto simp: poll_event_def EAGAIN_def Let_def)

text \<open>A connection whose read filter cannot be registered stays in the map, with nothing pending.\<close>

lemma accept_unregistered:
  "0 \<le> fd \<Longrightarrow> fd \<notin> fst ` set (connections s) \<Longrightarrow> length (connections s) < max_connections s \<Longrightarrow> kq_results (backend s) = [- 12] \<Longrightarrow>
    map_of (connections (snd (HandleAccept kqueue_io fd s))) fd \<noteq> None \<and>
    read_pending (backend (snd (HandleAccept kqueue_io fd s))) = read_pending (backend s)"
  by (simp add: HandleAccept_def kq_SubmitRead_def change_filter_def sys_result_def update_conv' Let_def split: prod.splits)

end
