(* ===== verification/Rcu.thy ===== *)
theory Rcu
  imports Xlab_Prelude
begin

text \<open>
  \<^verbatim>\<open>RCUContainer\<close> and \<^verbatim>\<open>TinyRCU\<close> of \<^verbatim>\<open>src/cc/algo/src/algo/algo_lock_free.cc\<close>.  Readers, updaters and the clean-up thread interleave, one
  shared access or critical section per step; nodes live on an explicit heap, and \<^const>\<open>None\<close> is an access to a node that was deleted.
\<close>

section \<open>The code\<close>

text \<open>The pointer \<^verbatim>\<open>next\<close> of a node is never used.\<close>

record 'a rcu_node =
  rn_data :: "'a option"
  rn_readers :: int

record 'a rcu =
  rcu_heap :: "nat \<rightharpoonup> 'a rcu_node"
  rcu_fresh :: nat
  rcu_current :: nat
  rcu_garbage :: "nat list"
  cleanup_queue :: "nat list"
  should_stop :: bool

definition RCUContainer :: "'a rcu" where
  "RCUContainer = \<lparr>rcu_heap = [0 \<mapsto> \<lparr>rn_data = None, rn_readers = 0\<rparr>], rcu_fresh = 1, rcu_current = 0, rcu_garbage = [], cleanup_queue = [],
     should_stop = False\<rparr>"

definition add_readers :: "int \<Rightarrow> nat \<Rightarrow> 'a rcu \<Rightarrow> 'a rcu option" where
  "add_readers k n r = (case rcu_heap r n of None \<Rightarrow> None
     | Some nd \<Rightarrow> Some (r\<lparr>rcu_heap := (rcu_heap r)(n \<mapsto> nd\<lparr>rn_readers := rn_readers nd + k\<rparr>)\<rparr>))"

definition rcu_delete :: "nat \<Rightarrow> 'a rcu \<Rightarrow> 'a rcu option" where
  "rcu_delete n r = (case rcu_heap r n of None \<Rightarrow> None | Some nd \<Rightarrow> Some (r\<lparr>rcu_heap := (rcu_heap r)(n := None)\<rparr>))"

text \<open>\<^verbatim>\<open>read\<close>: load the current node, register with it, copy its data, leave.  \<^verbatim>\<open>fast_read\<close> begins with the second step.\<close>

datatype 'a reader = RdLoad | RdInc nat | RdData nat | RdDec nat "'a option" | RdDone "'a option"

fun rcu_read :: "'a reader \<Rightarrow> 'a rcu \<Rightarrow> ('a reader \<times> 'a rcu) option" where
  "rcu_read RdLoad r = Some (RdInc (rcu_current r), r)"
| "rcu_read (RdInc n) r = do { r \<leftarrow> add_readers 1 n r; Some (RdData n, r) }"
| "rcu_read (RdData n) r = (case rcu_heap r n of None \<Rightarrow> None | Some nd \<Rightarrow> Some (RdDec n (rn_data nd), r))"
| "rcu_read (RdDec n d) r = do { r \<leftarrow> add_readers (-1) n r; Some (RdDone d, r) }"
| "rcu_read (RdDone d) r = Some (RdDone d, r)"

definition fast_read :: "nat \<Rightarrow> 'a reader" where
  "fast_read node = RdInc node"

text \<open>\<^verbatim>\<open>update\<close>: make a node, exchange it with the current one, hand the old one to the clean-up thread.\<close>

datatype 'a updater = UpNew "'a option" | UpExchange nat | UpQueue nat | UpDone

fun rcu_update :: "'a updater \<Rightarrow> 'a rcu \<Rightarrow> 'a updater \<times> 'a rcu" where
  "rcu_update (UpNew d) r = (UpExchange (rcu_fresh r),
     r\<lparr>rcu_heap := (rcu_heap r)(rcu_fresh r \<mapsto> \<lparr>rn_data = d, rn_readers = 0\<rparr>), rcu_fresh := rcu_fresh r + 1\<rparr>)"
| "rcu_update (UpExchange new) r = (UpQueue (rcu_current r), r\<lparr>rcu_current := new\<rparr>)"
| "rcu_update (UpQueue old) r = (UpDone, r\<lparr>rcu_garbage := rcu_garbage r @ [old], cleanup_queue := cleanup_queue r @ [old]\<rparr>)"
| "rcu_update UpDone r = (UpDone, r)"

text \<open>
  The clean-up thread takes a node (or sees the stop flag), copies the garbage list, waits until no node of the copy has readers, takes
  the node off the garbage list, and deletes it.
\<close>

datatype cleaner = ClWait | ClSnapshot nat | ClCheck nat "nat list" | ClRemove nat | ClDelete nat | ClExit

fun rcu_cleanup :: "cleaner \<Rightarrow> 'a rcu \<Rightarrow> (cleaner \<times> 'a rcu) option" where
  "rcu_cleanup ClWait r = (if should_stop r then Some (ClExit, r)
     else case cleanup_queue r of [] \<Rightarrow> Some (ClWait, r) | n # ns \<Rightarrow> Some (ClSnapshot n, r\<lparr>cleanup_queue := ns\<rparr>))"
| "rcu_cleanup (ClSnapshot n) r = Some (ClCheck n (rcu_garbage r), r)"
| "rcu_cleanup (ClCheck n []) r = Some (ClRemove n, r)"
| "rcu_cleanup (ClCheck n (m # ms)) r = (case rcu_heap r m of None \<Rightarrow> None
     | Some nd \<Rightarrow> Some (if rn_readers nd > 0 then ClCheck n (m # ms) else ClCheck n ms, r))"
| "rcu_cleanup (ClRemove n) r = Some (ClDelete n, r\<lparr>rcu_garbage := remove1 n (rcu_garbage r)\<rparr>)"
| "rcu_cleanup (ClDelete n) r = do { r \<leftarrow> rcu_delete n r; Some (ClWait, r) }"
| "rcu_cleanup ClExit r = Some (ClExit, r)"

text \<open>\<^verbatim>\<open>synchronize_rcu\<close> called alone: whether its loop passes.\<close>

fun synchronize_rcu :: "nat list \<Rightarrow> 'a rcu \<Rightarrow> bool option" where
  "synchronize_rcu [] r = Some True"
| "synchronize_rcu (n # ns) r = (case rcu_heap r n of None \<Rightarrow> None
     | Some nd \<Rightarrow> if rn_readers nd > 0 then Some False else synchronize_rcu ns r)"

text \<open>The destructor after the clean-up thread was joined; it does not return while the loop does not pass.\<close>

definition RCUContainer_destroy :: "'a rcu \<Rightarrow> (bool \<times> 'a rcu) option" where
  "RCUContainer_destroy r = do {
     passed \<leftarrow> synchronize_rcu (rcu_garbage r) r;
     (if \<not> passed then Some (False, r) else do {
       r' \<leftarrow> rcu_delete (rcu_current r) r;
       r' \<leftarrow> for_each rcu_delete (rcu_garbage r) r';
       Some (True, r')})}"

record 'a rcu_sys =
  the_rcu :: "'a rcu"
  readers :: "'a reader list"
  updaters :: "'a updater list"
  the_cleaner :: cleaner

text \<open>With \<open>paired\<close>, no step of another thread comes between the load of a reader and its registration.\<close>

inductive rcu_reach :: "bool \<Rightarrow> 'a rcu_sys \<Rightarrow> bool" for paired where
  new: "rcu_reach paired \<lparr>the_rcu = RCUContainer, readers = [], updaters = [], the_cleaner = ClWait\<rparr>"
| add_reader: "rcu_reach paired s \<Longrightarrow> rcu_reach paired (s\<lparr>readers := readers s @ [RdLoad]\<rparr>)"
| add_updater: "rcu_reach paired s \<Longrightarrow> rcu_reach paired (s\<lparr>updaters := updaters s @ [UpNew d]\<rparr>)"
| load: "rcu_reach paired s \<Longrightarrow> \<not> paired \<Longrightarrow> i < length (readers s) \<Longrightarrow> readers s ! i = RdLoad \<Longrightarrow>
    rcu_reach paired (s\<lparr>readers := (readers s)[i := RdInc (rcu_current (the_rcu s))]\<rparr>)"
| load_inc: "rcu_reach paired s \<Longrightarrow> paired \<Longrightarrow> i < length (readers s) \<Longrightarrow> readers s ! i = RdLoad \<Longrightarrow>
    rcu_read (RdInc (rcu_current (the_rcu s))) (the_rcu s) = Some (p, r) \<Longrightarrow> rcu_reach paired (s\<lparr>the_rcu := r, readers := (readers s)[i := p]\<rparr>)"
| read: "rcu_reach paired s \<Longrightarrow> i < length (readers s) \<Longrightarrow> readers s ! i \<noteq> RdLoad \<Longrightarrow> rcu_read (readers s ! i) (the_rcu s) = Some (p, r) \<Longrightarrow>
    rcu_reach paired (s\<lparr>the_rcu := r, readers := (readers s)[i := p]\<rparr>)"
| update: "rcu_reach paired s \<Longrightarrow> i < length (updaters s) \<Longrightarrow> rcu_update (updaters s ! i) (the_rcu s) = (p, r) \<Longrightarrow>
    rcu_reach paired (s\<lparr>the_rcu := r, updaters := (updaters s)[i := p]\<rparr>)"
| cleanup: "rcu_reach paired s \<Longrightarrow> rcu_cleanup (the_cleaner s) (the_rcu s) = Some (p, r) \<Longrightarrow>
    rcu_reach paired (s\<lparr>the_rcu := r, the_cleaner := p\<rparr>)"
| stop: "rcu_reach paired s \<Longrightarrow> rcu_reach paired (s\<lparr>the_rcu := (the_rcu s)\<lparr>should_stop := True\<rparr>\<rparr>)"

subsection \<open>TinyRCU\<close>

record 'f tiny_rcu =
  tr_readers :: int
  retired :: "'f list"

definition TinyRCU :: "'f tiny_rcu" where "TinyRCU = \<lparr>tr_readers = 0, retired = []\<rparr>"

definition read_lock :: "'f tiny_rcu \<Rightarrow> 'f tiny_rcu" where "read_lock t = t\<lparr>tr_readers := tr_readers t + 1\<rparr>"

definition read_unlock :: "'f tiny_rcu \<Rightarrow> 'f tiny_rcu" where "read_unlock t = t\<lparr>tr_readers := tr_readers t - 1\<rparr>"

definition tiny_synchronize :: "'f tiny_rcu \<Rightarrow> bool" where "tiny_synchronize t \<longleftrightarrow> tr_readers t = 0"

definition retire :: "'f \<Rightarrow> 'f tiny_rcu \<Rightarrow> 'f tiny_rcu" where "retire fn t = t\<lparr>retired := retired t @ [fn]\<rparr>"

text \<open>The functions that \<^verbatim>\<open>flush\<close> calls, in order; \<^const>\<open>None\<close> while it waits.\<close>

definition flush :: "'f tiny_rcu \<Rightarrow> ('f list \<times> 'f tiny_rcu) option" where
  "flush t = (if tiny_synchronize t then Some (retired t, t\<lparr>retired := []\<rparr>) else None)"

section \<open>Who owns the nodes\<close>

fun up_own :: "'a updater \<Rightarrow> nat multiset" where
  "up_own (UpExchange n) = {#n#}"
| "up_own (UpQueue n) = {#n#}"
| "up_own _ = {#}"

fun cl_own :: "cleaner \<Rightarrow> nat multiset" where
  "cl_own (ClDelete n) = {#n#}"
| "cl_own _ = {#}"

fun cl_target :: "cleaner \<Rightarrow> nat multiset" where
  "cl_target (ClSnapshot n) = {#n#}"
| "cl_target (ClCheck n ms) = {#n#}"
| "cl_target (ClRemove n) = {#n#}"
| "cl_target _ = {#}"

fun reading :: "nat \<Rightarrow> 'a reader \<Rightarrow> bool" where
  "reading n (RdData m) = (n = m)"
| "reading n (RdDec m d) = (n = m)"
| "reading n _ = False"

fun knows :: "nat \<Rightarrow> 'a reader \<Rightarrow> bool" where
  "knows n (RdInc m) = (n = m)"
| "knows n (RdData m) = (n = m)"
| "knows n (RdDec m d) = (n = m)"
| "knows n _ = False"

lemma reading_knows: "reading n p \<Longrightarrow> knows n p"
  by (cases p) simp_all

definition rcu_own :: "'a rcu_sys \<Rightarrow> nat multiset" where
  "rcu_own s = {#rcu_current (the_rcu s)#} + mset (rcu_garbage (the_rcu s)) + sum_list (map up_own (updaters s)) + cl_own (the_cleaner s)"

definition rcu_inv :: "'a rcu_sys \<Rightarrow> bool" where
  "rcu_inv s \<longleftrightarrow> (let r = the_rcu s in finite (dom (rcu_heap r)) \<and> rcu_own s = mset_set (dom (rcu_heap r)) \<and> dom (rcu_heap r) \<subseteq> {..<rcu_fresh r} \<and>
     mset (cleanup_queue r) + cl_target (the_cleaner s) \<subseteq># mset (rcu_garbage r) \<and>
     (\<forall>n ms. the_cleaner s = ClCheck n ms \<longrightarrow> set ms \<subseteq> set (rcu_garbage r)) \<and>
     (\<forall>p \<in> set (readers s). \<forall>n. knows n p \<longrightarrow> n < rcu_fresh r) \<and>
     (\<forall>n nd. rcu_heap r n = Some nd \<longrightarrow> rn_readers nd = int (length (filter (reading n) (readers s)))))"

lemma rcu_own_dom: "rcu_inv s \<Longrightarrow> n \<in># rcu_own s \<Longrightarrow> rcu_heap (the_rcu s) n \<noteq> None"
  by (auto simp: rcu_inv_def Let_def)

lemma garbage_dom: "rcu_inv s \<Longrightarrow> n \<in> set (rcu_garbage (the_rcu s)) \<Longrightarrow> rcu_heap (the_rcu s) n \<noteq> None"
  by (rule rcu_own_dom) (simp_all add: rcu_own_def)

lemma filter_update:
  "i < length xs \<Longrightarrow> int (length (filter P (xs[i := y]))) = int (length (filter P xs)) + (if P y then 1 else 0) - (if P (xs ! i) then 1 else 0)"
proof (induction xs arbitrary: i)
  case (Cons x xs)
  then show ?case
  proof (cases i)
    case (Suc j)
    then show ?thesis using Cons.IH[of j] Cons.prems by auto
  qed simp
qed simp

text \<open>A step of a reader.\<close>

lemma add_readers_law:
  "add_readers k n r = Some r' \<Longrightarrow> \<exists>nd. rcu_heap r n = Some nd \<and> r' = r\<lparr>rcu_heap := (rcu_heap r)(n \<mapsto> nd\<lparr>rn_readers := rn_readers nd + k\<rparr>)\<rparr>"
  by (auto simp: add_readers_def split: option.splits)

lemma reader_step_inv:
  assumes inv: "rcu_inv s" and i: "i < length (readers s)" and p: "\<And>n. knows n p \<Longrightarrow> n < rcu_fresh (the_rcu s)"
    and r: "r = the_rcu s \<and> (\<forall>n. reading n p = reading n (readers s ! i)) \<or>
      (\<exists>n k. add_readers k n (the_rcu s) = Some r \<and> (\<forall>m. (if reading m p then 1 else 0) - (if reading m (readers s ! i) then 1 else 0) = (if m = n then k else 0)))"
  shows "rcu_inv (s\<lparr>the_rcu := r, readers := (readers s)[i := p]\<rparr>)"
proof -
  have known: "\<forall>q \<in> set ((readers s)[i := p]). \<forall>n. knows n q \<longrightarrow> n < rcu_fresh (the_rcu s)"
    using inv p set_update_subset_insert[of "readers s" i p] by (auto simp: rcu_inv_def Let_def)
  show ?thesis
    using r
  proof
    assume "r = the_rcu s \<and> (\<forall>n. reading n p = reading n (readers s ! i))"
    then show ?thesis using inv known filter_update[OF i, of "reading n" p for n] by (simp add: rcu_inv_def rcu_own_def Let_def)
  next
    assume "\<exists>n k. add_readers k n (the_rcu s) = Some r \<and> (\<forall>m. (if reading m p then 1 else 0) - (if reading m (readers s ! i) then 1 else 0) = (if m = n then k else 0))"
    then obtain n k nd where k: "\<And>m. (if reading m p then 1 else 0) - (if reading m (readers s ! i) then 1 else 0) = (if m = n then k else 0)"
      and nd: "rcu_heap (the_rcu s) n = Some nd" "r = (the_rcu s)\<lparr>rcu_heap := (rcu_heap (the_rcu s))(n \<mapsto> nd\<lparr>rn_readers := rn_readers nd + k\<rparr>)\<rparr>"
      using add_readers_law by metis
    have "int (length (filter (reading m) ((readers s)[i := p]))) = int (length (filter (reading m) (readers s))) + (if m = n then k else 0)" for m
      using filter_update[OF i, of "reading m" p] k[of m] by linarith
    moreover have "dom (rcu_heap r) = dom (rcu_heap (the_rcu s))" using nd by auto
    ultimately show ?thesis using inv known nd unfolding rcu_inv_def Let_def by (simp add: rcu_own_def)
  qed
qed

lemma own_swap: "a + x = b + y \<Longrightarrow> a + g + x + c = b + g + y + (c :: nat multiset)"
proof -
  assume "a + x = b + y"
  then have "(a + x) + (g + c) = (b + y) + (g + c)" by simp
  then show ?thesis by (simp only: ac_simps)
qed

text \<open>A step that leaves the readers and their counts alone.\<close>

lemma rcu_inv_same_counts:
  assumes "rcu_inv s" "rcu_heap r = rcu_heap (the_rcu s)" "rcu_fresh r = rcu_fresh (the_rcu s)"
    "rcu_own (s\<lparr>the_rcu := r, updaters := us, the_cleaner := c\<rparr>) = rcu_own s"
    "mset (cleanup_queue r) + cl_target c \<subseteq># mset (rcu_garbage r)" "\<And>n ms. c = ClCheck n ms \<Longrightarrow> set ms \<subseteq> set (rcu_garbage r)"
  shows "rcu_inv (s\<lparr>the_rcu := r, updaters := us, the_cleaner := c\<rparr>)"
  using assms by (simp add: rcu_inv_def Let_def)

lemma update_inv:
  assumes inv: "rcu_inv s" and i: "i < length (updaters s)" and up: "rcu_update (updaters s ! i) (the_rcu s) = (p, r)"
  shows "rcu_inv (s\<lparr>the_rcu := r, updaters := (updaters s)[i := p]\<rparr>)"
proof -
  note sum = sum_list_update_mset[OF i, of up_own p]
  have eq: "s\<lparr>the_rcu := r, updaters := us\<rparr> = s\<lparr>the_rcu := r, updaters := us, the_cleaner := the_cleaner s\<rparr>" for us by simp
  show ?thesis
  proof (cases "updaters s ! i")
    case (UpNew d)
    let ?h = "rcu_heap (the_rcu s)" and ?n = "rcu_fresh (the_rcu s)"
    have r: "p = UpExchange ?n" "r = (the_rcu s)\<lparr>rcu_heap := ?h(?n \<mapsto> \<lparr>rn_data = d, rn_readers = 0\<rparr>), rcu_fresh := ?n + 1\<rparr>"
      using up UpNew by auto
    have none: "?n \<notin> dom ?h" and fin: "finite (dom ?h)" using inv by (auto simp: rcu_inv_def Let_def)
    have "\<not> reading ?n q" if "q \<in> set (readers s)" for q using inv that reading_knows[of ?n q] by (fastforce simp: rcu_inv_def Let_def)
    then have reading: "filter (reading ?n) (readers s) = []" by (simp add: filter_empty_conv)
    have "rcu_own (s\<lparr>the_rcu := r, updaters := (updaters s)[i := p]\<rparr>) = add_mset ?n (rcu_own s)"
      using sum r UpNew by (simp add: rcu_own_def ac_simps)
    moreover have "dom (rcu_heap r) = insert ?n (dom ?h)" using r by auto
    ultimately show ?thesis using inv r none fin reading by (auto simp: rcu_inv_def Let_def less_Suc_eq)
  next
    case (UpExchange n)
    have "{#n#} + sum_list (map up_own ((updaters s)[i := p])) = {#rcu_current (the_rcu s)#} + sum_list (map up_own (updaters s))"
      using up sum UpExchange by (auto simp: ac_simps)
    from own_swap[OF this] have "rcu_own (s\<lparr>the_rcu := r, updaters := (updaters s)[i := p], the_cleaner := the_cleaner s\<rparr>) = rcu_own s"
      using up UpExchange by (auto simp: rcu_own_def)
    then show ?thesis using inv up UpExchange by (subst eq, intro rcu_inv_same_counts) (auto simp: rcu_inv_def Let_def)
  next
    case (UpQueue n)
    have "{#n#} + sum_list (map up_own ((updaters s)[i := p])) = {#} + sum_list (map up_own (updaters s))"
      using up sum UpQueue by (auto simp: ac_simps)
    from own_swap[OF this, of "{#rcu_current (the_rcu s)#} + mset (rcu_garbage (the_rcu s))" "cl_own (the_cleaner s)"]
    have "rcu_own (s\<lparr>the_rcu := r, updaters := (updaters s)[i := p], the_cleaner := the_cleaner s\<rparr>) = rcu_own s"
      using up UpQueue by (auto simp: rcu_own_def ac_simps)
    then show ?thesis using inv up UpQueue by (subst eq, intro rcu_inv_same_counts) (auto simp: rcu_inv_def Let_def)
  next
    case UpDone
    then show ?thesis using inv up sum by (subst eq, intro rcu_inv_same_counts) (auto simp: rcu_own_def rcu_inv_def Let_def ac_simps)
  qed
qed

lemma cleanup_inv:
  assumes inv: "rcu_inv s" and cl: "rcu_cleanup (the_cleaner s) (the_rcu s) = Some (p, r)"
  shows "rcu_inv (s\<lparr>the_rcu := r, the_cleaner := p\<rparr>)"
proof -
  have eq: "s\<lparr>the_rcu := r, the_cleaner := p\<rparr> = s\<lparr>the_rcu := r, updaters := updaters s, the_cleaner := p\<rparr>" by simp
  have sub: "mset (cleanup_queue (the_rcu s)) + cl_target (the_cleaner s) \<subseteq># mset (rcu_garbage (the_rcu s))"
    and snap: "\<And>n ms. the_cleaner s = ClCheck n ms \<Longrightarrow> set ms \<subseteq> set (rcu_garbage (the_rcu s))" using inv by (auto simp: rcu_inv_def Let_def)
  show ?thesis
  proof (cases "the_cleaner s")
    case ClWait
    then show ?thesis using inv cl sub
      by (subst eq, intro rcu_inv_same_counts) (auto simp: rcu_own_def split: if_splits list.splits)
  next
    case (ClSnapshot n)
    then show ?thesis using inv cl sub by (subst eq, intro rcu_inv_same_counts) (auto simp: rcu_own_def)
  next
    case (ClCheck n ms)
    have "r = the_rcu s \<and> (p = ClRemove n \<or> (\<exists>ms'. p = ClCheck n ms' \<and> set ms' \<subseteq> set ms))"
      using cl unfolding ClCheck by (cases ms) (auto split: option.splits if_splits)
    then show ?thesis using inv ClCheck sub snap[OF ClCheck] by (subst eq, intro rcu_inv_same_counts) (auto simp: rcu_own_def)
  next
    case (ClRemove n)
    have n: "n \<in># mset (rcu_garbage (the_rcu s))" using subset_mset.order_trans[OF mset_subset_eq_add_right sub] ClRemove by simp
    then have "mset (cleanup_queue (the_rcu s)) \<subseteq># mset (rcu_garbage (the_rcu s)) - {#n#}" using sub ClRemove
      by (simp add: insert_subset_eq_iff)
    moreover have "add_mset n (mset (rcu_garbage (the_rcu s)) - {#n#}) = mset (rcu_garbage (the_rcu s))" using n by simp
    ultimately show ?thesis using inv cl ClRemove
      by (subst eq, intro rcu_inv_same_counts) (auto simp: rcu_own_def ac_simps)
  next
    case (ClDelete n)
    then have r: "p = ClWait" "r = (the_rcu s)\<lparr>rcu_heap := (rcu_heap (the_rcu s))(n := None)\<rparr>"
      using cl by (auto simp: rcu_delete_def bind_eq_Some_conv split: option.splits)
    have own: "rcu_own s = add_mset n (rcu_own (s\<lparr>the_rcu := r, the_cleaner := p\<rparr>))" using r ClDelete by (simp add: rcu_own_def ac_simps)
    have fin: "finite (dom (rcu_heap (the_rcu s)))" "rcu_own s = mset_set (dom (rcu_heap (the_rcu s)))" using inv by (simp_all add: rcu_inv_def Let_def)
    have n: "n \<in> dom (rcu_heap (the_rcu s))" using rcu_own_dom[OF inv, of n] own by auto
    have "dom (rcu_heap r) = dom (rcu_heap (the_rcu s)) - {n}" using r by auto
    moreover have "rcu_own (s\<lparr>the_rcu := r, the_cleaner := p\<rparr>) = mset_set (dom (rcu_heap (the_rcu s)) - {n})"
      using own fin(2) mset_set.remove[OF fin(1) n] by simp
    ultimately show ?thesis using inv r ClDelete sub by (auto simp: rcu_inv_def Let_def)
  next
    case ClExit
    then show ?thesis using inv cl sub by (subst eq, intro rcu_inv_same_counts) (auto simp: rcu_own_def)
  qed
qed

text \<open>The clean-up thread never touches a node that is gone.\<close>

lemma cleanup_defined: "rcu_inv s \<Longrightarrow> rcu_cleanup (the_cleaner s) (the_rcu s) \<noteq> None"
proof (cases "the_cleaner s")
  case (ClCheck n ms)
  assume inv: "rcu_inv s"
  have "set ms \<subseteq> set (rcu_garbage (the_rcu s))" using inv ClCheck by (auto simp: rcu_inv_def Let_def)
  then show ?thesis using garbage_dom[OF inv] ClCheck by (cases ms) (auto split: option.splits)
next
  case (ClDelete n)
  assume "rcu_inv s"
  then show ?thesis using rcu_own_dom[of s n] ClDelete by (auto simp: rcu_own_def rcu_delete_def)
qed (auto split: list.splits)

lemma rcu_reach_inv: "rcu_reach paired s \<Longrightarrow> rcu_inv s"
proof (induction rule: rcu_reach.induct)
  case new
  show ?case by (auto simp: rcu_inv_def rcu_own_def RCUContainer_def Let_def)
next
  case (add_reader s)
  then show ?case by (simp add: rcu_inv_def rcu_own_def Let_def)
next
  case (add_updater s d)
  then show ?case by (simp add: rcu_inv_def rcu_own_def Let_def)
next
  case (load s i)
  have "rcu_current (the_rcu s) < rcu_fresh (the_rcu s)"
    using rcu_own_dom[OF load.IH, of "rcu_current (the_rcu s)"] load.IH by (auto simp: rcu_own_def rcu_inv_def Let_def)
  then have "rcu_inv (s\<lparr>the_rcu := the_rcu s, readers := (readers s)[i := RdInc (rcu_current (the_rcu s))]\<rparr>)"
    using load by (intro reader_step_inv) auto
  then show ?case by simp
next
  case (load_inc s i p r)
  have "rcu_current (the_rcu s) < rcu_fresh (the_rcu s)"
    using rcu_own_dom[OF load_inc.IH, of "rcu_current (the_rcu s)"] load_inc.IH by (auto simp: rcu_own_def rcu_inv_def Let_def)
  then show ?case using load_inc
    by (intro reader_step_inv disjI2 exI[of _ "rcu_current (the_rcu s)"] exI[of _ 1]) (auto simp: bind_eq_Some_conv)
next
  case (read s i p r)
  have known: "\<And>n. knows n (readers s ! i) \<Longrightarrow> n < rcu_fresh (the_rcu s)"
    using read.IH nth_mem[OF read.hyps(2)] by (auto simp: rcu_inv_def Let_def)
  show ?case
  proof (cases "readers s ! i")
    case (RdInc n)
    then show ?thesis using read known by (intro reader_step_inv disjI2 exI[of _ n] exI[of _ 1]) (auto simp: bind_eq_Some_conv)
  next
    case (RdData n)
    then show ?thesis using read known by (intro reader_step_inv disjI1) (auto split: option.splits)
  next
    case (RdDec n d)
    then show ?thesis using read known by (intro reader_step_inv disjI2 exI[of _ n] exI[of _ "-1"]) (auto simp: bind_eq_Some_conv)
  next
    case (RdDone d)
    then show ?thesis using read known by (intro reader_step_inv disjI1) auto
  qed (use read in simp)
next
  case (update s i p r)
  then show ?case by (intro update_inv)
next
  case (cleanup s p r)
  then show ?case by (intro cleanup_inv)
next
  case (stop s)
  then show ?case by (simp add: rcu_inv_def rcu_own_def Let_def)
qed

section \<open>The destructor\<close>

lemma delete_all:
  "mset ns = mset_set (dom (rcu_heap r)) \<Longrightarrow> finite (dom (rcu_heap r)) \<Longrightarrow>
    \<exists>r'. for_each rcu_delete ns r = Some r' \<and> rcu_heap r' = Map.empty"
proof (induction ns arbitrary: r)
  case Nil
  then have "dom (rcu_heap r) = {}" by (metis mset.simps(1) mset_set_empty_iff)
  then show ?case by simp
next
  case (Cons n ns)
  have n: "n \<in> dom (rcu_heap r)" using Cons.prems by (metis finite_set_mset_mset_set insertI1 list.simps(15) set_mset_mset)
  then obtain nd where nd: "rcu_heap r n = Some nd" by auto
  let ?r = "r\<lparr>rcu_heap := (rcu_heap r)(n := None)\<rparr>"
  have dom: "dom (rcu_heap ?r) = dom (rcu_heap r) - {n}" by auto
  have "mset ns = mset_set (dom (rcu_heap ?r))" using Cons.prems mset_set.remove[OF Cons.prems(2) n] unfolding dom by simp
  then obtain r' where "for_each rcu_delete ns ?r = Some r'" "rcu_heap r' = Map.empty"
    using Cons.IH[of ?r] Cons.prems(2) unfolding dom by auto
  moreover have "rcu_delete n r = Some ?r" using nd by (simp add: rcu_delete_def)
  ultimately show ?case by simp
qed

lemma synchronize_passes:
  "(\<And>n. n \<in> set ns \<Longrightarrow> \<exists>nd. rcu_heap r n = Some nd \<and> rn_readers nd \<le> 0) \<Longrightarrow> synchronize_rcu ns r = Some True"
  by (induction ns) (fastforce split: option.splits)+

lemma owns_nothing: "list_all ((=) UpDone) us \<Longrightarrow> sum_list (map up_own us) = {#}"
  by (induction us) auto

lemma destroy_law:
  assumes inv: "rcu_inv s" and cl: "the_cleaner s = ClExit" and up: "list_all ((=) UpDone) (updaters s)"
    and rd: "\<forall>p \<in> set (readers s). \<forall>n. \<not> reading n p"
  shows "\<exists>r'. RCUContainer_destroy (the_rcu s) = Some (True, r') \<and> rcu_heap r' = Map.empty"
proof -
  let ?r = "the_rcu s"
  have "\<exists>nd. rcu_heap ?r n = Some nd \<and> rn_readers nd \<le> 0" if g: "n \<in> set (rcu_garbage ?r)" for n
  proof -
    obtain nd where nd: "rcu_heap ?r n = Some nd" using garbage_dom[OF inv g] by auto
    moreover have "filter (reading n) (readers s) = []" using rd by (simp add: filter_empty_conv)
    ultimately show ?thesis using inv by (auto simp: rcu_inv_def Let_def)
  qed
  then have sync: "synchronize_rcu (rcu_garbage ?r) ?r = Some True" by (rule synchronize_passes)
  have "sum_list (map up_own (updaters s)) = {#}" using up by (rule owns_nothing)
  then have "mset (rcu_current ?r # rcu_garbage ?r) = mset_set (dom (rcu_heap ?r))" "finite (dom (rcu_heap ?r))"
    using inv cl by (auto simp: rcu_inv_def rcu_own_def Let_def)
  from delete_all[OF this] obtain r' where "for_each rcu_delete (rcu_current ?r # rcu_garbage ?r) ?r = Some r'" "rcu_heap r' = Map.empty" by blast
  then show ?thesis using sync by (simp add: RCUContainer_destroy_def bind_eq_Some_conv) blast
qed

section \<open>Readers that register at once\<close>

definition checked :: "cleaner \<Rightarrow> nat \<Rightarrow> bool" where
  "checked c n \<longleftrightarrow> c = ClRemove n \<or> c = ClDelete n \<or> (\<exists>ms. c = ClCheck n ms \<and> n \<notin> set ms)"

definition safe_readers :: "'a rcu_sys \<Rightarrow> bool" where
  "safe_readers s \<longleftrightarrow> (\<forall>p \<in> set (readers s). \<forall>n. p \<noteq> RdInc n \<and> (reading n p \<longrightarrow> rcu_heap (the_rcu s) n \<noteq> None \<and> \<not> checked (the_cleaner s) n))"

lemma checked_not_current: "rcu_inv s \<Longrightarrow> checked (the_cleaner s) n \<Longrightarrow> n \<noteq> rcu_current (the_rcu s)"
proof
  assume inv: "rcu_inv s" and ch: "checked (the_cleaner s) n" and eq: "n = rcu_current (the_rcu s)"
  have "n \<in># mset (rcu_garbage (the_rcu s)) + cl_own (the_cleaner s)"
  proof (cases "the_cleaner s = ClDelete n")
    case False
    then have "n \<in># cl_target (the_cleaner s)" using ch by (auto simp: checked_def)
    then have "n \<in># mset (rcu_garbage (the_rcu s))" using inv by (auto simp: rcu_inv_def Let_def dest: mset_subset_eqD)
    then show ?thesis by simp
  qed simp
  then have "count (rcu_own s) n \<ge> 2" using eq unfolding rcu_own_def
    by (simp add: Suc_le_eq) (metis count_greater_zero_iff trans_less_add1)
  moreover have "count (rcu_own s) n \<le> 1" using inv by (simp add: rcu_inv_def Let_def count_mset_set')
  ultimately show False by simp
qed

lemma paired_safe: "rcu_reach True s \<Longrightarrow> safe_readers s"
proof (induction rule: rcu_reach.induct)
  case new
  show ?case by (simp add: safe_readers_def)
next
  case (add_reader s)
  then show ?case by (simp add: safe_readers_def)
next
  case (add_updater s d)
  then show ?case by (simp add: safe_readers_def)
next
  case (load s i)
  then show ?case by simp
next
  case (load_inc s i p r)
  have inv: "rcu_inv s" using rcu_reach_inv[OF load_inc.hyps(1)] .
  have r: "p = RdData (rcu_current (the_rcu s))" "\<And>n. rcu_heap r n = None \<longleftrightarrow> rcu_heap (the_rcu s) n = None"
    using load_inc.hyps(5) by (auto simp: bind_eq_Some_conv add_readers_def split: option.splits if_splits)
  have "\<not> checked (the_cleaner s) (rcu_current (the_rcu s))" using checked_not_current[OF inv] by blast
  moreover have "rcu_heap (the_rcu s) (rcu_current (the_rcu s)) \<noteq> None" using rcu_own_dom[OF inv] by (simp add: rcu_own_def)
  ultimately show ?case using load_inc.IH r set_update_subset_insert[of "readers s" i p] by (auto simp: safe_readers_def)
next
  case (read s i p r)
  have "p \<noteq> RdInc n" "reading n p \<Longrightarrow> reading n (readers s ! i)" for n
    using read.hyps(3,4) read.IH nth_mem[OF read.hyps(2)]
    by (cases "readers s ! i"; auto simp: bind_eq_Some_conv safe_readers_def split: option.splits)+
  moreover have "rcu_heap r n = None \<longleftrightarrow> rcu_heap (the_rcu s) n = None" for n
    using read.hyps(3,4) by (cases "readers s ! i") (auto simp: bind_eq_Some_conv add_readers_def split: option.splits if_splits)
  ultimately have "\<forall>q \<in> insert p (set (readers s)). \<forall>n. q \<noteq> RdInc n \<and> (reading n q \<longrightarrow> rcu_heap r n \<noteq> None \<and> \<not> checked (the_cleaner s) n)"
    using read.IH nth_mem[OF read.hyps(2)] unfolding safe_readers_def by blast
  then show ?case using set_update_subset_insert[of "readers s" i p] unfolding safe_readers_def by (simp, blast)
next
  case (update s i p r)
  have "rcu_heap (the_rcu s) n \<noteq> None \<Longrightarrow> rcu_heap r n \<noteq> None" for n
    using update.hyps(3) by (cases "updaters s ! i") auto
  then show ?case using update.IH by (auto simp: safe_readers_def)
next
  case (cleanup s p r)
  have inv: "rcu_inv s" using rcu_reach_inv[OF cleanup.hyps(1)] .
  have "rcu_heap r n \<noteq> None \<and> \<not> checked p n" if q: "q \<in> set (readers s)" "reading n q" for n q
  proof -
    have old: "rcu_heap (the_rcu s) n \<noteq> None" "\<not> checked (the_cleaner s) n" using cleanup.IH q by (auto simp: safe_readers_def)
    have busy: "rn_readers nd > 0" if "rcu_heap (the_rcu s) n = Some nd" for nd
    proof -
      have "q \<in> set (filter (reading n) (readers s))" using q by simp
      then have "0 < length (filter (reading n) (readers s))" by (rule length_pos_if_in_set)
      then show ?thesis using inv that by (simp add: rcu_inv_def Let_def)
    qed
    show ?thesis
    proof (cases "the_cleaner s")
      case (ClSnapshot m)
      then have "m \<in> set (rcu_garbage (the_rcu s))" using inv by (auto simp: rcu_inv_def Let_def dest: mset_subset_eq_insertD)
      then show ?thesis using cleanup.hyps(2) old ClSnapshot by (auto simp: checked_def)
    next
      case (ClCheck m ms)
      then show ?thesis using cleanup.hyps(2) old busy by (cases ms) (auto simp: checked_def split: option.splits if_splits)
    next
      case (ClDelete m)
      then show ?thesis using cleanup.hyps(2) old by (auto simp: checked_def bind_eq_Some_conv rcu_delete_def split: option.splits)
    qed (use cleanup.hyps(2) old in \<open>auto simp: checked_def split: if_splits list.splits\<close>)
  qed
  then show ?case using cleanup.IH by (simp add: safe_readers_def)
next
  case (stop s)
  then show ?case by (simp add: safe_readers_def)
qed

section \<open>Properties\<close>

text \<open>
  C13: in every state that any interleaving reaches, each node on the heap belongs to exactly one of the current pointer,
  the garbage list, an update in progress and the deletion in progress; the clean-up thread never touches a deleted node; and once it
  has left and no call is in progress, the destructor passes and frees every node once.
\<close>

theorem rcu_frees_once:
  assumes "rcu_reach paired s"
  shows "rcu_cleanup (the_cleaner s) (the_rcu s) \<noteq> None \<and>
    mset_set (dom (rcu_heap (the_rcu s))) = {#rcu_current (the_rcu s)#} + mset (rcu_garbage (the_rcu s)) + sum_list (map up_own (updaters s)) + cl_own (the_cleaner s) \<and>
    (the_cleaner s = ClExit \<and> list_all ((=) UpDone) (updaters s) \<and> (\<forall>p \<in> set (readers s). \<forall>n. \<not> reading n p) \<longrightarrow>
      (\<exists>r'. RCUContainer_destroy (the_rcu s) = Some (True, r') \<and> rcu_heap r' = Map.empty))"
proof -
  have inv: "rcu_inv s" using rcu_reach_inv[OF assms] .
  then have "mset_set (dom (rcu_heap (the_rcu s))) = rcu_own s" by (simp add: rcu_inv_def Let_def)
  then show ?thesis using cleanup_defined[OF inv] destroy_law[OF inv] unfolding rcu_own_def by blast
qed

text \<open>A container with one update behind it that has been stopped.\<close>

definition one_update :: "int rcu_sys" where
  "one_update = \<lparr>the_rcu = \<lparr>rcu_heap = [0 \<mapsto> \<lparr>rn_data = None, rn_readers = 0\<rparr>, 1 \<mapsto> \<lparr>rn_data = Some 5, rn_readers = 0\<rparr>], rcu_fresh = 2, rcu_current = 1,
     rcu_garbage = [0], cleanup_queue = [0], should_stop = True\<rparr>, readers = [], updaters = [UpDone], the_cleaner = ClExit\<rparr>"

lemma one_update_reach: "rcu_reach paired one_update"
proof -
  have "rcu_reach paired \<lparr>the_rcu = RCUContainer, readers = [], updaters = [UpNew (Some 5)], the_cleaner = ClWait\<rparr>"
    using rcu_reach.add_updater[OF rcu_reach.new, of paired "Some 5"] by simp
  from rcu_reach.update[OF this, of 0] have
    "rcu_reach paired \<lparr>the_rcu = RCUContainer\<lparr>rcu_heap := [0 \<mapsto> \<lparr>rn_data = None, rn_readers = 0\<rparr>, 1 \<mapsto> \<lparr>rn_data = Some 5, rn_readers = 0\<rparr>], rcu_fresh := 2\<rparr>,
       readers = [], updaters = [UpExchange 1], the_cleaner = ClWait\<rparr>" by (simp add: RCUContainer_def numeral_2_eq_2)
  from rcu_reach.update[OF this, of 0] have
    "rcu_reach paired \<lparr>the_rcu = RCUContainer\<lparr>rcu_heap := [0 \<mapsto> \<lparr>rn_data = None, rn_readers = 0\<rparr>, 1 \<mapsto> \<lparr>rn_data = Some 5, rn_readers = 0\<rparr>], rcu_fresh := 2,
       rcu_current := 1\<rparr>, readers = [], updaters = [UpQueue 0], the_cleaner = ClWait\<rparr>" by (simp add: RCUContainer_def)
  from rcu_reach.update[OF this, of 0] have
    "rcu_reach paired \<lparr>the_rcu = RCUContainer\<lparr>rcu_heap := [0 \<mapsto> \<lparr>rn_data = None, rn_readers = 0\<rparr>, 1 \<mapsto> \<lparr>rn_data = Some 5, rn_readers = 0\<rparr>], rcu_fresh := 2,
       rcu_current := 1, rcu_garbage := [0], cleanup_queue := [0]\<rparr>, readers = [], updaters = [UpDone], the_cleaner = ClWait\<rparr>" by (simp add: RCUContainer_def)
  from rcu_reach.cleanup[OF rcu_reach.stop[OF this]] show ?thesis by (simp add: one_update_def RCUContainer_def)
qed

theorem rcu_frees_once_witness:
  "\<exists>r'. RCUContainer_destroy (the_rcu one_update) = Some (True, r') \<and> rcu_heap r' = Map.empty"
  using rcu_frees_once[OF one_update_reach[of False]] by (simp add: one_update_def)

text \<open>
  C14: as long as no other thread comes between a reader's load of the current node and its registration, no reader
  ever touches a deleted node.
\<close>

theorem rcu_safe_if_paired:
  assumes "rcu_reach True s" "i < length (readers s)"
  shows "rcu_read (readers s ! i) (the_rcu s) \<noteq> None"
proof -
  have safe: "\<And>n. readers s ! i \<noteq> RdInc n" "\<And>n. reading n (readers s ! i) \<Longrightarrow> rcu_heap (the_rcu s) n \<noteq> None"
    using paired_safe[OF assms(1)] nth_mem[OF assms(2)] by (simp_all add: safe_readers_def)
  then show ?thesis by (cases "readers s ! i") (auto simp: add_readers_def)
qed

text \<open>A reader that has registered with the node an update takes away.\<close>

theorem rcu_safe_if_paired_witness:
  "\<exists>s :: int rcu_sys. rcu_reach True s \<and> readers s = [RdData 0] \<and> rcu_current (the_rcu s) = 1 \<and> rcu_read (RdData 0) (the_rcu s) \<noteq> None"
proof -
  let ?h = "[0 \<mapsto> \<lparr>rn_data = None, rn_readers = 1\<rparr>]" and ?h' = "[0 \<mapsto> \<lparr>rn_data = None, rn_readers = 1\<rparr>, 1 \<mapsto> \<lparr>rn_data = Some (5 :: int), rn_readers = 0\<rparr>]"
  have "rcu_reach True \<lparr>the_rcu = RCUContainer, readers = [RdLoad], updaters = [UpNew (Some (5 :: int))], the_cleaner = ClWait\<rparr>"
    using rcu_reach.add_updater[OF rcu_reach.add_reader[OF rcu_reach.new], of True "Some 5"] by simp
  from rcu_reach.load_inc[OF this TrueI, of 0] have
    "rcu_reach True \<lparr>the_rcu = RCUContainer\<lparr>rcu_heap := ?h\<rparr>, readers = [RdData 0], updaters = [UpNew (Some (5 :: int))], the_cleaner = ClWait\<rparr>"
    by (simp add: RCUContainer_def add_readers_def)
  from rcu_reach.update[OF this, of 0] have
    "rcu_reach True \<lparr>the_rcu = RCUContainer\<lparr>rcu_heap := ?h', rcu_fresh := 2\<rparr>, readers = [RdData 0], updaters = [UpExchange 1], the_cleaner = ClWait\<rparr>"
    by (simp add: RCUContainer_def numeral_2_eq_2)
  from rcu_reach.update[OF this, of 0] have s:
    "rcu_reach True \<lparr>the_rcu = RCUContainer\<lparr>rcu_heap := ?h', rcu_fresh := 2, rcu_current := 1\<rparr>, readers = [RdData 0], updaters = [UpQueue 0], the_cleaner = ClWait\<rparr>"
    by (simp add: RCUContainer_def)
  then show ?thesis using rcu_safe_if_paired[OF s, of 0] by (intro exI[of _ "\<lparr>the_rcu = RCUContainer\<lparr>rcu_heap := ?h', rcu_fresh := 2, rcu_current := 1\<rparr>,
      readers = [RdData 0], updaters = [UpQueue 0], the_cleaner = ClWait\<rparr>"]) simp
qed

section \<open>Further behaviour\<close>

text \<open>
  Without that, the reader loses: the node it has loaded is exchanged, found without readers and deleted before it registers.
\<close>

fun clean_steps :: "nat \<Rightarrow> 'a rcu_sys \<Rightarrow> 'a rcu_sys" where
  "clean_steps 0 s = s"
| "clean_steps (Suc k) s = (case rcu_cleanup (the_cleaner s) (the_rcu s) of None \<Rightarrow> s | Some (p, r) \<Rightarrow> clean_steps k (s\<lparr>the_rcu := r, the_cleaner := p\<rparr>))"

lemma clean_steps_reach: "rcu_reach paired s \<Longrightarrow> rcu_reach paired (clean_steps k s)"
  by (induction k arbitrary: s) (auto intro: rcu_reach.cleanup split: option.splits)

lemma rcu_use_after_free: "\<exists>s :: int rcu_sys. rcu_reach False s \<and> readers s = [RdInc 0] \<and> rcu_read (RdInc 0) (the_rcu s) = None"
proof -
  let ?h' = "[0 \<mapsto> \<lparr>rn_data = None, rn_readers = 0\<rparr>, 1 \<mapsto> \<lparr>rn_data = Some (5 :: int), rn_readers = 0\<rparr>]"
  have "rcu_reach False \<lparr>the_rcu = RCUContainer, readers = [RdLoad], updaters = [UpNew (Some (5 :: int))], the_cleaner = ClWait\<rparr>"
    using rcu_reach.add_updater[OF rcu_reach.add_reader[OF rcu_reach.new], of False "Some 5"] by simp
  from rcu_reach.load[OF this, of 0] have
    "rcu_reach False \<lparr>the_rcu = RCUContainer, readers = [RdInc 0], updaters = [UpNew (Some (5 :: int))], the_cleaner = ClWait\<rparr>"
    by (simp add: RCUContainer_def)
  from rcu_reach.update[OF this, of 0] have
    "rcu_reach False \<lparr>the_rcu = RCUContainer\<lparr>rcu_heap := ?h', rcu_fresh := 2\<rparr>, readers = [RdInc 0], updaters = [UpExchange 1], the_cleaner = ClWait\<rparr>"
    by (simp add: RCUContainer_def numeral_2_eq_2)
  from rcu_reach.update[OF this, of 0] have
    "rcu_reach False \<lparr>the_rcu = RCUContainer\<lparr>rcu_heap := ?h', rcu_fresh := 2, rcu_current := 1\<rparr>, readers = [RdInc 0], updaters = [UpQueue 0], the_cleaner = ClWait\<rparr>"
    by (simp add: RCUContainer_def)
  from rcu_reach.update[OF this, of 0] have
    "rcu_reach False \<lparr>the_rcu = RCUContainer\<lparr>rcu_heap := ?h', rcu_fresh := 2, rcu_current := 1, rcu_garbage := [0], cleanup_queue := [0]\<rparr>, readers = [RdInc 0],
       updaters = [UpDone], the_cleaner = ClWait\<rparr>"
    by (simp add: RCUContainer_def)
  from clean_steps_reach[OF this, of 6] show ?thesis
    by (intro exI[of _ "clean_steps 6 \<lparr>the_rcu = RCUContainer\<lparr>rcu_heap := ?h', rcu_fresh := 2, rcu_current := 1, rcu_garbage := [0], cleanup_queue := [0]\<rparr>,
         readers = [RdInc 0], updaters = [UpDone], the_cleaner = ClWait\<rparr>"])
      (simp add: RCUContainer_def rcu_delete_def add_readers_def eval_nat_numeral)
qed

text \<open>\<^verbatim>\<open>TinyRCU\<close>: balanced readers let \<^verbatim>\<open>flush\<close> run everything retired in order; a reader that flushes waits for itself.\<close>

lemma flush_balanced: "flush (retire g (retire f (read_unlock (read_lock TinyRCU)))) = Some ([f, g], TinyRCU)"
  by (simp add: flush_def retire_def read_lock_def read_unlock_def TinyRCU_def tiny_synchronize_def)

lemma flush_in_reader: "0 \<le> tr_readers t \<Longrightarrow> flush (read_lock t) = None"
  by (simp add: flush_def read_lock_def tiny_synchronize_def)

end
