(* ===== verification/Task_Thread.thy ===== *)
theory Task_Thread
  imports Xlab_Prelude "HOL-Library.Sublist"
begin

text \<open>
  \<^verbatim>\<open>TaskThread\<close> and \<^verbatim>\<open>WaitEventCounter\<close> of \<^verbatim>\<open>src/cc/cclab/src/utils\<close>: a background thread that runs tasks in order, with delayed tasks
  and three ways to end.  One step is one critical section, one execution of a task or one access to an atomic variable.
\<close>

section \<open>Counting events\<close>

record wait_event_counter =
  need_count :: int
  counted :: int

definition WaitEventCounter :: "int \<Rightarrow> wait_event_counter" where
  "WaitEventCounter nc = \<lparr>need_count = nc, counted = 0\<rparr>"

definition wec_notify :: "wait_event_counter \<Rightarrow> wait_event_counter" where
  "wec_notify w = w\<lparr>counted := counted w + 1\<rparr>"

text \<open>The condition on which \<^verbatim>\<open>wait\<close> returns; \<^verbatim>\<open>wait_for\<close> answers it after the timeout, except that a timeout of 0 means \<^verbatim>\<open>wait\<close>.\<close>

definition wec_check :: "wait_event_counter \<Rightarrow> bool" where
  "wec_check w \<longleftrightarrow> counted w \<ge> need_count w"

definition wec_wait_for :: "nat \<Rightarrow> wait_event_counter \<Rightarrow> bool option" where
  "wec_wait_for timeout_ms w = (if timeout_ms = 0 then (if wec_check w then Some True else None) else Some (wec_check w))"

section \<open>The thread\<close>

datatype release_mode = RELEASE_MODE_ASAP | RELEASE_MODE_DO_SHOULD_DONE | RELEASE_MODE_DO_ALL_DONE

text \<open>
  The points of \<^verbatim>\<open>run_in_thread_\<close>: not started, before the lock, in the wait, running the collected tasks, behind the loop without the
  lock, in the switch with the lock, ended.
\<close>

datatype tt_pc = TtNew | TtLoop | TtWait | TtRun | TtBreak | TtFinal | TtDone

text \<open>
  The last four fields are the local variable of the thread, calls of \<^verbatim>\<open>add\<close> that have counted their task and not yet locked the mutex,
  and the history: the tasks run and the tasks put in.
\<close>

record 'a task_thread =
  release_mode :: release_mode
  exit_flag :: bool
  tt_tasks :: "'a list"
  deferred_tasks :: "(nat \<times> 'a) list"
  num_of_undone_task :: int
  runned_event :: wait_event_counter
  tt_pc :: tt_pc
  collect_tasks :: "'a list"
  adding :: "('a \<times> int) list"
  tt_executed :: "'a list"
  tt_added :: "'a list"

definition TaskThread :: "release_mode \<Rightarrow> 'a task_thread" where
  "TaskThread rm = \<lparr>release_mode = rm, exit_flag = False, tt_tasks = [], deferred_tasks = [], num_of_undone_task = 0,
     runned_event = WaitEventCounter 1, tt_pc = TtNew, collect_tasks = [], adding = [], tt_executed = [], tt_added = []\<rparr>"

text \<open>Insertion into a multimap, behind equal keys.\<close>

definition multimap_insert :: "nat \<Rightarrow> 'a \<Rightarrow> (nat \<times> 'a) list \<Rightarrow> (nat \<times> 'a) list" where
  "multimap_insert k x xs = takeWhile (\<lambda>p. fst p \<le> k) xs @ (k, x) # dropWhile (\<lambda>p. fst p \<le> k) xs"

definition tt_start :: "'a task_thread \<Rightarrow> 'a task_thread" where
  "tt_start s = s\<lparr>tt_pc := TtLoop, runned_event := wec_notify (runned_event s)\<rparr>"

text \<open>\<^verbatim>\<open>add\<close> counts first and then puts the task in under the mutex; \<open>now\<close> is the clock, and the time of a delayed task wraps around.\<close>

definition add_count :: "'a \<Rightarrow> int \<Rightarrow> 'a task_thread \<Rightarrow> 'a task_thread" where
  "add_count t ms s = s\<lparr>num_of_undone_task := num_of_undone_task s + 1, adding := adding s @ [(t, ms)]\<rparr>"

definition add_put :: "nat \<Rightarrow> nat \<Rightarrow> 'a task_thread \<Rightarrow> 'a task_thread" where
  "add_put now i s = (let (t, ms) = adding s ! i; s = s\<lparr>adding := take i (adding s) @ drop (Suc i) (adding s), tt_added := tt_added s @ [t]\<rparr> in
     if ms = 0 then s\<lparr>tt_tasks := tt_tasks s @ [t]\<rparr> else s\<lparr>deferred_tasks := multimap_insert (nat ((int now + ms) mod 2 ^ 64)) t (deferred_tasks s)\<rparr>)"

definition append_expired_tasks :: "nat \<Rightarrow> 'a task_thread \<Rightarrow> 'a task_thread" where
  "append_expired_tasks now s = s\<lparr>collect_tasks := collect_tasks s @ map snd (takeWhile (\<lambda>p. fst p \<le> now) (deferred_tasks s)),
     deferred_tasks := dropWhile (\<lambda>p. fst p \<le> now) (deferred_tasks s)\<rparr>"

text \<open>The end of the critical section.\<close>

definition collect :: "nat \<Rightarrow> 'a task_thread \<Rightarrow> 'a task_thread" where
  "collect now s = (let s = (if tt_tasks s \<noteq> [] then s\<lparr>collect_tasks := tt_tasks s, tt_tasks := collect_tasks s\<rparr> else s);
       s = (if deferred_tasks s \<noteq> [] then append_expired_tasks now s else s) in
     s\<lparr>tt_pc := (if exit_flag s then TtBreak else TtRun)\<rparr>)"

definition check_or_wait :: "nat \<Rightarrow> 'a task_thread \<Rightarrow> 'a task_thread" where
  "check_or_wait now s = (if \<not> exit_flag s \<and> tt_tasks s = [] then s\<lparr>tt_pc := TtWait\<rparr> else collect now s)"

text \<open>The execution of the first collected task.\<close>

definition execute_task :: "'a task_thread \<Rightarrow> 'a task_thread" where
  "execute_task s = s\<lparr>tt_executed := tt_executed s @ [hd (collect_tasks s)], num_of_undone_task := num_of_undone_task s - 1,
     collect_tasks := tl (collect_tasks s)\<rparr>"

definition execute_deferred :: "'a task_thread \<Rightarrow> 'a task_thread" where
  "execute_deferred s = s\<lparr>tt_executed := tt_executed s @ [snd (hd (deferred_tasks s))], num_of_undone_task := num_of_undone_task s - 1,
     deferred_tasks := tl (deferred_tasks s)\<rparr>"

definition run_in_thread :: "nat \<Rightarrow> 'a task_thread \<Rightarrow> 'a task_thread" where
  "run_in_thread now s = (case tt_pc s of
     TtLoop \<Rightarrow> check_or_wait now s
   | TtWait \<Rightarrow> (if deferred_tasks s \<noteq> [] then collect now s else check_or_wait now s)
   | TtRun \<Rightarrow> (if collect_tasks s = [] then s\<lparr>tt_pc := TtLoop\<rparr> else execute_task s)
   | TtBreak \<Rightarrow> s\<lparr>tt_pc := TtFinal\<rparr>
   | TtFinal \<Rightarrow> (if release_mode s = RELEASE_MODE_ASAP then s\<lparr>tt_pc := TtDone\<rparr>
       else if collect_tasks s \<noteq> [] then execute_task s
       else if release_mode s = RELEASE_MODE_DO_ALL_DONE \<and> deferred_tasks s \<noteq> [] then execute_deferred s
       else s\<lparr>tt_pc := TtDone\<rparr>)
   | _ \<Rightarrow> s)"

definition stop_and_join :: "'a task_thread \<Rightarrow> 'a task_thread" where
  "stop_and_join s = s\<lparr>exit_flag := True\<rparr>"

text \<open>
  The mutex is held through the final switch.  With \<open>quiet\<close>, no task is put in after the thread was told to stop; with \<open>nodelay\<close>, no
  task is delayed.
\<close>

inductive tt_reach :: "bool \<Rightarrow> bool \<Rightarrow> release_mode \<Rightarrow> 'a task_thread \<Rightarrow> bool" for quiet nodelay rm where
  new: "tt_reach quiet nodelay rm (TaskThread rm)"
| start: "tt_reach quiet nodelay rm s \<Longrightarrow> tt_pc s = TtNew \<Longrightarrow> tt_reach quiet nodelay rm (tt_start s)"
| count: "tt_reach quiet nodelay rm s \<Longrightarrow> (nodelay \<Longrightarrow> ms = 0) \<Longrightarrow> tt_reach quiet nodelay rm (add_count t ms s)"
| put: "tt_reach quiet nodelay rm s \<Longrightarrow> i < length (adding s) \<Longrightarrow> tt_pc s \<noteq> TtFinal \<Longrightarrow> \<not> (quiet \<and> exit_flag s) \<Longrightarrow> tt_reach quiet nodelay rm (add_put now i s)"
| run: "tt_reach quiet nodelay rm s \<Longrightarrow> tt_reach quiet nodelay rm (run_in_thread now s)"
| stop: "tt_reach quiet nodelay rm s \<Longrightarrow> tt_reach quiet nodelay rm (stop_and_join s)"

section \<open>Invariants\<close>

definition tt_left :: "'a task_thread \<Rightarrow> 'a multiset" where
  "tt_left s = mset (collect_tasks s) + mset (tt_tasks s) + mset (map snd (deferred_tasks s))"

definition tt_cons :: "'a task_thread \<Rightarrow> bool" where
  "tt_cons s \<longleftrightarrow> mset (tt_executed s) + tt_left s = mset (tt_added s) \<and>
     num_of_undone_task s = int (size (tt_left s)) + int (length (adding s)) \<and> sorted (map fst (deferred_tasks s))"

definition tt_ctl :: "bool \<Rightarrow> 'a task_thread \<Rightarrow> bool" where
  "tt_ctl quiet s \<longleftrightarrow> (tt_pc s \<in> {TtNew, TtLoop, TtWait} \<longrightarrow> collect_tasks s = []) \<and>
     (tt_pc s \<in> {TtBreak, TtFinal, TtDone} \<longrightarrow> exit_flag s \<and> (quiet \<longrightarrow> tt_tasks s = [])) \<and>
     (tt_pc s = TtDone \<longrightarrow> release_mode s \<noteq> RELEASE_MODE_ASAP \<longrightarrow> collect_tasks s = []) \<and>
     (tt_pc s = TtDone \<longrightarrow> quiet \<longrightarrow> release_mode s = RELEASE_MODE_DO_ALL_DONE \<longrightarrow> deferred_tasks s = [])"

lemma multimap_insert_mset: "mset (multimap_insert k x xs) = add_mset (k, x) (mset xs)"
proof -
  have "mset (takeWhile P xs) + mset (dropWhile P xs) = mset xs" for P by (metis mset_append takeWhile_dropWhile_id)
  then show ?thesis by (simp add: multimap_insert_def)
qed

lemma multimap_insert_length: "length (multimap_insert k x xs) = Suc (length xs)"
  using arg_cong[OF multimap_insert_mset[of k x xs], of size] by (simp del: mset_append)

lemma multimap_insert_sorted: "sorted (map fst xs) \<Longrightarrow> sorted (map fst (multimap_insert k x xs))"
proof -
  assume "sorted (map fst xs)"
  moreover from this have "\<forall>p \<in> set (dropWhile (\<lambda>p. fst p \<le> k) xs). k \<le> fst p" by (induction xs) auto
  moreover have "\<forall>p \<in> set (takeWhile (\<lambda>p. fst p \<le> k) xs). fst p \<le> k" by (auto dest: set_takeWhileD)
  moreover have "sorted (map fst (takeWhile (\<lambda>p. fst p \<le> k) xs)) \<and> sorted (map fst (dropWhile (\<lambda>p. fst p \<le> k) xs))"
    using calculation(1) by (metis map_append sorted_append takeWhile_dropWhile_id)
  ultimately show ?thesis unfolding multimap_insert_def by (auto simp: sorted_append intro: order_trans)
qed

lemma split_mset: "mset (map snd (takeWhile P xs)) + mset (map snd (dropWhile P xs)) = mset (map snd xs)"
  by (metis map_append mset_append takeWhile_dropWhile_id)

lemma sorted_dropWhile': "sorted (map f xs) \<Longrightarrow> sorted (map f (dropWhile P xs))"
  by (induction xs) auto

lemma collect_left: "tt_left (collect now s) = tt_left s"
  using split_mset[of "\<lambda>p. fst p \<le> now" "deferred_tasks s"]
  by (auto simp: collect_def append_expired_tasks_def tt_left_def Let_def ac_simps)

lemma collect_simps [simp]:
  "tt_executed (collect now s) = tt_executed s" "tt_added (collect now s) = tt_added s" "adding (collect now s) = adding s"
  "num_of_undone_task (collect now s) = num_of_undone_task s" "exit_flag (collect now s) = exit_flag s" "release_mode (collect now s) = release_mode s"
  "tt_pc (collect now s) = (if exit_flag s then TtBreak else TtRun)"
  "deferred_tasks (collect now s) = dropWhile (\<lambda>p. fst p \<le> now) (deferred_tasks s)"
  "tt_tasks (collect now s) = (if tt_tasks s = [] then [] else collect_tasks s)"
  by (auto simp: collect_def append_expired_tasks_def Let_def)

lemma collect_cons: "tt_cons s \<Longrightarrow> tt_cons (collect now s)"
  by (simp add: tt_cons_def collect_left sorted_dropWhile')

lemma pc_cons: "tt_cons (s\<lparr>tt_pc := p\<rparr>) = tt_cons s"
  by (simp add: tt_cons_def tt_left_def)

lemma check_or_wait_cons: "tt_cons s \<Longrightarrow> tt_cons (check_or_wait now s)"
  by (simp add: check_or_wait_def collect_cons pc_cons)

lemma execute_task_cons: "tt_cons s \<Longrightarrow> collect_tasks s \<noteq> [] \<Longrightarrow> tt_cons (execute_task s)"
  by (cases "collect_tasks s") (simp_all add: tt_cons_def execute_task_def tt_left_def)

lemma execute_deferred_cons: "tt_cons s \<Longrightarrow> deferred_tasks s \<noteq> [] \<Longrightarrow> tt_cons (execute_deferred s)"
  by (cases "deferred_tasks s") (simp_all add: tt_cons_def execute_deferred_def tt_left_def)

lemma add_put_cons: "tt_cons s \<Longrightarrow> i < length (adding s) \<Longrightarrow> tt_cons (add_put now i s)"
  using multimap_insert_mset[of "nat ((int now + snd (adding s ! i)) mod 2 ^ 64)" "fst (adding s ! i)" "deferred_tasks s"]
    multimap_insert_sorted[of "deferred_tasks s" "nat ((int now + snd (adding s ! i)) mod 2 ^ 64)" "fst (adding s ! i)"]
  by (auto simp: multimap_insert_length add_put_def tt_cons_def tt_left_def split_beta Let_def)

lemma collect_ctl: "tt_ctl quiet s \<Longrightarrow> tt_pc s \<in> {TtLoop, TtWait} \<Longrightarrow> tt_ctl quiet (collect now s)"
  by (auto simp: tt_ctl_def)

lemma check_or_wait_ctl: "tt_ctl quiet s \<Longrightarrow> tt_pc s \<in> {TtLoop, TtWait} \<Longrightarrow> tt_ctl quiet (check_or_wait now s)"
  using collect_ctl[of quiet s now] by (simp add: check_or_wait_def) (auto simp: tt_ctl_def)

lemma run_in_thread_cons: "tt_cons s \<Longrightarrow> tt_cons (run_in_thread now s)"
  by (simp add: run_in_thread_def check_or_wait_cons collect_cons execute_task_cons execute_deferred_cons pc_cons split: tt_pc.split)

lemma run_in_thread_ctl:
  assumes "tt_ctl quiet s"
  shows "tt_ctl quiet (run_in_thread now s)"
proof (cases "tt_pc s")
  case TtLoop
  then show ?thesis using assms check_or_wait_ctl[of quiet s now] by (simp add: run_in_thread_def)
next
  case TtWait
  then show ?thesis using assms check_or_wait_ctl[of quiet s now] collect_ctl[of quiet s now] by (simp add: run_in_thread_def)
next
  case TtRun
  then show ?thesis using assms by (simp add: run_in_thread_def execute_task_def tt_ctl_def)
next
  case TtBreak
  then show ?thesis using assms by (simp add: run_in_thread_def tt_ctl_def)
next
  case TtFinal
  then show ?thesis using assms by (cases "release_mode s") (simp_all add: run_in_thread_def execute_task_def execute_deferred_def tt_ctl_def)
qed (use assms in \<open>simp_all add: run_in_thread_def tt_ctl_def\<close>)

lemma tt_reach_inv: "tt_reach quiet nodelay rm s \<Longrightarrow> tt_cons s \<and> tt_ctl quiet s \<and> release_mode s = rm"
proof (induction rule: tt_reach.induct)
  case new
  show ?case by (simp add: tt_cons_def tt_ctl_def TaskThread_def tt_left_def)
next
  case (start s)
  then show ?case by (auto simp: tt_cons_def tt_ctl_def tt_start_def tt_left_def)
next
  case (count s t ms)
  then show ?case by (simp add: tt_cons_def tt_ctl_def add_count_def tt_left_def)
next
  case (put s i now)
  have "tt_ctl quiet (add_put now i s)"
  proof (cases "quiet \<and> tt_pc s \<in> {TtBreak, TtFinal, TtDone}")
    case True
    then show ?thesis using put by (simp add: tt_ctl_def)
  next
    case False
    then show ?thesis using put by (auto simp: tt_ctl_def add_put_def split_beta Let_def)
  qed
  moreover have "release_mode (add_put now i s) = release_mode s" by (simp add: add_put_def split_beta Let_def)
  ultimately show ?case using put add_put_cons[of s i now] by simp
next
  case (run s now)
  have "release_mode (run_in_thread now s) = release_mode s"
    by (simp add: run_in_thread_def check_or_wait_def execute_task_def execute_deferred_def split: tt_pc.split)
  then show ?case using run.IH run_in_thread_cons[of s now] run_in_thread_ctl[of quiet s now] by simp
next
  case (stop s)
  then show ?case by (auto simp: stop_and_join_def tt_cons_def tt_ctl_def tt_left_def)
qed

text \<open>Without delayed tasks, the order of the calls is the order of execution.\<close>

definition tt_fifo :: "'a task_thread \<Rightarrow> bool" where
  "tt_fifo s \<longleftrightarrow> deferred_tasks s = [] \<and> list_all (\<lambda>p. snd p = 0) (adding s) \<and> tt_executed s @ collect_tasks s @ tt_tasks s = tt_added s"

lemma collect_fifo: "tt_fifo s \<Longrightarrow> collect_tasks s = [] \<Longrightarrow> tt_fifo (collect now s)"
  by (auto simp: tt_fifo_def collect_def Let_def)

lemma execute_task_fifo: "tt_fifo s \<Longrightarrow> collect_tasks s \<noteq> [] \<Longrightarrow> tt_fifo (execute_task s)"
  by (cases "collect_tasks s") (simp_all add: tt_fifo_def execute_task_def)

lemma pc_fifo: "tt_fifo (s\<lparr>tt_pc := p\<rparr>) = tt_fifo s"
  by (simp add: tt_fifo_def)

lemma run_in_thread_fifo: "tt_fifo s \<Longrightarrow> tt_ctl quiet s \<Longrightarrow> tt_fifo (run_in_thread now s)"
proof -
  assume s: "tt_fifo s" "tt_ctl quiet s"
  have d: "deferred_tasks s = []" using s(1) by (simp add: tt_fifo_def)
  have cw: "tt_fifo (check_or_wait now s)" if "tt_pc s \<in> {TtLoop, TtWait}"
  proof -
    have "collect_tasks s = []" using s(2) that by (auto simp: tt_ctl_def)
    from collect_fifo[OF s(1) this] show ?thesis using s(1) by (simp add: check_or_wait_def pc_fifo)
  qed
  show ?thesis using cw d s(1) by (cases "tt_pc s") (simp_all add: run_in_thread_def execute_task_fifo pc_fifo)
qed

lemma tt_reach_fifo: "tt_reach quiet nodelay rm s \<Longrightarrow> nodelay \<Longrightarrow> tt_fifo s"
proof (induction rule: tt_reach.induct)
  case (put s i now)
  then have "snd (adding s ! i) = 0" "tt_fifo s" by (auto simp: tt_fifo_def list_all_length)
  then show ?case by (auto simp: tt_fifo_def add_put_def split_beta Let_def list_all_iff dest: in_set_takeD in_set_dropD)
next
  case (run s now)
  then show ?case using run_in_thread_fifo[of s quiet now] tt_reach_inv[OF run.hyps(1)] by simp
qed (simp_all add: tt_fifo_def TaskThread_def tt_start_def add_count_def stop_and_join_def)

section \<open>Properties\<close>

text \<open>
  C15: in every state the tasks run and the tasks left are those put in, the count of undone tasks is exact (calls of \<^verbatim>\<open>add\<close>
  in progress included), and without delayed tasks they run in the order of the calls; when the thread has ended in mode
  \<open>DO_ALL_DONE\<close> and no task was put in after the stop, all of them have run.
\<close>

theorem tt_all_done:
  assumes "tt_reach quiet nodelay rm s"
  shows "mset (tt_executed s) + tt_left s = mset (tt_added s) \<and> num_of_undone_task s = int (size (tt_left s)) + int (length (adding s)) \<and>
    (nodelay \<longrightarrow> prefix (tt_executed s) (tt_added s)) \<and>
    (quiet \<and> tt_pc s = TtDone \<and> rm = RELEASE_MODE_DO_ALL_DONE \<longrightarrow> mset (tt_executed s) = mset (tt_added s))"
proof -
  have inv: "tt_cons s" "tt_ctl quiet s" "release_mode s = rm" using tt_reach_inv[OF assms] by simp_all
  have "prefix (tt_executed s) (tt_added s)" if nodelay using tt_reach_fifo[OF assms that] by (metis prefixI tt_fifo_def)
  moreover have "tt_left s = {#}" if "quiet" "tt_pc s = TtDone" "rm = RELEASE_MODE_DO_ALL_DONE" using inv that by (simp add: tt_ctl_def tt_left_def)
  ultimately show ?thesis using inv(1) by (auto simp: tt_cons_def)
qed

text \<open>Two tasks, one of them delayed, and a thread that is stopped at once.\<close>

fun tt_steps :: "nat \<Rightarrow> 'a task_thread \<Rightarrow> 'a task_thread" where
  "tt_steps 0 s = s"
| "tt_steps (Suc k) s = tt_steps k (run_in_thread 0 s)"

lemma tt_steps_reach: "tt_reach quiet nodelay rm s \<Longrightarrow> tt_reach quiet nodelay rm (tt_steps k s)"
  by (induction k arbitrary: s) (auto intro: tt_reach.run)

definition two_tasks :: "int task_thread" where
  "two_tasks = add_put 0 0 (add_put 0 0 (add_count 2 50 (add_count 1 0 (tt_start (TaskThread RELEASE_MODE_DO_ALL_DONE)))))"

lemma two_tasks_reach: "tt_reach True False RELEASE_MODE_DO_ALL_DONE two_tasks"
  unfolding two_tasks_def
  by (intro tt_reach.put tt_reach.count tt_reach.start tt_reach.new) (simp_all add: TaskThread_def tt_start_def add_count_def add_put_def)

theorem tt_all_done_witness:
  "tt_pc (tt_steps 6 (stop_and_join two_tasks)) = TtDone \<and> mset (tt_executed (tt_steps 6 (stop_and_join two_tasks))) = {#1, 2#}"
proof -
  have "tt_pc (tt_steps 6 (stop_and_join two_tasks)) = TtDone" "tt_added (tt_steps 6 (stop_and_join two_tasks)) = [1, 2]"
    by (simp_all add: two_tasks_def TaskThread_def tt_start_def add_count_def add_put_def stop_and_join_def run_in_thread_def check_or_wait_def
        collect_def append_expired_tasks_def execute_task_def execute_deferred_def multimap_insert_def eval_nat_numeral)
  then show ?thesis using tt_all_done[OF tt_steps_reach[OF tt_reach.stop[OF two_tasks_reach]], of 6] by simp
qed

section \<open>Further behaviour\<close>

text \<open>A task put in between the end of the loop and the final lock is never run, whatever the mode.\<close>

lemma late_task_lost:
  "tt_pc s = TtBreak \<Longrightarrow> collect_tasks s = [] \<Longrightarrow> deferred_tasks s = [] \<Longrightarrow> tt_tasks s = [t] \<Longrightarrow>
    tt_pc (tt_steps (2 + k) s) = TtDone \<and> tt_tasks (tt_steps (2 + k) s) = [t] \<and> tt_executed (tt_steps (2 + k) s) = tt_executed s"
proof -
  assume s: "tt_pc s = TtBreak" "collect_tasks s = []" "deferred_tasks s = []" "tt_tasks s = [t]"
  have done': "tt_pc r = TtDone \<Longrightarrow> tt_steps k r = r" for k and r :: "'a task_thread" by (induction k) (simp_all add: run_in_thread_def)
  show ?thesis using s by (simp add: run_in_thread_def done')
qed

text \<open>While the final tasks run, the mutex is held: the thread cannot put in a task itself, and nobody else can.\<close>

lemma final_holds_lock: "tt_pc s = TtFinal \<Longrightarrow> tt_pc (run_in_thread now s) \<in> {TtFinal, TtDone} \<and> tt_tasks (run_in_thread now s) = tt_tasks s"
  by (simp add: run_in_thread_def execute_task_def execute_deferred_def)

text \<open>The expired tasks are exactly those whose time has come, in the order of their times.\<close>

lemma expired_tasks:
  assumes "sorted (map fst (deferred_tasks s))"
  shows "collect_tasks (append_expired_tasks now s) = collect_tasks s @ map snd (filter (\<lambda>p. fst p \<le> now) (deferred_tasks s)) \<and>
    deferred_tasks (append_expired_tasks now s) = filter (\<lambda>p. now < fst p) (deferred_tasks s)"
proof -
  have "sorted (map fst xs) \<Longrightarrow> takeWhile (\<lambda>p. fst p \<le> now) xs = filter (\<lambda>p. fst p \<le> now) xs \<and> dropWhile (\<lambda>p. fst p \<le> now) xs = filter (\<lambda>p. now < fst p) xs"
    for xs :: "(nat \<times> 'a) list"
  proof (induction xs)
    case (Cons p xs)
    show ?case
    proof (cases "fst p \<le> now")
      case False
      then have "\<forall>q \<in> set xs. now < fst q" using Cons.prems by fastforce
      then have "filter (\<lambda>p. fst p \<le> now) xs = []" "filter (\<lambda>p. now < fst p) xs = xs" by (auto simp: filter_empty_conv filter_id_conv)
      then show ?thesis using False by simp
    qed (use Cons in simp)
  qed simp
  then show ?thesis using assms by (simp add: append_expired_tasks_def)
qed

text \<open>\<^verbatim>\<open>wait\<close> passes after the given number of notifications.\<close>

lemma wec_counts: "0 \<le> nc \<Longrightarrow> wec_check ((wec_notify ^^ k) (WaitEventCounter nc)) \<longleftrightarrow> nat nc \<le> k"
proof -
  have "counted ((wec_notify ^^ k) w) = counted w + int k \<and> need_count ((wec_notify ^^ k) w) = need_count w" for w
    by (induction k) (simp_all add: wec_notify_def)
  then show "0 \<le> nc \<Longrightarrow> ?thesis" by (auto simp: wec_check_def WaitEventCounter_def)
qed

end
