(* ===== verification/Query_Executor.thy ===== *)
theory Query_Executor
  imports Xlab_Prelude
begin

text \<open>
  \<^verbatim>\<open>QueryTaskExecutor\<close> of \<^verbatim>\<open>src/cc/algo/src/algo/algo_work_pool.cc\<close>: workers that wait on a condition variable.  A waiting worker goes on
  when it is notified; spurious wake-ups are steps of their own.
\<close>

section \<open>The code\<close>

text \<open>Before the test of the flag, before the lock, asleep in the wait, awake in it, with a task, behind the loop.\<close>

datatype 'a qe_worker = QeLoop | QeLock | QeWaiting | QeWoken | QeTask 'a | QeExit

record 'a query_executor =
  qe_workers :: "'a qe_worker list"
  qe_tasks :: "'a list"
  qe_stop :: bool
  qe_executed :: "'a list"

definition QueryTaskExecutor :: "nat \<Rightarrow> 'a query_executor" where
  "QueryTaskExecutor thread_count = \<lparr>qe_workers = replicate thread_count QeLoop, qe_tasks = [], qe_stop = False, qe_executed = []\<rparr>"

text \<open>\<open>w\<close> is the worker that \<^verbatim>\<open>notify_one\<close> chooses among those asleep, if any is.\<close>

definition SubmitTask :: "'a \<Rightarrow> nat \<Rightarrow> 'a query_executor \<Rightarrow> 'a query_executor" where
  "SubmitTask task w q = q\<lparr>qe_tasks := qe_tasks q @ [task],
     qe_workers := (if w < length (qe_workers q) \<and> qe_workers q ! w = QeWaiting then (qe_workers q)[w := QeWoken] else qe_workers q)\<rparr>"

definition qe_wait :: "'a query_executor \<Rightarrow> 'a qe_worker \<times> 'a query_executor" where
  "qe_wait q = (if \<not> (qe_stop q \<or> qe_tasks q \<noteq> []) then (QeWaiting, q)
     else case qe_tasks q of [] \<Rightarrow> (QeLoop, q) | t # ts \<Rightarrow> (QeTask t, q\<lparr>qe_tasks := ts\<rparr>))"

definition WorkerLoop :: "nat \<Rightarrow> 'a query_executor \<Rightarrow> 'a query_executor" where
  "WorkerLoop i q = (let (w, q') = (case qe_workers q ! i of
       QeLoop \<Rightarrow> (if qe_stop q then QeExit else QeLock, q)
     | QeLock \<Rightarrow> qe_wait q
     | QeWaiting \<Rightarrow> (QeWaiting, q)
     | QeWoken \<Rightarrow> qe_wait q
     | QeTask t \<Rightarrow> (QeLoop, q\<lparr>qe_executed := qe_executed q @ [t]\<rparr>)
     | QeExit \<Rightarrow> (QeExit, q)) in
     q'\<lparr>qe_workers := (qe_workers q')[i := w]\<rparr>)"

text \<open>The destructor sets the flag, without a notification, and then joins the workers.\<close>

definition qe_destroy :: "'a query_executor \<Rightarrow> 'a query_executor" where
  "qe_destroy q = q\<lparr>qe_stop := True\<rparr>"

definition qe_joined :: "'a query_executor \<Rightarrow> bool" where
  "qe_joined q \<longleftrightarrow> list_all ((=) QeExit) (qe_workers q)"

definition spurious_wakeup :: "nat \<Rightarrow> 'a query_executor \<Rightarrow> 'a query_executor" where
  "spurious_wakeup i q = q\<lparr>qe_workers := (if qe_workers q ! i = QeWaiting then (qe_workers q)[i := QeWoken] else qe_workers q)\<rparr>"

text \<open>The states, with the tasks submitted so far.\<close>

inductive qe_reach :: "nat \<Rightarrow> 'a list \<Rightarrow> 'a query_executor \<Rightarrow> bool" for n where
  new: "qe_reach n [] (QueryTaskExecutor n)"
| submit: "qe_reach n ts q \<Longrightarrow> qe_reach n (ts @ [t]) (SubmitTask t w q)"
| work: "qe_reach n ts q \<Longrightarrow> i < length (qe_workers q) \<Longrightarrow> qe_reach n ts (WorkerLoop i q)"
| wake: "qe_reach n ts q \<Longrightarrow> i < length (qe_workers q) \<Longrightarrow> qe_reach n ts (spurious_wakeup i q)"
| destroy: "qe_reach n ts q \<Longrightarrow> qe_reach n ts (qe_destroy q)"

section \<open>Tasks\<close>

fun qe_held :: "'a qe_worker \<Rightarrow> 'a multiset" where
  "qe_held (QeTask t) = {#t#}"
| "qe_held _ = {#}"

definition qe_all :: "'a query_executor \<Rightarrow> 'a multiset" where
  "qe_all q = mset (qe_executed q) + sum_list (map qe_held (qe_workers q)) + mset (qe_tasks q)"

lemmas qe_held_update = sum_list_update_mset[of _ _ qe_held]

lemma WorkerLoop_all: "i < length (qe_workers q) \<Longrightarrow> qe_all (WorkerLoop i q) = qe_all q"
  using qe_held_update[of i "qe_workers q" QeLoop] qe_held_update[of i "qe_workers q" QeLock] qe_held_update[of i "qe_workers q" QeWaiting]
    qe_held_update[of i "qe_workers q" QeExit] qe_held_update[of i "qe_workers q" "QeTask (hd (qe_tasks q))"]
  by (cases "qe_workers q ! i"; cases "qe_tasks q") (auto simp: WorkerLoop_def qe_wait_def qe_all_def)

lemma wake_all: "i < length (qe_workers q) \<Longrightarrow> qe_workers q ! i = QeWaiting \<Longrightarrow> sum_list (map qe_held ((qe_workers q)[i := QeWoken])) = sum_list (map qe_held (qe_workers q))"
  using qe_held_update[of i "qe_workers q" QeWoken] by simp

text \<open>Nothing is lost or run twice: the tasks executed, held and queued are those submitted.\<close>

lemma qe_conserves: "qe_reach n ts q \<Longrightarrow> qe_all q = mset ts"
proof (induction rule: qe_reach.induct)
  case new
  have "sum_list (map qe_held (replicate n QeLoop)) = ({#} :: 'a multiset)" by (induction n) simp_all
  then show ?case by (simp add: qe_all_def QueryTaskExecutor_def)
next
  case (submit ts q t w)
  then show ?case using wake_all[of w q] by (auto simp: qe_all_def SubmitTask_def)
next
  case (work ts q i)
  then show ?case by (simp add: WorkerLoop_all)
next
  case (wake ts q i)
  then show ?case using wake_all[of i q] by (auto simp: qe_all_def spurious_wakeup_def)
next
  case (destroy ts q)
  then show ?case by (simp add: qe_all_def qe_destroy_def)
qed

section \<open>The destructor\<close>

text \<open>
  Nothing but a notification or a spurious wake-up moves a worker that is asleep, and the destructor does not notify: with a worker
  asleep, no steps of the workers let the join return.
\<close>

lemma asleep_stays: "j < length (qe_workers q) \<Longrightarrow> qe_workers q ! j = QeWaiting \<Longrightarrow> qe_workers (WorkerLoop i q) ! j = QeWaiting"
  by (cases "i = j") (auto simp: WorkerLoop_def qe_wait_def split: prod.splits qe_worker.splits list.splits if_splits)

lemma destructor_hangs:
  assumes "j < length (qe_workers q)" "qe_workers q ! j = QeWaiting"
  shows "\<not> qe_joined (fold WorkerLoop is (qe_destroy q))"
proof -
  have len: "length (qe_workers (WorkerLoop i q)) = length (qe_workers q)" for i and q :: "'a query_executor"
    by (simp add: WorkerLoop_def qe_wait_def split: prod.splits qe_worker.splits list.splits)
  have "j < length (qe_workers q) \<and> qe_workers q ! j = QeWaiting \<Longrightarrow>
      j < length (qe_workers (fold WorkerLoop is q)) \<and> qe_workers (fold WorkerLoop is q) ! j = QeWaiting" for q :: "'a query_executor"
  proof (induction "is" arbitrary: q)
    case (Cons i "is")
    have "qe_workers (WorkerLoop i q) ! j = QeWaiting" using Cons.prems by (intro asleep_stays) auto
    then show ?case using Cons len[of i q] by simp
  qed simp
  from this[of "qe_destroy q"] show ?thesis using assms by (auto simp: qe_destroy_def qe_joined_def list_all_length)
qed

text \<open>And a worker that sees the flag leaves with tasks in the queue.\<close>

lemma stop_leaves_tasks:
  "\<exists>q. qe_reach 1 [t] q \<and> qe_joined q \<and> qe_tasks q = [t]"
proof -
  have "qe_reach 1 [t] (WorkerLoop 0 (qe_destroy (SubmitTask t 0 (QueryTaskExecutor 1))))"
    using qe_reach.work[OF qe_reach.destroy[OF qe_reach.submit[OF qe_reach.new, of 1 t 0]], of 0]
    by (simp add: qe_destroy_def SubmitTask_def QueryTaskExecutor_def)
  then show ?thesis
    by (intro exI[of _ "WorkerLoop 0 (qe_destroy (SubmitTask t 0 (QueryTaskExecutor 1)))"])
      (simp add: WorkerLoop_def qe_destroy_def SubmitTask_def QueryTaskExecutor_def qe_joined_def)
qed

end
