(* ===== verification/Tree_Traversal.thy ===== *)
theory Tree_Traversal
  imports Xlab_Prelude "HOL-Library.Tree"
begin

text \<open>
  The traversals of \<^verbatim>\<open>src/cc/algo/src/algo/algo_binary_tree.cc\<close>.  A node is a pair of its address and its value; a null pointer is a
  leaf.  The loops are partial functions: \<^const>\<open>None\<close> is an access through a null pointer or a loop that does not end.
\<close>

section \<open>The code\<close>

type_synonym ('p, 'a) tree_node = "('p \<times> 'a) tree"

fun inorderTraversal :: "('p, 'a) tree_node \<Rightarrow> 'a list \<Rightarrow> 'a list" where
  "inorderTraversal Leaf ans = ans"
| "inorderTraversal (Node lt n rt) ans = inorderTraversal rt (inorderTraversal lt ans @ [snd n])"

fun preorderTraversal :: "('p, 'a) tree_node \<Rightarrow> 'a list \<Rightarrow> 'a list" where
  "preorderTraversal Leaf ans = ans"
| "preorderTraversal (Node lt n rt) ans = preorderTraversal rt (preorderTraversal lt (ans @ [snd n]))"

fun postorderTraversal :: "('p, 'a) tree_node \<Rightarrow> 'a list \<Rightarrow> 'a list" where
  "postorderTraversal Leaf ans = ans"
| "postorderTraversal (Node lt n rt) ans = postorderTraversal rt (postorderTraversal lt ans) @ [snd n]"

text \<open>The inner loops: go to the leftmost node; the stack's top is the head of the list.\<close>

fun push_left :: "('p, 'a) tree_node \<Rightarrow> ('p, 'a) tree_node list \<Rightarrow> ('p, 'a) tree_node list" where
  "push_left Leaf st = st"
| "push_left (Node lt n rt) st = push_left lt (Node lt n rt # st)"

fun visit_left :: "('p, 'a) tree_node \<Rightarrow> ('p, 'a) tree_node list \<Rightarrow> 'a list \<Rightarrow> ('p, 'a) tree_node list \<times> 'a list" where
  "visit_left Leaf st ans = (st, ans)"
| "visit_left (Node lt n rt) st ans = visit_left lt (Node lt n rt # st) (ans @ [snd n])"

partial_function (option) inorder_loop :: "('p, 'a) tree_node \<Rightarrow> ('p, 'a) tree_node list \<Rightarrow> 'a list \<Rightarrow> 'a list option" where
  "inorder_loop root st ans = (if root = Leaf \<and> st = [] then Some ans
     else case push_left root st of
       Node lt n rt # st \<Rightarrow> inorder_loop rt st (ans @ [snd n])
     | _ \<Rightarrow> None)"

definition inorderTraversalIterative :: "('p, 'a) tree_node \<Rightarrow> 'a list option" where
  "inorderTraversalIterative root = inorder_loop root [] []"

partial_function (option) preorder_loop :: "('p, 'a) tree_node \<Rightarrow> ('p, 'a) tree_node list \<Rightarrow> 'a list \<Rightarrow> 'a list option" where
  "preorder_loop root st ans = (if root = Leaf \<and> st = [] then Some ans
     else case visit_left root st ans of
       (Node lt n rt # st, ans) \<Rightarrow> preorder_loop rt st ans
     | _ \<Rightarrow> None)"

definition preorderTraversalIterative :: "('p, 'a) tree_node \<Rightarrow> 'a list option" where
  "preorderTraversalIterative root = preorder_loop root [] []"

fun address :: "('p, 'a) tree_node \<Rightarrow> 'p option" where
  "address Leaf = None"
| "address (Node lt n rt) = Some (fst n)"

partial_function (option) postorder_loop ::
  "('p, 'a) tree_node \<Rightarrow> ('p, 'a) tree_node list \<Rightarrow> 'p option \<Rightarrow> 'a list \<Rightarrow> 'a list option" where
  "postorder_loop root st lastVisited ans = (if root = Leaf \<and> st = [] then Some ans
     else case push_left root st of
       Node lt n rt # st \<Rightarrow>
         (if rt \<noteq> Leaf \<and> address rt \<noteq> lastVisited then postorder_loop rt (Node lt n rt # st) lastVisited ans
          else postorder_loop Leaf st (Some (fst n)) (ans @ [snd n]))
     | _ \<Rightarrow> None)"

definition postorderTraversalIterative :: "('p, 'a) tree_node \<Rightarrow> 'a list option" where
  "postorderTraversalIterative root = (if root = Leaf then Some [] else postorder_loop root [] None [])"

section \<open>What they compute\<close>

lemma recursive_traversals:
  "inorderTraversal t ans = ans @ map snd (inorder t)" "preorderTraversal t ans = ans @ map snd (preorder t)"
  "postorderTraversal t ans = ans @ map snd (postorder t)"
  by (induction t arbitrary: ans) simp_all

text \<open>A loop that starts at a tree goes on as if it had started behind it.\<close>

lemma inorder_loop_node: "inorder_loop (Node l n r) st ans = inorder_loop l (Node l n r # st) ans"
  by (subst (1 2) inorder_loop.simps) simp

lemma inorder_loop_tree: "inorder_loop t st ans = inorder_loop Leaf st (ans @ map snd (inorder t))"
proof (induction t arbitrary: st ans)
  case (Node l n r)
  have "inorder_loop Leaf (Node l n r # st) xs = inorder_loop r st (xs @ [snd n])" for xs by (subst inorder_loop.simps) simp
  then show ?case unfolding inorder_loop_node Node.IH(1)[of "Node l n r # st"] by (simp add: Node.IH(2)[of st])
qed simp

lemma preorder_loop_node: "preorder_loop (Node l n r) st ans = preorder_loop l (Node l n r # st) (ans @ [snd n])"
  by (subst (1 2) preorder_loop.simps) simp

lemma preorder_loop_tree: "preorder_loop t st ans = preorder_loop Leaf st (ans @ map snd (preorder t))"
proof (induction t arbitrary: st ans)
  case (Node l n r)
  have "preorder_loop Leaf (Node l n r # st) xs = preorder_loop r st xs" for xs by (subst preorder_loop.simps) simp
  then show ?case unfolding preorder_loop_node Node.IH(1)[of "Node l n r # st"] by (simp add: Node.IH(2)[of st])
qed simp

lemma postorder_loop_node: "postorder_loop (Node l n r) st q ans = postorder_loop l (Node l n r # st) q ans"
  by (subst (1 2) postorder_loop.simps) simp

lemma address_in: "address t = Some p \<Longrightarrow> p \<in> fst ` set_tree t"
  by (cases t) auto

lemma postorder_loop_tree:
  "distinct (map fst (inorder t)) \<Longrightarrow> (\<And>p. q = Some p \<Longrightarrow> p \<notin> fst ` set_tree t) \<Longrightarrow>
    postorder_loop t st q ans = postorder_loop Leaf st (if t = Leaf then q else address t) (ans @ map snd (postorder t))"
proof (induction t arbitrary: st q ans)
  case (Node l n r)
  let ?t = "Node l n r"
  define last1 where "last1 = (if l = Leaf then q else address l)"
  have new: "last1 = Some p \<Longrightarrow> p \<notin> fst ` set_tree r" for p
    using Node.prems address_in[of l p] by (auto simp: last1_def split: if_splits)
  have pop: "postorder_loop Leaf (?t # st) q xs = postorder_loop Leaf st (Some (fst n)) (xs @ [snd n])" if "r = Leaf \<or> q = address r" for q xs
    using that by (subst postorder_loop.simps) auto
  have "postorder_loop ?t st q ans = postorder_loop Leaf (?t # st) last1 (ans @ map snd (postorder l))"
    unfolding postorder_loop_node last1_def using Node.prems by (intro Node.IH(1)) auto
  also have "\<dots> = postorder_loop Leaf st (Some (fst n)) (ans @ map snd (postorder ?t))"
  proof (cases "r = Leaf")
    case False
    then obtain p where p: "address r = Some p" "p \<in> fst ` set_tree r" using address_in by (cases r) auto
    then have "address r \<noteq> last1" using new by auto
    then have "postorder_loop Leaf (?t # st) last1 (ans @ map snd (postorder l)) = postorder_loop r (?t # st) last1 (ans @ map snd (postorder l))"
      using False by (subst postorder_loop.simps) simp
    also have "\<dots> = postorder_loop Leaf (?t # st) (address r) ((ans @ map snd (postorder l)) @ map snd (postorder r))"
      using Node.IH(2)[of last1 "?t # st" "ans @ map snd (postorder l)"] Node.prems(1) new False by simp
    finally show ?thesis by (simp add: pop)
  next
    case True
    then show ?thesis using pop[OF disjI1[OF True]] by simp
  qed
  finally show ?case by simp
qed simp

lemma loops_end:
  "inorder_loop Leaf [] xs = Some xs" "preorder_loop Leaf [] xs = Some xs" "postorder_loop Leaf [] q xs = Some xs"
  by (subst inorder_loop.simps, simp) (subst preorder_loop.simps, simp, subst postorder_loop.simps, simp)

text \<open>
  On every tree with distinct nodes, values repeated or not, the three iterative traversals end without touching a
  null pointer and give the same lists as the recursive ones, which are the in-order, pre-order and post-order.
\<close>

lemma traversals_agree:
  assumes "distinct (map fst (inorder t))"
  shows "inorderTraversalIterative t = Some (inorderTraversal t []) \<and> inorderTraversal t [] = map snd (inorder t) \<and>
    preorderTraversalIterative t = Some (preorderTraversal t []) \<and> preorderTraversal t [] = map snd (preorder t) \<and>
    postorderTraversalIterative t = Some (postorderTraversal t []) \<and> postorderTraversal t [] = map snd (postorder t)"
  using postorder_loop_tree[OF assms, of None "[]" "[]"]
  by (simp add: recursive_traversals inorderTraversalIterative_def preorderTraversalIterative_def postorderTraversalIterative_def
      inorder_loop_tree[of t] preorder_loop_tree[of t] loops_end)

text \<open>A tree in which two nodes hold the same value.\<close>

end
