(* ===== verification/Spec2Isabelle.thy ===== *)
theory Spec2Isabelle
  imports Thread_Pool Stealing_Pool Hash_Join_Variants Linear_Hash_Table Linear_Join_Map Radix_Join_Map Sketches Frequency_Caches
    Hilbert_Curve Page_Table Mpmc_Queue Ms_Queue Sorting Consistent_Hash Skip_List_File
    String_Search Segment_Tree Disjoint_Sets_Forest Coroutine_Scheduler Web_Server
    Rcu Task_Thread Query_Executor Tree_Traversal
begin

text \<open>
  A verification development for the C++ libraries of the repository (\<^verbatim>\<open>src/cc\<close>): the work-stealing thread pool, the
  concurrent queues, the hash tables of the join operators, the caches with their sketches, the space-filling curves, the
  page-table simulator, the sorts, the consistent-hash ring, the skip list, the string and graph
  algorithms, a coroutine runtime, and a web server.

  \<^bold>\<open>The program's parts and how they interact.\<close>

  \<^item> \<^verbatim>\<open>src/cc/projects/thread-pool\<close>: \<^verbatim>\<open>WSDeque\<close> (\<^verbatim>\<open>ws_deque.h\<close>, \<^verbatim>\<open>ws_deque.cc\<close>) is a growing ring buffer under a
    mutex; \<^verbatim>\<open>ThreadPool\<close> (\<^verbatim>\<open>thread_pool.h\<close>, \<^verbatim>\<open>thread_pool.cc\<close>) gives every worker such a deque, or all of them one
    global queue.
  \<^item> \<^verbatim>\<open>src/cc/algo/src/algo/algo_thread_pool.cc\<close>: another \<^verbatim>\<open>ThreadPool\<close>, over the lock-free \<^verbatim>\<open>WorkStealingDeque\<close> and sharded
    shared queues, with rejection policies.
  \<^item> \<^verbatim>\<open>algo_work_pool.cc\<close> of the same directory and \<^verbatim>\<open>src/cc/cclab/src/utils/task_thread.h\<close>: two more ways to run tasks, a pool that
    waits on a condition variable and a thread with delayed tasks (over \<^verbatim>\<open>wait_event_counter.h\<close>).
  \<^item> \<^verbatim>\<open>algo_lock_free.cc\<close>: \<^verbatim>\<open>RCUContainer\<close>, a pointer that readers copy while a clean-up thread deletes old nodes.
  \<^item> \<^verbatim>\<open>src/cc/algo/src/algo/algo_lock_free_queue.cc\<close>: four implementations of the interface \<^verbatim>\<open>Queue\<close>: under a mutex, for one
    producer and one consumer, a ring with sequence numbers for many of both, and a linked list with hazard pointers.
  \<^item> \<^verbatim>\<open>src/cc/algo/src/algo/algo_join_hash_map.cc\<close> and \<^verbatim>\<open>algo_hash_table.cc\<close>: tables for the build side of a hash join
    (bucket chains, an optimised and a vectorised variant, linear probing with value chains, radix-sorted rows) and an
    open-addressing map with tombstones.
  \<^item> \<^verbatim>\<open>src/cc/algo/src/algo/algo_cache.cc\<close> and \<^verbatim>\<open>src/cc/cclab/src/utils/lru.hpp\<close>: LRU, LRU-K and LFU caches and two
    frequency sketches.
  \<^item> \<^verbatim>\<open>algo_zorder.cc\<close>, \<^verbatim>\<open>algo_hilbert.cc\<close>, \<^verbatim>\<open>algo_sort.cc\<close> of the same directory, and \<^verbatim>\<open>src/cc/algo/src/linux/l_pagetable.cc\<close>,
    in which an \<^verbatim>\<open>AddressTranslator\<close> composes a \<^verbatim>\<open>PageTable\<close> with a \<^verbatim>\<open>TLB\<close>.
  \<^item> \<^verbatim>\<open>algo_string.cc\<close>, \<^verbatim>\<open>algo_segment_tree.cc\<close>, \<^verbatim>\<open>algo_graph.cc\<close>, \<^verbatim>\<open>algo_binary_tree.cc\<close>: tree traversals, two searches in the style of Volnitsky, a tree of range sums,
    breadth-first search, the topological sort, and Kruskal's algorithm over \<^verbatim>\<open>UnionFind\<close>.
  \<^item> \<^verbatim>\<open>src/cc/projects/mini-seastar\<close>: \<^verbatim>\<open>Task\<close> owns a coroutine frame with its promise; \<^verbatim>\<open>Scheduler\<close> resumes the handles in its
    ready queue and its timers; the awaitables put handles into the global scheduler; \<^verbatim>\<open>Runtime\<close> has a scheduler of its own.
  \<^item> \<^verbatim>\<open>src/cc/projects/web-server\<close>: \<^verbatim>\<open>Server\<close> keeps a map of \<^verbatim>\<open>Connection\<close>s and runs an event loop over an \<^verbatim>\<open>IoBackend\<close>, of which
    \<^verbatim>\<open>KqueueBackend\<close> is the implementation.
  \<^item> \<^verbatim>\<open>src/cc/cclab/src/common\<close>: \<^verbatim>\<open>ConsistentHash\<close> (\<^verbatim>\<open>consistent_hash\<close>), a ring of virtual nodes that assigns keys to servers,
    and \<^verbatim>\<open>SkipList\<close> (\<^verbatim>\<open>skiplist/skiplist_v2.h\<close>), an ordered map with a file format.

  \<^bold>\<open>Theories.\<close>  Each theory keeps the names of the code; a prefix (\<open>wsd_\<close>, \<open>hjm_\<close>, \<open>mp_\<close>, ...) separates the methods that
  several classes share.

  \<^item> \<^verbatim>\<open>Xlab_Prelude\<close>: word types, bounds-checked vectors, loops that may fail with their invariant rule, powers of two and masks.
  \<^item> \<^verbatim>\<open>Ws_Deque\<close>, \<^verbatim>\<open>Thread_Pool\<close>: the deque's calls (\<open>PushBottom\<close>, \<open>PopBottom\<close>, \<open>StealTop\<close>) refine a list under every history;
    the pool is a step relation over \<open>Submit\<close>, \<open>Stop\<close> and the two worker loops.  Invariants by rule induction give that no
    accepted task is lost or run twice and that \<^verbatim>\<open>Stop\<close> returns only after all of them have run.
  \<^item> \<^verbatim>\<open>Stealing_Deque\<close>, \<^verbatim>\<open>Stealing_Pool\<close>: the lock-free deque is described exactly by a list machine (\<open>list_run\<close>) that shows which
    tasks it drops; the pool interleaves the accesses of overlapping calls (\<open>sp_event\<close>, \<open>sp_reach\<close>); in
    its states no task is duplicated, but a single one can be lost and two submits can race for a slot.
  \<^item> \<^verbatim>\<open>Task_Thread\<close>, \<^verbatim>\<open>Query_Executor\<close>: conservation of tasks by rule induction, the order of execution, and how the two end.
  \<^item> \<^verbatim>\<open>Rcu\<close>: nodes on an explicit heap with their owners as a multiset (\<open>rcu_own\<close>); the flag of \<open>rcu_reach\<close> tells whether a reader's
    load and registration may be separated, which decides whether a deleted node can be touched.
  \<^item> \<^verbatim>\<open>Bounded_Queues\<close>: the contract \<open>fifo_queue\<close> of the class \<^verbatim>\<open>Queue\<close>, its client lemma (every sequence of calls answers as a
    first-in first-out queue), \<^verbatim>\<open>ThreadSafeQueue\<close> and \<^verbatim>\<open>LockFreeSPSCQueue\<close>.  \<^verbatim>\<open>Mpmc_Queue\<close>: the ring with sequence numbers under any
    interleaving of any number of threads, with an inductive invariant over program points: no undefined access, exactly-once delivery,
    when a call may be refused, and that a call running alone returns within six accesses.  \<^verbatim>\<open>Ms_Queue\<close>: the linked queue on an
    explicit heap, with any outcome of its weak exchanges.  All four interpret \<open>fifo_queue\<close> for calls that do not overlap; two have executions of overlapping calls that
    go wrong, given as explicit schedules.
  \<^item> \<^verbatim>\<open>Bucket_Chains\<close>, \<^verbatim>\<open>Join_Contract\<close>, \<^verbatim>\<open>Hash_Join_Map\<close>, \<^verbatim>\<open>Hash_Join_Variants\<close>, \<^verbatim>\<open>Linear_Probing\<close>, \<^verbatim>\<open>Linear_Hash_Table\<close>,
    \<^verbatim>\<open>Linear_Join_Map\<close>, \<^verbatim>\<open>Radix_Join_Map\<close>: the representations (chains threaded through arrays, probe sequences with tombstones), the
    operations with growth and rehashing, and the join over any table (locale \<open>join_table\<close>), proved equal to the nested-loop join
    once and interpreted by the tables.
  \<^item> \<^verbatim>\<open>Sketches\<close>, \<^verbatim>\<open>Stl_List\<close>, \<^verbatim>\<open>Lru_Caches\<close>, \<^verbatim>\<open>Frequency_Caches\<close>: error bounds of the sketches; \<^verbatim>\<open>std::list\<close> with iterators as node
    identities; the locale \<open>lru_cache\<close> with its hit guarantee, interpreted by \<^verbatim>\<open>LRUCache\<close> and \<^verbatim>\<open>xlab::lru\<close>; the LRU-K and LFU caches.
  \<^item> \<^verbatim>\<open>Z_Order\<close>, \<^verbatim>\<open>Hilbert_Curve\<close>: the codes bit by bit, round trips, range covers, the bijection of the Hilbert encoder.
  \<^item> \<^verbatim>\<open>Page_Table\<close>: walks and mappings of the multi-level table, the translation buffer, and their composition.
  \<^item> \<^verbatim>\<open>Sorting\<close>: the five sorts end within bounds and equal \<^const>\<open>sort\<close>.
  \<^item> \<^verbatim>\<open>Consistent_Hash\<close>: the ring as a \<^verbatim>\<open>std::map\<close>, the closest partition modulo \<open>2\<^sup>3\<^sup>2\<close>, and what adding and removing a server changes.
  \<^item> \<^verbatim>\<open>Skip_List\<close>, \<^verbatim>\<open>Skip_List_File\<close>: nodes with their pointer arrays on an explicit heap.  The representation says that level \<open>i\<close> is
    the chain of the nodes of level at least \<open>i\<close>; insertion and deletion are described by their effect on the pointers (\<open>inserted\<close>,
    \<open>deleted\<close>), from which the representation of the result follows.  The locale \<open>map_contract\<close> turns the laws of single calls into the
    refinement of a finite map by any sequence of calls.  Writing the list to a file and loading it is a round trip.
  \<^item> \<^verbatim>\<open>String_Search\<close>: the pattern of hashed pairs is found at its first occurrence; every reported position of the other search is
    an occurrence, with the inputs on which it misses one or never ends.  \<^verbatim>\<open>Segment_Tree\<close>: the tree stores the sums of its ranges
    (\<open>seg\<close>), so that calls answer as the array.  \<^verbatim>\<open>Graph_Search\<close>: breadth-first search by distances and Kahn's algorithm by its
    in-degree invariant.  \<^verbatim>\<open>Tree_Traversal\<close>: the loops with a stack give the recursive traversals.  \<^verbatim>\<open>Disjoint_Sets_Forest\<close>: parents form a forest whose roots (inductive \<open>root\<close>) survive path compression;
    the united pairs are the abstract state, and \<^verbatim>\<open>kruskal\<close> is proved over it.
  \<^item> \<^verbatim>\<open>Coroutines\<close>, \<^verbatim>\<open>Coroutine_Scheduler\<close>: bodies of coroutines of \<^verbatim>\<open>Task<void>\<close> as a datatype of effects and suspension points, frames on an
    explicit heap (the promise of a \<^verbatim>\<open>Task<T>\<close> with a value uses a variant that was never made, lemma \<open>value_task_undefined\<close>).  \<open>exec_ran\<close> describes what one resumption does to the queues (the relation \<open>ran\<close>); with the number of resumptions left as
    the measure, the event loop ends, and \<open>outcome\<close> tells from a body alone how its coroutine ends.  A destroyed frame stays
    destroyed (\<open>gone\<close>), which gives the dangling handles of \<^verbatim>\<open>spawn\<close>.
  \<^item> \<^verbatim>\<open>Kqueue_Backend\<close>, \<^verbatim>\<open>Web_Server\<close>: the interface of the backend is a record of functions, as the class is a table of virtual
    functions, so that the server is modelled over any backend (\<open>sv_reach\<close>, with the invariant \<open>sv_inv\<close> on descriptors) and then over
    kqueue (\<open>idle\<close>: nothing is ever accepted; \<open>sending\<close>: a response on its way).

  \<^bold>\<open>Conventions.\<close>  \<^const>\<open>None\<close> as the result of an operation is undefined behaviour of the code (an index out of range, an iterator
  or pointer to an element that is gone, a shift by the operand's width) or, for the loops that are partial functions, a loop that does
  not end; a theorem that gives a \<open>Some\<close> therefore also states that neither happens.  Exceptions are the left side of a sum.  Template
  parameters (hash function, comparison, the load-factor cast, the drawn victim) are arguments of the definitions with their laws as
  hypotheses, and the witnesses instantiate them.

  \<^bold>\<open>Bounds.\<close>  \<^verbatim>\<open>size_t\<close> values are natural numbers where the code cannot reach the wrap-around and words, or numbers with the modulus
  written out, where it can: table capacities up to \<open>2\<^sup>6\<^sup>2\<close>, fewer entries than \<^verbatim>\<open>INVALID_INDEX\<close>, Hilbert orders up to 16 (above,
  \<^verbatim>\<open>s * s\<close> overflows an \<^verbatim>\<open>int\<close>), segment-tree arrays below \<open>2\<^sup>2\<^sup>9\<close> with sums that fit an \<^verbatim>\<open>int\<close>, texts below \<open>2\<^sup>3\<^sup>1\<close> bytes, counts of
  nodes and edges as integers, queue positions below \<open>2\<^sup>6\<^sup>3\<close>, fewer than
  \<open>2\<^sup>6\<^sup>2\<close> calls of the stealing deque, vectors below \<open>2\<^sup>3\<^sup>1\<close> elements for the sorts, whose sizes are of type \<^verbatim>\<open>int\<close>, a page size
  other than 0, an access counter of the translation buffer that has not wrapped.
  The fuel of \<^verbatim>\<open>simd_rounds\<close> is the code's own limit of 100; the probe loops run for the capacity, which is the code's own bound.

  \<^bold>\<open>Concurrency.\<close>  Shared accesses are sequentially consistent, one access or one critical section per step; weak exchanges may fail
  spuriously unless a theorem says otherwise.  Where the code accesses shared data without synchronisation (the slots and vectors of the stealing
  pool) such an access, the move of a function included, is one step too: these are data races, which C++ leaves undefined.  Weaker memory
  orders are not modelled.

  \<^bold>\<open>Not modelled.\<close>  Destructors and allocation failure except where a theorem names them; iterators, printing and timing code;
  \<^verbatim>\<open>ZipfGenerator\<close> and \<^verbatim>\<open>algo_scheduler.cc\<close> (floating point); the AVX2 intrinsics beyond the probe; vendored containers
  (\<^verbatim>\<open>cclab/src/common/btree\<close>, \<^verbatim>\<open>robin_hood_map.h\<close>, the skip list behind the Python extension); the tutorial interpreter
  \<^verbatim>\<open>write-a-C-interpreter\<close>; wrappers of system libraries (\<^verbatim>\<open>io-uring\<close>, \<^verbatim>\<open>llvm-jit\<close>); the
  coroutines of a \<^verbatim>\<open>Task<T>\<close> with a value, whose end is undefined; \<^verbatim>\<open>dijkstra\<close> (it does not compile) and \<^verbatim>\<open>prim\<close>; stand-alone exercises, tests and benchmarks; the parts in other languages.
\<close>

end
